(* ===== verification/Mizzle_Prelude.thy ===== *)
theory Mizzle_Prelude
  imports Main "HOL-Library.Word" "HOL-Library.Char_ord" "HOL-Library.List_Lexorder"
    "HOL-Library.Sublist"
begin

text \<open>
  Shared base of the development: byte strings, the error type and its sequencing
  operator, the parts of the Rust standard library the sources use (slices, integer
  parsing and printing, UTF-8 validation, line iteration), and big-endian codecs.

  A byte is HOL's eight-bit \<^typ>\<open>char\<close>, so a byte string \<open>b"want "\<close> of the sources is
  the literal \<open>''want ''\<close>.  A Rust \<open>str\<close> is a byte string that passes \<open>utf8_valid\<close>.
  HOL-Library's \<open>Char_ord\<close> and \<open>List_Lexorder\<close> make \<open>\<le>\<close> on byte strings the byte-wise
  lexicographic order of Rust slices and of the ordered stores.
\<close>

section \<open>Types and errors\<close>

type_synonym byte = char
type_synonym bytes = "char list"

text \<open>
  An \<open>anyhow::Error\<close>: raised by the code itself (\<open>bail!\<close>, \<open>ensure!\<close>), produced by a
  call into another crate, or one of these with a \<open>.context(..)\<close> wrapped around it.
\<close>

datatype error =
    Bail bytes
  | LimitExceeded bytes nat nat
  | Ext bytes
  | Ctx bytes error

type_synonym 'a res = "error + 'a"

named_theorems res_simps "rewriting of the sequencing operators on results"
named_theorems wire_simps "evaluation of byte-level parsing on concrete input"

definition bindR :: "('e + 'a) \<Rightarrow> ('a \<Rightarrow> 'e + 'b) \<Rightarrow> 'e + 'b" where
  "bindR m f = (case m of Inl e \<Rightarrow> Inl e | Inr x \<Rightarrow> f x)"

definition context_err :: "bytes \<Rightarrow> 'a res \<Rightarrow> 'a res" where
  "context_err msg m = (case m of Inl e \<Rightarrow> Inl (Ctx msg e) | Inr x \<Rightarrow> Inr x)"

definition of_option :: "'e \<Rightarrow> 'a option \<Rightarrow> 'e + 'a" where
  "of_option e x = (case x of None \<Rightarrow> Inl e | Some a \<Rightarrow> Inr a)"

lemma bindR_simps [simp, res_simps]:
  "bindR (Inl e) f = Inl e" "bindR (Inr x) f = f x"
  by (simp_all add: bindR_def)

lemma bindR_eq_Inr [res_simps]: "bindR m f = Inr y \<longleftrightarrow> (\<exists>x. m = Inr x \<and> f x = Inr y)"
  by (cases m) auto

lemma bindR_eq_Inl: "bindR m f = Inl e \<longleftrightarrow> m = Inl e \<or> (\<exists>x. m = Inr x \<and> f x = Inl e)"
  by (cases m) auto

lemma context_err_simps [simp, res_simps]:
  "context_err c (Inl e) = Inl (Ctx c e)" "context_err c (Inr x) = Inr x"
  by (simp_all add: context_err_def)

lemma context_err_Inr [res_simps]: "context_err c m = Inr x \<longleftrightarrow> m = Inr x"
  by (cases m) auto

lemma of_option_simps [simp, res_simps]:
  "of_option e None = Inl e" "of_option e (Some x) = Inr x"
  by (simp_all add: of_option_def)

lemma of_option_Inr [res_simps]: "of_option e m = Inr x \<longleftrightarrow> m = Some x"
  by (cases m) auto

text \<open>Collecting an iterator of results into a result of a vector: the first error wins.\<close>

fun mapR :: "('a \<Rightarrow> 'e + 'b) \<Rightarrow> 'a list \<Rightarrow> 'e + 'b list" where
  "mapR f [] = Inr []"
| "mapR f (x # xs) = bindR (f x) (\<lambda>y. bindR (mapR f xs) (\<lambda>ys. Inr (y # ys)))"

lemma mapR_Inr_iff: "mapR f xs = Inr ys \<longleftrightarrow> list_all2 (\<lambda>x y. f x = Inr y) xs ys"
  by (induction xs arbitrary: ys) (auto simp: bindR_eq_Inr list_all2_Cons1)

lemma mapR_Inr_I: "(\<And>x. x \<in> set xs \<Longrightarrow> f x = Inr (g x)) \<Longrightarrow> mapR f xs = Inr (map g xs)"
  by (induction xs) auto

text \<open>A loop that threads an accumulator and stops at the first error.\<close>

fun foldR :: "('a \<Rightarrow> 'b \<Rightarrow> 'e + 'a) \<Rightarrow> 'a \<Rightarrow> 'b list \<Rightarrow> 'e + 'a" where
  "foldR f a [] = Inr a"
| "foldR f a (x # xs) = bindR (f a x) (\<lambda>a'. foldR f a' xs)"

lemma foldR_append: "foldR f a (xs @ ys) = bindR (foldR f a xs) (\<lambda>b. foldR f b ys)"
  by (induction xs arbitrary: a) (auto simp: bindR_def split: sum.split)

lemma foldR_invariant:
  assumes "foldR f a xs = Inr b" and "P a"
    and "\<And>c x d. P c \<Longrightarrow> x \<in> set xs \<Longrightarrow> f c x = Inr d \<Longrightarrow> P d"
  shows "P b"
  using assms
proof (induction xs arbitrary: a)
  case Nil
  then show ?case by simp
next
  case (Cons x xs)
  from Cons.prems(1) obtain c where c: "f a x = Inr c" and rest: "foldR f c xs = Inr b"
    by (auto simp: bindR_eq_Inr)
  have "P c" using Cons.prems(2,3) c by (meson list.set_intros(1))
  then show ?case using Cons.IH [OF rest] Cons.prems(3) by (meson list.set_intros(2))
qed

lemma bindR_cong [fundef_cong]:
  "m = m' \<Longrightarrow> (\<And>x. m' = Inr x \<Longrightarrow> f x = g x) \<Longrightarrow> bindR m f = bindR m' g"
  by (cases m') auto

section \<open>Slices and strings of the Rust standard library\<close>

definition NL :: byte where "NL = CHR 0x0A"
definition CR :: byte where "CR = CHR 0x0D"
definition NUL :: byte where "NUL = CHR 0x00"
definition SP :: byte where "SP = CHR 0x20"

lemmas ascii_defs [wire_simps] = NL_def CR_def NUL_def SP_def

fun strip_prefix :: "bytes \<Rightarrow> bytes \<Rightarrow> bytes option" where
  "strip_prefix [] s = Some s"
| "strip_prefix (p # ps) [] = None"
| "strip_prefix (p # ps) (c # cs) = (if p = c then strip_prefix ps cs else None)"

lemma strip_prefix_Some_iff: "strip_prefix p s = Some r \<longleftrightarrow> s = p @ r"
  by (induction p s rule: strip_prefix.induct) auto

lemma strip_prefix_append [simp]: "strip_prefix p (p @ r) = Some r"
  by (simp add: strip_prefix_Some_iff)

lemma strip_prefix_None_iff: "strip_prefix p s = None \<longleftrightarrow> \<not> prefix p s"
  by (metis not_Some_eq prefix_def strip_prefix_Some_iff)

definition starts_with :: "bytes \<Rightarrow> bytes \<Rightarrow> bool" where
  "starts_with s p = (strip_prefix p s \<noteq> None)"

lemma starts_with_iff: "starts_with s p \<longleftrightarrow> prefix p s"
  by (auto simp: starts_with_def strip_prefix_None_iff)

definition strip_suffix :: "bytes \<Rightarrow> bytes \<Rightarrow> bytes option" where
  "strip_suffix p s = map_option rev (strip_prefix (rev p) (rev s))"

lemma strip_suffix_Some_iff: "strip_suffix p s = Some r \<longleftrightarrow> s = r @ p"
  by (auto simp: strip_suffix_def strip_prefix_Some_iff rev_eq_append_conv)
     (metis rev_rev_ident)

text \<open>\<open>str::split_once\<close> and \<open>str::rsplit_once\<close>.\<close>

fun split_once :: "bytes \<Rightarrow> bytes \<Rightarrow> (bytes \<times> bytes) option" where
  "split_once pat s =
     (case strip_prefix pat s of
        Some rest \<Rightarrow> Some ([], rest)
      | None \<Rightarrow> (case s of [] \<Rightarrow> None | c # cs \<Rightarrow> map_option (\<lambda>(a, b). (c # a, b)) (split_once pat cs)))"

declare split_once.simps [simp del]

definition rsplit_once :: "bytes \<Rightarrow> bytes \<Rightarrow> (bytes \<times> bytes) option" where
  "rsplit_once pat s = map_option (\<lambda>(a, b). (rev b, rev a)) (split_once (rev pat) (rev s))"

lemma split_once_Some: "split_once pat s = Some (a, b) \<Longrightarrow> s = a @ pat @ b"
proof (induction pat s arbitrary: a b rule: split_once.induct)
  case (1 pat s)
  show ?case
  proof (cases "strip_prefix pat s")
    case (Some rest)
    with 1(2) show ?thesis by (simp add: split_once.simps [of pat s] strip_prefix_Some_iff)
  next
    case None
    show ?thesis
    proof (cases s)
      case Nil
      with None 1(2) show ?thesis by (simp add: split_once.simps [of pat])
    next
      case (Cons c cs)
      with None 1(2) obtain d where "split_once pat cs = Some (d, b)" "a = c # d"
        by (auto simp: split_once.simps [of pat "c # cs"])
      with 1(1) [OF None Cons] Cons show ?thesis by simp
    qed
  qed
qed

text \<open>The text around the first and the last occurrence of a pattern.\<close>

lemma rsplit_once_Some: "rsplit_once pat s = Some (a, b) \<Longrightarrow> s = a @ pat @ b"
proof -
  assume "rsplit_once pat s = Some (a, b)"
  then obtain c d where "split_once (rev pat) (rev s) = Some (c, d)" and ab: "a = rev d" "b = rev c"
    by (auto simp: rsplit_once_def)
  then have "rev s = c @ rev pat @ d" by (intro split_once_Some)
  from arg_cong [OF this, of rev] ab show ?thesis by simp
qed

text \<open>\<open>data.strip_suffix(b"\n").unwrap_or(data)\<close>, used by every line reader.\<close>

definition chomp :: "bytes \<Rightarrow> bytes" where
  "chomp s = (case strip_suffix [NL] s of None \<Rightarrow> s | Some r \<Rightarrow> r)"

lemma chomp_snoc [simp]: "chomp (s @ [NL]) = s"
proof -
  have "strip_suffix [NL] (s @ [NL]) = Some s" by (simp add: strip_suffix_Some_iff)
  then show ?thesis by (simp add: chomp_def)
qed

lemma chomp_id: "s = [] \<or> last s \<noteq> NL \<Longrightarrow> chomp s = s"
  by (auto simp: chomp_def strip_suffix_Some_iff split: option.split)

text \<open>\<open>splitn(n, |b| b == c)\<close> and \<open>split(|b| b == c)\<close> on byte slices.\<close>

fun splitn :: "nat \<Rightarrow> byte \<Rightarrow> bytes \<Rightarrow> bytes list" where
  "splitn 0 c s = []"
| "splitn (Suc 0) c s = [s]"
| "splitn (Suc (Suc n)) c s =
     (case dropWhile (\<lambda>b. b \<noteq> c) s of
        [] \<Rightarrow> [s]
      | _ # rest \<Rightarrow> takeWhile (\<lambda>b. b \<noteq> c) s # splitn (Suc n) c rest)"

fun split_on :: "byte \<Rightarrow> bytes \<Rightarrow> bytes list" where
  "split_on c [] = [[]]"
| "split_on c (x # xs) =
     (if x = c then [] # split_on c xs
      else (case split_on c xs of [] \<Rightarrow> [[x]] | y # ys \<Rightarrow> (x # y) # ys))"

lemma dropWhile_neq_append:
  "c \<notin> set xs \<Longrightarrow> dropWhile (\<lambda>b. b \<noteq> c) (xs @ c # ys) = c # ys"
  by (induction xs) auto

lemma takeWhile_neq_append:
  "c \<notin> set xs \<Longrightarrow> takeWhile (\<lambda>b. b \<noteq> c) (xs @ c # ys) = xs"
  by (induction xs) auto

lemma takeWhile_neq_id: "c \<notin> set xs \<Longrightarrow> takeWhile (\<lambda>b. b \<noteq> c) xs = xs"
  by (metis (mono_tags, lifting) takeWhile_eq_all_conv)

lemma dropWhile_neq_Nil: "c \<notin> set xs \<Longrightarrow> dropWhile (\<lambda>b. b \<noteq> c) xs = []"
  by (metis (mono_tags, lifting) dropWhile_eq_Nil_conv)

lemmas while_neq = dropWhile_neq_append takeWhile_neq_append takeWhile_neq_id dropWhile_neq_Nil

lemma splitn_3:
  assumes "SP \<notin> set a" "SP \<notin> set b"
  shows "splitn 3 SP (a @ SP # b @ SP # c) = [a, b, c]"
  using assms by (simp add: numeral_3_eq_3 while_neq)

text \<open>A \<open>HashSet\<close> is the list of its members in the order they were inserted.\<close>

definition hs_insert :: "'o \<Rightarrow> 'o list \<Rightarrow> 'o list" where
  "hs_insert x xs = (if x \<in> set xs then xs else xs @ [x])"

lemma set_hs_insert [simp]: "set (hs_insert x xs) = insert x (set xs)"
  by (auto simp: hs_insert_def)

section \<open>Numbers in text\<close>

text \<open>\<open>char::to_digit(radix)\<close>, as used by \<open>from_str_radix\<close>.\<close>

definition to_digit :: "nat \<Rightarrow> byte \<Rightarrow> nat option" where
  "to_digit radix c =
     (let x = of_char c :: nat;
          d = (if 48 \<le> x \<and> x \<le> 57 then Some (x - 48)
               else if 97 \<le> x \<and> x \<le> 122 then Some (x - 87)
               else if 65 \<le> x \<and> x \<le> 90 then Some (x - 55)
               else None)
      in case d of None \<Rightarrow> None | Some v \<Rightarrow> if v < radix then Some v else None)"

fun digits_val :: "nat \<Rightarrow> nat \<Rightarrow> bytes \<Rightarrow> nat option" where
  "digits_val radix acc [] = Some acc"
| "digits_val radix acc (c # cs) =
     (case to_digit radix c of
        None \<Rightarrow> None
      | Some d \<Rightarrow> digits_val radix (acc * radix + d) cs)"

text \<open>
  \<open>uN::from_str_radix\<close>: an optional leading plus sign, then at least one digit, and the
  value must fit the type (\<open>maxv\<close> is \<open>uN::MAX\<close>).  Every failure is one \<open>Err\<close>.
\<close>

definition parse_unsigned :: "nat \<Rightarrow> nat \<Rightarrow> bytes \<Rightarrow> nat option" where
  "parse_unsigned radix maxv s =
     (let ds = (case s of c # cs \<Rightarrow> if c = CHR ''+'' then cs else s | [] \<Rightarrow> [])
      in if ds = [] then None
         else case digits_val radix 0 ds of
                None \<Rightarrow> None
              | Some v \<Rightarrow> if v \<le> maxv then Some v else None)"

definition u32_max :: nat where "u32_max = 4294967295"
definition u64_max :: nat where "u64_max = 18446744073709551615"

definition digit_char :: "nat \<Rightarrow> byte" where
  "digit_char d = (if d < 10 then char_of (48 + d) else char_of (87 + d))"

text \<open>\<open>Display\<close> for unsigned integers.\<close>

fun show_nat :: "nat \<Rightarrow> bytes" where
  "show_nat n = (if n < 10 then [digit_char n] else show_nat (n div 10) @ [digit_char (n mod 10)])"

declare show_nat.simps [simp del]

lemma to_digit_digit_char: "d < radix \<Longrightarrow> radix \<le> 16 \<Longrightarrow> to_digit radix (digit_char d) = Some d"
  by (auto simp: to_digit_def digit_char_def Let_def)

lemma digits_val_append:
  "digits_val radix acc (xs @ ys) =
     (case digits_val radix acc xs of None \<Rightarrow> None | Some v \<Rightarrow> digits_val radix v ys)"
  by (induction xs arbitrary: acc) (auto split: option.split)

lemma digits_val_show_nat: "digits_val 10 0 (show_nat n) = Some n"
proof (induction n rule: show_nat.induct)
  case (1 n)
  show ?case
  proof (cases "n < 10")
    case True
    then show ?thesis by (simp add: show_nat.simps [of n] to_digit_digit_char)
  next
    case False
    with 1 have "digits_val 10 0 (show_nat (n div 10)) = Some (n div 10)" by simp
    then have "digits_val 10 0 (show_nat n) = Some (n div 10 * 10 + n mod 10)"
      using False by (simp add: show_nat.simps [of n] digits_val_append to_digit_digit_char)
    then show ?thesis by simp
  qed
qed

lemma show_nat_nonempty [simp]: "show_nat n \<noteq> []"
  by (subst show_nat.simps) simp

lemma digit_char_graphic: "d < 16 \<Longrightarrow> 48 \<le> (of_char (digit_char d) :: nat)"
  by (auto simp: digit_char_def)

lemma show_nat_graphic: "c \<in> set (show_nat n) \<Longrightarrow> 48 \<le> (of_char c :: nat) \<and> (of_char c :: nat) \<le> 57"
proof (induction n rule: show_nat.induct)
  case (1 n)
  then show ?case
    by (cases "n < 10") (auto simp: show_nat.simps [of n] digit_char_def)
qed

lemma parse_unsigned_show_nat: "n \<le> maxv \<Longrightarrow> parse_unsigned 10 maxv (show_nat n) = Some n"
proof -
  assume le: "n \<le> maxv"
  obtain c cs where sn: "show_nat n = c # cs"
    by (metis list.exhaust show_nat_nonempty)
  then have "48 \<le> (of_char c :: nat)" using show_nat_graphic [of c n] by simp
  then have "c \<noteq> CHR ''+''" by auto
  then show ?thesis
    using le sn digits_val_show_nat [of n] by (simp add: parse_unsigned_def)
qed

lemma parse_unsigned_bound: "parse_unsigned radix maxv s = Some v \<Longrightarrow> v \<le> maxv"
  by (auto simp: parse_unsigned_def Let_def split: if_splits option.splits list.splits)

section \<open>Big-endian codecs\<close>

fun be_bytes :: "nat \<Rightarrow> nat \<Rightarrow> bytes" where
  "be_bytes 0 n = []"
| "be_bytes (Suc k) n = char_of (n div 256 ^ k) # be_bytes k n"

fun be_val :: "bytes \<Rightarrow> nat" where
  "be_val [] = 0"
| "be_val (c # cs) = of_char c * 256 ^ length cs + be_val cs"

lemma length_be_bytes [simp]: "length (be_bytes k n) = k"
  by (induction k) auto

lemma be_val_less: "be_val bs < 256 ^ length bs"
proof (induction bs)
  case Nil
  then show ?case by simp
next
  case (Cons c cs)
  have "(of_char c :: nat) < 256" by simp
  then have le: "of_char c * 256 ^ length cs + 256 ^ length cs \<le> (256::nat) * 256 ^ length cs"
    by (metis Suc_leI add.commute mult_Suc mult_le_mono1)
  have "be_val (c # cs) < of_char c * 256 ^ length cs + 256 ^ length cs" using Cons by simp
  also note le
  finally show ?case by simp
qed

lemma be_val_be_bytes: "be_val (be_bytes k n) = n mod 256 ^ k"
proof (induction k)
  case 0
  then show ?case by simp
next
  case (Suc k)
  have "n mod 256 ^ Suc k = 256 ^ k * (n div 256 ^ k mod 256) + n mod 256 ^ k"
    using mod_mult2_eq [of n "256 ^ k" 256] by (simp add: mult.commute)
  with Suc show ?case by (simp add: mult.commute)
qed

lemma be_bytes_inj: "be_bytes k m = be_bytes k n \<Longrightarrow> m < 256 ^ k \<Longrightarrow> n < 256 ^ k \<Longrightarrow> m = n"
  by (metis be_val_be_bytes mod_less)

section \<open>UTF-8\<close>

text \<open>
  \<open>std::str::from_utf8\<close>: well-formed sequences of one to four bytes, with no overlong
  forms, no surrogates and nothing above U+10FFFF.
\<close>

definition cont_byte :: "byte \<Rightarrow> bool" where
  "cont_byte c = (let x = of_char c :: nat in 128 \<le> x \<and> x \<le> 191)"

definition in_range :: "nat \<Rightarrow> nat \<Rightarrow> byte \<Rightarrow> bool" where
  "in_range lo hi c = (let x = of_char c :: nat in lo \<le> x \<and> x \<le> hi)"

fun utf8_valid :: "bytes \<Rightarrow> bool" where
  "utf8_valid [] = True"
| "utf8_valid (a # r) =
     (if in_range 0 127 a then utf8_valid r
      else (case r of [] \<Rightarrow> False | b # r2 \<Rightarrow>
        (if in_range 194 223 a then cont_byte b \<and> utf8_valid r2
         else (case r2 of [] \<Rightarrow> False | c # r3 \<Rightarrow>
           (if in_range 224 239 a then
              (if in_range 224 224 a then in_range 160 191 b
               else if in_range 237 237 a then in_range 128 159 b
               else cont_byte b) \<and> cont_byte c \<and> utf8_valid r3
            else (case r3 of [] \<Rightarrow> False | d # r4 \<Rightarrow>
              in_range 240 244 a \<and>
              (if in_range 240 240 a then in_range 144 191 b
               else if in_range 244 244 a then in_range 128 143 b
               else cont_byte b) \<and> cont_byte c \<and> cont_byte d \<and> utf8_valid r4))))))"

definition ascii :: "bytes \<Rightarrow> bool" where
  "ascii s = list_all (\<lambda>c. of_char c < (128::nat)) s"

lemma utf8_valid_ascii: "ascii s \<Longrightarrow> utf8_valid s"
  by (induction s) (auto simp: ascii_def in_range_def)

lemma utf8_valid_ascii_append: "ascii a \<Longrightarrow> utf8_valid (a @ b) = utf8_valid b"
  by (induction a) (auto simp: ascii_def in_range_def)

lemma ascii_append [simp]: "ascii (a @ b) \<longleftrightarrow> ascii a \<and> ascii b"
  by (simp add: ascii_def)

lemma ascii_Cons [simp]: "ascii (c # b) \<longleftrightarrow> of_char c < (128::nat) \<and> ascii b"
  by (simp add: ascii_def)

lemma ascii_Nil [simp]: "ascii []"
  by (simp add: ascii_def)

lemma ascii_show_nat [simp]: "ascii (show_nat n)"
  using show_nat_graphic [of _ n] by (fastforce simp: ascii_def list_all_iff)

text \<open>\<open>String::from_utf8\<close> and \<open>str::from_utf8\<close>, failing with the crate's own error.\<close>

definition from_utf8 :: "bytes \<Rightarrow> bytes res" where
  "from_utf8 s = (if utf8_valid s then Inr s else Inl (Ext ''invalid utf-8''))"

lemma from_utf8_Inr [res_simps]: "from_utf8 s = Inr t \<longleftrightarrow> utf8_valid s \<and> t = s"
  by (auto simp: from_utf8_def)

section \<open>Lines\<close>

text \<open>
  Splitting after every newline, keeping it; and \<open>str::lines\<close>, which drops the newline and
  a carriage return before it, and yields nothing for the empty rest after the last newline.
\<close>

fun split_inclusive :: "bytes \<Rightarrow> bytes list" where
  "split_inclusive [] = []"
| "split_inclusive (c # cs) =
     (if c = NL then [c] # split_inclusive cs
      else (case split_inclusive cs of [] \<Rightarrow> [[c]] | l # ls \<Rightarrow> (c # l) # ls))"

definition line_content :: "bytes \<Rightarrow> bytes" where
  "line_content l =
     (case strip_suffix [NL] l of
        None \<Rightarrow> l
      | Some l1 \<Rightarrow> (case strip_suffix [CR] l1 of None \<Rightarrow> l1 | Some l2 \<Rightarrow> l2))"

definition str_lines :: "bytes \<Rightarrow> bytes list" where
  "str_lines s = map line_content (split_inclusive s)"

lemma concat_split_inclusive [simp]: "concat (split_inclusive s) = s"
  by (induction s) (auto split: list.split)

lemma split_inclusive_line:
  "NL \<notin> set l \<Longrightarrow> split_inclusive (l @ NL # rest) = (l @ [NL]) # split_inclusive rest"
  by (induction l) auto

lemma split_inclusive_nonempty: "l \<in> set (split_inclusive s) \<Longrightarrow> l \<noteq> []"
  by (induction s arbitrary: l) (auto split: list.splits if_splits)

lemma line_content_line: "l = [] \<or> last l \<noteq> CR \<Longrightarrow> line_content (l @ [NL]) = l"
proof -
  assume l: "l = [] \<or> last l \<noteq> CR"
  have nl: "strip_suffix [NL] (l @ [NL]) = Some l" by (simp add: strip_suffix_Some_iff)
  have "strip_suffix [CR] l = None"
    using l by (metis last_snoc not_Some_eq snoc_eq_iff_butlast strip_suffix_Some_iff)
  with nl show ?thesis by (simp add: line_content_def)
qed

lemma str_lines_line:
  "NL \<notin> set l \<Longrightarrow> l = [] \<or> last l \<noteq> CR \<Longrightarrow> str_lines (l @ NL # rest) = l # str_lines rest"
  by (simp add: str_lines_def split_inclusive_line line_content_line)

lemma str_lines_Nil [simp]: "str_lines [] = []"
  by (simp add: str_lines_def)

section \<open>Debug output\<close>

text \<open>
  \<open>{path:?}\<close>: quoted, with the escapes of \<open>str::escape_debug\<close>.  Text outside ASCII is printed as it is.
\<close>

definition escape_hex :: "nat \<Rightarrow> bytes" where
  "escape_hex n =
     (let d = (\<lambda>k. ''0123456789abcdef'' ! k) in if n < 16 then [d n] else [d (n div 16 mod 16), d (n mod 16)])"

definition escape_debug :: "byte \<Rightarrow> bytes" where
  "escape_debug c =
     (if c = NUL then [CHR 0x5C, CHR ''0'']
      else if c = CHR 0x09 then [CHR 0x5C, CHR ''t'']
      else if c = NL then [CHR 0x5C, CHR ''n'']
      else if c = CR then [CHR 0x5C, CHR ''r'']
      else if c = CHR 0x22 \<or> c = CHR 0x5C then [CHR 0x5C, c]
      else if of_char c < (32 :: nat) \<or> c = CHR 0x7F then [CHR 0x5C, CHR ''u'', CHR 0x7B] @ escape_hex (of_char c) @ [CHR 0x7D]
      else [c])"

definition debug_str :: "bytes \<Rightarrow> bytes" where
  "debug_str bs = [CHR 0x22] @ concat (map escape_debug bs) @ [CHR 0x22]"

text \<open>\<open>{:?}\<close> of a byte taken as a character (\<open>b as char\<close>, U+0000 to U+00FF).\<close>

definition debug_char :: "byte \<Rightarrow> bytes" where
  "debug_char c =
     (let n = of_char c :: nat in
      [CHR 0x27] @
      (if c = CHR 0x27 then [CHR 0x5C, c]
       else if c = CHR 0x22 then [c]
       else if n < 128 then escape_debug c
       else if n \<le> 160 \<or> n = 173 then [CHR 0x5C, CHR ''u'', CHR 0x7B] @ escape_hex n @ [CHR 0x7D]
       else if n < 192 then [CHR 0xC2, c]
       else [CHR 0xC3, char_of (n - 64)]) @ [CHR 0x27])"

end
