(* ===== verification/Object_Ids.thy ===== *)
theory Object_Ids
  imports Mizzle_Prelude
begin

text \<open>
  Object ids.  \<open>gix_hash::ObjectId\<close> is not part of this repository, so its type is a
  parameter \<open>'o\<close> and its functions are the record \<open>oid_ops\<close>, an argument of every
  definition that calls them.  The locale \<open>object_id\<close> states what the sources rely on: the
  hexadecimal and the raw encodings are lossless, 40 lower-case digits and 20 bytes long, and
  there is one null id.  It is interpreted on 160-bit words, the value range of SHA-1 ids.
\<close>

record 'o oid_ops =
  null_oid :: "'o"
  is_null :: "'o \<Rightarrow> bool"
  from_hex :: "bytes \<Rightarrow> 'o res"
  to_hex :: "'o \<Rightarrow> bytes"
  as_bytes :: "'o \<Rightarrow> bytes"
  from_bytes :: "bytes \<Rightarrow> 'o res"

definition hex_lower :: "byte \<Rightarrow> bool" where
  "hex_lower c = (in_range 48 57 c \<or> in_range 97 102 c)"

locale object_id =
  fixes H :: "'o oid_ops"
  assumes is_null_iff: "is_null H x \<longleftrightarrow> x = null_oid H"
    and from_to_hex: "from_hex H (to_hex H x) = Inr x"
    and to_hex_digits: "list_all hex_lower (to_hex H x)"
    and length_to_hex: "length (to_hex H x) = 40"
    and from_as_bytes: "from_bytes H (as_bytes H x) = Inr x"
    and as_from_bytes: "from_bytes H b = Inr x \<Longrightarrow> as_bytes H x = b"
    and length_as_bytes: "length (as_bytes H x) = 20"
begin

lemma as_bytes_inj: "as_bytes H x = as_bytes H y \<longleftrightarrow> x = y"
  by (metis from_as_bytes sum.inject(2))

lemma to_hex_inj: "to_hex H x = to_hex H y \<longleftrightarrow> x = y"
  by (metis from_to_hex sum.inject(2))

lemma to_hex_graphic: "c \<in> set (to_hex H x) \<Longrightarrow> 48 \<le> (of_char c :: nat) \<and> (of_char c :: nat) < 128"
  using to_hex_digits [of x] by (auto simp: list_all_iff hex_lower_def in_range_def Let_def)

lemma to_hex_no_ctrl: "SP \<notin> set (to_hex H x)" "NUL \<notin> set (to_hex H x)" "NL \<notin> set (to_hex H x)"
  using to_hex_graphic [of SP x] to_hex_graphic [of NUL x] to_hex_graphic [of NL x]
  by (auto simp: ascii_defs)

lemma to_hex_ascii: "ascii (to_hex H x)"
  using to_hex_graphic [of _ x] by (auto simp: ascii_def list_all_iff)

lemma to_hex_nonempty: "to_hex H x \<noteq> []"
  using length_to_hex [of x] by auto

end

section \<open>The SHA-1 instance\<close>

type_synonym sha1 = "160 word"

fun hex_digits :: "nat \<Rightarrow> nat \<Rightarrow> bytes" where
  "hex_digits 0 n = []"
| "hex_digits (Suc k) n = digit_char (n div 16 ^ k mod 16) # hex_digits k n"

definition sha1_from_hex :: "bytes \<Rightarrow> sha1 res" where
  "sha1_from_hex s =
     (if length s \<noteq> 40 then Inl (Ext ''invalid hex length'')
      else case digits_val 16 0 s of
             None \<Rightarrow> Inl (Ext ''invalid hex digit'')
           | Some v \<Rightarrow> Inr (of_nat v))"

definition sha1_from_bytes :: "bytes \<Rightarrow> sha1 res" where
  "sha1_from_bytes b =
     (if length b \<noteq> 20 then Inl (Ext ''invalid id length'') else Inr (of_nat (be_val b)))"

definition sha1_ops :: "sha1 oid_ops" where
  "sha1_ops =
     \<lparr> null_oid = 0,
       is_null = (\<lambda>w. w = 0),
       from_hex = sha1_from_hex,
       to_hex = (\<lambda>w. hex_digits 40 (unat w)),
       as_bytes = (\<lambda>w. be_bytes 20 (unat w)),
       from_bytes = sha1_from_bytes \<rparr>"

lemma length_hex_digits [simp]: "length (hex_digits k n) = k"
  by (induction k) auto

lemma hex_lower_digit_char: "d < 16 \<Longrightarrow> hex_lower (digit_char d)"
  by (auto simp: hex_lower_def in_range_def digit_char_def)

lemma hex_digits_lower: "list_all hex_lower (hex_digits k n)"
  by (induction k) (auto simp: hex_lower_digit_char)

lemma digits_val_hex_digits: "digits_val 16 acc (hex_digits k n) = Some (acc * 16 ^ k + n mod 16 ^ k)"
proof (induction k arbitrary: acc)
  case 0
  then show ?case by simp
next
  case (Suc k)
  have "n mod 16 ^ Suc k = 16 ^ k * (n div 16 ^ k mod 16) + n mod 16 ^ k"
    using mod_mult2_eq [of n "16 ^ k" 16] by (simp add: mult.commute)
  with Suc show ?case by (simp add: to_digit_digit_char algebra_simps)
qed

lemma be_bytes_be_val: "length b = k \<Longrightarrow> be_bytes k (be_val b) = b"
proof (induction b arbitrary: k)
  case Nil
  then show ?case by simp
next
  case (Cons c cs)
  have high: "be_bytes j (m * 256 ^ j + r) = be_bytes j r" for j m r
  proof (induction j arbitrary: m)
    case (Suc j)
    have "(m * 256 ^ Suc j + r) div 256 ^ j = m * 256 + r div 256 ^ j"
      by (simp add: mult.assoc [symmetric] mult.commute [of _ "256 ^ j"] div_add1_eq)
    then have "char_of ((m * 256 ^ Suc j + r) div 256 ^ j) = char_of (r div 256 ^ j)"
      by (metis char_of_mod_256 mod_mult_self3)
    moreover have "m * 256 ^ Suc j + r = (m * 256) * 256 ^ j + r" by simp
    ultimately show ?case using Suc by (metis be_bytes.simps(2))
  qed simp
  have "be_val (c # cs) div 256 ^ length cs = of_char c"
    using be_val_less [of cs] by simp
  with Cons high show ?case by auto
qed

interpretation sha1: object_id sha1_ops
proof
  fix x y :: sha1 and b
  have lt: "unat x < 16 ^ 40" using unsigned_less [of x, where ?'a = nat] by simp
  have lt': "unat x < 256 ^ 20" using unsigned_less [of x, where ?'a = nat] by simp
  show "is_null sha1_ops x \<longleftrightarrow> x = null_oid sha1_ops" by (simp add: sha1_ops_def)
  show "from_hex sha1_ops (to_hex sha1_ops x) = Inr x"
    using lt by (simp add: sha1_ops_def sha1_from_hex_def digits_val_hex_digits)
  show "list_all hex_lower (to_hex sha1_ops x)" by (simp add: sha1_ops_def hex_digits_lower)
  show "length (to_hex sha1_ops x) = 40" by (simp add: sha1_ops_def)
  show "from_bytes sha1_ops (as_bytes sha1_ops x) = Inr x"
    using lt' by (simp add: sha1_ops_def sha1_from_bytes_def be_val_be_bytes)
  show "length (as_bytes sha1_ops x) = 20" by (simp add: sha1_ops_def)
  show "as_bytes sha1_ops x = b" if "from_bytes sha1_ops b = Inr x"
  proof -
    from that have len: "length b = 20" and x: "x = of_nat (be_val b)"
      by (auto simp: sha1_ops_def sha1_from_bytes_def split: if_splits)
    have "be_val b < 2 ^ 160" using be_val_less [of b] len by simp
    then have "unat x = be_val b" by (simp add: x unsigned_of_nat take_bit_eq_mod)
    then show ?thesis using len by (simp add: sha1_ops_def be_bytes_be_val)
  qed
qed

end
