(* ===== verification/Wire_Protocol.thy ===== *)
theory Wire_Protocol
  imports Object_Ids
begin

text \<open>
  The request side of \<open>mizzle-proto\<close>: \<open>limits.rs\<close>, \<open>utils.rs\<close>, \<open>command.rs\<close>,
  \<open>ls_refs.rs\<close>, \<open>fetch.rs\<close> and \<open>pack.rs\<close>.

  The pkt-line reader \<open>StreamingPeekableIter\<close> belongs to gix-packetline.  What the parsers
  see of it is the sequence of outcomes of its successive \<open>read_line\<close> calls, so a parser
  state is the list of outcomes still to come: an I/O error, a decode error, or a line.
  The end of the list is the end of the request body (\<open>read_line\<close> returns \<open>None\<close>).
\<close>

section \<open>Limits\<close>

record protocol_limits =
  max_ref_updates :: nat
  max_wants :: nat
  max_haves :: nat
  max_want_refs :: nat
  max_ref_prefixes :: nat

definition default_limits :: protocol_limits where
  "default_limits =
     \<lparr> max_ref_updates = 10000, max_wants = 100000, max_haves = 100000,
       max_want_refs = 10000, max_ref_prefixes = 1000 \<rparr>"

definition check_limit :: "nat \<Rightarrow> nat \<Rightarrow> bytes \<Rightarrow> unit res" where
  "check_limit count maxi name =
     (if count \<le> maxi then Inr () else Inl (LimitExceeded name count maxi))"

lemma check_limit_Inr [res_simps]: "check_limit n m name = Inr u \<longleftrightarrow> n \<le> m"
  by (simp add: check_limit_def)

section \<open>Packet lines\<close>

datatype pkt = Flush | Delimiter | ResponseEnd | Data bytes

datatype read_outcome = IoError | DecodeError | Line pkt

type_synonym parser = "read_outcome list"

text \<open>\<open>parser.read_line().await.context(msg)???\<close>\<close>

fun next_line :: "bytes \<Rightarrow> parser \<Rightarrow> (pkt \<times> parser) res" where
  "next_line msg [] = Inl (Bail msg)"
| "next_line msg (IoError # p) = Inl (Ext ''io error'')"
| "next_line msg (DecodeError # p) = Inl (Ext ''decode error'')"
| "next_line msg (Line l # p) = Inr (l, p)"

fun skip_till_delimiter :: "parser \<Rightarrow> parser res" where
  "skip_till_delimiter (Line Delimiter # p) = Inr p"
| "skip_till_delimiter (Line (Data d) # p) = skip_till_delimiter p"
| "skip_till_delimiter (Line Flush # p) = Inl (Bail ''found end of response expected delimiter'')"
| "skip_till_delimiter (Line ResponseEnd # p) = Inl (Bail ''found end of response expected delimiter'')"
| "skip_till_delimiter (IoError # p) = Inl (Ext ''io error'')"
| "skip_till_delimiter (DecodeError # p) = Inl (Ext ''decode error'')"
| "skip_till_delimiter [] = Inl (Bail ''expected delimiter'')"

datatype command = Fetch | ListRefs | Empty

definition read_command :: "parser \<Rightarrow> (command \<times> parser) res" where
  "read_command p =
     bindR (next_line ''no line when expecting command'' p) (\<lambda>(line, p').
       case line of
         Flush \<Rightarrow> Inr (Empty, p')
       | Data d \<Rightarrow>
           bindR (of_option (Bail ''expected command'') (strip_prefix ''command='' (chomp d)))
             (\<lambda>name.
               if name = ''ls-refs'' then Inr (ListRefs, p')
               else if name = ''fetch'' then Inr (Fetch, p')
               else Inl (Bail ''unrecognised command''))
       | _ \<Rightarrow> Inl (Bail ''no data when expecting command''))"

text \<open>
  The argument loop shared by \<open>read_lsrefs_args\<close> and \<open>read_fetch_args\<close>: read lines until a
  flush (or response-end) packet, applying the argument parser to every data line.
\<close>

fun args_loop :: "('a \<Rightarrow> bytes \<Rightarrow> 'a res) \<Rightarrow> 'a \<Rightarrow> parser \<Rightarrow> ('a \<times> parser) res" where
  "args_loop step args (Line Flush # p) = Inr (args, p)"
| "args_loop step args (Line ResponseEnd # p) = Inr (args, p)"
| "args_loop step args (Line Delimiter # p) = Inl (Bail ''unexpected delimiter'')"
| "args_loop step args (Line (Data d) # p) =
     bindR (step args (chomp d)) (\<lambda>args'. args_loop step args' p)"
| "args_loop step args (IoError # p) = Inl (Ext ''io error'')"
| "args_loop step args (DecodeError # p) = Inl (Ext ''decode error'')"
| "args_loop step args [] = Inl (Bail ''unexpected eof (missing flush packet?)'')"

section \<open>ls-refs arguments\<close>

record list_refs_args =
  la_symrefs :: bool
  la_peel :: bool
  la_prefixes :: "bytes list"
  la_unborn :: bool

definition lsrefs_init :: list_refs_args where
  "lsrefs_init = \<lparr> la_symrefs = False, la_peel = False, la_prefixes = [], la_unborn = False \<rparr>"

definition lsrefs_arg :: "protocol_limits \<Rightarrow> list_refs_args \<Rightarrow> bytes \<Rightarrow> list_refs_args res" where
  "lsrefs_arg lim args arg =
     (case strip_prefix ''ref-prefix '' arg of
        Some pre \<Rightarrow>
          let args' = args\<lparr> la_prefixes := la_prefixes args @ [pre] \<rparr>
          in bindR (check_limit (length (la_prefixes args')) (max_ref_prefixes lim) ''ref-prefix lines'')
               (\<lambda>_. Inr args')
      | None \<Rightarrow>
          if arg = ''peel'' then Inr (args\<lparr> la_peel := True \<rparr>)
          else if arg = ''symrefs'' then Inr (args\<lparr> la_symrefs := True \<rparr>)
          else if arg = ''unborn'' then Inr (args\<lparr> la_unborn := True \<rparr>)
          else Inl (Bail ''unrecognised lsrefs argument''))"

definition read_lsrefs_args :: "protocol_limits \<Rightarrow> parser \<Rightarrow> (list_refs_args \<times> parser) res" where
  "read_lsrefs_args lim p =
     bindR (skip_till_delimiter p) (\<lambda>p'. args_loop (lsrefs_arg lim) lsrefs_init p')"

section \<open>Fetch arguments\<close>

record 'o fetch_args =
  fa_want :: "'o list"
  fa_want_refs :: "bytes list"
  fa_have :: "'o list"
  fa_done :: bool
  fa_thin_pack :: bool
  fa_no_progress :: bool
  fa_include_tag :: bool
  fa_ofs_delta :: bool
  fa_wait_for_done :: bool
  fa_deepen :: "nat option"
  fa_filter :: "bytes option"

definition fetch_init :: "'o fetch_args" where
  "fetch_init =
     \<lparr> fa_want = [], fa_want_refs = [], fa_have = [], fa_done = False, fa_thin_pack = False,
       fa_no_progress = False, fa_include_tag = False, fa_ofs_delta = False,
       fa_wait_for_done = False, fa_deepen = None, fa_filter = None \<rparr>"

text \<open>\<open>std::str::from_utf8(depth)?.parse::<u32>()\<close> with the zero check.\<close>

definition parse_deepen :: "bytes \<Rightarrow> nat res" where
  "parse_deepen depth =
     bindR (from_utf8 depth) (\<lambda>t.
     bindR (of_option (Bail ''invalid deepen value'') (parse_unsigned 10 u32_max t)) (\<lambda>n.
       if n = 0 then Inl (Bail ''deepen 0 is not valid'') else Inr n))"

definition push_want :: "'o oid_ops \<Rightarrow> protocol_limits \<Rightarrow> 'o fetch_args \<Rightarrow> bytes \<Rightarrow> 'o fetch_args res" where
  "push_want H lim args hex =
     bindR (from_hex H hex) (\<lambda>x.
       let args' = args\<lparr> fa_want := fa_want args @ [x] \<rparr>
       in bindR (check_limit (length (fa_want args')) (max_wants lim) ''want lines'') (\<lambda>_. Inr args'))"

definition push_have :: "'o oid_ops \<Rightarrow> protocol_limits \<Rightarrow> 'o fetch_args \<Rightarrow> bytes \<Rightarrow> 'o fetch_args res" where
  "push_have H lim args hex =
     bindR (from_hex H hex) (\<lambda>x.
       let args' = args\<lparr> fa_have := fa_have args @ [x] \<rparr>
       in bindR (check_limit (length (fa_have args')) (max_haves lim) ''have lines'') (\<lambda>_. Inr args'))"

definition fetch_flag :: "'o fetch_args \<Rightarrow> bytes \<Rightarrow> 'o fetch_args res" where
  "fetch_flag args arg =
     (if starts_with arg ''deepen-since '' \<or> starts_with arg ''deepen-not ''
         \<or> starts_with arg ''deepen-relative''
      then Inl (Bail ''unsupported fetch argument'')
      else if arg = ''done'' then Inr (args\<lparr> fa_done := True \<rparr>)
      else if arg = ''thin-pack'' then Inr (args\<lparr> fa_thin_pack := True \<rparr>)
      else if arg = ''no-progress'' then Inr (args\<lparr> fa_no_progress := True \<rparr>)
      else if arg = ''include-tag'' then Inr (args\<lparr> fa_include_tag := True \<rparr>)
      else if arg = ''ofs-delta'' then Inr (args\<lparr> fa_ofs_delta := True \<rparr>)
      else if arg = ''wait-for-done'' then Inr (args\<lparr> fa_wait_for_done := True \<rparr>)
      else Inl (Bail ''unrecognised fetch argument''))"

definition fetch_arg :: "'o oid_ops \<Rightarrow> protocol_limits \<Rightarrow> 'o fetch_args \<Rightarrow> bytes \<Rightarrow> 'o fetch_args res" where
  "fetch_arg H lim args arg =
     (case strip_prefix ''want '' arg of Some hex \<Rightarrow> push_want H lim args hex | None \<Rightarrow>
     (case strip_prefix ''have '' arg of Some hex \<Rightarrow> push_have H lim args hex | None \<Rightarrow>
     (case strip_prefix ''want-ref '' arg of
        Some name \<Rightarrow>
          bindR (from_utf8 name) (\<lambda>r.
            let args' = args\<lparr> fa_want_refs := fa_want_refs args @ [r] \<rparr>
            in bindR (check_limit (length (fa_want_refs args')) (max_want_refs lim) ''want-ref lines'')
                 (\<lambda>_. Inr args'))
      | None \<Rightarrow>
     (case strip_prefix ''deepen '' arg of
        Some depth \<Rightarrow> bindR (parse_deepen depth) (\<lambda>n. Inr (args\<lparr> fa_deepen := Some n \<rparr>))
      | None \<Rightarrow>
     (case strip_prefix ''filter '' arg of
        Some spec \<Rightarrow> bindR (from_utf8 spec) (\<lambda>f. Inr (args\<lparr> fa_filter := Some f \<rparr>))
      | None \<Rightarrow> fetch_flag args arg)))))"

definition read_fetch_args ::
  "'o oid_ops \<Rightarrow> protocol_limits \<Rightarrow> parser \<Rightarrow> ('o fetch_args \<times> parser) res" where
  "read_fetch_args H lim p =
     bindR (skip_till_delimiter p) (\<lambda>p'. args_loop (fetch_arg H lim) fetch_init p')"

text \<open>Protocol v1: the capabilities after the first space of a want line, and the line itself.\<close>

definition v1_cap :: "'o fetch_args \<Rightarrow> bytes \<Rightarrow> 'o fetch_args" where
  "v1_cap args cap =
     (if cap = ''ofs-delta'' then args\<lparr> fa_ofs_delta := True \<rparr>
      else if cap = ''thin-pack'' then args\<lparr> fa_thin_pack := True \<rparr>
      else if cap = ''no-progress'' then args\<lparr> fa_no_progress := True \<rparr>
      else if cap = ''include-tag'' then args\<lparr> fa_include_tag := True \<rparr>
      else args)"

definition v1_arg :: "'o oid_ops \<Rightarrow> protocol_limits \<Rightarrow> 'o fetch_args \<Rightarrow> bytes \<Rightarrow> 'o fetch_args res" where
  "v1_arg H lim args data =
     (case strip_prefix ''want '' data of
        Some rest \<Rightarrow>
          let hex = takeWhile (\<lambda>b. b \<noteq> SP) rest;
              caps = (case dropWhile (\<lambda>b. b \<noteq> SP) rest of
                        [] \<Rightarrow> None | _ # cs \<Rightarrow> Some (split_on SP cs))
          in bindR (push_want H lim args hex) (\<lambda>args'.
               Inr (case caps of None \<Rightarrow> args' | Some cs \<Rightarrow> foldl v1_cap args' cs))
      | None \<Rightarrow>
     (case strip_prefix ''have '' data of Some hex \<Rightarrow> push_have H lim args hex | None \<Rightarrow>
     (case strip_prefix ''deepen '' data of
        Some depth \<Rightarrow> bindR (parse_deepen depth) (\<lambda>n. Inr (args\<lparr> fa_deepen := Some n \<rparr>))
      | None \<Rightarrow>
     (case strip_prefix ''filter '' data of
        Some spec \<Rightarrow> bindR (from_utf8 spec) (\<lambda>f. Inr (args\<lparr> fa_filter := Some f \<rparr>))
      | None \<Rightarrow> Inr args))))"

fun v1_loop :: "('a \<Rightarrow> bytes \<Rightarrow> 'a res) \<Rightarrow> 'a \<Rightarrow> parser \<Rightarrow> ('a \<times> parser) res" where
  "v1_loop step args (Line Flush # p) = Inr (args, p)"
| "v1_loop step args (Line (Data d) # p) =
     bindR (step args (chomp d)) (\<lambda>args'. v1_loop step args' p)"
| "v1_loop step args (Line Delimiter # p) = v1_loop step args p"
| "v1_loop step args (Line ResponseEnd # p) = v1_loop step args p"
| "v1_loop step args (IoError # p) = Inl (Ext ''io error'')"
| "v1_loop step args (DecodeError # p) = Inl (Ext ''decode error'')"
| "v1_loop step args [] = Inl (Bail ''unexpected eof in v1 request body'')"

text \<open>After the flush: one more line, and only a well-formed \<open>done\<close> counts.\<close>

definition set_done :: "'o fetch_args \<Rightarrow> parser \<Rightarrow> 'o fetch_args" where
  "set_done args p =
     (case p of
        Line (Data d) # _ \<Rightarrow> if chomp d = ''done'' then args\<lparr> fa_done := True \<rparr> else args
      | _ \<Rightarrow> args)"

definition read_fetch_args_v1 :: "'o oid_ops \<Rightarrow> protocol_limits \<Rightarrow> parser \<Rightarrow> 'o fetch_args res" where
  "read_fetch_args_v1 H lim p =
     bindR (v1_loop (v1_arg H lim) fetch_init p) (\<lambda>(args, p'). Inr (set_done args p'))"

datatype pack_filter = BlobNone | TreeNone

definition filter_parse :: "bytes \<Rightarrow> pack_filter res" where
  "filter_parse spec =
     (if spec = ''blob:none'' then Inr BlobNone
      else if spec = ''tree:0'' then Inr TreeNone
      else Inl (Bail ''unsupported filter''))"

section \<open>Limits hold for every accepted request\<close>

definition fetch_wf :: "protocol_limits \<Rightarrow> 'o fetch_args \<Rightarrow> bool" where
  "fetch_wf lim args \<longleftrightarrow>
     length (fa_want args) \<le> max_wants lim \<and>
     length (fa_have args) \<le> max_haves lim \<and>
     length (fa_want_refs args) \<le> max_want_refs lim \<and>
     list_all utf8_valid (fa_want_refs args) \<and>
     (case fa_deepen args of None \<Rightarrow> True | Some n \<Rightarrow> 0 < n \<and> n \<le> u32_max) \<and>
     (case fa_filter args of None \<Rightarrow> True | Some f \<Rightarrow> utf8_valid f)"

lemma args_loop_invariant:
  assumes "args_loop step a p = Inr (r, p')" and "P a"
    and "\<And>b d c. P b \<Longrightarrow> step b d = Inr c \<Longrightarrow> P c"
  shows "P r"
  using assms by (induction step a p rule: args_loop.induct) (auto simp: bindR_eq_Inr)

lemma v1_loop_invariant:
  assumes "v1_loop step a p = Inr (r, p')" and "P a"
    and "\<And>b d c. P b \<Longrightarrow> step b d = Inr c \<Longrightarrow> P c"
  shows "P r"
  using assms by (induction step a p rule: v1_loop.induct) (auto simp: bindR_eq_Inr)

lemma fetch_wf_init: "fetch_wf lim fetch_init"
  by (simp add: fetch_wf_def fetch_init_def)

lemma parse_deepen_bounds: "parse_deepen d = Inr n \<Longrightarrow> 0 < n \<and> n \<le> u32_max"
  by (auto simp: parse_deepen_def res_simps dest: parse_unsigned_bound split: if_splits)

lemma push_want_wf: "fetch_wf lim a \<Longrightarrow> push_want H lim a h = Inr b \<Longrightarrow> fetch_wf lim b"
  by (auto simp: push_want_def Let_def res_simps fetch_wf_def)

lemma push_have_wf: "fetch_wf lim a \<Longrightarrow> push_have H lim a h = Inr b \<Longrightarrow> fetch_wf lim b"
  by (auto simp: push_have_def Let_def res_simps fetch_wf_def)

lemma fetch_flag_wf: "fetch_wf lim a \<Longrightarrow> fetch_flag a h = Inr b \<Longrightarrow> fetch_wf lim b"
  by (auto simp: fetch_flag_def fetch_wf_def split: if_splits)

lemma set_deepen_wf:
  "fetch_wf lim a \<Longrightarrow> parse_deepen d = Inr n \<Longrightarrow> fetch_wf lim (a\<lparr> fa_deepen := Some n \<rparr>)"
  using parse_deepen_bounds [of d n] by (simp add: fetch_wf_def)

lemma set_filter_wf: "fetch_wf lim a \<Longrightarrow> utf8_valid f \<Longrightarrow> fetch_wf lim (a\<lparr> fa_filter := Some f \<rparr>)"
  by (simp add: fetch_wf_def)

lemma push_want_ref_wf:
  "fetch_wf lim a \<Longrightarrow> utf8_valid r \<Longrightarrow> length (fa_want_refs a) < max_want_refs lim \<Longrightarrow>
   fetch_wf lim (a\<lparr> fa_want_refs := fa_want_refs a @ [r] \<rparr>)"
  by (simp add: fetch_wf_def)

lemmas fetch_wf_steps =
  push_want_wf push_have_wf fetch_flag_wf set_deepen_wf set_filter_wf push_want_ref_wf

lemma fetch_arg_wf: "fetch_wf lim a \<Longrightarrow> fetch_arg H lim a d = Inr b \<Longrightarrow> fetch_wf lim b"
  by (auto simp: fetch_arg_def Let_def res_simps intro: fetch_wf_steps split: option.splits)

lemma v1_cap_wf: "fetch_wf lim a \<Longrightarrow> fetch_wf lim (v1_cap a c)"
  by (simp add: v1_cap_def fetch_wf_def)

lemma v1_caps_wf: "fetch_wf lim a \<Longrightarrow> fetch_wf lim (foldl v1_cap a cs)"
  by (induction cs arbitrary: a) (auto simp: v1_cap_wf)

lemma v1_arg_wf: "fetch_wf lim a \<Longrightarrow> v1_arg H lim a d = Inr b \<Longrightarrow> fetch_wf lim b"
  by (auto simp: v1_arg_def Let_def res_simps intro: v1_caps_wf set_filter_wf
        dest: push_want_wf push_have_wf set_deepen_wf split: option.splits)

lemma read_fetch_args_wf: "read_fetch_args H lim p = Inr (a, p') \<Longrightarrow> fetch_wf lim a"
  unfolding read_fetch_args_def bindR_eq_Inr
  by (auto intro: args_loop_invariant [where P = "fetch_wf lim"] fetch_wf_init fetch_arg_wf)

lemma read_fetch_args_v1_wf: "read_fetch_args_v1 H lim p = Inr a \<Longrightarrow> fetch_wf lim a"
proof -
  assume "read_fetch_args_v1 H lim p = Inr a"
  then obtain b p' where b: "v1_loop (v1_arg H lim) fetch_init p = Inr (b, p')"
    and a: "a = set_done b p'"
    by (auto simp: read_fetch_args_v1_def bindR_eq_Inr)
  from b have "fetch_wf lim b"
    by (rule v1_loop_invariant) (auto intro: fetch_wf_init dest: v1_arg_wf)
  moreover have "a = b \<or> a = b\<lparr> fa_done := True \<rparr>"
    using a by (simp add: set_done_def split: list.split read_outcome.split pkt.split)
  ultimately show ?thesis by (auto simp: fetch_wf_def)
qed

lemma lsrefs_arg_bound:
  "length (la_prefixes a) \<le> max_ref_prefixes lim \<Longrightarrow> lsrefs_arg lim a d = Inr b \<Longrightarrow>
   length (la_prefixes b) \<le> max_ref_prefixes lim"
  by (auto simp: lsrefs_arg_def Let_def res_simps split: option.splits if_splits)

lemma read_lsrefs_args_bound:
  "read_lsrefs_args lim p = Inr (a, p') \<Longrightarrow> length (la_prefixes a) \<le> max_ref_prefixes lim"
proof -
  assume "read_lsrefs_args lim p = Inr (a, p')"
  then obtain q where "args_loop (lsrefs_arg lim) lsrefs_init q = Inr (a, p')"
    by (auto simp: read_lsrefs_args_def bindR_eq_Inr)
  then show ?thesis
    by (rule args_loop_invariant) (auto simp: lsrefs_init_def dest: lsrefs_arg_bound)
qed

section \<open>Reading back a request\<close>

text \<open>The lines a client sends for given fetch arguments, and the request as packet lines.\<close>

definition arg_line :: "bytes \<Rightarrow> bytes \<Rightarrow> bytes" where
  "arg_line keyword v = keyword @ v"

definition flag_lines :: "'o fetch_args \<Rightarrow> bytes list" where
  "flag_lines a =
     (if fa_thin_pack a then [''thin-pack''] else []) @
     (if fa_no_progress a then [''no-progress''] else []) @
     (if fa_include_tag a then [''include-tag''] else []) @
     (if fa_ofs_delta a then [''ofs-delta''] else []) @
     (if fa_wait_for_done a then [''wait-for-done''] else []) @
     (case fa_deepen a of None \<Rightarrow> [] | Some n \<Rightarrow> [arg_line ''deepen '' (show_nat n)]) @
     (case fa_filter a of None \<Rightarrow> [] | Some f \<Rightarrow> [arg_line ''filter '' f]) @
     (if fa_done a then [''done''] else [])"

definition fetch_lines :: "'o oid_ops \<Rightarrow> 'o fetch_args \<Rightarrow> bytes list" where
  "fetch_lines H a =
     map (\<lambda>x. arg_line ''want '' (to_hex H x)) (fa_want a) @
     map (\<lambda>x. arg_line ''have '' (to_hex H x)) (fa_have a) @
     map (\<lambda>r. arg_line ''want-ref '' r) (fa_want_refs a) @ flag_lines a"

definition fetch_request :: "'o oid_ops \<Rightarrow> bytes list \<Rightarrow> 'o fetch_args \<Rightarrow> parser" where
  "fetch_request H caps a =
     map (\<lambda>c. Line (Data c)) caps @ [Line Delimiter] @
     map (\<lambda>l. Line (Data (l @ [NL]))) (fetch_lines H a) @ [Line Flush]"

lemma skip_till_delimiter_caps:
  "skip_till_delimiter (map (\<lambda>c. Line (Data c)) caps @ Line Delimiter # p) = Inr p"
  by (induction caps) auto

lemma args_loop_lines:
  "args_loop step a (map (\<lambda>l. Line (Data (l @ [NL]))) ls @ Line Flush # p) =
     bindR (foldR step a ls) (\<lambda>r. Inr (r, p))"
  by (induction ls arbitrary: a) (auto simp: bindR_def split: sum.split)

lemma foldR_wants:
  "object_id H \<Longrightarrow> length (fa_want a) + length xs \<le> max_wants lim \<Longrightarrow>
   foldR (fetch_arg H lim) a (map (\<lambda>x. arg_line ''want '' (to_hex H x)) xs) =
     Inr (a\<lparr> fa_want := fa_want a @ xs \<rparr>)"
  by (induction xs arbitrary: a)
     (auto simp: arg_line_def fetch_arg_def push_want_def check_limit_def object_id.from_to_hex)

lemma foldR_haves:
  "object_id H \<Longrightarrow> length (fa_have a) + length xs \<le> max_haves lim \<Longrightarrow>
   foldR (fetch_arg H lim) a (map (\<lambda>x. arg_line ''have '' (to_hex H x)) xs) =
     Inr (a\<lparr> fa_have := fa_have a @ xs \<rparr>)"
  by (induction xs arbitrary: a)
     (auto simp: arg_line_def fetch_arg_def push_have_def check_limit_def object_id.from_to_hex)

lemma foldR_want_refs:
  "list_all utf8_valid rs \<Longrightarrow> length (fa_want_refs a) + length rs \<le> max_want_refs lim \<Longrightarrow>
   foldR (fetch_arg H lim) a (map (\<lambda>r. arg_line ''want-ref '' r) rs) =
     Inr (a\<lparr> fa_want_refs := fa_want_refs a @ rs \<rparr>)"
  by (induction rs arbitrary: a) (auto simp: arg_line_def fetch_arg_def check_limit_def from_utf8_def)

lemma parse_deepen_show: "0 < n \<Longrightarrow> n \<le> u32_max \<Longrightarrow> parse_deepen (show_nat n) = Inr n"
  by (simp add: parse_deepen_def from_utf8_def utf8_valid_ascii parse_unsigned_show_nat)

lemma fetch_arg_flags:
  "fetch_arg H lim a ''thin-pack'' = Inr (a\<lparr> fa_thin_pack := True \<rparr>)"
  "fetch_arg H lim a ''no-progress'' = Inr (a\<lparr> fa_no_progress := True \<rparr>)"
  "fetch_arg H lim a ''include-tag'' = Inr (a\<lparr> fa_include_tag := True \<rparr>)"
  "fetch_arg H lim a ''ofs-delta'' = Inr (a\<lparr> fa_ofs_delta := True \<rparr>)"
  "fetch_arg H lim a ''wait-for-done'' = Inr (a\<lparr> fa_wait_for_done := True \<rparr>)"
  "fetch_arg H lim a ''done'' = Inr (a\<lparr> fa_done := True \<rparr>)"
  by (simp_all add: fetch_arg_def fetch_flag_def starts_with_def)

lemma fetch_arg_values:
  "0 < n \<Longrightarrow> n \<le> u32_max \<Longrightarrow>
   fetch_arg H lim a (arg_line ''deepen '' (show_nat n)) = Inr (a\<lparr> fa_deepen := Some n \<rparr>)"
  "utf8_valid f \<Longrightarrow> fetch_arg H lim a (arg_line ''filter '' f) = Inr (a\<lparr> fa_filter := Some f \<rparr>)"
  by (simp_all add: arg_line_def fetch_arg_def parse_deepen_show from_utf8_def)

lemma foldR_flag_lines:
  assumes "case fa_deepen a of None \<Rightarrow> True | Some n \<Rightarrow> 0 < n \<and> n \<le> u32_max"
    and "case fa_filter a of None \<Rightarrow> True | Some f \<Rightarrow> utf8_valid f"
  shows "foldR (fetch_arg H lim)
           (fetch_init\<lparr> fa_want := fa_want a, fa_have := fa_have a, fa_want_refs := fa_want_refs a \<rparr>)
           (flag_lines a) = Inr a"
proof -
  obtain w r h d t n i f wd dp fl where a: "a = \<lparr> fa_want = w, fa_want_refs = r, fa_have = h,
      fa_done = d, fa_thin_pack = t, fa_no_progress = n, fa_include_tag = i, fa_ofs_delta = f,
      fa_wait_for_done = wd, fa_deepen = dp, fa_filter = fl \<rparr>"
    by (cases a)
  show ?thesis
    using assms
    by (cases d; cases t; cases n; cases i; cases f; cases wd; cases dp; cases fl)
       (simp_all only: a flag_lines_def fetch_init_def fetch_args.simps fetch_arg_flags
          fetch_arg_values foldR.simps bindR_simps if_True if_False option.simps append.simps simp_thms)
qed

lemma read_fetch_request:
  assumes H: "object_id H" and wf: "fetch_wf lim a"
  shows "read_fetch_args H lim (fetch_request H caps a @ rest) = Inr (a, rest)"
proof -
  have "foldR (fetch_arg H lim) fetch_init (fetch_lines H a) = Inr a"
    using wf foldR_flag_lines [of a H lim]
    by (simp add: fetch_lines_def foldR_append fetch_wf_def foldR_wants [OF H] foldR_haves [OF H]
        foldR_want_refs fetch_init_def)
  then show ?thesis
    by (simp add: read_fetch_args_def fetch_request_def skip_till_delimiter_caps args_loop_lines)
qed

section \<open>Properties\<close>

text \<open>
  A fetch request written by a client is read back as the arguments it was written from, for
  any capability lines before the delimiter; the parser stops right behind the flush packet.
\<close>

theorem fetch_request_roundtrip:
  assumes "object_id H" and "fetch_wf lim a"
  shows "read_fetch_args H lim (fetch_request H caps a @ rest) = Inr (a, rest)"
  using assms by (rule read_fetch_request)

definition demo_fetch :: "sha1 fetch_args" where
  "demo_fetch = fetch_init\<lparr> fa_want := [1], fa_have := [2, 3], fa_done := True, fa_deepen := Some 5 \<rparr>"

theorem fetch_request_roundtrip_witness:
  "fetch_wf default_limits demo_fetch \<and>
   read_fetch_args sha1_ops default_limits (fetch_request sha1_ops [''agent=git''] demo_fetch @ [Line Flush])
     = Inr (demo_fetch, [Line Flush])"
proof -
  have "fetch_wf default_limits demo_fetch"
    by (simp add: fetch_wf_def demo_fetch_def fetch_init_def default_limits_def u32_max_def)
  then show ?thesis using fetch_request_roundtrip [OF sha1.object_id_axioms] by blast
qed

text \<open>
  C40. Every fetch request that is accepted, in either protocol version, respects the configured
  limits; its ref names and filter are UTF-8 and its depth is a positive 32-bit number.
\<close>

theorem fetch_args_limits:
  "(read_fetch_args H lim p = Inr (a, p') \<longrightarrow> fetch_wf lim a) \<and>
   (read_fetch_args_v1 H lim p = Inr b \<longrightarrow> fetch_wf lim b)"
  using read_fetch_args_wf read_fetch_args_v1_wf by blast

theorem fetch_args_limits_witness:
  "read_fetch_args_v1 sha1_ops default_limits [Line Flush] = Inr (fetch_init :: sha1 fetch_args) \<and>
   fetch_wf default_limits (fetch_init :: sha1 fetch_args)"
  using fetch_args_limits [of sha1_ops default_limits "[Line Flush]" _ _ fetch_init]
  by (simp add: read_fetch_args_v1_def set_done_def)

end
