(* ===== verification/Receive_Request.thy ===== *)
theory Receive_Request
  imports Wire_Protocol
begin

text \<open>
  \<open>mizzle-proto/src/receive.rs\<close> and \<open>types.rs\<close>: the ref-update commands at the head of a
  receive-pack request, the preliminary classification of an update, and the pack header.

  The request body is an \<open>AsyncRead\<close>, here the bytes still to be read; \<open>read_exact\<close> fails
  when fewer bytes are left than asked for.  What the parser returns of it is the rest, the
  packfile.
\<close>

section \<open>Updates and their kind\<close>

datatype push_kind = Create | Delete | FastForward | ForcePush

record 'o ref_update =
  old_oid :: 'o
  new_oid :: 'o
  refname :: bytes

definition preliminary_push_kind :: "'o oid_ops \<Rightarrow> 'o ref_update \<Rightarrow> push_kind" where
  "preliminary_push_kind H u =
     (if is_null H (old_oid u) then Create
      else if is_null H (new_oid u) then Delete
      else FastForward)"

section \<open>Reading the commands\<close>

definition read_exact :: "nat \<Rightarrow> bytes \<Rightarrow> (bytes \<times> bytes) res" where
  "read_exact n body =
     (if n \<le> length body then Inr (take n body, drop n body) else Inl (Ext ''unexpected eof''))"

definition usize_max :: nat where "usize_max = 18446744073709551615"

text \<open>One command line: \<open><old-oid> <new-oid> <refname>\<close>; a line with fewer parts is skipped.\<close>

definition parse_command_line :: "'o oid_ops \<Rightarrow> bytes \<Rightarrow> 'o ref_update option res" where
  "parse_command_line H line =
     (case splitn 3 SP line of
        [old_hex, new_hex, name] \<Rightarrow>
          bindR (from_hex H old_hex) (\<lambda>old.
          bindR (from_hex H new_hex) (\<lambda>new.
          bindR (from_utf8 name) (\<lambda>r.
            Inr (Some \<lparr> old_oid = old, new_oid = new, refname = r \<rparr>))))
      | _ \<Rightarrow> Inr None)"

definition push_update ::
  "protocol_limits \<Rightarrow> 'o ref_update list \<Rightarrow> 'o ref_update option \<Rightarrow> 'o ref_update list res" where
  "push_update lim acc up =
     (case up of
        None \<Rightarrow> Inr acc
      | Some u \<Rightarrow>
          let acc' = acc @ [u]
          in bindR (check_limit (length acc') (max_ref_updates lim) ''ref updates'') (\<lambda>_. Inr acc'))"

text \<open>Capabilities follow a NUL on the first line only.\<close>

definition command_text :: "bool \<Rightarrow> bytes \<Rightarrow> bytes" where
  "command_text first data = (if first then takeWhile (\<lambda>b. b \<noteq> NUL) data else data)"

function recv_loop ::
  "'o oid_ops \<Rightarrow> protocol_limits \<Rightarrow> bool \<Rightarrow> 'o ref_update list \<Rightarrow> bytes
     \<Rightarrow> ('o ref_update list \<times> bytes) res" where
  "recv_loop H lim first acc body =
     bindR (read_exact 4 body) (\<lambda>(len_buf, body1).
     bindR (from_utf8 len_buf) (\<lambda>len_str.
     bindR (of_option (Ext ''invalid length'') (parse_unsigned 16 usize_max len_str)) (\<lambda>len.
       if len = 0 then Inr (acc, body1)
       else if len < 4 then Inl (Bail ''invalid pkt-line length'')
       else bindR (read_exact (len - 4) body1) (\<lambda>(data, body2).
            bindR (parse_command_line H (command_text first (chomp data))) (\<lambda>up.
            bindR (push_update lim acc up) (\<lambda>acc'.
              recv_loop H lim False acc' body2))))))"
  by pat_completeness auto
termination
  by (relation "measure (\<lambda>(H, lim, first, acc, body). length body)")
     (auto simp: read_exact_def split: if_splits)

declare recv_loop.simps [simp del]

definition read_receive_request ::
  "'o oid_ops \<Rightarrow> protocol_limits \<Rightarrow> bytes \<Rightarrow> ('o ref_update list \<times> bytes) res" where
  "read_receive_request H lim body = recv_loop H lim True [] body"

definition pack_object_count :: "bytes \<Rightarrow> nat option" where
  "pack_object_count data =
     (if 12 \<le> length data \<and> take 4 data = ''PACK'' then Some (be_val (take 4 (drop 8 data)))
      else None)"

section \<open>Bounds\<close>

lemma push_update_bound:
  "push_update lim acc up = Inr acc' \<Longrightarrow> length acc \<le> max_ref_updates lim \<Longrightarrow>
   length acc' \<le> max_ref_updates lim"
  by (auto simp: push_update_def Let_def res_simps split: option.splits)

lemma recv_loop_step:
  assumes "recv_loop H lim first acc body = Inr r"
  obtains (flush) "r = (acc, drop 4 body)" "4 \<le> length body"
  | (command) data body2 up acc' where
      "parse_command_line H (command_text first (chomp data)) = Inr up"
      "push_update lim acc up = Inr acc'" "recv_loop H lim False acc' body2 = Inr r"
      "length body2 < length body" "suffix body2 body"
  using assms unfolding recv_loop.simps [of H lim first acc body]
  by (auto simp: res_simps read_exact_def suffix_drop split: if_splits intro: flush command)

lemma recv_loop_invariant:
  assumes "recv_loop H lim first acc body = Inr (us, rest)" and "P acc"
    and step: "\<And>acc l up acc'. P acc \<Longrightarrow> parse_command_line H l = Inr up \<Longrightarrow>
      push_update lim acc up = Inr acc' \<Longrightarrow> P acc'"
  shows "P us \<and> suffix rest body"
  using assms(1,2)
proof (induction "length body" arbitrary: first acc body rule: less_induct)
  case less
  from less.prems(1) show ?case
  proof (cases rule: recv_loop_step)
    case flush
    with less.prems show ?thesis by (simp add: suffix_drop)
  next
    case (command data body2 up acc')
    then have "P acc'" using step less.prems(2) by blast
    with less.hyps command(3,4) have "P us \<and> suffix rest body2" by blast
    with command(5) show ?thesis by (blast intro: suffix_order.trans)
  qed
qed

definition updates_ok :: "protocol_limits \<Rightarrow> 'o ref_update list \<Rightarrow> bool" where
  "updates_ok lim us \<longleftrightarrow>
     length us \<le> max_ref_updates lim \<and> list_all (\<lambda>u. utf8_valid (refname u)) us"

lemma push_update_ok:
  assumes "updates_ok lim acc" "parse_command_line H l = Inr up" "push_update lim acc up = Inr acc'"
  shows "updates_ok lim acc'"
  using assms
  by (auto simp: parse_command_line_def push_update_def Let_def res_simps updates_ok_def
      split: option.splits list.splits)

lemma read_receive_request_ok:
  assumes "read_receive_request H lim body = Inr (us, pack)"
  shows "updates_ok lim us \<and> suffix pack body"
  using assms unfolding read_receive_request_def
  by (rule recv_loop_invariant) (auto simp: updates_ok_def [of _ "[]"] intro: push_update_ok)

section \<open>Reading back a push\<close>

text \<open>The request a client sends: pkt-lines with a four-digit length, a flush, and the pack.\<close>

definition pkt_line :: "bytes \<Rightarrow> bytes" where
  "pkt_line s = hex_digits 4 (length s + 4) @ s"

definition command_line :: "'o oid_ops \<Rightarrow> 'o ref_update \<Rightarrow> bytes" where
  "command_line H u = to_hex H (old_oid u) @ SP # to_hex H (new_oid u) @ SP # refname u"

definition push_request :: "'o oid_ops \<Rightarrow> bytes \<Rightarrow> 'o ref_update list \<Rightarrow> bytes \<Rightarrow> bytes" where
  "push_request H caps us pack =
     (case us of
        [] \<Rightarrow> []
      | u # rest \<Rightarrow> pkt_line (command_line H u @ NUL # caps @ [NL]) @
                    concat (map (\<lambda>u. pkt_line (command_line H u @ [NL])) rest)) @
     ''0000'' @ pack"

text \<open>What the client has to respect: lines fit a pkt-line, names are UTF-8 without a NUL.\<close>

definition sendable :: "bytes \<Rightarrow> 'o ref_update \<Rightarrow> bool" where
  "sendable caps u \<longleftrightarrow>
     utf8_valid (refname u) \<and> NUL \<notin> set (refname u) \<and>
     length (refname u) + length caps < 65448"

lemma hex_digits_ascii: "ascii (hex_digits k n)"
proof -
  have "of_char c < (128 :: nat)" if "c \<in> set (hex_digits k n)" for c
    using that hex_digits_lower [of k n]
    by (auto simp: list_all_iff hex_lower_def in_range_def Let_def)
  then show ?thesis by (simp add: ascii_def list_all_iff)
qed

lemma parse_hex_length: "n < 65536 \<Longrightarrow> parse_unsigned 16 usize_max (hex_digits 4 n) = Some n"
proof -
  assume n: "n < 65536"
  obtain c cs where hd: "hex_digits 4 n = c # cs"
    by (metis length_hex_digits list.size(3) neq_Nil_conv zero_neq_numeral)
  then have "hex_lower c" using hex_digits_lower [of 4 n] by simp
  then have "c \<noteq> CHR ''+''" by (auto simp: hex_lower_def in_range_def)
  moreover have "digits_val 16 0 (hex_digits 4 n) = Some n"
    using n digits_val_hex_digits [of 0 4 n] by simp
  ultimately show ?thesis using n hd by (simp add: parse_unsigned_def usize_max_def)
qed

lemma recv_loop_pkt_line:
  assumes "length s < 65532"
  shows "recv_loop H lim first acc (pkt_line s @ body) =
     bindR (parse_command_line H (command_text first (chomp s))) (\<lambda>up.
     bindR (push_update lim acc up) (\<lambda>acc'. recv_loop H lim False acc' body))"
proof -
  have "read_exact 4 (pkt_line s @ body) = Inr (hex_digits 4 (length s + 4), s @ body)"
    by (simp add: read_exact_def pkt_line_def)
  moreover have "read_exact (length s) (s @ body) = Inr (s, body)" by (simp add: read_exact_def)
  ultimately show ?thesis
    using assms
    by (subst recv_loop.simps)
       (simp add: from_utf8_def utf8_valid_ascii hex_digits_ascii parse_hex_length)
qed

lemma recv_loop_flush: "recv_loop H lim first acc (''0000'' @ pack) = Inr (acc, pack)"
  by (subst recv_loop.simps)
     (simp add: read_exact_def from_utf8_def in_range_def parse_unsigned_def to_digit_def)

lemma parse_command_line_command:
  "object_id H \<Longrightarrow> utf8_valid (refname u) \<Longrightarrow>
   parse_command_line H (command_line H u) = Inr (Some u)"
  by (simp add: parse_command_line_def command_line_def splitn_3 object_id.to_hex_no_ctrl
      object_id.from_to_hex from_utf8_def)

lemma command_text_caps:
  "object_id H \<Longrightarrow> NUL \<notin> set (refname u) \<Longrightarrow>
   command_text True (command_line H u @ NUL # caps) = command_line H u"
proof -
  assume "object_id H" "NUL \<notin> set (refname u)"
  moreover have "SP \<noteq> NUL" by (simp add: ascii_defs)
  ultimately have "NUL \<notin> set (command_line H u)"
    by (auto simp: command_line_def object_id.to_hex_no_ctrl)
  then show ?thesis by (simp add: command_text_def takeWhile_neq_append)
qed

lemma recv_loop_commands:
  assumes H: "object_id H" and "list_all (sendable caps) us"
    and "length acc + length us \<le> max_ref_updates lim"
  shows "recv_loop H lim False acc
           (concat (map (\<lambda>u. pkt_line (command_line H u @ [NL])) us) @ ''0000'' @ pack) =
         Inr (acc @ us, pack)"
  using assms(2,3)
proof (induction us arbitrary: acc)
  case Nil
  then show ?case using recv_loop_flush [of H lim False acc pack] by simp
next
  case (Cons u us)
  then have "length (command_line H u @ [NL]) < 65532"
    by (simp add: sendable_def command_line_def object_id.length_to_hex [OF H])
  moreover have "push_update lim acc (Some u) = Inr (acc @ [u])"
    using Cons.prems by (simp add: push_update_def check_limit_def)
  ultimately show ?case
    using Cons
    by (simp add: recv_loop_pkt_line command_text_def sendable_def parse_command_line_command [OF H])
qed

lemma read_push_request:
  assumes H: "object_id H" and s: "list_all (sendable caps) us"
    and "length us \<le> max_ref_updates lim"
  shows "read_receive_request H lim (push_request H caps us pack) = Inr (us, pack)"
proof (cases us)
  case Nil
  then show ?thesis
    using recv_loop_flush [of H lim True "[]" pack]
    by (simp add: read_receive_request_def push_request_def)
next
  case (Cons u rest)
  let ?l = "command_line H u @ NUL # caps"
  have "length (?l @ [NL]) < 65532"
    using s Cons by (simp add: sendable_def command_line_def object_id.length_to_hex [OF H])
  note first = recv_loop_pkt_line [OF this, of H lim True "[]", unfolded chomp_snoc]
  have "push_update lim [] (Some u) = Inr [u]"
    using assms Cons by (simp add: push_update_def check_limit_def)
  then show ?thesis
    using assms Cons first recv_loop_commands [OF H, of caps rest "[u]" lim pack]
    by (simp add: read_receive_request_def push_request_def sendable_def command_text_caps [OF H]
        parse_command_line_command [OF H])
qed

section \<open>Properties\<close>

text \<open>
  C29. A push request written by a client is read back exactly: the same updates in the same
  order, the capabilities of the first line dropped, and the reader left at the first byte of the
  pack, of which nothing is consumed.
\<close>

theorem push_request_roundtrip:
  assumes "object_id H" and "list_all (sendable caps) us" and "length us \<le> max_ref_updates lim"
  shows "read_receive_request H lim (push_request H caps us pack) = Inr (us, pack)"
  using assms by (rule read_push_request)

definition demo_push :: "sha1 ref_update list" where
  "demo_push = [\<lparr> old_oid = 0, new_oid = 5, refname = ''refs/heads/main'' \<rparr>,
                \<lparr> old_oid = 7, new_oid = 0, refname = ''refs/heads/old'' \<rparr>]"

theorem push_request_roundtrip_witness:
  "read_receive_request sha1_ops default_limits (push_request sha1_ops ''report-status'' demo_push ''PACK'') =
     Inr (demo_push, ''PACK'')"
  by (rule push_request_roundtrip [OF sha1.object_id_axioms])
     (simp_all add: demo_push_def sendable_def in_range_def NUL_def default_limits_def)

text \<open>
  Whatever the bytes of the request, the updates accepted are at most as many as configured
  and have UTF-8 names, and the rest handed on as the pack is a suffix of the request.
\<close>

theorem receive_request_limits:
  assumes "read_receive_request H lim body = Inr (us, pack)"
  shows "length us \<le> max_ref_updates lim \<and> list_all (\<lambda>u. utf8_valid (refname u)) us \<and> suffix pack body"
  using read_receive_request_ok [OF assms] by (simp add: updates_ok_def)

theorem receive_request_limits_witness:
  "read_receive_request sha1_ops default_limits ''0000PACK'' = Inr ([], ''PACK'') \<and>
   suffix ''PACK'' ''0000PACK''"
proof -
  have "read_receive_request sha1_ops default_limits ''0000PACK'' = Inr ([], ''PACK'')"
    using read_push_request [OF sha1.object_id_axioms, of "[]" "[]" default_limits "''PACK''"]
    by (simp add: push_request_def)
  then show ?thesis using receive_request_limits by blast
qed

end
