(* ===== verification/LFS_Protocol.thy ===== *)
theory LFS_Protocol
  imports Object_Ids
begin

text \<open>
  \<open>mizzle-proto/src/lfs.rs\<close>: LFS object ids with their text forms, the batch API's request and
  response types, and the pointer blobs that stand for large files in a repository.

  An \<open>LfsOid\<close> wraps 32 bytes; here it is a byte string and \<open>lfs_oid_ok\<close> states its length.
  JSON itself is serde's; what the file adds to it, the textual form of an id, is modelled.
\<close>

section \<open>LFS object ids\<close>

type_synonym lfs_oid = bytes

definition lfs_oid_ok :: "lfs_oid \<Rightarrow> bool" where
  "lfs_oid_ok x \<longleftrightarrow> length x = 32"

definition hex_byte :: "byte \<Rightarrow> bytes" where
  "hex_byte b = [digit_char (of_char b div 16), digit_char (of_char b mod 16)]"

definition lfs_to_hex :: "lfs_oid \<Rightarrow> bytes" where
  "lfs_to_hex x = concat (map hex_byte x)"

definition sha256_tag :: bytes where "sha256_tag = ''sha256:''"

definition lfs_display :: "lfs_oid \<Rightarrow> bytes" where
  "lfs_display x = sha256_tag @ lfs_to_hex x"

definition hex_nibble :: "byte \<Rightarrow> nat res" where
  "hex_nibble b =
     (if in_range 48 57 b then Inr (of_char b - 48)
      else if in_range 97 102 b then Inr (of_char b - 97 + 10)
      else if in_range 65 70 b then Inr (of_char b - 65 + 10)
      else Inl (Bail (''invalid hex digit: '' @ debug_char b)))"

text \<open>The loop over \<open>hex.as_bytes().chunks(2)\<close>; two nibbles never overlap, so \<open>|\<close> adds.\<close>

fun hex_pairs :: "bytes \<Rightarrow> bytes res" where
  "hex_pairs (h # l # rest) =
     bindR (hex_nibble h) (\<lambda>hi.
     bindR (hex_nibble l) (\<lambda>lo.
     bindR (hex_pairs rest) (\<lambda>bs. Inr (char_of (hi * 16 + lo) # bs))))"
| "hex_pairs _ = Inr []"

definition lfs_from_str :: "bytes \<Rightarrow> lfs_oid res" where
  "lfs_from_str s =
     bindR (of_option (Bail (''LfsOid must start with '' @ [CHR 0x27] @ sha256_tag @ [CHR 0x27] @ '', got: '' @ debug_str s)) (strip_prefix sha256_tag s)) (\<lambda>hex.
       if length hex \<noteq> 64 then Inl (Bail (''LfsOid hex part must be 64 chars, got '' @ show_nat (length hex)))
       else hex_pairs hex)"

text \<open>The serde forms: written without the tag, read with or without it.\<close>

definition lfs_serialize :: "lfs_oid \<Rightarrow> bytes" where
  "lfs_serialize x = lfs_to_hex x"

definition lfs_deserialize :: "bytes \<Rightarrow> lfs_oid res" where
  "lfs_deserialize s =
     lfs_from_str (if starts_with s sha256_tag then s else sha256_tag @ s)"

section \<open>Batch API types\<close>

datatype operation = Download | Upload

record batch_request_object =
  bro_oid :: lfs_oid
  bro_size :: nat

record batch_request =
  br_operation :: operation
  br_transfers :: "bytes list"
  br_objects :: "batch_request_object list"
  br_ref :: "bytes option"

record batch_action_detail =
  ad_href :: bytes
  ad_header :: "(bytes \<times> bytes) list"
  ad_expires_in :: "nat option"

record batch_object_actions =
  act_download :: "batch_action_detail option"
  act_upload :: "batch_action_detail option"
  act_verify :: "batch_action_detail option"

record batch_object_error =
  err_code :: nat
  err_message :: bytes

record batch_response_object =
  bo_oid :: lfs_oid
  bo_size :: nat
  bo_actions :: "batch_object_actions option"
  bo_error :: "batch_object_error option"

record batch_response =
  bresp_transfer :: bytes
  bresp_objects :: "batch_response_object list"

section \<open>Pointer blobs\<close>

record lfs_pointer =
  ptr_oid :: lfs_oid
  ptr_size :: nat

definition version_line :: bytes where
  "version_line = ''version https://git-lfs.github.com/spec/v1''"

definition oid_key :: bytes where "oid_key = ''oid ''"
definition size_key :: bytes where "size_key = ''size ''"

definition res_ok :: "'a res \<Rightarrow> 'a option" where
  "res_ok r = (case r of Inl _ \<Rightarrow> None | Inr x \<Rightarrow> Some x)"

definition pointer_line ::
  "lfs_oid option \<times> nat option \<Rightarrow> bytes \<Rightarrow> lfs_oid option \<times> nat option" where
  "pointer_line st line =
     (case strip_prefix oid_key line of
        Some rest \<Rightarrow> (res_ok (lfs_from_str rest), snd st)
      | None \<Rightarrow>
     (case strip_prefix size_key line of
        Some rest \<Rightarrow> (fst st, parse_unsigned 10 u64_max rest)
      | None \<Rightarrow> st))"

definition parse_pointer :: "bytes \<Rightarrow> lfs_pointer option" where
  "parse_pointer blob =
     (if \<not> utf8_valid blob then None
      else case str_lines blob of
             [] \<Rightarrow> None
           | first # rest \<Rightarrow>
               if first \<noteq> version_line then None
               else (case foldl pointer_line (None, None) rest of
                       (Some x, Some n) \<Rightarrow> Some \<lparr> ptr_oid = x, ptr_size = n \<rparr>
                     | _ \<Rightarrow> None))"

definition write_pointer :: "lfs_pointer \<Rightarrow> bytes" where
  "write_pointer p =
     version_line @ NL # oid_key @ lfs_display (ptr_oid p) @ NL #
     size_key @ show_nat (ptr_size p) @ [NL]"

section \<open>Correctness\<close>

lemma hex_nibble_digit_char: "d < 16 \<Longrightarrow> hex_nibble (digit_char d) = Inr d"
  by (auto simp: hex_nibble_def in_range_def digit_char_def)

lemma hex_nibble_less: "hex_nibble b = Inr d \<Longrightarrow> d < 16"
  by (auto simp: hex_nibble_def in_range_def Let_def split: if_splits)

lemma length_lfs_to_hex [simp]: "length (lfs_to_hex x) = 2 * length x"
  by (induction x) (auto simp: lfs_to_hex_def hex_byte_def)

lemma hex_pairs_to_hex: "hex_pairs (lfs_to_hex x) = Inr x"
proof (induction x)
  case Nil
  then show ?case by (simp add: lfs_to_hex_def)
next
  case (Cons b x)
  have "(of_char b :: nat) div 16 < 16" using less_mult_imp_div_less [of "of_char b" 16 16] by simp
  then show ?case
    using Cons by (simp add: lfs_to_hex_def hex_byte_def hex_nibble_digit_char)
qed

lemma length_hex_pairs: "hex_pairs s = Inr x \<Longrightarrow> length x = length s div 2"
  by (induction s arbitrary: x rule: hex_pairs.induct) (auto simp: res_simps)

lemma lfs_from_str_display: "lfs_oid_ok x \<Longrightarrow> lfs_from_str (lfs_display x) = Inr x"
  by (simp add: lfs_from_str_def lfs_display_def hex_pairs_to_hex lfs_oid_ok_def)

lemma lfs_from_str_ok: "lfs_from_str s = Inr x \<Longrightarrow> lfs_oid_ok x"
  by (auto simp: lfs_from_str_def res_simps lfs_oid_ok_def dest: length_hex_pairs split: if_splits)

lemma lfs_to_hex_graphic: "c \<in> set (lfs_to_hex x) \<Longrightarrow> hex_lower c"
  using less_mult_imp_div_less [of _ 16 16]
  by (auto simp: lfs_to_hex_def hex_byte_def intro!: hex_lower_digit_char)

lemma hex_lower_range: "hex_lower c \<Longrightarrow> 48 \<le> (of_char c :: nat) \<and> (of_char c :: nat) \<le> 102"
  by (auto simp: hex_lower_def in_range_def Let_def)

lemma lfs_display_graphic:
  "c \<in> set (lfs_display x) \<Longrightarrow> 48 \<le> (of_char c :: nat) \<and> (of_char c :: nat) < 128"
  using hex_lower_range [of c] lfs_to_hex_graphic [of c x]
  by (auto simp: lfs_display_def sha256_tag_def)

lemma lfs_deserialize_hex: "lfs_oid_ok x \<Longrightarrow> lfs_deserialize (lfs_to_hex x) = Inr x"
proof -
  assume ok: "lfs_oid_ok x"
  have "\<not> starts_with (lfs_to_hex x) sha256_tag"
  proof
    assume "starts_with (lfs_to_hex x) sha256_tag"
    then have "CHR ''s'' \<in> set (lfs_to_hex x)"
      by (auto simp: starts_with_iff prefix_def sha256_tag_def)
    then show False using lfs_to_hex_graphic hex_lower_range by force
  qed
  then show ?thesis
    using ok lfs_from_str_display [of x] by (simp add: lfs_deserialize_def lfs_display_def)
qed

lemma lfs_deserialize_display: "lfs_oid_ok x \<Longrightarrow> lfs_deserialize (lfs_display x) = Inr x"
  using lfs_from_str_display [of x]
  by (simp add: lfs_deserialize_def starts_with_def lfs_display_def)

subsection \<open>Pointers\<close>

lemma graphic_line:
  assumes "\<And>c. c \<in> set l \<Longrightarrow> 32 \<le> (of_char c :: nat)"
  shows "NL \<notin> set l" "l = [] \<or> last l \<noteq> CR"
proof -
  show "NL \<notin> set l" using assms [of NL] by (auto simp: ascii_defs)
  have "CR \<notin> set l" using assms [of CR] by (auto simp: ascii_defs)
  then show "l = [] \<or> last l \<noteq> CR" using last_in_set by metis
qed

lemma pointer_lines_graphic:
  "c \<in> set version_line \<Longrightarrow> 32 \<le> (of_char c :: nat)"
  "c \<in> set (oid_key @ lfs_display x) \<Longrightarrow> 32 \<le> (of_char c :: nat)"
  "c \<in> set (size_key @ show_nat n) \<Longrightarrow> 32 \<le> (of_char c :: nat)"
  using lfs_display_graphic [of c x] show_nat_graphic [of c n]
  by (auto simp: version_line_def oid_key_def size_key_def)

lemma str_lines_write_pointer:
  "str_lines (write_pointer p) =
     [version_line, oid_key @ lfs_display (ptr_oid p), size_key @ show_nat (ptr_size p)]"
proof -
  have "write_pointer p = version_line @ NL # (oid_key @ lfs_display (ptr_oid p)) @ NL #
          (size_key @ show_nat (ptr_size p)) @ NL # []"
    by (simp add: write_pointer_def)
  moreover note v = graphic_line [OF pointer_lines_graphic(1)]
  moreover note x = graphic_line [OF pointer_lines_graphic(2) [of _ "ptr_oid p"]]
  moreover note n = graphic_line [OF pointer_lines_graphic(3) [of _ "ptr_size p"]]
  ultimately show ?thesis
    by (simp only: str_lines_line [OF v] str_lines_line [OF x] str_lines_line [OF n] str_lines_Nil)
qed

lemma utf8_valid_write_pointer: "utf8_valid (write_pointer p)"
proof -
  have "ascii (lfs_display (ptr_oid p))"
    using lfs_display_graphic by (auto simp: ascii_def list_all_iff)
  then have "ascii (write_pointer p)"
    by (simp add: write_pointer_def version_line_def oid_key_def size_key_def ascii_defs)
  then show ?thesis by (rule utf8_valid_ascii)
qed

lemma pointer_line_oid: "pointer_line st (oid_key @ s) = (res_ok (lfs_from_str s), snd st)"
  by (simp add: pointer_line_def)

lemma pointer_line_size: "pointer_line st (size_key @ s) = (fst st, parse_unsigned 10 u64_max s)"
proof -
  have "strip_prefix oid_key (size_key @ s) = None" by (simp add: oid_key_def size_key_def)
  then show ?thesis by (simp add: pointer_line_def)
qed

lemma parse_write_pointer:
  assumes "lfs_oid_ok (ptr_oid p)" "ptr_size p \<le> u64_max"
  shows "parse_pointer (write_pointer p) = Some p"
  using assms
  by (simp add: parse_pointer_def utf8_valid_write_pointer str_lines_write_pointer pointer_line_oid
      pointer_line_size lfs_from_str_display res_ok_def parse_unsigned_show_nat)

definition pointer_ok :: "lfs_pointer \<Rightarrow> bool" where
  "pointer_ok p \<longleftrightarrow> lfs_oid_ok (ptr_oid p) \<and> ptr_size p \<le> u64_max"

lemma pointer_line_fold:
  "foldl pointer_line st ls = (Some x, Some n) \<Longrightarrow>
   (\<forall>y. fst st = Some y \<longrightarrow> lfs_oid_ok y) \<Longrightarrow> (\<forall>m. snd st = Some m \<longrightarrow> m \<le> u64_max) \<Longrightarrow>
   lfs_oid_ok x \<and> n \<le> u64_max"
proof (induction ls arbitrary: st)
  case Nil
  then show ?case by simp
next
  case (Cons l ls)
  have "(\<forall>y. fst (pointer_line st l) = Some y \<longrightarrow> lfs_oid_ok y) \<and>
        (\<forall>m. snd (pointer_line st l) = Some m \<longrightarrow> m \<le> u64_max)"
    using Cons.prems(2,3) lfs_from_str_ok parse_unsigned_bound
    by (auto simp: pointer_line_def res_ok_def split: option.splits sum.splits)
  then show ?case using Cons.IH Cons.prems(1) by simp
qed

lemma parse_pointer_ok: "parse_pointer b = Some p \<Longrightarrow> pointer_ok p"
proof -
  assume "parse_pointer b = Some p"
  then obtain ls x n where "foldl pointer_line (None, None) ls = (Some x, Some n)"
    and "p = \<lparr> ptr_oid = x, ptr_size = n \<rparr>"
    by (auto simp: parse_pointer_def split: if_splits list.splits option.splits prod.splits)
  then show ?thesis using pointer_line_fold [of "(None, None)" ls x n] by (simp add: pointer_ok_def)
qed

section \<open>Properties\<close>

text \<open>Parsing the canonical text of a pointer gives the pointer back.\<close>

theorem pointer_roundtrip:
  assumes "pointer_ok p"
  shows "parse_pointer (write_pointer p) = Some p"
  using assms parse_write_pointer by (simp add: pointer_ok_def)

definition demo_pointer :: lfs_pointer where
  "demo_pointer = \<lparr> ptr_oid = replicate 32 (CHR ''x''), ptr_size = 12345 \<rparr>"

theorem pointer_roundtrip_witness: "parse_pointer (write_pointer demo_pointer) = Some demo_pointer"
  by (rule pointer_roundtrip) (simp add: pointer_ok_def demo_pointer_def lfs_oid_ok_def u64_max_def)

text \<open>
  The three text forms of an LFS id are read back to it, and whatever is accepted as a
  pointer carries a 32-byte id and a 64-bit size.
\<close>

theorem lfs_oid_roundtrip:
  "(lfs_oid_ok x \<longrightarrow> lfs_from_str (lfs_display x) = Inr x \<and> lfs_deserialize (lfs_serialize x) = Inr x \<and>
     lfs_deserialize (lfs_display x) = Inr x) \<and>
   (parse_pointer b = Some p \<longrightarrow> pointer_ok p)"
  using lfs_from_str_display lfs_deserialize_hex lfs_deserialize_display parse_pointer_ok
  by (simp add: lfs_serialize_def)

theorem lfs_oid_roundtrip_witness:
  "lfs_from_str (lfs_display (replicate 32 (CHR ''a''))) = Inr (replicate 32 (CHR ''a''))"
  using lfs_oid_roundtrip [of "replicate 32 (CHR ''a'')"] by (simp add: lfs_oid_ok_def)

end
