(* ===== verification/Effects.thy ===== *)
theory Effects
  imports Mizzle_Prelude
begin

text \<open>
  Computations that may fail and change a state: the shape of every \<open>async fn\<close> of the
  backends, with \<open>?\<close> as \<open>bindA\<close>.  The state \<open>'s\<close> is whatever the code talks to (a database
  client, a repository on disk, an output stream) and the error type is a parameter, because
  the sources use more than one.  \<open>triple\<close> states what holds after success and after failure;
  its rules follow the structure of the code.
\<close>

type_synonym ('s, 'e, 'a) act = "'s \<Rightarrow> ('e + 'a) \<times> 's"

definition retA :: "'a \<Rightarrow> ('s, 'e, 'a) act" where
  "retA x s = (Inr x, s)"

definition failA :: "'e \<Rightarrow> ('s, 'e, 'a) act" where
  "failA e s = (Inl e, s)"

definition liftA :: "'e + 'a \<Rightarrow> ('s, 'e, 'a) act" where
  "liftA r s = (r, s)"

definition bindA :: "('s, 'e, 'a) act \<Rightarrow> ('a \<Rightarrow> ('s, 'e, 'b) act) \<Rightarrow> ('s, 'e, 'b) act" where
  "bindA m f s = (case m s of (Inl e, s') \<Rightarrow> (Inl e, s') | (Inr x, s') \<Rightarrow> f x s')"

definition map_errA :: "('e \<Rightarrow> 'f) \<Rightarrow> ('s, 'e, 'a) act \<Rightarrow> ('s, 'f, 'a) act" where
  "map_errA g m s = (case m s of (Inl e, s') \<Rightarrow> (Inl (g e), s') | (Inr x, s') \<Rightarrow> (Inr x, s'))"

definition ctxA :: "bytes \<Rightarrow> ('s, error, 'a) act \<Rightarrow> ('s, error, 'a) act" where
  "ctxA msg m = map_errA (Ctx msg) m"

text \<open>The body of an \<open>async\<close> block run to its end, its result handed to a finalizer.\<close>

definition finallyA :: "('s, 'e, 'a) act \<Rightarrow> ('e + 'a \<Rightarrow> ('s, 'e, 'a) act) \<Rightarrow> ('s, 'e, 'a) act" where
  "finallyA m fin s = (case m s of (r, s') \<Rightarrow> fin r s')"

fun foldA :: "('a \<Rightarrow> 'b \<Rightarrow> ('s, 'e, 'a) act) \<Rightarrow> 'a \<Rightarrow> 'b list \<Rightarrow> ('s, 'e, 'a) act" where
  "foldA f a [] = retA a"
| "foldA f a (x # xs) = bindA (f a x) (\<lambda>a'. foldA f a' xs)"

definition forA :: "'b list \<Rightarrow> ('b \<Rightarrow> ('s, 'e, unit) act) \<Rightarrow> ('s, 'e, unit) act" where
  "forA xs f = foldA (\<lambda>_ x. f x) () xs"

fun mapA :: "('b \<Rightarrow> ('s, 'e, 'c) act) \<Rightarrow> 'b list \<Rightarrow> ('s, 'e, 'c list) act" where
  "mapA f [] = retA []"
| "mapA f (x # xs) = bindA (f x) (\<lambda>y. bindA (mapA f xs) (\<lambda>ys. retA (y # ys)))"

lemma forA_simps [simp]:
  "forA [] f = retA ()" "forA (x # xs) f = bindA (f x) (\<lambda>_. forA xs f)"
  by (simp_all add: forA_def)

lemmas act_defs = retA_def failA_def liftA_def bindA_def map_errA_def ctxA_def finallyA_def

lemma bindA_cong [fundef_cong]:
  "m s = m' s' \<Longrightarrow> (\<And>x s1. m' s' = (Inr x, s1) \<Longrightarrow> f x s1 = g x s1) \<Longrightarrow> bindA m f s = bindA m' g s'"
  by (auto simp: bindA_def split: prod.split sum.split)

lemma bindA_Inr: "bindA m f s = (Inr y, t) \<longleftrightarrow> (\<exists>x s1. m s = (Inr x, s1) \<and> f x s1 = (Inr y, t))"
  by (auto simp: bindA_def split: prod.split sum.split)

lemma bindA_Inl:
  "bindA m f s = (Inl e, t) \<longleftrightarrow>
     m s = (Inl e, t) \<or> (\<exists>x s1. m s = (Inr x, s1) \<and> f x s1 = (Inl e, t))"
  by (auto simp: bindA_def split: prod.split sum.split)

lemma bindA_run:
  "m s = (Inr x, s1) \<Longrightarrow> bindA m f s = f x s1"
  "m s = (Inl e, s1) \<Longrightarrow> bindA m f s = (Inl e, s1)"
  by (simp_all add: bindA_def)

lemma act_run [simp]:
  "retA x s = (Inr x, s)" "failA e s = (Inl e, s)" "liftA r s = (r, s)"
  by (simp_all add: act_defs)

lemma act_Inr:
  "ctxA msg m s = (Inr x, t) \<longleftrightarrow> m s = (Inr x, t)"
  "map_errA g m' s = (Inr x, t) \<longleftrightarrow> m' s = (Inr x, t)"
  by (auto simp: act_defs split: prod.split sum.split)

section \<open>Triples\<close>

definition triple ::
  "('s \<Rightarrow> bool) \<Rightarrow> ('s, 'e, 'a) act \<Rightarrow> ('a \<Rightarrow> 's \<Rightarrow> bool) \<Rightarrow> ('e \<Rightarrow> 's \<Rightarrow> bool) \<Rightarrow> bool" where
  "triple P m Q E \<longleftrightarrow>
     (\<forall>s. P s \<longrightarrow> (case m s of (Inr x, t) \<Rightarrow> Q x t | (Inl e, t) \<Rightarrow> E e t))"

lemma tripleI:
  "(\<And>s x t. P s \<Longrightarrow> m s = (Inr x, t) \<Longrightarrow> Q x t) \<Longrightarrow> (\<And>s e t. P s \<Longrightarrow> m s = (Inl e, t) \<Longrightarrow> E e t) \<Longrightarrow>
   triple P m Q E"
  by (auto simp: triple_def split: prod.split sum.split)

lemma triple_Inr: "triple P m Q E \<Longrightarrow> P s \<Longrightarrow> m s = (Inr x, t) \<Longrightarrow> Q x t"
  by (force simp: triple_def)

lemma triple_Inl: "triple P m Q E \<Longrightarrow> P s \<Longrightarrow> m s = (Inl e, t) \<Longrightarrow> E e t"
  by (force simp: triple_def)

lemma triple_ret: "(\<And>s. P s \<Longrightarrow> Q x s) \<Longrightarrow> triple P (retA x) Q E"
  by (simp add: triple_def)

lemma triple_fail: "(\<And>s. P s \<Longrightarrow> E e s) \<Longrightarrow> triple P (failA e) Q E"
  by (simp add: triple_def)

lemma triple_lift:
  "(\<And>s x. P s \<Longrightarrow> r = Inr x \<Longrightarrow> Q x s) \<Longrightarrow> (\<And>s e. P s \<Longrightarrow> r = Inl e \<Longrightarrow> E e s) \<Longrightarrow>
   triple P (liftA r) Q E"
  by (cases r) (auto simp: triple_def)

lemma triple_bind:
  "triple P m R E \<Longrightarrow> (\<And>x. triple (R x) (f x) Q E) \<Longrightarrow> triple P (bindA m f) Q E"
  by (fastforce simp: triple_def bindA_def split: prod.split sum.split)

lemma triple_ctx: "triple P m Q (\<lambda>e. E (Ctx msg e)) \<Longrightarrow> triple P (ctxA msg m) Q E"
  by (auto simp: triple_def act_defs split: prod.split sum.split)

lemma triple_map_err: "triple P m Q (\<lambda>e. E (g e)) \<Longrightarrow> triple P (map_errA g m) Q E"
  by (auto simp: triple_def act_defs split: prod.split sum.split)

lemma triple_weaken:
  "triple P m Q E \<Longrightarrow> (\<And>s. P' s \<Longrightarrow> P s) \<Longrightarrow> (\<And>x s. Q x s \<Longrightarrow> Q' x s) \<Longrightarrow>
   (\<And>e s. E e s \<Longrightarrow> E' e s) \<Longrightarrow> triple P' m Q' E'"
  by (fastforce simp: triple_def split: prod.splits sum.splits)

lemma triple_for:
  assumes "\<And>xs x ys. us = xs @ x # ys \<Longrightarrow> triple (I xs) (f x) (\<lambda>_. I (xs @ [x])) E"
  shows "triple (I []) (forA us f) (\<lambda>_. I us) E"
proof -
  have "triple (I done) (forA rest f) (\<lambda>_. I us) E" if "us = done @ rest" for "done" rest
    using that
  proof (induction rest arbitrary: "done")
    case Nil
    then show ?case unfolding forA_simps by (intro triple_ret) simp
  next
    case (Cons x rest)
    have "triple (I done) (f x) (\<lambda>_. I (done @ [x])) E" using assms Cons.prems by blast
    moreover have "triple (I (done @ [x])) (forA rest f) (\<lambda>_. I us) E"
      using Cons.IH [of "done @ [x]"] Cons.prems by simp
    ultimately show ?case by (simp add: triple_bind)
  qed
  from this [of "[]" us] show ?thesis by simp
qed

lemma triple_mapA:
  "(\<And>x. x \<in> set xs \<Longrightarrow> triple P (f x) (\<lambda>_. P) E) \<Longrightarrow> triple P (mapA f xs) (\<lambda>_. P) E"
proof (induction xs)
  case (Cons x xs)
  then show ?case unfolding mapA.simps by (intro triple_bind [where R = "\<lambda>_. P"] triple_ret) auto
qed (simp add: triple_ret)

end
