(* ===== verification/KV_Client.thy ===== *)
theory KV_Client
  imports Effects "HOL-Library.AList"
begin

text \<open>
  The transactional key-value client (\<open>tikv-client\<close>, not part of this repository) as a record
  of functions, the laws the backend relies on as the locale \<open>kv_client\<close>, and
  \<open>backend/kv/txn.rs\<close>, which ends every transaction.

  The client state \<open>'s\<close> is the cluster together with the one transaction this process has open.
  Other clients may commit during any call, so the laws say nothing about a key of the store
  unless this transaction has locked it.  \<open>commits\<close> is the ghost log of the commits of this process
  that took effect: the store at that instant, and the write set applied to it.
\<close>

section \<open>The interface\<close>

record 's kv_api =
  begin_optimistic :: "('s, error, unit) act"
  begin_pessimistic :: "('s, error, unit) act"
  kv_get :: "bytes \<Rightarrow> ('s, error, bytes option) act"
  get_for_update :: "bytes \<Rightarrow> ('s, error, bytes option) act"
  key_exists :: "bytes \<Rightarrow> ('s, error, bool) act"
  batch_get :: "bytes list \<Rightarrow> ('s, error, (bytes \<times> bytes) list) act"
  kv_scan :: "bytes \<Rightarrow> bytes \<Rightarrow> nat \<Rightarrow> ('s, error, (bytes \<times> bytes) list) act"
  kv_put :: "bytes \<Rightarrow> bytes \<Rightarrow> ('s, error, unit) act"
  kv_delete :: "bytes \<Rightarrow> ('s, error, unit) act"
  kv_commit :: "('s, error, unit) act"
  kv_rollback :: "('s, error, unit) act"

section \<open>Ending a transaction (txn.rs)\<close>

definition finalize_write :: "'s kv_api \<Rightarrow> 'a res \<Rightarrow> ('s, error, 'a) act" where
  "finalize_write K result =
     (case result of
        Inr v \<Rightarrow> bindA (ctxA ''commit txn'' (kv_commit K)) (\<lambda>_. retA v)
      | Inl e \<Rightarrow> (\<lambda>s. (Inl e, snd (kv_rollback K s))))"

definition finalize_read :: "'s kv_api \<Rightarrow> 'a res \<Rightarrow> ('s, error, 'a) act" where
  "finalize_read K result =
     (case result of
        Inr v \<Rightarrow> (\<lambda>s. (Inr v, snd (kv_commit K s)))
      | Inl e \<Rightarrow> (\<lambda>s. (Inl e, snd (kv_rollback K s))))"

definition read_txn :: "'s kv_api \<Rightarrow> bytes \<Rightarrow> ('s, error, 'a) act \<Rightarrow> ('s, error, 'a) act" where
  "read_txn K msg body =
     bindA (ctxA msg (begin_optimistic K)) (\<lambda>_. finallyA body (finalize_read K))"

definition write_txn :: "'s kv_api \<Rightarrow> bytes \<Rightarrow> ('s, error, 'a) act \<Rightarrow> ('s, error, 'a) act" where
  "write_txn K msg body =
     bindA (ctxA msg (begin_pessimistic K)) (\<lambda>_. finallyA body (finalize_write K))"

section \<open>Laws\<close>

definition apply_writes :: "('k \<rightharpoonup> 'v option) \<Rightarrow> ('k \<rightharpoonup> 'v) \<Rightarrow> ('k \<rightharpoonup> 'v)" where
  "apply_writes w m k = (case w k of None \<Rightarrow> m k | Some v \<Rightarrow> v)"

lemma apply_writes_empty [simp]: "apply_writes Map.empty m = m"
  by (simp add: apply_writes_def fun_eq_iff)

lemma apply_writes_upd [simp]: "apply_writes (w(k \<mapsto> v)) m = (apply_writes w m)(k := v)"
  by (auto simp: apply_writes_def fun_eq_iff)

type_synonym kv_writes = "bytes \<rightharpoonup> bytes option"
type_synonym kv_store = "bytes \<rightharpoonup> bytes"

text \<open>The list a range scan of a map returns: the entries in key order, cut off at the limit.\<close>

definition scan_of :: "kv_store \<Rightarrow> bytes \<Rightarrow> bytes \<Rightarrow> nat \<Rightarrow> (bytes \<times> bytes) list \<Rightarrow> bool" where
  "scan_of m lo hi limit ps \<longleftrightarrow>
     (\<exists>full. ps = take limit full \<and> sorted_wrt (<) (map fst full) \<and>
             set full = {(k, v). m k = Some v \<and> lo \<le> k \<and> k < hi})"

locale kv_client =
  fixes K :: "'s kv_api"
    and store :: "'s \<Rightarrow> kv_store"
    and snap :: "'s \<Rightarrow> kv_store"
    and writes :: "'s \<Rightarrow> kv_writes"
    and locked :: "'s \<Rightarrow> bytes set"
    and commits :: "'s \<Rightarrow> (kv_store \<times> kv_writes) list"
  assumes begin_optimistic_Inr: "begin_optimistic K s = (Inr u, t) \<Longrightarrow>
      snap t = store t \<and> writes t = Map.empty \<and> commits t = commits s"
    and begin_optimistic_Inl: "begin_optimistic K s = (Inl e, t) \<Longrightarrow> commits t = commits s"
    and begin_pessimistic_Inr: "begin_pessimistic K s = (Inr u, t) \<Longrightarrow>
      snap t = store t \<and> writes t = Map.empty \<and> locked t = {} \<and> commits t = commits s"
    and begin_pessimistic_Inl: "begin_pessimistic K s = (Inl e, t) \<Longrightarrow> commits t = commits s"
    and get_Inr: "kv_get K k s = (Inr v, t) \<Longrightarrow> v = apply_writes (writes s) (snap s) k"
    and get_for_update_Inr: "get_for_update K k s = (Inr v, t) \<Longrightarrow> k \<notin> dom (writes s) \<Longrightarrow>
      v = store t k \<and> k \<in> locked t"
    and key_exists_Inr: "key_exists K k s = (Inr b, t) \<Longrightarrow>
      b = (apply_writes (writes s) (snap s) k \<noteq> None)"
    and batch_get_Inr: "batch_get K ks s = (Inr ps, t) \<Longrightarrow>
      set ps = {(k, v). k \<in> set ks \<and> apply_writes (writes s) (snap s) k = Some v}"
    and scan_Inr: "kv_scan K lo hi limit s = (Inr ps, t) \<Longrightarrow>
      scan_of (apply_writes (writes s) (snap s)) lo hi limit ps"
    and get_frame: "kv_get K k s = (rv, t) \<Longrightarrow>
      snap t = snap s \<and> writes t = writes s \<and> commits t = commits s \<and>
      (\<forall>x \<in> locked s. x \<in> locked t \<and> store t x = store s x)"
    and get_for_update_frame: "get_for_update K k s = (rv, t) \<Longrightarrow>
      snap t = snap s \<and> writes t = writes s \<and> commits t = commits s \<and>
      (\<forall>x \<in> locked s. x \<in> locked t \<and> store t x = store s x)"
    and key_exists_frame: "key_exists K k s = (rb, t) \<Longrightarrow>
      snap t = snap s \<and> writes t = writes s \<and> commits t = commits s"
    and batch_get_frame: "batch_get K ks s = (rp, t) \<Longrightarrow>
      snap t = snap s \<and> writes t = writes s \<and> commits t = commits s"
    and scan_frame: "kv_scan K lo hi limit s = (rp, t) \<Longrightarrow>
      snap t = snap s \<and> writes t = writes s \<and> commits t = commits s"
    and put_Inr: "kv_put K k x s = (Inr u, t) \<Longrightarrow> writes t = (writes s)(k \<mapsto> Some x)"
    and delete_Inr: "kv_delete K k s = (Inr u, t) \<Longrightarrow> writes t = (writes s)(k \<mapsto> None)"
    and put_frame: "kv_put K k x s = (ru, t) \<Longrightarrow>
      snap t = snap s \<and> commits t = commits s \<and>
      (\<forall>y \<in> locked s. y \<in> locked t \<and> store t y = store s y)"
    and delete_frame: "kv_delete K k s = (ru, t) \<Longrightarrow>
      snap t = snap s \<and> commits t = commits s \<and>
      (\<forall>y \<in> locked s. y \<in> locked t \<and> store t y = store s y)"
    and commit_Inr: "kv_commit K s = (Inr u, t) \<Longrightarrow>
      (\<exists>\<sigma>. commits t = commits s @ [(\<sigma>, writes s)] \<and> (\<forall>x \<in> locked s. \<sigma> x = store s x) \<and>
           store t = apply_writes (writes s) \<sigma>)"
    and commit_Inl: "kv_commit K s = (Inl e, t) \<Longrightarrow>
      commits t = commits s \<or>
      (\<exists>\<sigma>. commits t = commits s @ [(\<sigma>, writes s)] \<and> (\<forall>x \<in> locked s. \<sigma> x = store s x))"
    and rollback_frame: "kv_rollback K s = (ru, t) \<Longrightarrow> commits t = commits s"
begin

text \<open>A read-only transaction: its value comes from one state of the store, and nothing is written.\<close>

definition reading :: "(kv_store \<times> kv_writes) list \<Rightarrow> kv_store \<Rightarrow> 's \<Rightarrow> bool" where
  "reading cs \<sigma> s \<longleftrightarrow> snap s = \<sigma> \<and> writes s = Map.empty \<and> commits s = cs"

lemma triple_get:
  "triple (reading cs \<sigma>) (kv_get K k) (\<lambda>v s. v = \<sigma> k \<and> reading cs \<sigma> s) (\<lambda>_. reading cs \<sigma>)"
proof (rule tripleI)
  fix s v t assume s: "reading cs \<sigma> s" and k: "kv_get K k s = (Inr v, t)"
  with get_Inr [OF k] get_frame [OF k] show "v = \<sigma> k \<and> reading cs \<sigma> t"
    by (simp add: reading_def)
next
  fix s e t assume s: "reading cs \<sigma> s" and k: "kv_get K k s = (Inl e, t)"
  with get_frame [OF k] show "reading cs \<sigma> t" by (simp add: reading_def)
qed

lemma triple_scan:
  "triple (reading cs \<sigma>) (kv_scan K lo hi limit)
     (\<lambda>ps s. scan_of \<sigma> lo hi limit ps \<and> reading cs \<sigma> s) (\<lambda>_. reading cs \<sigma>)"
proof (rule tripleI)
  fix s ps t assume s: "reading cs \<sigma> s" and k: "kv_scan K lo hi limit s = (Inr ps, t)"
  with scan_Inr [OF k] scan_frame [OF k] show "scan_of \<sigma> lo hi limit ps \<and> reading cs \<sigma> t"
    by (simp add: reading_def)
next
  fix s e t assume s: "reading cs \<sigma> s" and k: "kv_scan K lo hi limit s = (Inl e, t)"
  with scan_frame [OF k] show "reading cs \<sigma> t" by (simp add: reading_def)
qed

lemma triple_key_exists:
  "triple (reading cs \<sigma>) (key_exists K k) (\<lambda>b s. b = (\<sigma> k \<noteq> None) \<and> reading cs \<sigma> s)
     (\<lambda>_. reading cs \<sigma>)"
proof (rule tripleI)
  fix s b t assume s: "reading cs \<sigma> s" and k: "key_exists K k s = (Inr b, t)"
  with key_exists_Inr [OF k] key_exists_frame [OF k] show "b = (\<sigma> k \<noteq> None) \<and> reading cs \<sigma> t"
    by (simp add: reading_def)
next
  fix s e t assume s: "reading cs \<sigma> s" and k: "key_exists K k s = (Inl e, t)"
  with key_exists_frame [OF k] show "reading cs \<sigma> t" by (simp add: reading_def)
qed

lemma triple_batch_get:
  "triple (reading cs \<sigma>) (batch_get K ks)
     (\<lambda>ps s. set ps = {(k, v). k \<in> set ks \<and> \<sigma> k = Some v} \<and> reading cs \<sigma> s) (\<lambda>_. reading cs \<sigma>)"
proof (rule tripleI)
  fix s ps t assume s: "reading cs \<sigma> s" and k: "batch_get K ks s = (Inr ps, t)"
  with batch_get_Inr [OF k] batch_get_frame [OF k]
  show "set ps = {(k, v). k \<in> set ks \<and> \<sigma> k = Some v} \<and> reading cs \<sigma> t"
    by (simp add: reading_def)
next
  fix s e t assume s: "reading cs \<sigma> s" and k: "batch_get K ks s = (Inl e, t)"
  with batch_get_frame [OF k] show "reading cs \<sigma> t" by (simp add: reading_def)
qed

text \<open>
  What a read transaction returns, it returns for the store as it was when the transaction began;
  and it never takes effect: the write set that a commit may record is empty.
\<close>

lemma read_txn_snapshot:
  assumes body: "\<And>cs \<sigma>. triple (reading cs \<sigma>) body (\<lambda>v s. Q \<sigma> v \<and> reading cs \<sigma> s) (\<lambda>_. reading cs \<sigma>)"
    and run: "read_txn K msg body s = (Inr v, t)"
  shows "\<exists>s1. begin_optimistic K s = (Inr (), s1) \<and> Q (store s1) v"
proof -
  from run obtain s1 where b: "begin_optimistic K s = (Inr (), s1)"
    and f: "finallyA body (finalize_read K) s1 = (Inr v, t)"
    by (auto simp: read_txn_def bindA_Inr act_Inr)
  from f obtain s2 where "body s1 = (Inr v, s2)"
    by (auto simp: finallyA_def finalize_read_def split: prod.splits sum.splits)
  moreover have "reading (commits s1) (store s1) s1"
    using begin_optimistic_Inr [OF b] by (simp add: reading_def)
  ultimately have "Q (store s1) v" using triple_Inr [OF body] by blast
  with b show ?thesis by blast
qed

lemma read_txn_commits:
  assumes body: "\<And>cs \<sigma>. triple (reading cs \<sigma>) body (\<lambda>v s. Q \<sigma> v \<and> reading cs \<sigma> s) (\<lambda>_. reading cs \<sigma>)"
    and run: "read_txn K msg body s = (r, t)"
  shows "commits t = commits s \<or> (\<exists>\<sigma>. commits t = commits s @ [(\<sigma>, Map.empty)])"
proof (cases "begin_optimistic K s")
  case (Pair b s1)
  show ?thesis
  proof (cases b)
    case (Inl e)
    then show ?thesis
      using run Pair begin_optimistic_Inl [of s e s1] by (auto simp: read_txn_def act_defs)
  next
    case (Inr u)
    then have begun: "begin_optimistic K s = (Inr u, s1)" using Pair by simp
    then have rd: "reading (commits s) (store s1) s1" "commits s1 = commits s"
      using begin_optimistic_Inr [OF begun] by (simp_all add: reading_def)
    obtain r2 s2 where b2: "body s1 = (r2, s2)" by fastforce
    have "reading (commits s) (store s1) s2"
      using triple_Inr [OF body rd(1)] triple_Inl [OF body rd(1)] b2 by (cases r2) blast+
    then have w: "writes s2 = Map.empty" "commits s2 = commits s" by (simp_all add: reading_def)
    show ?thesis
    proof (cases r2)
      case (Inl e)
      then have "t = snd (kv_rollback K s2)"
        using run begun b2 by (simp add: read_txn_def act_defs finalize_read_def)
      then show ?thesis using rollback_frame [of s2 _ t] w by (metis prod.collapse)
    next
      case (Inr v)
      then have "t = snd (kv_commit K s2)"
        using run begun b2 by (simp add: read_txn_def act_defs finalize_read_def)
      then obtain c where "kv_commit K s2 = (c, t)" by (metis prod.collapse)
      then show ?thesis using commit_Inr [of s2 _ t] commit_Inl [of s2 _ t] w by (cases c) auto
    qed
  qed
qed

text \<open>A pessimistic transaction that takes effect does so all at once, or not at all.\<close>

lemma write_txn_Inr:
  assumes "write_txn K msg body s = (Inr v, t)"
  obtains s1 s2 \<sigma> where "begin_pessimistic K s = (Inr (), s1)" "body s1 = (Inr v, s2)"
    "commits t = commits s2 @ [(\<sigma>, writes s2)]" "\<forall>k \<in> locked s2. \<sigma> k = store s2 k"
    "store t = apply_writes (writes s2) \<sigma>"
proof -
  from assms obtain s1 where b: "begin_pessimistic K s = (Inr (), s1)"
    and f: "finallyA body (finalize_write K) s1 = (Inr v, t)"
    by (auto simp: write_txn_def bindA_Inr act_Inr)
  obtain r s2 where body': "body s1 = (r, s2)" by fastforce
  with f have body: "body s1 = (Inr v, s2)" and c: "kv_commit K s2 = (Inr (), t)"
    by (cases r; auto simp: finallyA_def finalize_write_def bindA_Inr act_Inr)+
  from commit_Inr [OF c] b body show thesis using that by blast
qed

lemma write_txn_Inl:
  assumes "write_txn K msg body s = (Inl e, t)"
    and frame: "\<forall>s r t. body s = (r, t) \<longrightarrow> commits t = commits s"
  obtains (none) "commits t = commits s"
  | (took_effect) s1 v s2 \<sigma> where "begin_pessimistic K s = (Inr (), s1)" "body s1 = (Inr v, s2)"
      "commits t = commits s @ [(\<sigma>, writes s2)]" "\<forall>k \<in> locked s2. \<sigma> k = store s2 k"
proof (cases "begin_pessimistic K s")
  case (Pair b s1)
  show ?thesis
  proof (cases b)
    case (Inl e)
    then show ?thesis
      using assms(1) Pair begin_pessimistic_Inl [of s e s1] none by (auto simp: write_txn_def act_defs)
  next
    case (Inr u)
    then have begun: "begin_pessimistic K s = (Inr (), s1)" using Pair by simp
    obtain r2 s2 where b2: "body s1 = (r2, s2)" by fastforce
    have cs: "commits s2 = commits s"
      using begin_pessimistic_Inr [OF begun] frame b2 by simp
    have run: "finalize_write K r2 s2 = (Inl e, t)"
      using assms(1) begun b2 by (simp add: write_txn_def act_defs)
    show ?thesis
    proof (cases r2)
      case (Inl e')
      then show ?thesis
        using run cs rollback_frame [of s2 "fst (kv_rollback K s2)" t] none
        by (auto simp: finalize_write_def)
    next
      case v: (Inr v)
      then have "\<exists>e'. kv_commit K s2 = (Inl e', t)"
        using run by (auto simp: finalize_write_def act_defs split: prod.splits sum.splits)
      then show ?thesis using commit_Inl [of s2 _ t] cs begun b2 v none took_effect by metis
    qed
  qed
qed

end

end
