(* ===== verification/KV_Cluster.thy ===== *)
theory KV_Cluster
  imports KV_Client
begin

text \<open>
  A concrete cluster that satisfies the laws of \<open>kv_client\<close>: an association list as the
  committed store, one open transaction with its snapshot, write buffer and locks, and a schedule
  of events that the calls consume one by one.  An event lets the call go on undisturbed, lets
  another client commit a batch first (on keys this transaction has not locked), or makes the
  call fail.  It shows that the laws can hold, with interference and faults, and makes the
  backend executable.
\<close>

datatype kv_event = Calm | Foreign "(bytes \<times> bytes option) list" | Fault

record cluster =
  cl_store :: "(bytes \<times> bytes) list"
  cl_snap :: "(bytes \<times> bytes) list"
  cl_writes :: "(bytes \<times> bytes option) list"
  cl_locked :: "bytes list"
  cl_commits :: "((bytes \<times> bytes) list \<times> (bytes \<times> bytes option) list) list"
  cl_events :: "kv_event list"

definition write_alist :: "(bytes \<times> bytes option) list \<Rightarrow> (bytes \<times> bytes) list \<Rightarrow> (bytes \<times> bytes) list" where
  "write_alist ws m =
     foldr (\<lambda>(k, v) m. case v of None \<Rightarrow> AList.delete k m | Some x \<Rightarrow> AList.update k x m) ws m"

definition cl_tick :: "cluster \<Rightarrow> bool \<times> cluster" where
  "cl_tick s =
     (case cl_events s of
        [] \<Rightarrow> (True, s)
      | e # es \<Rightarrow>
          let s' = s\<lparr> cl_events := es \<rparr>
          in case e of
               Calm \<Rightarrow> (True, s')
             | Fault \<Rightarrow> (False, s')
             | Foreign ws \<Rightarrow>
                 (True, if \<exists>k \<in> set (cl_locked s). k \<in> fst ` set ws then s'
                        else s'\<lparr> cl_store := write_alist ws (cl_store s) \<rparr>))"

definition cl_op :: "(cluster \<Rightarrow> 'a \<times> cluster) \<Rightarrow> (cluster, error, 'a) act" where
  "cl_op f s =
     (case cl_tick s of
        (False, s') \<Rightarrow> (Inl (Ext ''kv error''), s')
      | (True, s') \<Rightarrow> (case f s' of (x, s'') \<Rightarrow> (Inr x, s'')))"

definition cl_view :: "cluster \<Rightarrow> (bytes \<times> bytes) list" where
  "cl_view s = write_alist (cl_writes s) (cl_snap s)"

definition cl_scan :: "(bytes \<times> bytes) list \<Rightarrow> bytes \<Rightarrow> bytes \<Rightarrow> nat \<Rightarrow> (bytes \<times> bytes) list" where
  "cl_scan m lo hi limit =
     take limit (sort_key fst (filter (\<lambda>p. lo \<le> fst p \<and> fst p < hi) (AList.clearjunk m)))"

definition cl_begin :: "cluster \<Rightarrow> unit \<times> cluster" where
  "cl_begin s = ((), s\<lparr> cl_snap := cl_store s, cl_writes := [], cl_locked := [] \<rparr>)"

definition cluster_api :: "cluster kv_api" where
  "cluster_api =
     \<lparr> begin_optimistic = cl_op cl_begin,
       begin_pessimistic = cl_op cl_begin,
       kv_get = (\<lambda>k. cl_op (\<lambda>s. (map_of (cl_view s) k, s))),
       get_for_update =
         (\<lambda>k. cl_op (\<lambda>s. (map_of (cl_store s) k, s\<lparr> cl_locked := k # cl_locked s \<rparr>))),
       key_exists = (\<lambda>k. cl_op (\<lambda>s. (map_of (cl_view s) k \<noteq> None, s))),
       batch_get = (\<lambda>ks. cl_op (\<lambda>s. (filter (\<lambda>p. fst p \<in> set ks) (AList.clearjunk (cl_view s)), s))),
       kv_scan = (\<lambda>lo hi limit. cl_op (\<lambda>s. (cl_scan (cl_view s) lo hi limit, s))),
       kv_put = (\<lambda>k v. cl_op (\<lambda>s. ((), s\<lparr> cl_writes := (k, Some v) # cl_writes s \<rparr>))),
       kv_delete = (\<lambda>k. cl_op (\<lambda>s. ((), s\<lparr> cl_writes := (k, None) # cl_writes s \<rparr>))),
       kv_commit = cl_op (\<lambda>s. ((),
         s\<lparr> cl_store := write_alist (cl_writes s) (cl_store s),
           cl_commits := cl_commits s @ [(cl_store s, cl_writes s)], cl_locked := [] \<rparr>)),
       kv_rollback = cl_op (\<lambda>s. ((), s\<lparr> cl_locked := [] \<rparr>)) \<rparr>"

lemma map_of_write_alist: "map_of (write_alist ws m) = apply_writes (map_of ws) (map_of m)"
proof (induction ws)
  case Nil
  then show ?case by (simp add: write_alist_def)
next
  case (Cons p ws)
  obtain k v where "p = (k, v)" by fastforce
  with Cons show ?case
    by (cases v) (auto simp: write_alist_def AList.update_conv' AList.delete_conv' apply_writes_def fun_eq_iff)
qed

lemma set_clearjunk: "set (AList.clearjunk m) = {(k, v). map_of m k = Some v}"
proof -
  have "p \<in> set (AList.clearjunk m) \<longleftrightarrow> map_of m (fst p) = Some (snd p)" for p
    using map_of_eq_Some_iff [OF distinct_clearjunk, of m "fst p" "snd p"]
    by (simp add: map_of_clearjunk)
  then show ?thesis by auto
qed

lemma scan_of_cl_scan: "scan_of (map_of m) lo hi limit (cl_scan m lo hi limit)"
proof -
  let ?xs = "filter (\<lambda>p. lo \<le> fst p \<and> fst p < hi) (AList.clearjunk m)"
  have "distinct (map fst ?xs)" by (simp add: distinct_clearjunk distinct_map_filter)
  then have "distinct (map fst (sort_key fst ?xs))"
    by (simp add: distinct_map)
  then have "sorted_wrt (<) (map fst (sort_key fst ?xs))"
    by (simp add: strict_sorted_iff)
  moreover have "set (sort_key fst ?xs) = {(k, v). map_of m k = Some v \<and> lo \<le> k \<and> k < hi}"
    by (auto simp: set_clearjunk)
  ultimately show ?thesis unfolding scan_of_def cl_scan_def by blast
qed

lemma cl_tick_frame:
  "cl_tick s = (b, t) \<Longrightarrow>
   cl_snap t = cl_snap s \<and> cl_writes t = cl_writes s \<and> cl_locked t = cl_locked s \<and>
   cl_commits t = cl_commits s \<and>
   (\<forall>k \<in> set (cl_locked s). map_of (cl_store t) k = map_of (cl_store s) k)"
  by (auto simp: cl_tick_def Let_def map_of_write_alist apply_writes_def map_of_eq_None_iff
      split: list.splits kv_event.splits if_splits option.split dest!: map_of_SomeD) force

lemma cl_op_Inr: "cl_op f s = (Inr x, t) \<longleftrightarrow> (\<exists>s1. cl_tick s = (True, s1) \<and> f s1 = (x, t))"
  by (auto simp: cl_op_def split: prod.splits bool.splits)

lemma cl_op_Inl: "cl_op f s = (Inl e, t) \<Longrightarrow> cl_tick s = (False, t)"
  by (auto simp: cl_op_def split: prod.splits bool.splits)

lemma cl_op_keeps:
  assumes "cl_op f s = (r, t)" and "\<And>s x t. f s = (x, t) \<Longrightarrow> P s t" and "\<And>s. P s s"
    and "\<And>s b s1 t. cl_tick s = (b, s1) \<Longrightarrow> P s1 t \<Longrightarrow> P s t"
  shows "P s t"
proof (cases r)
  case (Inl e)
  then show ?thesis using assms cl_op_Inl by metis
next
  case (Inr x)
  then show ?thesis using assms cl_op_Inr by metis
qed

definition same_txn :: "cluster \<Rightarrow> cluster \<Rightarrow> bool" where
  "same_txn s t \<longleftrightarrow> cl_snap t = cl_snap s \<and> cl_writes t = cl_writes s \<and> cl_commits t = cl_commits s \<and>
     (\<forall>k \<in> set (cl_locked s). k \<in> set (cl_locked t) \<and> map_of (cl_store t) k = map_of (cl_store s) k)"

lemma same_txn_op:
  assumes "cl_op f s = (r, t)" and "\<And>s x t. f s = (x, t) \<Longrightarrow> same_txn s t"
  shows "same_txn s t"
  using assms(1)
proof (rule cl_op_keeps)
  show "same_txn s t" if "cl_tick s = (b, s1)" "same_txn s1 t" for s b s1 t
    using cl_tick_frame [OF that(1)] that(2) by (auto simp: same_txn_def)
qed (use assms(2) in \<open>auto simp: same_txn_def\<close>)

definition same_snap :: "cluster \<Rightarrow> cluster \<Rightarrow> bool" where
  "same_snap s t \<longleftrightarrow> cl_snap t = cl_snap s \<and> cl_commits t = cl_commits s \<and>
     (\<forall>k \<in> set (cl_locked s). k \<in> set (cl_locked t) \<and> map_of (cl_store t) k = map_of (cl_store s) k)"

lemma same_snap_op:
  assumes "cl_op f s = (r, t)" and "\<And>s x t. f s = (x, t) \<Longrightarrow> same_snap s t"
  shows "same_snap s t"
  using assms(1)
proof (rule cl_op_keeps)
  show "same_snap s t" if "cl_tick s = (b, s1)" "same_snap s1 t" for s b s1 t
    using cl_tick_frame [OF that(1)] that(2) by (auto simp: same_snap_def)
qed (use assms(2) in \<open>auto simp: same_snap_def\<close>)

interpretation cluster: kv_client cluster_api "\<lambda>s. map_of (cl_store s)" "\<lambda>s. map_of (cl_snap s)"
  "\<lambda>s. map_of (cl_writes s)" "\<lambda>s. set (cl_locked s)" "\<lambda>s. map (map_prod map_of map_of) (cl_commits s)"
proof (unfold_locales, goal_cases)
  case (1 s u t) then show ?case
    by (auto simp: cluster_api_def cl_op_Inr cl_begin_def dest: cl_tick_frame)
next
  case (2 s e t) then show ?case by (auto simp: cluster_api_def dest!: cl_op_Inl cl_tick_frame)
next
  case (3 s u t) then show ?case
    by (auto simp: cluster_api_def cl_op_Inr cl_begin_def dest: cl_tick_frame)
next
  case (4 s e t) then show ?case by (auto simp: cluster_api_def dest!: cl_op_Inl cl_tick_frame)
next
  case (5 k s v t) then show ?case
    by (auto simp: cluster_api_def cl_op_Inr cl_view_def map_of_write_alist dest: cl_tick_frame)
next
  case (6 k s v t) then show ?case by (auto simp: cluster_api_def cl_op_Inr)
next
  case (7 k s b t) then show ?case
    by (auto simp: cluster_api_def cl_op_Inr cl_view_def map_of_write_alist dest: cl_tick_frame)
next
  case (8 ks s ps t) then show ?case
    by (auto simp: cluster_api_def cl_op_Inr cl_view_def set_clearjunk map_of_write_alist
        dest: cl_tick_frame)
next
  case (9 lo hi limit s ps t)
  then obtain s1 where "cl_tick s = (True, s1)" "ps = cl_scan (cl_view s1) lo hi limit"
    by (auto simp: cluster_api_def cl_op_Inr)
  then show ?case
    using scan_of_cl_scan [of "cl_view s1" lo hi limit] cl_tick_frame [of s True s1]
    by (simp add: cl_view_def map_of_write_alist)
next
  case (10 k s rv t) then have "same_txn s t"
    unfolding cluster_api_def kv_api.simps by (rule same_txn_op) (auto simp: same_txn_def)
  then show ?case by (simp add: same_txn_def)
next
  case (11 k s rv t) then have "same_txn s t"
    unfolding cluster_api_def kv_api.simps by (rule same_txn_op) (auto simp: same_txn_def)
  then show ?case by (simp add: same_txn_def)
next
  case (12 k s rb t) then have "same_txn s t"
    unfolding cluster_api_def kv_api.simps by (rule same_txn_op) (auto simp: same_txn_def)
  then show ?case by (simp add: same_txn_def)
next
  case (13 ks s rp t) then have "same_txn s t"
    unfolding cluster_api_def kv_api.simps by (rule same_txn_op) (auto simp: same_txn_def)
  then show ?case by (simp add: same_txn_def)
next
  case (14 lo hi limit s rp t) then have "same_txn s t"
    unfolding cluster_api_def kv_api.simps by (rule same_txn_op) (auto simp: same_txn_def)
  then show ?case by (simp add: same_txn_def)
next
  case (15 k x s u t) then show ?case by (auto simp: cluster_api_def cl_op_Inr dest: cl_tick_frame)
next
  case (16 k s u t) then show ?case by (auto simp: cluster_api_def cl_op_Inr dest: cl_tick_frame)
next
  case (17 k x s ru t) then have "same_snap s t"
    unfolding cluster_api_def kv_api.simps by (rule same_snap_op) (auto simp: same_snap_def)
  then show ?case by (simp add: same_snap_def)
next
  case (18 k s ru t) then have "same_snap s t"
    unfolding cluster_api_def kv_api.simps by (rule same_snap_op) (auto simp: same_snap_def)
  then show ?case by (simp add: same_snap_def)
next
  case (19 s u t)
  then obtain s1 where s1: "cl_tick s = (True, s1)" and t: "t = s1\<lparr> cl_store := write_alist (cl_writes s1)
      (cl_store s1), cl_commits := cl_commits s1 @ [(cl_store s1, cl_writes s1)], cl_locked := [] \<rparr>"
    by (auto simp: cluster_api_def cl_op_Inr)
  show ?case
    using cl_tick_frame [OF s1] by (auto simp: t map_of_write_alist intro!: exI [of _ "map_of (cl_store s1)"])
next
  case (20 s e t) then show ?case by (auto simp: cluster_api_def dest!: cl_op_Inl cl_tick_frame)
next
  case (21 s ru t)
  then have "cl_commits t = cl_commits s"
    unfolding cluster_api_def kv_api.simps by (rule cl_op_keeps) (auto dest: cl_tick_frame)
  then show ?case by simp
qed

end
