(* ===== verification/KV_Keys.thy ===== *)
theory KV_Keys
  imports Object_Ids
begin

text \<open>
  \<open>mizzle/src/backend/kv/keys.rs\<close>: the single-keyspace layout of the key-value backend.
  Every logical table has a one-byte tag, so the range scans over one table (and within it,
  over one repository or one commit) never see a key of another.

  The \<open>u64\<close> repository ids and the \<open>u16\<close> parent positions are words of that width.
\<close>

type_synonym repo_id = "64 word"

definition PREFIX_REPO_INDEX :: byte where "PREFIX_REPO_INDEX = CHR 0x01"
definition PREFIX_NEXT_REPO_ID :: byte where "PREFIX_NEXT_REPO_ID = CHR 0x02"
definition PREFIX_REPO_META :: byte where "PREFIX_REPO_META = CHR 0x03"
definition PREFIX_REF :: byte where "PREFIX_REF = CHR 0x04"
definition PREFIX_OBJ :: byte where "PREFIX_OBJ = CHR 0x05"
definition PREFIX_PAR :: byte where "PREFIX_PAR = CHR 0x06"
definition REPO_META_EXISTS :: byte where "REPO_META_EXISTS = CHR 0x00"
definition REPO_META_HEAD :: byte where "REPO_META_HEAD = CHR 0x01"

lemmas key_tags = PREFIX_REPO_INDEX_def PREFIX_NEXT_REPO_ID_def PREFIX_REPO_META_def
  PREFIX_REF_def PREFIX_OBJ_def PREFIX_PAR_def

definition u64_be :: "repo_id \<Rightarrow> bytes" where "u64_be n = be_bytes 8 (unat n)"
definition u16_be :: "16 word \<Rightarrow> bytes" where "u16_be n = be_bytes 2 (unat n)"

definition repo_index :: "bytes \<Rightarrow> bytes" where
  "repo_index path = PREFIX_REPO_INDEX # path"

definition next_repo_id :: bytes where
  "next_repo_id = [PREFIX_NEXT_REPO_ID]"

definition repo_meta :: "repo_id \<Rightarrow> byte \<Rightarrow> bytes" where
  "repo_meta rid tag = PREFIX_REPO_META # u64_be rid @ [tag]"

definition refkey :: "repo_id \<Rightarrow> bytes \<Rightarrow> bytes" where
  "refkey rid name = PREFIX_REF # u64_be rid @ name"

definition refs_prefix_start :: "repo_id \<Rightarrow> bytes" where
  "refs_prefix_start rid = PREFIX_REF # u64_be rid"

text \<open>
  The loop of \<open>increment_in_place\<close> runs from the last byte to the first: it drops saturated
  bytes and increments the first that is not; if all are saturated it appends a zero byte.
\<close>

fun incr_rev :: "bytes \<Rightarrow> bytes option" where
  "incr_rev [] = None"
| "incr_rev (b # bs) =
     (if of_char b < (255 :: nat) then Some (char_of (of_char b + (1 :: nat)) # bs) else incr_rev bs)"

definition increment_in_place :: "bytes \<Rightarrow> bytes" where
  "increment_in_place key =
     (case incr_rev (rev key) of Some r \<Rightarrow> rev r | None \<Rightarrow> key @ [NUL])"

definition refs_prefix_end :: "repo_id \<Rightarrow> bytes" where
  "refs_prefix_end rid = increment_in_place (refs_prefix_start rid)"

definition refname_from_key :: "repo_id \<Rightarrow> bytes \<Rightarrow> bytes option" where
  "refname_from_key rid key =
     (let pre = refs_prefix_start rid
      in if \<not> starts_with key pre then None
         else let name = drop (length pre) key in if utf8_valid name then Some name else None)"

definition obj :: "'o oid_ops \<Rightarrow> repo_id \<Rightarrow> 'o \<Rightarrow> bytes" where
  "obj H rid x = PREFIX_OBJ # u64_be rid @ as_bytes H x"

definition par :: "'o oid_ops \<Rightarrow> repo_id \<Rightarrow> 'o \<Rightarrow> 16 word \<Rightarrow> bytes" where
  "par H rid commit pos = PREFIX_PAR # u64_be rid @ as_bytes H commit @ u16_be pos"

definition parents_prefix_start :: "'o oid_ops \<Rightarrow> repo_id \<Rightarrow> 'o \<Rightarrow> bytes" where
  "parents_prefix_start H rid commit = PREFIX_PAR # u64_be rid @ as_bytes H commit"

definition parents_prefix_end :: "'o oid_ops \<Rightarrow> repo_id \<Rightarrow> 'o \<Rightarrow> bytes" where
  "parents_prefix_end H rid commit = increment_in_place (parents_prefix_start H rid commit)"

section \<open>Half-open ranges are prefixes\<close>

lemma char_less_iff: "(a :: char) < b \<longleftrightarrow> (of_char a :: nat) < of_char b"
  by (simp add: less_char_def)

lemma char_le_FF: "\<not> CHR 0xFF < (c :: char)"
proof -
  have "(of_char c :: nat) \<le> 255" using nat_of_char_less_256 [of c] by linarith
  then show ?thesis by (simp add: char_less_iff not_less)
qed

lemma not_less_255: "\<not> of_char c < (255 :: nat) \<Longrightarrow> c = CHR 0xFF"
proof -
  assume "\<not> of_char c < (255 :: nat)"
  moreover have "(of_char c :: nat) < 256" by simp
  ultimately have "(of_char c :: nat) = 255" by linarith
  then have "(of_char c :: nat) = of_char (CHR 0xFF)" by simp
  then show ?thesis by (metis char_of_char)
qed

lemma incr_rev_Some:
  "incr_rev bs = Some r \<Longrightarrow>
   \<exists>n b rest. bs = replicate n (CHR 0xFF) @ b # rest \<and> of_char b < (255 :: nat) \<and>
              r = char_of (of_char b + (1 :: nat)) # rest"
proof (induction bs)
  case Nil
  then show ?case by simp
next
  case (Cons c bs)
  show ?case
  proof (cases "of_char c < (255 :: nat)")
    case True
    with Cons.prems show ?thesis by (intro exI [of _ 0]) auto
  next
    case False
    with Cons obtain n b rest where "bs = replicate n (CHR 0xFF) @ b # rest"
      "of_char b < (255 :: nat)" "r = char_of (of_char b + (1 :: nat)) # rest" by auto
    with not_less_255 [OF False] show ?thesis by (intro exI [of _ "Suc n"]) auto
  qed
qed

lemma incr_rev_None: "incr_rev bs = None \<longleftrightarrow> set bs \<subseteq> {CHR 0xFF}"
  by (induction bs) (use not_less_255 in auto)

lemma FF_le_iff_prefix: "replicate n (CHR 0xFF) \<le> (cs :: bytes) \<longleftrightarrow> prefix (replicate n (CHR 0xFF)) cs"
proof (induction n arbitrary: cs)
  case 0
  then show ?case by simp
next
  case (Suc n)
  then show ?case by (cases cs) (use char_le_FF in auto)
qed

lemma succ_char_range:
  assumes "of_char b < (255 :: nat)"
  shows "c < char_of (of_char b + (1 :: nat)) \<longleftrightarrow> \<not> b < c"
proof -
  have "(of_char (char_of (of_char b + (1 :: nat))) :: nat) = of_char b + 1"
    using assms by (simp add: of_char_of)
  then show ?thesis by (auto simp: char_less_iff)
qed

lemma range_iff_prefix_aux:
  assumes "of_char b < (255 :: nat)"
  shows "pre @ b # replicate n (CHR 0xFF) \<le> (k :: bytes) \<and> k < pre @ [char_of (of_char b + (1 :: nat))]
     \<longleftrightarrow> prefix (pre @ b # replicate n (CHR 0xFF)) k"
proof (induction pre arbitrary: k)
  case Nil
  show ?case
  proof (cases k)
    case (Cons c cs)
    let ?succ = "char_of (of_char b + (1 :: nat)) :: char"
    have "(b < c \<or> b = c \<and> prefix (replicate n (CHR 0xFF)) cs) \<and> c < ?succ
        \<longleftrightarrow> b = c \<and> prefix (replicate n (CHR 0xFF)) cs"
      unfolding succ_char_range [OF assms, of c] by auto
    then show ?thesis
      by (simp only: Cons append_Nil Cons_less_Cons Cons_le_Cons prefix_code FF_le_iff_prefix
          not_less_Nil simp_thms)
  qed simp
next
  case (Cons p pre)
  show ?case
  proof (cases k)
    case k: (Cons c cs)
    show ?thesis
      unfolding k append_Cons Cons_less_Cons Cons_le_Cons prefix_code
      using Cons.IH [of cs] by (metis less_irrefl less_not_sym)
  qed simp
qed

lemma range_iff_prefix:
  assumes "\<not> set key \<subseteq> {CHR 0xFF}"
  shows "key \<le> k \<and> k < increment_in_place key \<longleftrightarrow> prefix key k"
proof -
  obtain r where r: "incr_rev (rev key) = Some r"
    using assms incr_rev_None [of "rev key"] by auto
  then obtain n b rest where key: "rev key = replicate n (CHR 0xFF) @ b # rest"
    and b: "of_char b < (255 :: nat)" and "r = char_of (of_char b + (1 :: nat)) # rest"
    using incr_rev_Some by blast
  moreover from key have "key = rev rest @ b # replicate n (CHR 0xFF)"
    by (simp add: rev_eq_append_conv)
  ultimately show ?thesis
    using range_iff_prefix_aux [OF b, of "rev rest" n k] r by (simp add: increment_in_place_def)
qed

section \<open>Injectivity and separation\<close>

lemma length_u64_be [simp]: "length (u64_be n) = 8"
  by (simp add: u64_be_def)

lemma length_u16_be [simp]: "length (u16_be n) = 2"
  by (simp add: u16_be_def)

lemma u64_be_inj [simp]: "u64_be m = u64_be n \<longleftrightarrow> m = n"
proof -
  have "unat m < 256 ^ 8" "unat n < 256 ^ 8"
    using unsigned_less [of m, where ?'a = nat] unsigned_less [of n, where ?'a = nat] by simp_all
  then show ?thesis by (metis be_bytes_inj u64_be_def word_eq_iff_unsigned)
qed

lemma u16_be_inj [simp]: "u16_be m = u16_be n \<longleftrightarrow> m = n"
proof -
  have "unat m < 256 ^ 2" "unat n < 256 ^ 2"
    using unsigned_less [of m, where ?'a = nat] unsigned_less [of n, where ?'a = nat] by simp_all
  then show ?thesis by (metis be_bytes_inj u16_be_def word_eq_iff_unsigned)
qed

lemma u64_be_append_inj [simp]: "u64_be m @ a = u64_be n @ b \<longleftrightarrow> m = n \<and> a = b"
  by simp

lemma repo_index_inj [simp]: "repo_index p = repo_index q \<longleftrightarrow> p = q"
  by (simp add: repo_index_def)

lemma refkey_inj [simp]: "refkey r n = refkey r' n' \<longleftrightarrow> r = r' \<and> n = n'"
  by (simp add: refkey_def)

lemma refs_range_iff:
  "refs_prefix_start rid \<le> k \<and> k < refs_prefix_end rid \<longleftrightarrow> (\<exists>name. k = refkey rid name)"
proof -
  have "\<not> set (refs_prefix_start rid) \<subseteq> {CHR 0xFF}"
    by (simp add: refs_prefix_start_def key_tags)
  then have "refs_prefix_start rid \<le> k \<and> k < refs_prefix_end rid \<longleftrightarrow> prefix (refs_prefix_start rid) k"
    unfolding refs_prefix_end_def by (rule range_iff_prefix)
  also have "\<dots> \<longleftrightarrow> (\<exists>name. k = refkey rid name)"
    by (auto simp: prefix_def refs_prefix_start_def refkey_def)
  finally show ?thesis .
qed

lemma refname_from_refkey: "utf8_valid n \<Longrightarrow> refname_from_key rid (refkey rid n) = Some n"
  by (simp add: refname_from_key_def starts_with_iff refs_prefix_start_def refkey_def)

lemma refname_from_key_Some: "refname_from_key rid k = Some n \<longleftrightarrow> k = refkey rid n \<and> utf8_valid n"
  by (auto simp: refname_from_key_def starts_with_iff refs_prefix_start_def refkey_def Let_def
      prefix_def split: if_splits)

lemma parents_range_iff:
  "parents_prefix_start H rid c \<le> k \<and> k < parents_prefix_end H rid c \<longleftrightarrow>
   prefix (parents_prefix_start H rid c) k"
  unfolding parents_prefix_end_def
  by (rule range_iff_prefix) (simp add: parents_prefix_start_def key_tags)

lemma key_tags_distinct:
  "refkey r n \<noteq> obj H r' x" "refkey r n \<noteq> par H r' c p" "refkey r n \<noteq> repo_index path"
  "refkey r n \<noteq> next_repo_id" "refkey r n \<noteq> repo_meta r' t" "obj H r x \<noteq> par H r' c p"
  "repo_index path \<noteq> next_repo_id" "repo_index path \<noteq> repo_meta r t" "next_repo_id \<noteq> repo_meta r t"
  "obj H r x \<noteq> repo_meta r' t" "par H r c p \<noteq> repo_meta r' t"
  by (simp_all add: refkey_def obj_def par_def repo_index_def next_repo_id_def repo_meta_def key_tags)

context object_id
begin

lemma obj_inj: "obj H r x = obj H r' y \<longleftrightarrow> r = r' \<and> x = y"
  by (simp add: obj_def as_bytes_inj)

lemma par_inj: "par H r c p = par H r' c' p' \<longleftrightarrow> r = r' \<and> c = c' \<and> p = p'"
proof -
  have "as_bytes H c @ u16_be p = as_bytes H c' @ u16_be p' \<longleftrightarrow> c = c' \<and> p = p'"
    by (simp add: length_as_bytes as_bytes_inj)
  then show ?thesis by (simp add: par_def)
qed

lemma par_in_prefix: "prefix (parents_prefix_start H r c) (par H r' c' p) \<longleftrightarrow> r = r' \<and> c = c'"
proof
  assume "prefix (parents_prefix_start H r c) (par H r' c' p)"
  then obtain z where "u64_be r @ as_bytes H c @ z = u64_be r' @ as_bytes H c' @ u16_be p"
    by (auto simp: prefix_def parents_prefix_start_def par_def)
  then show "r = r' \<and> c = c'" by (simp add: length_as_bytes as_bytes_inj)
qed (auto simp: parents_prefix_start_def par_def)

end

section \<open>Properties\<close>

text \<open>
  The half-open key ranges the backend scans select exactly the intended keys: the range of a
  repository's refs holds the ref keys of that repository and no other key, and the range of a
  commit's parents holds, among the parent keys, exactly those of that commit in that repository.
\<close>

theorem kv_key_ranges:
  assumes "object_id H"
  shows "(refs_prefix_start rid \<le> k \<and> k < refs_prefix_end rid \<longleftrightarrow> (\<exists>name. k = refkey rid name)) \<and>
    (parents_prefix_start H rid c \<le> par H rid' c' pos \<and> par H rid' c' pos < parents_prefix_end H rid c
       \<longleftrightarrow> rid = rid' \<and> c = c')"
  by (simp only: refs_range_iff parents_range_iff object_id.par_in_prefix [OF assms] simp_thms)

theorem kv_key_ranges_witness:
  "parents_prefix_start sha1_ops 1 9 \<le> par sha1_ops 1 9 0 \<and>
   par sha1_ops 1 9 0 < parents_prefix_end sha1_ops 1 9"
  using kv_key_ranges [OF sha1.object_id_axioms] by blast

text \<open>
  Keys determine what they stand for: the encodings are injective, keys of different tables
  differ, and the name of a ref is recovered from its key.
\<close>

theorem kv_keys_injective:
  assumes "object_id H"
  shows "(refkey r n = refkey r' n' \<longleftrightarrow> r = r' \<and> n = n') \<and> (obj H r x = obj H r' y \<longleftrightarrow> r = r' \<and> x = y) \<and>
    (par H r x p = par H r' y p' \<longleftrightarrow> r = r' \<and> x = y \<and> p = p') \<and>
    (repo_index path = repo_index path' \<longleftrightarrow> path = path') \<and>
    refkey r n \<noteq> obj H r' x \<and> refkey r n \<noteq> par H r' x p \<and> obj H r x \<noteq> par H r' y p \<and>
    refkey r n \<noteq> repo_index path \<and> refkey r n \<noteq> repo_meta r' tag \<and>
    (utf8_valid n \<longrightarrow> refname_from_key r (refkey r n) = Some n)"
  by (simp add: object_id.obj_inj [OF assms] object_id.par_inj [OF assms] key_tags_distinct
      refname_from_refkey)

theorem kv_keys_injective_witness:
  "refname_from_key 3 (refkey 3 ''refs/heads/main'') = Some ''refs/heads/main''"
  using kv_keys_injective [OF sha1.object_id_axioms, of 3 "''refs/heads/main''"]
  by (simp add: in_range_def)

end
