(* ===== verification/Backend_Types.thy ===== *)
theory Backend_Types
  imports Receive_Request Effects
begin

text \<open>
  The data the storage backends and the authorisation layer exchange: \<open>auth_types.rs\<close> and the
  types of \<open>backend/mod.rs\<close> with their small functions.
\<close>

section \<open>Commits, tags and signatures (auth\_types.rs)\<close>

record 'o push_ref =
  pr_refname :: bytes
  pr_kind :: push_kind
  pr_old :: 'o
  pr_new :: 'o

record identity =
  id_name :: bytes
  id_email :: bytes
  id_time :: bytes

datatype signature_format = OpenPgp | Ssh | X509Cms | UnknownFormat

definition detect :: "bytes \<Rightarrow> signature_format" where
  "detect bs =
     (if starts_with bs ''-----BEGIN PGP SIGNATURE-----'' then OpenPgp
      else if starts_with bs ''-----BEGIN SSH SIGNATURE-----'' then Ssh
      else if starts_with bs ''-----BEGIN SIGNED MESSAGE-----'' \<or> starts_with bs ''-----BEGIN CMS-----''
      then X509Cms
      else UnknownFormat)"

record signature_blob =
  sig_format :: signature_format
  sig_bytes :: bytes

record 'o commit_info =
  ci_oid :: 'o
  ci_tree :: 'o
  ci_parents :: "'o list"
  ci_author :: identity
  ci_committer :: identity
  ci_message :: bytes
  ci_encoding :: "bytes option"
  ci_signature :: "signature_blob option"

record 'o tag_info =
  ti_oid :: 'o
  ti_target :: 'o
  ti_name :: bytes
  ti_tagger :: "identity option"
  ti_message :: bytes
  ti_signature :: "signature_blob option"

datatype comparison_error = CmpCapExceeded bytes nat | CmpBackend bytes

datatype ref_diff_change = Added | Modified | Removed

record 'o ref_diff_entry =
  de_path :: bytes
  de_change :: ref_diff_change
  de_mode :: nat
  de_oid :: 'o

type_synonym 'o ref_diff = "'o ref_diff_entry list"

definition touched_paths :: "'o ref_diff \<Rightarrow> bytes list" where
  "touched_paths d = map de_path d"

definition added_or_modified :: "'o ref_diff \<Rightarrow> 'o ref_diff" where
  "added_or_modified d = filter (\<lambda>e. de_change e \<noteq> Removed) d"

definition removed_entries :: "'o ref_diff \<Rightarrow> 'o ref_diff" where
  "removed_entries d = filter (\<lambda>e. de_change e = Removed) d"

datatype signed_identity =
    PgpIdentity bytes bytes
  | SshIdentity bytes "bytes option"
  | X509Identity bytes "bytes option"
  | OtherIdentity bytes

definition matches_email :: "signed_identity \<Rightarrow> bytes \<Rightarrow> bool" where
  "matches_email i email =
     (case i of
        PgpIdentity _ e \<Rightarrow> e = email
      | X509Identity _ (Some s) \<Rightarrow> s = email
      | SshIdentity _ (Some p) \<Rightarrow> p = email
      | _ \<Rightarrow> False)"

datatype verification_status =
    Verified signed_identity signature_format
  | BadSignature
  | UnknownKey
  | UnsupportedFormat
  | Unsigned

record signer_key =
  sk_email :: bytes
  sk_format :: signature_format
  sk_identifier :: "bytes option"

record verification_key =
  vk_format :: signature_format
  vk_data :: bytes

record external_sig =
  ext_format :: signature_format
  ext_signature :: bytes
  ext_payload :: bytes
  ext_email :: bytes

section \<open>Pack metadata, refs and errors (backend/mod.rs)\<close>

datatype 'o object_kind = KBlob | KTree | KCommit "'o commit_info" | KTag "'o tag_info"

record 'o pack_object =
  po_oid :: 'o
  po_kind :: "'o object_kind"
  po_size :: nat

type_synonym 'o pack_metadata = "'o pack_object list"

definition pm_commits :: "'o pack_metadata \<Rightarrow> 'o commit_info list" where
  "pm_commits p = List.map_filter (\<lambda>o'. case po_kind o' of KCommit c \<Rightarrow> Some c | _ \<Rightarrow> None) p"

definition pm_tags :: "'o pack_metadata \<Rightarrow> 'o tag_info list" where
  "pm_tags p = List.map_filter (\<lambda>o'. case po_kind o' of KTag t \<Rightarrow> Some t | _ \<Rightarrow> None) p"

definition find_commit :: "'o pack_metadata \<Rightarrow> 'o \<Rightarrow> 'o commit_info option" where
  "find_commit p x = find (\<lambda>c. ci_oid c = x) (pm_commits p)"

record 'o head_info =
  hi_oid :: 'o
  hi_symref :: "bytes option"

record 'o ref_info =
  ri_name :: bytes
  ri_oid :: 'o
  ri_peeled :: "'o option"
  ri_symref :: "bytes option"

record 'o refs_snapshot =
  rs_head :: "'o head_info option"
  rs_refs :: "'o ref_info list"

definition as_receive_pack :: "'o refs_snapshot \<Rightarrow> ('o \<times> bytes) list" where
  "as_receive_pack s =
     map (\<lambda>r. (ri_oid r, ri_name r)) (filter (\<lambda>r. starts_with (ri_name r) ''refs/'') (rs_refs s))"

definition as_upload_pack_v1 :: "'o refs_snapshot \<Rightarrow> ('o \<times> bytes) list" where
  "as_upload_pack_v1 s =
     (case rs_head s of None \<Rightarrow> [] | Some h \<Rightarrow> [(hi_oid h, ''HEAD'')]) @
     map (\<lambda>r. (ri_oid r, ri_name r)) (filter (\<lambda>r. starts_with (ri_name r) ''refs/'') (rs_refs s))"

record pack_options =
  opt_deepen :: "nat option"
  opt_filter :: "pack_filter option"
  opt_thin_pack :: bool

text \<open>
  The pack stream of \<open>PackOutput\<close> is what its reader and its progress channel yield: the results of
  the successive \<open>read\<close> calls, and the messages waiting at the successive polls.
\<close>

record 'o pack_output =
  out_reader :: "bytes res list"
  out_shallow :: "'o list"
  out_progress :: "bytes list list option"

datatype reachable_error = CapExceeded nat | OtherError error

text \<open>Display of the two error types, as the callers print them.\<close>

fun display_error :: "error \<Rightarrow> bytes" where
  "display_error (Bail m) = m"
| "display_error (LimitExceeded name n m) =
     ''too many '' @ name @ '' ('' @ show_nat n @ '' exceeds limit of '' @ show_nat m @ '')''"
| "display_error (Ext m) = m"
| "display_error (Ctx m e) = m @ '': '' @ display_error e"

text \<open>\<open>{e}\<close> prints the outermost message only, \<open>{e:#}\<close> the whole chain as above.\<close>

fun outer_message :: "error \<Rightarrow> bytes" where
  "outer_message (Ctx m e) = m"
| "outer_message e = display_error e"

section \<open>The compare-and-swap contract of update\_refs\<close>

text \<open>
  The abstract specification every backend promises (\<open>StorageBackend::update_refs\<close>): on the map
  from ref names to object ids, one update is admitted when the ref's current value is the
  announced old one (absent for a null id) and then sets, or for a null new id removes, the ref.
  A batch is admitted when its updates are, one after the other.
\<close>

definition cas_ok :: "'o oid_ops \<Rightarrow> (bytes \<rightharpoonup> 'o) \<Rightarrow> 'o ref_update \<Rightarrow> bool" where
  "cas_ok H m u \<longleftrightarrow>
     (if old_oid u = null_oid H then m (refname u) = None else m (refname u) = Some (old_oid u))"

definition cas_apply :: "'o oid_ops \<Rightarrow> (bytes \<rightharpoonup> 'o) \<Rightarrow> 'o ref_update \<Rightarrow> (bytes \<rightharpoonup> 'o)" where
  "cas_apply H m u =
     m(refname u := (if new_oid u = null_oid H then None else Some (new_oid u)))"

fun cas_batch :: "'o oid_ops \<Rightarrow> (bytes \<rightharpoonup> 'o) \<Rightarrow> 'o ref_update list \<Rightarrow> (bytes \<rightharpoonup> 'o) option" where
  "cas_batch H m [] = Some m"
| "cas_batch H m (u # us) = (if cas_ok H m u then cas_batch H (cas_apply H m u) us else None)"

lemma cas_batch_append:
  "cas_batch H m (us @ vs) =
     (case cas_batch H m us of None \<Rightarrow> None | Some m' \<Rightarrow> cas_batch H m' vs)"
  by (induction us arbitrary: m) auto

lemma cas_batch_other: "cas_batch H m us = Some m' \<Longrightarrow> r \<notin> refname ` set us \<Longrightarrow> m' r = m r"
  by (induction us arbitrary: m) (auto simp: cas_apply_def split: if_splits)

text \<open>For distinct names every update is judged against the initial map.\<close>

lemma cas_batch_distinct:
  "distinct (map refname us) \<Longrightarrow>
   cas_batch H m us =
     (if \<forall>u \<in> set us. cas_ok H m u then Some (foldl (cas_apply H) m us) else None)"
proof (induction us arbitrary: m)
  case Nil
  then show ?case by simp
next
  case (Cons u us)
  have "cas_ok H (cas_apply H m u) v = cas_ok H m v" if "v \<in> set us" for v
  proof -
    have "refname u \<notin> refname ` set us" using Cons.prems by simp
    then have "refname v \<noteq> refname u" using that by (metis image_eqI)
    then show ?thesis by (simp add: cas_ok_def cas_apply_def)
  qed
  with Cons show ?case by auto
qed

end
