(* ===== verification/KV_Refs.thy ===== *)
theory KV_Refs
  imports KV_Cluster KV_Keys Backend_Types
begin

text \<open>
  \<open>backend/kv/refs.rs\<close> and the repository index of \<open>backend/kv/mod.rs\<close>: reading refs from one
  snapshot, and \<open>update_refs\<close>, which is shown to implement the compare-and-swap contract against
  the very state of the store its transaction commits on, whatever other clients do meanwhile.
\<close>

section \<open>Refs\<close>

definition SCAN_LIMIT :: nat where "SCAN_LIMIT = u32_max"

text \<open>One entry of the ref scan.\<close>

definition ref_of_pair :: "'o oid_ops \<Rightarrow> repo_id \<Rightarrow> bytes \<times> bytes \<Rightarrow> 'o ref_info res" where
  "ref_of_pair H rid p =
     bindR (of_option (Bail ''decoding ref name from key'') (refname_from_key rid (fst p))) (\<lambda>name.
     case from_bytes H (snd p) of
       Inl e \<Rightarrow> Inl (Bail (''corrupt ref oid for '' @ name @ '': '' @ display_error e))
     | Inr x \<Rightarrow> Inr \<lparr> ri_name = name, ri_oid = x, ri_peeled = None, ri_symref = None \<rparr>)"

definition head_target :: "bytes option \<Rightarrow> bytes" where
  "head_target v =
     (case v of Some b \<Rightarrow> if utf8_valid b then b else ''refs/heads/main'' | None \<Rightarrow> ''refs/heads/main'')"

definition head_of :: "bytes \<Rightarrow> 'o ref_info list \<Rightarrow> 'o head_info option" where
  "head_of target refs =
     map_option (\<lambda>r. \<lparr> hi_oid = ri_oid r, hi_symref = Some target \<rparr>)
       (find (\<lambda>r. ri_name r = target) refs)"

definition kv_list_refs_body :: "'s kv_api \<Rightarrow> 'o oid_ops \<Rightarrow> repo_id \<Rightarrow> ('s, error, 'o refs_snapshot) act" where
  "kv_list_refs_body K H rid =
     bindA (ctxA ''scan refs'' (kv_scan K (refs_prefix_start rid) (refs_prefix_end rid) SCAN_LIMIT)) (\<lambda>pairs.
     bindA (liftA (mapR (ref_of_pair H rid) pairs)) (\<lambda>refs.
     bindA (ctxA ''read HEAD symref'' (kv_get K (repo_meta rid REPO_META_HEAD))) (\<lambda>h.
       retA \<lparr> rs_head = head_of (head_target h) refs, rs_refs = refs \<rparr>)))"

definition kv_list_refs :: "'s kv_api \<Rightarrow> 'o oid_ops \<Rightarrow> repo_id \<Rightarrow> ('s, error, 'o refs_snapshot) act" where
  "kv_list_refs K H rid = read_txn K ''begin txn for list_refs'' (kv_list_refs_body K H rid)"

definition decode_ref :: "'o oid_ops \<Rightarrow> bytes \<Rightarrow> bytes option \<Rightarrow> 'o option res" where
  "decode_ref H name v =
     (case v of
        None \<Rightarrow> Inr None
      | Some b \<Rightarrow>
          (case from_bytes H b of
             Inl e \<Rightarrow> Inl (Bail (''corrupt ref value for '' @ name @ '': '' @ display_error e))
           | Inr x \<Rightarrow> Inr (Some x)))"

definition kv_resolve_ref :: "'s kv_api \<Rightarrow> 'o oid_ops \<Rightarrow> repo_id \<Rightarrow> bytes \<Rightarrow> ('s, error, 'o option) act" where
  "kv_resolve_ref K H rid name =
     read_txn K ''begin txn for resolve_ref''
       (bindA (ctxA ''read ref'' (kv_get K (refkey rid name))) (\<lambda>v. liftA (decode_ref H name v)))"

definition stale :: "bytes \<Rightarrow> bytes \<Rightarrow> error" where
  "stale name detail = Bail (''stale info: '' @ name @ detail)"

definition cas_check :: "'o oid_ops \<Rightarrow> 'o ref_update \<Rightarrow> 'o option \<Rightarrow> unit res" where
  "cas_check H u current =
     (let create = (old_oid u = null_oid H)
      in case (create, current) of
           (True, Some actual) \<Rightarrow>
             Inl (stale (refname u) ('' should not exist but is at '' @ to_hex H actual))
         | (False, None) \<Rightarrow>
             Inl (stale (refname u) ('' expected '' @ to_hex H (old_oid u) @ '' but is absent''))
         | (False, Some actual) \<Rightarrow>
             if actual \<noteq> old_oid u
             then Inl (stale (refname u)
                         ('' expected '' @ to_hex H (old_oid u) @ '' but is '' @ to_hex H actual))
             else Inr ()
         | (True, None) \<Rightarrow> Inr ())"

definition kv_update_one :: "'s kv_api \<Rightarrow> 'o oid_ops \<Rightarrow> repo_id \<Rightarrow> 'o ref_update \<Rightarrow> ('s, error, unit) act" where
  "kv_update_one K H rid u =
     (let key = refkey rid (refname u) in
      bindA (ctxA ''CAS read'' (get_for_update K key)) (\<lambda>v.
      bindA (liftA (decode_ref H (refname u) v)) (\<lambda>current.
      bindA (liftA (cas_check H u current)) (\<lambda>_.
        if new_oid u = null_oid H then ctxA ''delete ref'' (kv_delete K key)
        else ctxA ''write ref'' (kv_put K key (as_bytes H (new_oid u)))))))"

definition kv_update_refs :: "'s kv_api \<Rightarrow> 'o oid_ops \<Rightarrow> repo_id \<Rightarrow> 'o ref_update list \<Rightarrow> ('s, error, unit) act" where
  "kv_update_refs K H rid us =
     write_txn K ''begin txn for update_refs'' (forA us (kv_update_one K H rid))"

section \<open>Repository ids\<close>

definition encode_u64 :: "repo_id \<Rightarrow> bytes" where
  "encode_u64 v = u64_be v"

definition decode_u64 :: "bytes \<Rightarrow> repo_id res" where
  "decode_u64 b =
     (if length b = 8 then Inr (of_nat (be_val b)) else Inl (Bail ''expected 8-byte u64''))"

definition kv_init_repo_inner :: "'s kv_api \<Rightarrow> bytes \<Rightarrow> ('s, error, repo_id) act" where
  "kv_init_repo_inner K path =
     bindA (read_txn K ''begin probe txn''
       (bindA (ctxA ''read repo_index'' (kv_get K (repo_index path))) (\<lambda>v.
          case v of
            Some b \<Rightarrow> liftA (bindR (context_err ''decoding repo_id'' (decode_u64 b)) (\<lambda>i. Inr (Some i)))
          | None \<Rightarrow> retA None))) (\<lambda>probe.
     case probe of
       Some i \<Rightarrow> retA i
     | None \<Rightarrow> write_txn K ''begin alloc txn for init_repo''
         (bindA (ctxA ''re-check repo_index'' (kv_get K (repo_index path))) (\<lambda>again.
          case again of
            Some b \<Rightarrow> liftA (context_err ''decoding repo_id'' (decode_u64 b))
          | None \<Rightarrow>
              bindA (ctxA ''read repo_id counter'' (get_for_update K next_repo_id)) (\<lambda>c.
              bindA (case c of
                       Some b \<Rightarrow> liftA (context_err ''decoding repo_id counter'' (decode_u64 b))
                     | None \<Rightarrow> retA 1) (\<lambda>next.
              bindA (ctxA ''write repo_id counter'' (kv_put K next_repo_id (encode_u64 (next + 1)))) (\<lambda>_.
              bindA (ctxA ''write repo_index'' (kv_put K (repo_index path) (encode_u64 next))) (\<lambda>_.
              bindA (ctxA ''mark repo as existing''
                       (kv_put K (repo_meta next REPO_META_EXISTS) [])) (\<lambda>_.
                retA next))))))))"

definition kv_open_inner :: "'s kv_api \<Rightarrow> bytes \<Rightarrow> ('s, error, repo_id) act" where
  "kv_open_inner K path =
     read_txn K ''begin txn for open''
       (bindA (ctxA ''read repo_index'' (kv_get K (repo_index path))) (\<lambda>v.
          case v of
            Some b \<Rightarrow> liftA (context_err ''decoding repo_id'' (decode_u64 b))
          | None \<Rightarrow> failA (Bail (debug_str path @ '' does not appear to be a git repository''))))"

section \<open>The ref map of a store\<close>

definition kv_refs :: "'o oid_ops \<Rightarrow> repo_id \<Rightarrow> kv_store \<Rightarrow> (bytes \<rightharpoonup> 'o)" where
  "kv_refs H rid m name =
     (case m (refkey rid name) of
        None \<Rightarrow> None
      | Some b \<Rightarrow> (case from_bytes H b of Inl _ \<Rightarrow> None | Inr x \<Rightarrow> Some x))"

lemma decode_ref_Inr: "decode_ref H n (m (refkey rid n)) = Inr v \<Longrightarrow> kv_refs H rid m n = v"
  by (auto simp: decode_ref_def kv_refs_def split: option.splits sum.splits)

lemma cas_check_Inr: "cas_check H u v = Inr () \<longleftrightarrow>
    (if old_oid u = null_oid H then v = None else v = Some (old_oid u))"
  by (cases v) (auto simp: cas_check_def Let_def)

definition ref_write :: "'o oid_ops \<Rightarrow> 'o ref_update \<Rightarrow> bytes option" where
  "ref_write H u = (if new_oid u = null_oid H then None else Some (as_bytes H (new_oid u)))"

text \<open>The write set of a batch, and what it does to the ref map.\<close>

definition batch_writes :: "'o oid_ops \<Rightarrow> repo_id \<Rightarrow> 'o ref_update list \<Rightarrow> kv_writes" where
  "batch_writes H rid us =
     foldl (\<lambda>w u. w(refkey rid (refname u) \<mapsto> ref_write H u)) Map.empty us"

lemma batch_writes_snoc:
  "batch_writes H rid (us @ [u]) = (batch_writes H rid us)(refkey rid (refname u) \<mapsto> ref_write H u)"
  by (simp add: batch_writes_def)

lemma dom_batch_writes: "dom (batch_writes H rid us) = (\<lambda>u. refkey rid (refname u)) ` set us"
proof (induction us rule: rev_induct)
  case Nil
  then show ?case by (simp add: batch_writes_def)
next
  case (snoc u us)
  then show ?case unfolding batch_writes_snoc dom_fun_upd by simp
qed

lemma kv_refs_upd:
  "object_id H \<Longrightarrow> kv_refs H rid (m(refkey rid (refname u) := ref_write H u)) = cas_apply H (kv_refs H rid m) u"
  by (auto simp: kv_refs_def cas_apply_def ref_write_def fun_eq_iff object_id.from_as_bytes)

lemma kv_refs_batch_writes:
  assumes "object_id H"
  shows "kv_refs H rid (apply_writes (batch_writes H rid us) m) = foldl (cas_apply H) (kv_refs H rid m) us"
proof (induction us rule: rev_induct)
  case Nil
  then show ?case by (simp add: batch_writes_def)
next
  case (snoc u us)
  then show ?case
    by (simp only: batch_writes_snoc apply_writes_upd kv_refs_upd [OF assms] foldl_append foldl.simps)
qed

section \<open>Compare and swap\<close>

context kv_client
begin

text \<open>
  In the course of a batch: the write set is that of the updates done, and for each of them the
  key is locked and the value in the store has passed the check.
\<close>

definition cas_inv ::
  "'o oid_ops \<Rightarrow> repo_id \<Rightarrow> (kv_store \<times> kv_writes) list \<Rightarrow> 'o ref_update list \<Rightarrow> 's \<Rightarrow> bool" where
  "cas_inv H rid cs us s \<longleftrightarrow>
     commits s = cs \<and> writes s = batch_writes H rid us \<and>
     (\<forall>u \<in> set us. refkey rid (refname u) \<in> locked s \<and> cas_ok H (kv_refs H rid (store s)) u)"

lemma cas_ok_stable:
  "store t (refkey rid (refname u)) = store s (refkey rid (refname u)) \<Longrightarrow>
   cas_ok H (kv_refs H rid (store t)) u = cas_ok H (kv_refs H rid (store s)) u"
  by (simp add: cas_ok_def kv_refs_def)

lemma cas_inv_frame:
  assumes "cas_inv H rid cs us s" "commits t = commits s" "writes t = writes s"
    and "\<forall>x \<in> locked s. x \<in> locked t \<and> store t x = store s x"
  shows "cas_inv H rid cs us t"
  using assms cas_ok_stable [of t rid _ s H] by (auto simp: cas_inv_def)

lemma triple_cas_read:
  assumes fresh: "refname u \<notin> refname ` set us"
  shows "triple (cas_inv H rid cs us)
     (ctxA ''CAS read'' (get_for_update K (refkey rid (refname u))))
     (\<lambda>v s. cas_inv H rid cs us s \<and> refkey rid (refname u) \<in> locked s \<and>
            v = store s (refkey rid (refname u))) (\<lambda>_ s. commits s = cs)"
proof (intro triple_ctx tripleI)
  fix s v t assume s: "cas_inv H rid cs us s"
    and g: "get_for_update K (refkey rid (refname u)) s = (Inr v, t)"
  have "refkey rid (refname u) \<notin> dom (writes s)"
    using s fresh by (auto simp: cas_inv_def dom_batch_writes)
  then show "cas_inv H rid cs us t \<and> refkey rid (refname u) \<in> locked t \<and>
      v = store t (refkey rid (refname u))"
    using get_for_update_Inr [OF g] get_for_update_frame [OF g] cas_inv_frame [OF s] by blast
next
  fix s e t assume s: "cas_inv H rid cs us s"
    and g: "get_for_update K (refkey rid (refname u)) s = (Inl e, t)"
  show "commits t = cs" using get_for_update_frame [OF g] s by (simp add: cas_inv_def)
qed

lemma triple_cas_write:
  assumes "m = (if new_oid u = null_oid H then ctxA c (kv_delete K (refkey rid (refname u)))
                else ctxA c' (kv_put K (refkey rid (refname u)) (as_bytes H (new_oid u))))"
  shows "triple (\<lambda>s. cas_inv H rid cs us s \<and> refkey rid (refname u) \<in> locked s \<and>
              cas_ok H (kv_refs H rid (store s)) u)
           m (\<lambda>_. cas_inv H rid cs (us @ [u])) (\<lambda>_ s. commits s = cs)"
proof (rule tripleI)
  fix s x t
  assume s: "cas_inv H rid cs us s \<and> refkey rid (refname u) \<in> locked s \<and>
              cas_ok H (kv_refs H rid (store s)) u"
    and run: "m s = (Inr x, t)"
  let ?k = "refkey rid (refname u)"
  have "writes t = (writes s)(?k \<mapsto> ref_write H u) \<and> commits t = commits s \<and>
      (\<forall>y \<in> locked s. y \<in> locked t \<and> store t y = store s y)"
    using run delete_Inr [of ?k s x t] delete_frame [of ?k s _ t] put_Inr [of ?k _ s x t]
      put_frame [of ?k _ s _ t]
    by (auto simp: assms ref_write_def act_Inr split: if_splits)
  then show "cas_inv H rid cs (us @ [u]) t"
    using s cas_ok_stable [of t rid _ s H] by (auto simp: cas_inv_def batch_writes_snoc)
next
  fix s e t
  assume s: "cas_inv H rid cs us s \<and> refkey rid (refname u) \<in> locked s \<and>
              cas_ok H (kv_refs H rid (store s)) u"
    and run: "m s = (Inl e, t)"
  then show "commits t = cs"
    using delete_frame [of "refkey rid (refname u)" s _ t] put_frame [of "refkey rid (refname u)" _ s _ t]
    by (auto simp: assms cas_inv_def act_defs split: if_splits prod.splits sum.splits)
qed

lemma triple_update_one:
  assumes "refname u \<notin> refname ` set us"
  shows "triple (cas_inv H rid cs us) (kv_update_one K H rid u)
           (\<lambda>_. cas_inv H rid cs (us @ [u])) (\<lambda>_ s. commits s = cs)"
  unfolding kv_update_one_def Let_def
proof (rule triple_bind [OF triple_cas_read [OF assms]])
  fix v
  let ?key = "refkey rid (refname u)"
  let ?read = "\<lambda>s. cas_inv H rid cs us s \<and> ?key \<in> locked s"
  show "triple (\<lambda>s. cas_inv H rid cs us s \<and> ?key \<in> locked s \<and> v = store s ?key)
     (bindA (liftA (decode_ref H (refname u) v)) (\<lambda>current.
      bindA (liftA (cas_check H u current)) (\<lambda>_.
        if new_oid u = null_oid H then ctxA ''delete ref'' (kv_delete K ?key)
        else ctxA ''write ref'' (kv_put K ?key (as_bytes H (new_oid u))))))
     (\<lambda>_. cas_inv H rid cs (us @ [u])) (\<lambda>_ s. commits s = cs)"
  proof (rule triple_bind [where R = "\<lambda>cur s. ?read s \<and> kv_refs H rid (store s) (refname u) = cur"])
    show "triple (\<lambda>s. cas_inv H rid cs us s \<and> ?key \<in> locked s \<and> v = store s ?key)
        (liftA (decode_ref H (refname u) v))
        (\<lambda>cur s. ?read s \<and> kv_refs H rid (store s) (refname u) = cur) (\<lambda>_ s. commits s = cs)"
      by (rule triple_lift) (auto simp: cas_inv_def dest: decode_ref_Inr)
  next
    fix cur
    have check: "triple (\<lambda>s. ?read s \<and> kv_refs H rid (store s) (refname u) = cur)
        (liftA (cas_check H u cur)) (\<lambda>_ s. cas_inv H rid cs us s \<and> ?key \<in> locked s \<and>
          cas_ok H (kv_refs H rid (store s)) u) (\<lambda>_ s. commits s = cs)"
    proof (rule triple_lift)
      show "cas_inv H rid cs us s \<and> ?key \<in> locked s \<and> cas_ok H (kv_refs H rid (store s)) u"
        if "?read s \<and> kv_refs H rid (store s) (refname u) = cur" "cas_check H u cur = Inr x" for s x
        using that by (simp add: cas_check_Inr cas_ok_def)
    qed (simp add: cas_inv_def)
    show "triple (\<lambda>s. ?read s \<and> kv_refs H rid (store s) (refname u) = cur)
      (bindA (liftA (cas_check H u cur)) (\<lambda>_.
        if new_oid u = null_oid H then ctxA ''delete ref'' (kv_delete K ?key)
        else ctxA ''write ref'' (kv_put K ?key (as_bytes H (new_oid u)))))
      (\<lambda>_. cas_inv H rid cs (us @ [u])) (\<lambda>_ s. commits s = cs)"
      by (rule triple_bind [OF check], rule triple_cas_write) simp
  qed
qed

lemma triple_update_batch:
  assumes "distinct (map refname us)"
  shows "triple (cas_inv H rid cs []) (forA us (kv_update_one K H rid))
           (\<lambda>_. cas_inv H rid cs us) (\<lambda>_ s. commits s = cs)"
proof (rule triple_for)
  fix xs x ys assume "us = xs @ x # ys"
  with assms show "triple (cas_inv H rid cs xs) (kv_update_one K H rid x)
      (\<lambda>_. cas_inv H rid cs (xs @ [x])) (\<lambda>_ s. commits s = cs)"
    by (intro triple_update_one) auto
qed

lemma triple_commits_get:
  "triple (\<lambda>s. commits s = cs) (get_for_update K k) (\<lambda>_ s. commits s = cs) (\<lambda>_ s. commits s = cs)"
  by (rule tripleI) (auto dest: get_for_update_frame)

lemma triple_commits_write:
  "triple (\<lambda>s. commits s = cs) (if b then ctxA c (kv_delete K k) else ctxA c' (kv_put K k x))
     (\<lambda>_ s. commits s = cs) (\<lambda>_ s. commits s = cs)"
  by (cases b; simp only: if_True if_False; intro triple_ctx tripleI)
     (auto dest: delete_frame put_frame)

lemma update_batch_commits:
  assumes "forA us (kv_update_one K H rid) s = (r, t)"
  shows "commits t = commits s"
proof -
  have one: "triple (\<lambda>s. commits s = cs) (kv_update_one K H rid u) (\<lambda>_ s. commits s = cs)
      (\<lambda>_ s. commits s = cs)" for cs u
    unfolding kv_update_one_def Let_def
    by (intro triple_bind [where R = "\<lambda>_ s. commits s = cs"] triple_ctx triple_lift
        triple_commits_get triple_commits_write)
  have "triple (\<lambda>s. commits s = cs) (forA us (kv_update_one K H rid)) (\<lambda>_ s. commits s = cs)
      (\<lambda>_ s. commits s = cs)" for cs
    using triple_for [where I = "\<lambda>_ s. commits s = cs"] one by blast
  then show ?thesis using assms by (cases r) (auto dest: triple_Inr triple_Inl)
qed

text \<open>The write sets and stores a batch may commit on: the contract holds of them.\<close>

lemma cas_inv_commit:
  assumes H: "object_id H" and d: "distinct (map refname us)"
    and inv: "cas_inv H rid cs us s" and \<sigma>: "\<forall>k \<in> locked s. \<sigma> k = store s k"
  shows "cas_batch H (kv_refs H rid \<sigma>) us = Some (kv_refs H rid (apply_writes (writes s) \<sigma>))"
proof -
  have "cas_ok H (kv_refs H rid \<sigma>) u" if "u \<in> set us" for u
  proof -
    have "refkey rid (refname u) \<in> locked s" "cas_ok H (kv_refs H rid (store s)) u"
      using inv that by (auto simp: cas_inv_def)
    then have "kv_refs H rid \<sigma> (refname u) = kv_refs H rid (store s) (refname u)"
      using \<sigma> by (simp add: kv_refs_def)
    with \<open>cas_ok H (kv_refs H rid (store s)) u\<close> show ?thesis by (simp add: cas_ok_def)
  qed
  moreover have "writes s = batch_writes H rid us" using inv by (simp add: cas_inv_def)
  ultimately show ?thesis
    using kv_refs_batch_writes [OF H, of rid us \<sigma>] cas_batch_distinct [OF d] by auto
qed

lemma begin_cas_inv: "begin_pessimistic K s = (Inr (), s1) \<Longrightarrow> cas_inv H rid (commits s) [] s1"
  using begin_pessimistic_Inr [of s "()" s1] by (simp add: cas_inv_def batch_writes_def)

lemma update_refs_Inr:
  assumes H: "object_id H" and d: "distinct (map refname us)"
    and run: "kv_update_refs K H rid us s = (Inr (), t)"
  shows "\<exists>\<sigma>. commits t = commits s @ [(\<sigma>, batch_writes H rid us)] \<and>
           store t = apply_writes (batch_writes H rid us) \<sigma> \<and>
           cas_batch H (kv_refs H rid \<sigma>) us = Some (kv_refs H rid (store t))"
proof -
  from run obtain s1 s2 \<sigma> where b: "begin_pessimistic K s = (Inr (), s1)"
    and body: "forA us (kv_update_one K H rid) s1 = (Inr (), s2)"
    and c: "commits t = commits s2 @ [(\<sigma>, writes s2)]" "\<forall>k \<in> locked s2. \<sigma> k = store s2 k"
      "store t = apply_writes (writes s2) \<sigma>"
    unfolding kv_update_refs_def by (rule write_txn_Inr)
  have inv: "cas_inv H rid (commits s) us s2"
    using triple_Inr [OF triple_update_batch [OF d] begin_cas_inv [OF b] body] .
  then show ?thesis
    using c cas_inv_commit [OF H d inv c(2)] by (auto simp: cas_inv_def)
qed

lemma update_refs_Inl:
  assumes H: "object_id H" and d: "distinct (map refname us)"
    and run: "kv_update_refs K H rid us s = (Inl e, t)"
  shows "commits t = commits s \<or>
    (\<exists>\<sigma>. commits t = commits s @ [(\<sigma>, batch_writes H rid us)] \<and>
         cas_batch H (kv_refs H rid \<sigma>) us =
           Some (kv_refs H rid (apply_writes (batch_writes H rid us) \<sigma>)))"
proof (cases rule: write_txn_Inl [OF run [unfolded kv_update_refs_def], case_names frame none took_effect])
  case frame
  show ?case using update_batch_commits by blast
next
  case none
  then show ?thesis by simp
next
  case (took_effect s1 v s2 \<sigma>)
  have inv: "cas_inv H rid (commits s) us s2"
    using triple_Inr [OF triple_update_batch [OF d] begin_cas_inv [OF took_effect(1)] took_effect(2)] .
  then show ?thesis
    using took_effect cas_inv_commit [OF H d inv took_effect(4)] by (auto simp: cas_inv_def)
qed

end

section \<open>Reading refs\<close>

lemma append_less_append [simp]: "xs @ ys < xs @ zs \<longleftrightarrow> ys < (zs :: bytes)"
  by (induction xs) auto

lemma refkey_less: "refkey rid n < refkey rid n' \<longleftrightarrow> n < n'"
  by (simp add: refkey_def)

lemma ref_of_pair_Inr:
  "ref_of_pair H rid p = Inr r \<longleftrightarrow>
     fst p = refkey rid (ri_name r) \<and> utf8_valid (ri_name r) \<and> from_bytes H (snd p) = Inr (ri_oid r) \<and>
     r = \<lparr> ri_name = ri_name r, ri_oid = ri_oid r, ri_peeled = None, ri_symref = None \<rparr>"
  by (cases r; cases "from_bytes H (snd p)") (auto simp: ref_of_pair_def res_simps refname_from_key_Some)

text \<open>What a snapshot of the refs of a store is: the ref map in name order, and its HEAD.\<close>

definition snapshot_of :: "'o oid_ops \<Rightarrow> repo_id \<Rightarrow> kv_store \<Rightarrow> 'o refs_snapshot \<Rightarrow> bool" where
  "snapshot_of H rid \<sigma> snap \<longleftrightarrow>
     sorted_wrt (<) (map ri_name (rs_refs snap)) \<and>
     (\<forall>n x. (\<exists>r \<in> set (rs_refs snap). ri_name r = n \<and> ri_oid r = x) \<longleftrightarrow> kv_refs H rid \<sigma> n = Some x) \<and>
     (let target = head_target (\<sigma> (repo_meta rid REPO_META_HEAD))
      in rs_head snap =
           map_option (\<lambda>x. \<lparr> hi_oid = x, hi_symref = Some target \<rparr>) (kv_refs H rid \<sigma> target))"

definition ref_keys :: "repo_id \<Rightarrow> kv_store \<Rightarrow> bytes set" where
  "ref_keys rid \<sigma> = {k \<in> dom \<sigma>. \<exists>n. k = refkey rid n}"

lemma scan_refs_complete:
  assumes "scan_of \<sigma> (refs_prefix_start rid) (refs_prefix_end rid) SCAN_LIMIT ps"
    and "card (ref_keys rid \<sigma>) \<le> SCAN_LIMIT"
  shows "sorted_wrt (<) (map fst ps)" "set ps = {(k, v). \<sigma> k = Some v \<and> (\<exists>n. k = refkey rid n)}"
proof -
  obtain full where full: "ps = take SCAN_LIMIT full" "sorted_wrt (<) (map fst full)"
      "set full = {(k, v). \<sigma> k = Some v \<and> (\<exists>n. k = refkey rid n)}"
    using assms(1) unfolding scan_of_def refs_range_iff by blast
  have "fst ` set full = ref_keys rid \<sigma>"
    unfolding full(3) ref_keys_def by (auto simp: dom_def image_def)
  moreover have "distinct (map fst full)" using full(2) strict_sorted_iff by blast
  ultimately have "length full = card (ref_keys rid \<sigma>)"
    by (metis distinct_card length_map set_map)
  then have "ps = full" using assms(2) full(1) by simp
  with full show "sorted_wrt (<) (map fst ps)"
    "set ps = {(k, v). \<sigma> k = Some v \<and> (\<exists>n. k = refkey rid n)}" by simp_all
qed

lemma find_ref:
  assumes "\<forall>n x. (\<exists>r \<in> set refs. ri_name r = n \<and> ri_oid r = x) \<longleftrightarrow> m n = Some x"
  shows "head_of target refs = map_option (\<lambda>x. \<lparr> hi_oid = x, hi_symref = Some target \<rparr>) (m target)"
proof (cases "find (\<lambda>r. ri_name r = target) refs")
  case None
  then have "\<not> (\<exists>r \<in> set refs. ri_name r = target)" by (auto simp: find_None_iff)
  then have "m target \<noteq> Some x" for x using assms by blast
  then have "m target = None" by (cases "m target") auto
  with None show ?thesis by (simp add: head_of_def)
next
  case (Some r)
  then have "r \<in> set refs" "ri_name r = target" by (auto simp: find_Some_iff)
  then have "m target = Some (ri_oid r)" using assms by blast
  with Some show ?thesis by (simp add: head_of_def)
qed

lemma list_all2_in_set:
  "list_all2 R xs ys \<Longrightarrow> y \<in> set ys \<Longrightarrow> \<exists>x \<in> set xs. R x y"
  "list_all2 R xs ys \<Longrightarrow> x \<in> set xs \<Longrightarrow> \<exists>y \<in> set ys. R x y"
  by (induction rule: list_all2_induct) auto

lemma snapshot_of_pairs:
  assumes sorted: "sorted_wrt (<) (map fst ps)"
    and set: "set ps = {(k, v). \<sigma> k = Some v \<and> (\<exists>n. k = refkey rid n)}"
    and m: "mapR (ref_of_pair H rid) ps = Inr refs"
  shows "snapshot_of H rid \<sigma>
    \<lparr> rs_head = head_of (head_target (\<sigma> (repo_meta rid REPO_META_HEAD))) refs, rs_refs = refs \<rparr>"
proof -
  have l: "list_all2 (\<lambda>p r. ref_of_pair H rid p = Inr r) ps refs" using m by (simp add: mapR_Inr_iff)
  then have "map fst ps = map (\<lambda>r. refkey rid (ri_name r)) refs"
    by (auto simp: list_all2_conv_all_nth list_eq_iff_nth_eq ref_of_pair_Inr)
  then have "sorted_wrt (<) (map ri_name refs)"
    using sorted by (simp add: sorted_wrt_map refkey_less)
  moreover have lookup: "(\<exists>r \<in> set refs. ri_name r = n \<and> ri_oid r = x) \<longleftrightarrow> kv_refs H rid \<sigma> n = Some x" for n x
  proof
    assume "\<exists>r \<in> set refs. ri_name r = n \<and> ri_oid r = x"
    then obtain r p where r: "ri_name r = n" "ri_oid r = x" "p \<in> set ps" "ref_of_pair H rid p = Inr r"
      using list_all2_in_set(1) [OF l] by blast
    then have "\<sigma> (refkey rid n) = Some (snd p)" "from_bytes H (snd p) = Inr x"
      using set by (auto simp: ref_of_pair_Inr)
    then show "kv_refs H rid \<sigma> n = Some x" by (simp add: kv_refs_def)
  next
    assume "kv_refs H rid \<sigma> n = Some x"
    then obtain b where b: "\<sigma> (refkey rid n) = Some b" "from_bytes H b = Inr x"
      by (auto simp: kv_refs_def split: option.splits sum.splits)
    then have "(refkey rid n, b) \<in> set ps" using set by auto
    then obtain r where "r \<in> set refs" "ref_of_pair H rid (refkey rid n, b) = Inr r"
      using list_all2_in_set(2) [OF l] by blast
    with b show "\<exists>r \<in> set refs. ri_name r = n \<and> ri_oid r = x" by (auto simp: ref_of_pair_Inr)
  qed
  ultimately show ?thesis
    using find_ref [of refs "kv_refs H rid \<sigma>"] by (simp add: snapshot_of_def Let_def)
qed

context kv_client
begin

lemma triple_list_refs_body:
  "triple (reading cs \<sigma>) (kv_list_refs_body K H rid)
     (\<lambda>snap s. (card (ref_keys rid \<sigma>) \<le> SCAN_LIMIT \<longrightarrow> snapshot_of H rid \<sigma> snap) \<and> reading cs \<sigma> s)
     (\<lambda>_. reading cs \<sigma>)"
proof (rule tripleI)
  fix s snap t assume s: "reading cs \<sigma> s" and run: "kv_list_refs_body K H rid s = (Inr snap, t)"
  from run obtain ps s1 refs h s2 where
    sc: "kv_scan K (refs_prefix_start rid) (refs_prefix_end rid) SCAN_LIMIT s = (Inr ps, s1)" and
    m: "mapR (ref_of_pair H rid) ps = Inr refs" and
    g: "kv_get K (repo_meta rid REPO_META_HEAD) s1 = (Inr h, t)" and
    snap: "snap = \<lparr> rs_head = head_of (head_target h) refs, rs_refs = refs \<rparr>"
    by (auto simp: kv_list_refs_body_def bindA_Inr act_Inr)
  have r1: "scan_of \<sigma> (refs_prefix_start rid) (refs_prefix_end rid) SCAN_LIMIT ps" "reading cs \<sigma> s1"
    using triple_Inr [OF triple_scan s sc] by auto
  have r2: "h = \<sigma> (repo_meta rid REPO_META_HEAD)" "reading cs \<sigma> t"
    using triple_Inr [OF triple_get r1(2) g] by auto
  then show "(card (ref_keys rid \<sigma>) \<le> SCAN_LIMIT \<longrightarrow> snapshot_of H rid \<sigma> snap) \<and> reading cs \<sigma> t"
    using scan_refs_complete [OF r1(1)] snapshot_of_pairs [OF _ _ m, of \<sigma>] snap by simp
next
  fix s e t assume s: "reading cs \<sigma> s" and run: "kv_list_refs_body K H rid s = (Inl e, t)"
  have "triple (reading cs \<sigma>) (kv_list_refs_body K H rid) (\<lambda>_. reading cs \<sigma>) (\<lambda>_. reading cs \<sigma>)"
    unfolding kv_list_refs_body_def
    by (intro triple_bind [where R = "\<lambda>_. reading cs \<sigma>"] triple_ctx triple_lift triple_ret
        triple_weaken [OF triple_scan] triple_weaken [OF triple_get]) auto
  from triple_Inl [OF this s run] show "reading cs \<sigma> t" .
qed

lemma triple_resolve_body:
  "triple (reading cs \<sigma>)
     (bindA (ctxA c (kv_get K (refkey rid n))) (\<lambda>v. liftA (decode_ref H n v)))
     (\<lambda>v s. v = kv_refs H rid \<sigma> n \<and> reading cs \<sigma> s) (\<lambda>_. reading cs \<sigma>)"
  by (rule triple_bind [OF triple_ctx [OF triple_get]], rule triple_lift) (auto dest: decode_ref_Inr)

end

section \<open>A cluster without interference or faults\<close>

text \<open>
  With an empty schedule every call succeeds at once, so the operations can be computed: this
  gives the converse direction, that an admissible batch is indeed carried out.
\<close>

lemma quiet_op: "cl_events s = [] \<Longrightarrow> cl_op f s = (case f s of (x, t) \<Rightarrow> (Inr x, t))"
  by (simp add: cl_op_def cl_tick_def)

lemma cluster_ops:
  "begin_optimistic cluster_api = cl_op cl_begin" "begin_pessimistic cluster_api = cl_op cl_begin"
  "kv_get cluster_api k = cl_op (\<lambda>s. (map_of (cl_view s) k, s))"
  "get_for_update cluster_api k =
     cl_op (\<lambda>s. (map_of (cl_store s) k, s\<lparr> cl_locked := k # cl_locked s \<rparr>))"
  "kv_put cluster_api k v = cl_op (\<lambda>s. ((), s\<lparr> cl_writes := (k, Some v) # cl_writes s \<rparr>))"
  "kv_delete cluster_api k = cl_op (\<lambda>s. ((), s\<lparr> cl_writes := (k, None) # cl_writes s \<rparr>))"
  "kv_commit cluster_api = cl_op (\<lambda>s. ((),
     s\<lparr> cl_store := write_alist (cl_writes s) (cl_store s),
       cl_commits := cl_commits s @ [(cl_store s, cl_writes s)], cl_locked := [] \<rparr>))"
  "kv_rollback cluster_api = cl_op (\<lambda>s. ((), s\<lparr> cl_locked := [] \<rparr>))"
  by (simp_all add: cluster_api_def)

lemmas quiet = quiet_op cluster_ops cl_begin_def cl_view_def write_txn_def read_txn_def
  finalize_write_def finalize_read_def act_defs

definition refs_good :: "'o oid_ops \<Rightarrow> repo_id \<Rightarrow> kv_store \<Rightarrow> bool" where
  "refs_good H rid m \<longleftrightarrow> (\<forall>n b. m (refkey rid n) = Some b \<longrightarrow> (\<exists>x. from_bytes H b = Inr x))"

lemma decode_ref_good:
  "refs_good H rid m \<Longrightarrow> decode_ref H n (m (refkey rid n)) = Inr (kv_refs H rid m n)"
  by (auto simp: refs_good_def decode_ref_def kv_refs_def split: option.splits sum.splits) force

lemma quiet_update_one:
  assumes "cl_events s = []" "refs_good H rid (map_of (cl_store s))"
  shows "if cas_ok H (kv_refs H rid (map_of (cl_store s))) u
     then kv_update_one cluster_api H rid u s =
       (Inr (), s\<lparr> cl_locked := refkey rid (refname u) # cl_locked s,
                   cl_writes := (refkey rid (refname u), ref_write H u) # cl_writes s \<rparr>)
     else isl (fst (kv_update_one cluster_api H rid u s))"
proof -
  have "cas_check H u (kv_refs H rid (map_of (cl_store s)) (refname u)) = Inr () \<longleftrightarrow>
      cas_ok H (kv_refs H rid (map_of (cl_store s))) u"
    by (simp add: cas_check_Inr cas_ok_def)
  then show ?thesis
    using assms decode_ref_good [OF assms(2), of "refname u"]
    by (cases "cas_check H u (kv_refs H rid (map_of (cl_store s)) (refname u))")
       (auto simp: kv_update_one_def Let_def quiet ref_write_def)
qed

lemma quiet_update_batch:
  assumes "cl_events s = []" "refs_good H rid (map_of (cl_store s))"
  shows "if \<forall>u \<in> set us. cas_ok H (kv_refs H rid (map_of (cl_store s))) u
     then \<exists>t. forA us (kv_update_one cluster_api H rid) s = (Inr (), t) \<and> cl_events t = []
     else isl (fst (forA us (kv_update_one cluster_api H rid) s))"
  using assms
proof (induction us arbitrary: s)
  case Nil
  then show ?case by simp
next
  case (Cons u us)
  note one = quiet_update_one [OF Cons.prems, of u]
  show ?case
  proof (cases "cas_ok H (kv_refs H rid (map_of (cl_store s))) u")
    case True
    with one show ?thesis using Cons.IH [of "s\<lparr> cl_locked := refkey rid (refname u) # cl_locked s,
        cl_writes := (refkey rid (refname u), ref_write H u) # cl_writes s \<rparr>"] Cons.prems
      by (simp add: bindA_run)
  next
    case False
    with one show ?thesis by (auto simp: bindA_def split: prod.splits sum.splits)
  qed
qed

lemma quiet_update_refs:
  assumes "cl_events s = []" "refs_good H rid (map_of (cl_store s))"
  shows "fst (kv_update_refs cluster_api H rid us s) = Inr () \<longleftrightarrow>
         (\<forall>u \<in> set us. cas_ok H (kv_refs H rid (map_of (cl_store s))) u)"
proof -
  let ?s = "s\<lparr> cl_snap := cl_store s, cl_writes := [], cl_locked := [] \<rparr>"
  obtain r t where rt: "forA us (kv_update_one cluster_api H rid) ?s = (r, t)" by fastforce
  have "kv_update_refs cluster_api H rid us s = finalize_write cluster_api r t"
    using assms(1) rt
    by (simp add: kv_update_refs_def write_txn_def quiet_op cluster_ops cl_begin_def ctxA_def map_errA_def
        bindA_def finallyA_def)
  moreover have "fst (finalize_write cluster_api r t) = Inr () \<longleftrightarrow> r = Inr ()" if "cl_events t = [] \<or> isl r"
    using that by (cases r) (auto simp: quiet)
  ultimately show ?thesis
    using quiet_update_batch [of ?s H rid us] assms rt by (auto split: if_splits)
qed

lemma decode_encode_u64: "decode_u64 (encode_u64 v) = Inr v"
proof -
  have "unat v < 256 ^ 8" using unsigned_less [of v, where ?'a = nat] by simp
  then show ?thesis by (simp add: decode_u64_def encode_u64_def u64_be_def be_val_be_bytes)
qed

text \<open>
  The repository index: every entry decodes to an id below the counter, none is 0, and no two
  paths share one.
\<close>

definition kv_counter :: "kv_store \<Rightarrow> repo_id res" where
  "kv_counter m = (case m next_repo_id of None \<Rightarrow> Inr 1 | Some b \<Rightarrow> decode_u64 b)"

definition index_ok :: "kv_store \<Rightarrow> bool" where
  "index_ok m \<longleftrightarrow>
     (\<exists>c. kv_counter m = Inr c \<and> 0 < c \<and>
       (\<forall>p b. m (repo_index p) = Some b \<longrightarrow> (\<exists>i. decode_u64 b = Inr i \<and> 0 < i \<and> i < c)) \<and>
       (\<forall>p q b. m (repo_index p) = Some b \<longrightarrow> m (repo_index q) = Some b \<longrightarrow> p = q))"

definition repo_writes :: "bytes \<Rightarrow> repo_id \<Rightarrow> (bytes \<times> bytes option) list" where
  "repo_writes path n =
     [(repo_meta n REPO_META_EXISTS, Some []), (repo_index path, Some (encode_u64 n)),
      (next_repo_id, Some (encode_u64 (n + 1)))]"

lemma quiet_init_fresh:
  assumes "cl_events s = []" "map_of (cl_store s) (repo_index path) = None"
    and "kv_counter (map_of (cl_store s)) = Inr n"
  shows "\<exists>t. kv_init_repo_inner cluster_api path s = (Inr n, t) \<and> cl_events t = [] \<and>
    map_of (cl_store t) = apply_writes (map_of (repo_writes path n)) (map_of (cl_store s))"
proof (cases "map_of (cl_store s) next_repo_id")
  case None
  with assms show ?thesis
    by (auto simp: kv_init_repo_inner_def quiet kv_counter_def repo_writes_def write_alist_def [of "[]"]
        map_of_write_alist)
next
  case (Some b)
  with assms show ?thesis
    by (auto simp: kv_init_repo_inner_def quiet kv_counter_def repo_writes_def write_alist_def [of "[]"]
        map_of_write_alist context_err_def)
qed

lemma quiet_init_known:
  assumes "cl_events s = []" "map_of (cl_store s) (repo_index path) = Some b" "decode_u64 b = Inr n"
  shows "\<exists>t. kv_init_repo_inner cluster_api path s = (Inr n, t) \<and> cl_store t = cl_store s"
  using assms by (auto simp: kv_init_repo_inner_def quiet write_alist_def)

lemma quiet_open:
  assumes "cl_events s = []" "map_of (cl_store s) (repo_index path) = Some b"
  shows "fst (kv_open_inner cluster_api path s) = context_err ''decoding repo_id'' (decode_u64 b)"
  using assms by (cases "decode_u64 b") (auto simp: kv_open_inner_def quiet write_alist_def)

lemma apply_repo_writes:
  "apply_writes (map_of (repo_writes path n)) m (repo_index p) =
     (if p = path then Some (encode_u64 n) else m (repo_index p))"
  "apply_writes (map_of (repo_writes path n)) m next_repo_id = Some (encode_u64 (n + 1))"
  using key_tags_distinct(7) [of path] key_tags_distinct(7) [of p] key_tags_distinct(8,9)
  by (auto simp: apply_writes_def repo_writes_def)

lemma word_less_Suc: "n + 1 \<noteq> 0 \<Longrightarrow> (n :: 64 word) < n + 1"
  by (simp add: word_less_nat_alt unatSuc add.commute)

lemma index_ok_writes:
  assumes ok: "index_ok m" and fresh: "m (repo_index path) = None"
    and n: "kv_counter m = Inr n" "n + 1 \<noteq> 0"
  shows "index_ok (apply_writes (map_of (repo_writes path n)) m)"
proof -
  have pos: "0 < n" and entries: "m (repo_index p) = Some b \<Longrightarrow> \<exists>i. decode_u64 b = Inr i \<and> 0 < i \<and> i < n"
    and inj: "m (repo_index p) = Some b \<Longrightarrow> m (repo_index q) = Some b \<Longrightarrow> p = q" for p q b
    using ok n by (auto simp: index_ok_def)
  have lt: "n < n + 1" using n(2) by (simp add: word_less_Suc)
  have other: "m (repo_index p) \<noteq> Some (encode_u64 n)" for p
    using entries [of p "encode_u64 n"] by (auto simp: decode_encode_u64)
  let ?m = "apply_writes (map_of (repo_writes path n)) m"
  have "kv_counter ?m = Inr (n + 1)" by (simp add: kv_counter_def apply_repo_writes decode_encode_u64)
  moreover have "0 < n + 1" using lt pos by (meson order.strict_trans)
  moreover have "\<exists>i. decode_u64 b = Inr i \<and> 0 < i \<and> i < n + 1" if "?m (repo_index p) = Some b" for p b
    using that entries [of p b] lt pos
    by (auto simp: apply_repo_writes decode_encode_u64 split: if_splits dest: order.strict_trans)
  moreover have "p = q" if "?m (repo_index p) = Some b" "?m (repo_index q) = Some b" for p q b
    using that inj [of p b q] other by (auto simp: apply_repo_writes split: if_splits)
  ultimately show ?thesis by (auto simp: index_ok_def)
qed

section \<open>Properties\<close>


definition demo_update :: "sha1 ref_update" where
  "demo_update = \<lparr> old_oid = 0, new_oid = 7, refname = ''refs/heads/main'' \<rparr>"

definition empty_cluster :: cluster where
  "empty_cluster = \<lparr> cl_store = [], cl_snap = [], cl_writes = [], cl_locked = [], cl_commits = [],
     cl_events = [] \<rparr>"

lemma demo_update_ok: "fst (kv_update_refs cluster_api sha1_ops 1 [demo_update] empty_cluster) = Inr ()"
  by (subst quiet_update_refs)
     (auto simp: empty_cluster_def refs_good_def cas_ok_def kv_refs_def demo_update_def sha1_ops_def)


text \<open>
  Without interference or faults, \<open>update_refs\<close> succeeds exactly when the contract admits
  the batch: the check is neither too strict nor too lax.
\<close>

theorem kv_update_refs_complete:
  assumes "cl_events s = []" "refs_good H rid (map_of (cl_store s))" "distinct (map refname us)"
  shows "fst (kv_update_refs cluster_api H rid us s) = Inr () \<longleftrightarrow>
         cas_batch H (kv_refs H rid (map_of (cl_store s))) us \<noteq> None"
  using quiet_update_refs [OF assms(1,2), of us] cas_batch_distinct [OF assms(3), of H] by simp

theorem kv_update_refs_complete_witness:
  "fst (kv_update_refs cluster_api sha1_ops 1 [demo_update] empty_cluster) = Inr () \<longleftrightarrow>
   cas_batch sha1_ops (kv_refs sha1_ops 1 (map_of (cl_store empty_cluster))) [demo_update] \<noteq> None"
  by (rule kv_update_refs_complete) (simp_all add: empty_cluster_def refs_good_def)

text \<open>
  \<open>list_refs\<close> returns the refs of one state of the store, the one its transaction began on:
  all of them, in name order, with HEAD resolved through the stored target; a concurrent
  \<open>update_refs\<close> is seen entirely or not at all.  (The scan is cut off beyond 4294967295 refs.)
\<close>

theorem kv_list_refs_snapshot:
  assumes client: "kv_client K st sn wr lk cm" and run: "kv_list_refs K H rid s = (Inr snap, t)"
  shows "\<exists>s1. begin_optimistic K s = (Inr (), s1) \<and>
    (card (ref_keys rid (st s1)) \<le> SCAN_LIMIT \<longrightarrow> snapshot_of H rid (st s1) snap)"
  using kv_client.read_txn_snapshot
    [OF client kv_client.triple_list_refs_body [OF client] run [unfolded kv_list_refs_def]] .

definition one_ref_cluster :: cluster where
  "one_ref_cluster = empty_cluster\<lparr> cl_store := [(refkey 1 ''refs/heads/main'', as_bytes sha1_ops 7)] \<rparr>"

definition one_ref_snapshot :: "sha1 refs_snapshot" where
  "one_ref_snapshot =
     \<lparr> rs_head = Some \<lparr> hi_oid = 7, hi_symref = Some ''refs/heads/main'' \<rparr>,
       rs_refs = [\<lparr> ri_name = ''refs/heads/main'', ri_oid = 7, ri_peeled = None, ri_symref = None \<rparr>] \<rparr>"

lemma one_ref_listed:
  "\<exists>t. kv_list_refs cluster_api sha1_ops 1 one_ref_cluster = (Inr one_ref_snapshot, t)"
proof -
  have r: "ref_of_pair sha1_ops 1 (refkey 1 ''refs/heads/main'', as_bytes sha1_ops 7) =
      Inr \<lparr> ri_name = ''refs/heads/main'', ri_oid = 7, ri_peeled = None, ri_symref = None \<rparr>"
    by (simp add: ref_of_pair_Inr sha1.from_as_bytes in_range_def)
  have k: "refs_prefix_start 1 \<le> refkey 1 ''refs/heads/main'' \<and>
      refkey 1 ''refs/heads/main'' < refs_prefix_end 1"
    unfolding refs_range_iff by blast
  have m: "refkey 1 ''refs/heads/main'' \<noteq> repo_meta 1 REPO_META_HEAD"
    using key_tags_distinct(5) .
  show ?thesis
    using k m
    by (simp add: kv_list_refs_def kv_list_refs_body_def quiet cluster_api_def one_ref_cluster_def
        empty_cluster_def write_alist_def cl_scan_def SCAN_LIMIT_def u32_max_def r head_of_def
        head_target_def one_ref_snapshot_def)
qed

theorem kv_list_refs_snapshot_witness:
  "\<exists>s1. begin_optimistic cluster_api one_ref_cluster = (Inr (), s1) \<and>
     (card (ref_keys 1 (map_of (cl_store s1))) \<le> SCAN_LIMIT \<longrightarrow>
      snapshot_of sha1_ops 1 (map_of (cl_store s1)) one_ref_snapshot)"
  using one_ref_listed kv_list_refs_snapshot [OF cluster.kv_client_axioms] by blast

text \<open>
  Initialising a repository on an undisturbed cluster gives its path a fresh id: the index
  invariant (ids are positive, below the counter, and never shared by two paths) is kept, the
  repository can then be opened under the id returned, and initialising it again returns the
  same id without changing the store.
\<close>

theorem kv_init_repo_fresh:
  assumes "cl_events s = []" "index_ok (map_of (cl_store s))"
    and "map_of (cl_store s) (repo_index path) = None"
    and "kv_counter (map_of (cl_store s)) = Inr n" "n + 1 \<noteq> 0"
  shows "\<exists>t. kv_init_repo_inner cluster_api path s = (Inr n, t) \<and>
    index_ok (map_of (cl_store t)) \<and>
    fst (kv_open_inner cluster_api path t) = Inr n \<and>
    (\<exists>t'. kv_init_repo_inner cluster_api path t = (Inr n, t') \<and> cl_store t' = cl_store t)"
proof -
  obtain t where t: "kv_init_repo_inner cluster_api path s = (Inr n, t)" "cl_events t = []"
    and st: "map_of (cl_store t) = apply_writes (map_of (repo_writes path n)) (map_of (cl_store s))"
    using quiet_init_fresh [OF assms(1,3,4)] by blast
  have i: "map_of (cl_store t) (repo_index path) = Some (encode_u64 n)"
    by (simp add: st apply_repo_writes)
  have "fst (kv_open_inner cluster_api path t) = Inr n"
    using quiet_open [OF t(2) i] by (simp add: decode_encode_u64)
  moreover have "index_ok (map_of (cl_store t))"
    unfolding st using index_ok_writes assms(2-5) by blast
  ultimately show ?thesis
    using t quiet_init_known [OF t(2) i decode_encode_u64] by blast
qed

theorem kv_init_repo_fresh_witness:
  "\<exists>t. kv_init_repo_inner cluster_api ''/srv/a.git'' empty_cluster = (Inr 1, t) \<and>
    index_ok (map_of (cl_store t)) \<and>
    fst (kv_open_inner cluster_api ''/srv/a.git'' t) = Inr 1 \<and>
    (\<exists>t'. kv_init_repo_inner cluster_api ''/srv/a.git'' t = (Inr 1, t') \<and> cl_store t' = cl_store t)"
  by (rule kv_init_repo_fresh)
     (simp_all add: empty_cluster_def index_ok_def kv_counter_def)

text \<open>
  The re-check of \<open>init_repo_inner\<close> is a plain read, which sees the snapshot of the
  transaction's start; if another client initialises the same path after that start, both
  transactions commit and the second overwrites the index entry.  Here the other client has been
  given id 1 for the path; this call returns 2 and leaves the path on id 2.
\<close>

theorem kv_init_repo_race:
  "\<exists>t. kv_init_repo_inner cluster_api ''/srv/a.git''
         (empty_cluster\<lparr> cl_events := [Calm, Calm, Calm, Calm, Foreign (repo_writes ''/srv/a.git'' 1)] \<rparr>) =
         (Inr 2, t) \<and>
       map_of (cl_store t) (repo_index ''/srv/a.git'') = Some (encode_u64 2)"
proof -
  have w: "map_of (write_alist (repo_writes ''/srv/a.git'' 1) []) next_repo_id = Some (encode_u64 2)"
    unfolding map_of_write_alist apply_repo_writes by simp
  have d: "next_repo_id \<noteq> repo_index ''/srv/a.git''" "repo_index ''/srv/a.git'' \<noteq> repo_meta 2 REPO_META_EXISTS"
    using key_tags_distinct(7) [of "''/srv/a.git''"] key_tags_distinct(8) by auto
  show ?thesis
    using w d
    by (simp add: kv_init_repo_inner_def read_txn_def write_txn_def finalize_write_def finalize_read_def
        act_defs cluster_ops cl_begin_def cl_view_def cl_op_def cl_tick_def empty_cluster_def
        write_alist_def [of "[]"] decode_encode_u64 context_err_def map_of_write_alist apply_writes_def)
qed

end
