(* ===== verification/Commit_Graph.thy ===== *)
theory Commit_Graph
  imports Backend_Types
begin

text \<open>
  Walks over the commit-parent graph (\<open>backend/kv/graph.rs\<close>, \<open>backend/sql/graph.rs\<close>).  The
  parents of a commit are fetched one commit at a time through the backend, so a walk takes the
  fetch operation as an argument and threads the backend's state; \<open>fetches\<close> states that a fetch
  that succeeds returns the parents in a fixed graph \<open>P\<close>.

  The \<open>while let\<close> loops end because a commit enters the queue at most once; on a graph where the
  commits reachable from the start are finitely many they return a value, which is part of every
  theorem.  \<open>HashSet\<close> is a set, \<open>VecDeque\<close> a list.
\<close>

section \<open>The walks\<close>

type_synonym ('o, 's) fetch = "'o \<Rightarrow> ('s, reachable_error, 'o list) act"

text \<open>\<open>for p in parents { if ok(p) && visited.insert(p) { queue.push_back(p) } }\<close>\<close>

fun push_new :: "('o \<Rightarrow> bool) \<Rightarrow> 'o set \<Rightarrow> 'o list \<Rightarrow> 'o list \<Rightarrow> 'o set \<times> 'o list" where
  "push_new ok vis q [] = (vis, q)"
| "push_new ok vis q (p # ps) =
     (if ok p \<and> p \<notin> vis then push_new ok (insert p vis) (q @ [p]) ps else push_new ok vis q ps)"

text \<open>The same loop in \<open>is_ancestor\<close>, which leaves it (\<open>None\<close>) at the commit looked for.\<close>

fun push_until :: "'o \<Rightarrow> 'o set \<Rightarrow> 'o list \<Rightarrow> 'o list \<Rightarrow> ('o set \<times> 'o list) option" where
  "push_until a vis q [] = Some (vis, q)"
| "push_until a vis q (p # ps) =
     (if p = a then None
      else if p \<notin> vis then push_until a (insert p vis) (q @ [p]) ps
      else push_until a vis q ps)"

partial_function (option) ancestor_loop ::
  "('o, 's) fetch \<Rightarrow> 'o \<Rightarrow> 'o set \<Rightarrow> 'o list \<Rightarrow> 's \<Rightarrow> ((reachable_error + bool) \<times> 's) option" where
  "ancestor_loop fetch a vis frontier s =
     (case frontier of
        [] \<Rightarrow> Some (Inr False, s)
      | x # rest \<Rightarrow>
          (case fetch x s of
             (Inl e, s') \<Rightarrow> Some (Inl e, s')
           | (Inr ps, s') \<Rightarrow>
               (case push_until a vis rest ps of
                  None \<Rightarrow> Some (Inr True, s')
                | Some (vis', frontier') \<Rightarrow> ancestor_loop fetch a vis' frontier' s')))"

definition is_ancestor ::
  "('o, 's) fetch \<Rightarrow> 'o \<Rightarrow> 'o \<Rightarrow> 's \<Rightarrow> ((reachable_error + bool) \<times> 's) option" where
  "is_ancestor fetch a d s =
     (if a = d then Some (Inr True, s) else ancestor_loop fetch a {d} [d] s)"

definition compute_push_kind ::
  "'o oid_ops \<Rightarrow> ('o, 's) fetch \<Rightarrow> 'o \<Rightarrow> 'o \<Rightarrow> 's \<Rightarrow> (push_kind \<times> 's) option" where
  "compute_push_kind H fetch old new s =
     (if is_null H old then Some (Create, s)
      else if is_null H new then Some (Delete, s)
      else map_option (\<lambda>(r, s'). (if r = Inr True then FastForward else ForcePush, s'))
             (is_ancestor fetch old new s))"

partial_function (option) collect_loop ::
  "('o, 's) fetch \<Rightarrow> nat \<Rightarrow> 'o set \<Rightarrow> 'o list \<Rightarrow> 's \<Rightarrow> ((reachable_error + 'o set) \<times> 's) option" where
  "collect_loop fetch cap acc frontier s =
     (case frontier of
        [] \<Rightarrow> Some (Inr acc, s)
      | x # rest \<Rightarrow>
          if card acc > cap then Some (Inl (CapExceeded cap), s)
          else (case fetch x s of
                  (Inl e, s') \<Rightarrow> Some (Inl e, s')
                | (Inr ps, s') \<Rightarrow>
                    (case push_new (\<lambda>_. True) acc rest ps of
                       (acc', frontier') \<Rightarrow> collect_loop fetch cap acc' frontier' s')))"

definition collect_ancestors ::
  "('o, 's) fetch \<Rightarrow> nat \<Rightarrow> 'o set \<Rightarrow> 'o \<Rightarrow> 's \<Rightarrow> ((reachable_error + 'o set) \<times> 's) option" where
  "collect_ancestors fetch cap acc x s =
     (if x \<in> acc then collect_loop fetch cap acc [] s
      else collect_loop fetch cap (insert x acc) [x] s)"

fun collect_all ::
  "('o set \<Rightarrow> 'o \<Rightarrow> 's \<Rightarrow> ((reachable_error + 'o set) \<times> 's) option) \<Rightarrow> 'o set \<Rightarrow> 'o list \<Rightarrow> 's
     \<Rightarrow> ((reachable_error + 'o set) \<times> 's) option" where
  "collect_all collect acc [] s = Some (Inr acc, s)"
| "collect_all collect acc (x # xs) s =
     (case collect acc x s of
        None \<Rightarrow> None
      | Some (Inl e, s') \<Rightarrow> Some (Inl e, s')
      | Some (Inr acc', s') \<Rightarrow> collect_all collect acc' xs s')"

partial_function (option) reach_loop ::
  "('o, 's) fetch \<Rightarrow> 'o set \<Rightarrow> nat \<Rightarrow> 'o set \<Rightarrow> 'o list \<Rightarrow> 'o list \<Rightarrow> 's
     \<Rightarrow> ((reachable_error + 'o list) \<times> 's) option" where
  "reach_loop fetch excl cap vis q res s =
     (case q of
        [] \<Rightarrow> Some (Inr res, s)
      | x # rest \<Rightarrow>
          if cap \<le> length res then Some (Inl (CapExceeded cap), s)
          else (case fetch x s of
                  (Inl e, s') \<Rightarrow> Some (Inl e, s')
                | (Inr ps, s') \<Rightarrow>
                    (case push_new (\<lambda>p. p \<notin> excl) vis rest ps of
                       (vis', q') \<Rightarrow> reach_loop fetch excl cap vis' q' (res @ [x]) s')))"

text \<open>
  \<open>reachable_excluding\<close>, with the collection of the excluded side as an argument: the key-value
  backend passes \<open>collect_ancestors\<close>, the SQL backend a recursive query.
\<close>

definition reachable_excluding ::
  "('o, 's) fetch \<Rightarrow> ('o set \<Rightarrow> 'o \<Rightarrow> 's \<Rightarrow> ((reachable_error + 'o set) \<times> 's) option)
     \<Rightarrow> 'o list \<Rightarrow> 'o list \<Rightarrow> nat \<Rightarrow> 's \<Rightarrow> ((reachable_error + 'o list) \<times> 's) option" where
  "reachable_excluding fetch collect from excluding cap s =
     (if from = [] then Some (Inr [], s)
      else case collect_all collect {} excluding s of
             None \<Rightarrow> None
           | Some (Inl e, s') \<Rightarrow> Some (Inl e, s')
           | Some (Inr excl, s') \<Rightarrow>
               (case push_new (\<lambda>x. x \<notin> excl) {} [] from of
                  (vis, q) \<Rightarrow> reach_loop fetch excl cap vis q [] s'))"

section \<open>Ancestors\<close>

definition parent_rel :: "('o \<Rightarrow> 'o list) \<Rightarrow> ('o \<times> 'o) set" where
  "parent_rel P = {(x, p). p \<in> set (P x)}"

definition ancestors :: "('o \<Rightarrow> 'o list) \<Rightarrow> 'o \<Rightarrow> 'o set" where
  "ancestors P x = (parent_rel P)\<^sup>* `` {x}"

definition fetches :: "('s \<Rightarrow> bool) \<Rightarrow> ('o \<Rightarrow> 'o list) \<Rightarrow> ('o, 's) fetch \<Rightarrow> bool" where
  "fetches I P fetch \<longleftrightarrow>
     (\<forall>x. triple I (fetch x) (\<lambda>ps s. ps = P x \<and> I s) (\<lambda>e s. I s \<and> (\<exists>m. e = OtherError m)))"

definition closed :: "('o \<Rightarrow> 'o list) \<Rightarrow> 'o set \<Rightarrow> bool" where
  "closed P S \<longleftrightarrow> (\<forall>x \<in> S. set (P x) \<subseteq> S)"

lemma ancestors_self [simp]: "x \<in> ancestors P x"
  by (simp add: ancestors_def)

lemma ancestors_parent: "y \<in> ancestors P x \<Longrightarrow> p \<in> set (P y) \<Longrightarrow> p \<in> ancestors P x"
  by (auto simp: ancestors_def parent_rel_def intro: rtrancl.rtrancl_into_rtrancl)

lemma closed_ancestors: "closed P (\<Union>x \<in> A. ancestors P x)"
  using ancestors_parent by (fastforce simp: closed_def)

lemma ancestors_least: "closed P S \<Longrightarrow> x \<in> S \<Longrightarrow> ancestors P x \<subseteq> S"
proof
  fix y assume c: "closed P S" "x \<in> S" and "y \<in> ancestors P x"
  then have "(x, y) \<in> (parent_rel P)\<^sup>*" by (simp add: ancestors_def)
  then show "y \<in> S" by (induction) (use c in \<open>auto simp: closed_def parent_rel_def\<close>)
qed

lemma closed_Un: "closed P S \<Longrightarrow> closed P T \<Longrightarrow> closed P (S \<union> T)"
  by (auto simp: closed_def)

text \<open>Reaching a commit outside a closed set never passes through it.\<close>

lemma ancestors_avoiding:
  assumes "closed P E" and "S \<subseteq> V" and "\<forall>x \<in> S. x \<notin> E"
    and "\<forall>x \<in> V. \<forall>p \<in> set (P x). p \<notin> E \<longrightarrow> p \<in> V" and "x \<in> S \<union> E" "y \<in> ancestors P x" "y \<notin> E"
  shows "y \<in> V"
proof -
  have "(x, y) \<in> (parent_rel P)\<^sup>*" using assms by (simp add: ancestors_def)
  then have "y \<in> V \<or> y \<in> E"
    by induction (use assms in \<open>auto simp: closed_def parent_rel_def\<close>)
  then show ?thesis using assms by blast
qed

section \<open>Queue steps\<close>

lemma push_new_spec:
  assumes "push_new ok (set (r @ q)) q ps = (vis', q')" "distinct (r @ q)"
  shows "vis' = set (r @ q')" "distinct (r @ q')"
    "set (r @ q') = set (r @ q) \<union> {p \<in> set ps. ok p}"
proof -
  have "vis' = V \<union> set q' \<and> distinct (r @ q') \<and> set (r @ q') = set (r @ q) \<union> {p \<in> set ps. ok p}"
    if "push_new ok V q ps = (vis', q')" "distinct (r @ q)" "V = set (r @ q)" for V
    using that
  proof (induction ok V q ps rule: push_new.induct)
    case (2 ok V q p ps)
    show ?case
    proof (cases "ok p \<and> p \<notin> V")
      case True
      with 2 show ?thesis by auto
    next
      case False
      with 2 show ?thesis by auto
    qed
  qed auto
  from this [OF assms(1,2) refl] show "vis' = set (r @ q')" "distinct (r @ q')"
    "set (r @ q') = set (r @ q) \<union> {p \<in> set ps. ok p}" by auto
qed

lemma push_until_eq:
  "push_until a vis q ps =
     (if a \<in> set ps then None else Some (push_new (\<lambda>_. True) vis q ps))"
  by (induction a vis q ps rule: push_until.induct) auto

lemma fetches_cases:
  assumes "fetches I P fetch" "I s"
  obtains (ok) s' where "fetch x s = (Inr (P x), s')" "I s'"
  | (err) m s' where "fetch x s = (Inl (OtherError m), s')" "I s'"
proof -
  have t: "triple I (fetch x) (\<lambda>ps s. ps = P x \<and> I s) (\<lambda>e s. I s \<and> (\<exists>m. e = OtherError m))"
    using assms(1) by (simp add: fetches_def)
  obtain r s' where "fetch x s = (r, s')" by fastforce
  then show thesis
    using triple_Inr [OF t assms(2)] triple_Inl [OF t assms(2)] ok err by (cases r) fastforce+
qed

text \<open>
  The state of a breadth-first walk inside a finite set \<open>R\<close>: \<open>r\<close> are the commits done, \<open>q\<close> the
  queue; every admitted parent of a commit that is done has been seen.
\<close>

definition walk_inv :: "('o \<Rightarrow> 'o list) \<Rightarrow> ('o \<Rightarrow> bool) \<Rightarrow> 'o set \<Rightarrow> 'o list \<Rightarrow> 'o list \<Rightarrow> bool" where
  "walk_inv P ok R r q \<longleftrightarrow>
     distinct (r @ q) \<and> set (r @ q) \<subseteq> R \<and> (\<forall>x \<in> R. \<forall>p \<in> set (P x). ok p \<longrightarrow> p \<in> R) \<and>
     (\<forall>x \<in> set r. \<forall>p \<in> set (P x). ok p \<longrightarrow> p \<in> set (r @ q))"

lemma walk_inv_step:
  assumes inv: "walk_inv P ok R r (x # rest)"
    and push: "push_new ok (set (r @ x # rest)) rest (P x) = (vis', q')"
  shows "vis' = set ((r @ [x]) @ q')" "walk_inv P ok R (r @ [x]) q'"
    "set (r @ x # rest) \<subseteq> set ((r @ [x]) @ q')"
proof -
  have d: "distinct ((r @ [x]) @ rest)" using inv by (auto simp: walk_inv_def)
  have "push_new ok (set ((r @ [x]) @ rest)) rest (P x) = (vis', q')" using push by simp
  note new = push_new_spec [OF this d]
  show "vis' = set ((r @ [x]) @ q')" using new by simp
  show "set (r @ x # rest) \<subseteq> set ((r @ [x]) @ q')" using new by auto
  show "walk_inv P ok R (r @ [x]) q'"
    using inv new unfolding walk_inv_def by (auto; blast)
qed

lemma walk_inv_room:
  assumes "walk_inv P ok R r (x # rest)" "finite R"
  shows "length r < card R"
proof -
  have "distinct (r @ [x])" "set (r @ [x]) \<subseteq> R" using assms by (auto simp: walk_inv_def)
  then have "length (r @ [x]) \<le> card R" using assms(2) by (metis card_mono distinct_card)
  then show ?thesis by simp
qed

lemma walk_inv_done: "walk_inv P ok R r [] \<Longrightarrow> x \<in> set r \<Longrightarrow> p \<in> set (P x) \<Longrightarrow> ok p \<Longrightarrow> p \<in> set r"
  by (simp add: walk_inv_def)

section \<open>The loops\<close>

lemma reach_loop_spec:
  assumes "fetches I P fetch" "I s" "finite R" "walk_inv P (\<lambda>p. p \<notin> excl) R res q" "length res \<le> cap"
  shows "\<exists>r s'. reach_loop fetch excl cap (set (res @ q)) q res s = Some (r, s') \<and> I s' \<and>
    (case r of
       Inr out \<Rightarrow> walk_inv P (\<lambda>p. p \<notin> excl) R out [] \<and> length out \<le> cap \<and> set (res @ q) \<subseteq> set out
     | Inl (CapExceeded c) \<Rightarrow> c = cap \<and> cap < card R
     | Inl (OtherError m) \<Rightarrow> True)"
  using assms(2,4,5)
proof (induction "card R - length res" arbitrary: s res q rule: less_induct)
  case less
  show ?case
  proof (cases q)
    case Nil
    with less.prems show ?thesis by (subst reach_loop.simps) simp
  next
    case (Cons x rest)
    have room: "length res < card R" using walk_inv_room [OF less.prems(2) [unfolded Cons] assms(3)] .
    show ?thesis
    proof (cases "cap \<le> length res")
      case True
      with Cons less.prems room show ?thesis by (subst reach_loop.simps) auto
    next
      case False
      show ?thesis
      proof (cases rule: fetches_cases [OF assms(1) less.prems(1), of x, case_names ok err])
        case (err m s')
        with Cons False show ?thesis by (subst reach_loop.simps) auto
      next
        case (ok s')
        obtain vis' q' where push: "push_new (\<lambda>p. p \<notin> excl) (set (res @ x # rest)) rest (P x) = (vis', q')"
          by fastforce
        note step = walk_inv_step [OF less.prems(2) [unfolded Cons] push]
        have run: "reach_loop fetch excl cap (set (res @ q)) q res s =
            reach_loop fetch excl cap (set ((res @ [x]) @ q')) q' (res @ [x]) s'"
          using False ok(1) push step(1) unfolding Cons reach_loop.simps [of _ _ _ _ "x # rest"]
          by (simp only: list.case if_False prod.case sum.case)
        have "card R - length (res @ [x]) < card R - length res" using room by simp
        from less.hyps [OF this ok(2) step(2)] False
        obtain r s'' where "reach_loop fetch excl cap (set ((res @ [x]) @ q')) q' (res @ [x]) s' = Some (r, s'')"
          "I s''" "case r of
             Inr out \<Rightarrow> walk_inv P (\<lambda>p. p \<notin> excl) R out [] \<and> length out \<le> cap \<and>
               set ((res @ [x]) @ q') \<subseteq> set out
           | Inl (CapExceeded c) \<Rightarrow> c = cap \<and> cap < card R
           | Inl (OtherError m) \<Rightarrow> True"
          by auto
        then show ?thesis
          unfolding run using step(3) Cons by (cases r) auto
      qed
    qed
  qed
qed

lemma collect_loop_spec:
  assumes "fetches I P fetch" "I s" "finite R" "walk_inv P (\<lambda>p. True) R r q"
  shows "\<exists>res s'. collect_loop fetch cap (set (r @ q)) q s = Some (res, s') \<and> I s' \<and>
    (case res of
       Inr out \<Rightarrow> closed P out \<and> set (r @ q) \<subseteq> out \<and> out \<subseteq> R
     | Inl (CapExceeded c) \<Rightarrow> c = cap \<and> cap < card R
     | Inl (OtherError m) \<Rightarrow> True)"
  using assms(2,4)
proof (induction "card R - length r" arbitrary: s r q rule: less_induct)
  case less
  show ?case
  proof (cases q)
    case Nil
    with less.prems have "closed P (set r)" by (auto simp: closed_def walk_inv_def)
    with Nil less.prems show ?thesis by (subst collect_loop.simps) (simp add: walk_inv_def)
  next
    case (Cons x rest)
    have room: "length r < card R" using walk_inv_room [OF less.prems(2) [unfolded Cons] assms(3)] .
    show ?thesis
    proof (cases "cap < card (set (r @ q))")
      case True
      have "card (set (r @ q)) \<le> card R"
        using less.prems(2) assms(3) by (meson card_mono walk_inv_def)
      with Cons less.prems True show ?thesis by (subst collect_loop.simps) auto
    next
      case False
      show ?thesis
      proof (cases rule: fetches_cases [OF assms(1) less.prems(1), of x, case_names ok err])
        case (err m s')
        with Cons False show ?thesis by (subst collect_loop.simps) auto
      next
        case (ok s')
        obtain vis' q' where push: "push_new (\<lambda>_. True) (set (r @ x # rest)) rest (P x) = (vis', q')"
          by fastforce
        note step = walk_inv_step [OF less.prems(2) [unfolded Cons] push]
        have run: "collect_loop fetch cap (set (r @ q)) q s =
            collect_loop fetch cap (set ((r @ [x]) @ q')) q' s'"
          using False [unfolded Cons] ok(1) push step(1) unfolding Cons collect_loop.simps [of _ _ _ "x # rest"]
          by (simp only: list.case if_False prod.case sum.case)
        have "card R - length (r @ [x]) < card R - length r" using room by simp
        from less.hyps [OF this ok(2) step(2)]
        show ?thesis unfolding run using step(3) Cons by (fastforce split: sum.splits reachable_error.splits)
      qed
    qed
  qed
qed

lemma ancestor_loop_spec:
  assumes "fetches I P fetch" "I s" "finite R" "walk_inv P (\<lambda>p. True) R r q"
  shows "\<exists>res s'. ancestor_loop fetch a (set (r @ q)) q s = Some (res, s') \<and> I s' \<and>
    (case res of
       Inr True \<Rightarrow> \<exists>x \<in> R. a \<in> set (P x)
     | Inr False \<Rightarrow> \<exists>out. closed P out \<and> set (r @ q) \<subseteq> out \<and> (\<forall>x \<in> out - set r. a \<notin> set (P x))
     | Inl e \<Rightarrow> \<exists>m. e = OtherError m)"
  using assms(2,4)
proof (induction "card R - length r" arbitrary: s r q rule: less_induct)
  case less
  show ?case
  proof (cases q)
    case Nil
    with less.prems have "closed P (set r)" by (auto simp: closed_def walk_inv_def)
    with Nil less.prems show ?thesis by (subst ancestor_loop.simps) auto
  next
    case (Cons x rest)
    have room: "length r < card R" using walk_inv_room [OF less.prems(2) [unfolded Cons] assms(3)] .
    have x: "x \<in> R" using less.prems(2) Cons by (simp add: walk_inv_def)
    show ?thesis
    proof (cases rule: fetches_cases [OF assms(1) less.prems(1), of x, case_names ok err])
      case (err m s')
      with Cons show ?thesis by (subst ancestor_loop.simps) auto
    next
      case (ok s')
      show ?thesis
      proof (cases "a \<in> set (P x)")
        case True
        with Cons ok x show ?thesis by (subst ancestor_loop.simps) (auto simp: push_until_eq)
      next
        case False
        obtain vis' q' where push: "push_new (\<lambda>_. True) (set (r @ x # rest)) rest (P x) = (vis', q')"
          by fastforce
        note step = walk_inv_step [OF less.prems(2) [unfolded Cons] push]
        have run: "ancestor_loop fetch a (set (r @ q)) q s =
            ancestor_loop fetch a (set ((r @ [x]) @ q')) q' s'"
          using False ok(1) push step(1) unfolding Cons ancestor_loop.simps [of _ _ _ "x # rest"]
          by (simp only: list.case if_False prod.case sum.case push_until_eq option.case)
        have "card R - length (r @ [x]) < card R - length r" using room by simp
        from less.hyps [OF this ok(2) step(2)]
        obtain res s'' where res: "ancestor_loop fetch a (set ((r @ [x]) @ q')) q' s' = Some (res, s'')"
          "I s''" "case res of
             Inr True \<Rightarrow> \<exists>x \<in> R. a \<in> set (P x)
           | Inr False \<Rightarrow> \<exists>out. closed P out \<and> set ((r @ [x]) @ q') \<subseteq> out \<and>
               (\<forall>y \<in> out - set (r @ [x]). a \<notin> set (P y))
           | Inl e \<Rightarrow> \<exists>m. e = OtherError m" by blast
        have "\<exists>out. closed P out \<and> set (r @ q) \<subseteq> out \<and> (\<forall>y \<in> out - set r. a \<notin> set (P y))"
          if not_found: "res = Inr False"
        proof -
          obtain out where "closed P out" "set ((r @ [x]) @ q') \<subseteq> out"
            "\<forall>y \<in> out - set (r @ [x]). a \<notin> set (P y)" using res(3) not_found by auto
          then show ?thesis using False step(3) Cons by (intro exI [of _ out]) auto
        qed
        with res show ?thesis
          unfolding run by (cases res) (auto split: bool.splits)
      qed
    qed
  qed
qed

section \<open>What the walks compute\<close>

lemma walk_inv_start:
  "finite A \<Longrightarrow> closed P A \<Longrightarrow> x \<notin> A \<Longrightarrow>
   \<exists>r. set r = A \<and> walk_inv P (\<lambda>_. True) (A \<union> ancestors P x) r [x]"
proof -
  assume A: "finite A" "closed P A" "x \<notin> A"
  then obtain r where r: "set r = A" "distinct r" using finite_distinct_list by blast
  have "closed P (A \<union> ancestors P x)"
    using closed_Un [OF A(2) closed_ancestors [of P "{x}"]] by simp
  then have "walk_inv P (\<lambda>_. True) (A \<union> ancestors P x) r [x]"
    using r A by (auto simp: walk_inv_def closed_def)
  with r show ?thesis by blast
qed

lemma ancestor_step:
  assumes "a \<in> ancestors P d" "a \<noteq> d"
  obtains y where "y \<in> ancestors P d" "a \<in> set (P y)"
proof -
  have "(d, a) \<in> (parent_rel P)\<^sup>*" using assms(1) by (simp add: ancestors_def)
  then show thesis
    using assms(2) that by (cases rule: rtranclE) (auto simp: ancestors_def parent_rel_def)
qed

lemma is_ancestor_spec:
  assumes f: "fetches I P fetch" "I s" and fin: "finite (ancestors P d)"
  shows "\<exists>r s'. is_ancestor fetch a d s = Some (r, s') \<and> I s' \<and>
    (case r of Inr b \<Rightarrow> b = (a \<in> ancestors P d) | Inl e \<Rightarrow> \<exists>m. e = OtherError m)"
proof (cases "a = d")
  case True
  then show ?thesis using f by (simp add: is_ancestor_def)
next
  case False
  have "walk_inv P (\<lambda>_. True) (ancestors P d) [] [d]"
    using ancestors_parent by (fastforce simp: walk_inv_def)
  from ancestor_loop_spec [OF f fin this, of a, unfolded append_Nil list.set]
  obtain res s' where run: "ancestor_loop fetch a {d} [d] s = Some (res, s')" "I s'"
    and spec: "case res of
       Inr True \<Rightarrow> \<exists>x \<in> ancestors P d. a \<in> set (P x)
     | Inr False \<Rightarrow> \<exists>out. closed P out \<and> {d} \<subseteq> out \<and> (\<forall>x \<in> out - {}. a \<notin> set (P x))
     | Inl e \<Rightarrow> \<exists>m. e = OtherError m" by blast
  have "b = (a \<in> ancestors P d)" if rb: "res = Inr b" for b
  proof (cases b)
    case True
    then show ?thesis using spec rb ancestors_parent by fastforce
  next
    case f: False
    then obtain out where out: "closed P out" "d \<in> out" "\<forall>x \<in> out. a \<notin> set (P x)"
      using spec rb by auto
    have "a \<notin> ancestors P d"
      using ancestor_step [of a P d] False ancestors_least [OF out(1,2)] out(3) by blast
    with f show ?thesis by simp
  qed
  then show ?thesis using run spec False by (cases res) (auto simp: is_ancestor_def)
qed

definition collects :: "nat \<Rightarrow> ('s \<Rightarrow> bool) \<Rightarrow> ('o \<Rightarrow> 'o list) \<Rightarrow>
    ('o set \<Rightarrow> 'o \<Rightarrow> 's \<Rightarrow> ((reachable_error + 'o set) \<times> 's) option) \<Rightarrow> bool" where
  "collects cap I P collect \<longleftrightarrow>
     (\<forall>A x s. I s \<longrightarrow> finite A \<longrightarrow> closed P A \<longrightarrow> finite (ancestors P x) \<longrightarrow>
       (\<exists>r s'. collect A x s = Some (r, s') \<and> I s' \<and>
         (\<forall>out. r = Inr out \<longrightarrow> out = A \<union> ancestors P x) \<and>
         (\<forall>c. r = Inl (CapExceeded c) \<longrightarrow> c = cap \<and> cap < card (A \<union> ancestors P x))))"

lemma collect_ancestors_collects:
  assumes "fetches I P fetch"
  shows "collects cap I P (collect_ancestors fetch cap)"
  unfolding collects_def
proof (intro allI impI)
  fix A x s assume I: "I s" and A: "finite A" "closed P A" and fin: "finite (ancestors P x)"
  show "\<exists>r s'. collect_ancestors fetch cap A x s = Some (r, s') \<and> I s' \<and>
         (\<forall>out. r = Inr out \<longrightarrow> out = A \<union> ancestors P x) \<and>
         (\<forall>c. r = Inl (CapExceeded c) \<longrightarrow> c = cap \<and> cap < card (A \<union> ancestors P x))"
  proof (cases "x \<in> A")
    case True
    then have "A \<union> ancestors P x = A" using ancestors_least [OF A(2), of x] by blast
    with True I show ?thesis by (simp add: collect_ancestors_def collect_loop.simps [of _ _ _ "[]"])
  next
    case False
    then obtain r where r: "set r = A" "walk_inv P (\<lambda>_. True) (A \<union> ancestors P x) r [x]"
      using walk_inv_start [OF A, of x] by blast
    have "finite (A \<union> ancestors P x)" using A fin by simp
    moreover have "set (r @ [x]) = insert x A" using r(1) by auto
    ultimately obtain res s' where run: "collect_loop fetch cap (insert x A) [x] s = Some (res, s')" "I s'"
      and spec: "case res of
         Inr out \<Rightarrow> closed P out \<and> insert x A \<subseteq> out \<and> out \<subseteq> A \<union> ancestors P x
       | Inl (CapExceeded c) \<Rightarrow> c = cap \<and> cap < card (A \<union> ancestors P x)
       | Inl (OtherError m) \<Rightarrow> True" using collect_loop_spec [OF assms I _ r(2), of cap] by metis
    have "out = A \<union> ancestors P x" if "res = Inr out" for out
      using spec that ancestors_least [of P out x] by auto
    then show ?thesis
      using run spec False
      by (cases res) (auto simp: collect_ancestors_def split: reachable_error.splits)
  qed
qed

lemma collect_all_spec:
  assumes "collects cap I P collect" "I s" "finite A" "closed P A" "\<forall>x \<in> set xs. finite (ancestors P x)"
  shows "\<exists>r s'. collect_all collect A xs s = Some (r, s') \<and> I s' \<and>
    (\<forall>out. r = Inr out \<longrightarrow> out = A \<union> (\<Union>x \<in> set xs. ancestors P x)) \<and>
    (\<forall>c. r = Inl (CapExceeded c) \<longrightarrow>
       c = cap \<and> cap < card (A \<union> (\<Union>x \<in> set xs. ancestors P x)))"
  using assms(2-)
proof (induction xs arbitrary: A s)
  case Nil
  then show ?case by simp
next
  case (Cons x xs)
  then have "finite (ancestors P x)" by simp
  with assms(1) Cons.prems(1-3) obtain r s' where c: "collect A x s = Some (r, s')" "I s'"
    "\<forall>out. r = Inr out \<longrightarrow> out = A \<union> ancestors P x"
    "\<forall>c. r = Inl (CapExceeded c) \<longrightarrow> c = cap \<and> cap < card (A \<union> ancestors P x)"
    unfolding collects_def by blast
  show ?case
  proof (cases r)
    case (Inl e)
    have "finite (A \<union> (\<Union>y \<in> set (x # xs). ancestors P y))" using Cons.prems by auto
    then have le: "card (A \<union> ancestors P x) \<le> card (A \<union> (\<Union>y \<in> set (x # xs). ancestors P y))"
      by (rule card_mono) auto
    have "c = cap \<and> cap < card (A \<union> (\<Union>y \<in> set (x # xs). ancestors P y))" if "e = CapExceeded c" for c
    proof -
      have "c = cap" "cap < card (A \<union> ancestors P x)" using c(4) Inl that by simp_all
      then show ?thesis using order_less_le_trans [OF _ le] by blast
    qed
    then show ?thesis using c(1,2) Inl by (intro exI [of _ r] exI [of _ s']) auto
  next
    case (Inr out)
    then have out: "out = A \<union> ancestors P x" using c by simp
    then have cl: "closed P out" and fo: "finite out"
      using closed_Un [OF Cons.prems(3) closed_ancestors [of P "{x}"]] Cons.prems by simp_all
    have fx: "\<forall>x \<in> set xs. finite (ancestors P x)" using Cons.prems by simp
    from Cons.IH [OF c(2) fo cl fx] obtain r' s'' where "collect_all collect out xs s' = Some (r', s'')" "I s''"
      "\<forall>o'. r' = Inr o' \<longrightarrow> o' = out \<union> (\<Union>x \<in> set xs. ancestors P x)"
      "\<forall>c. r' = Inl (CapExceeded c) \<longrightarrow>
         c = cap \<and> cap < card (out \<union> (\<Union>x \<in> set xs. ancestors P x))"
      by blast
    then show ?thesis using c(1) Inr out by (simp add: Un_assoc) metis
  qed
qed

text \<open>The set a walk is to return: what is reachable from one side and not from the other.\<close>

definition new_side :: "('o \<Rightarrow> 'o list) \<Rightarrow> 'o list \<Rightarrow> 'o list \<Rightarrow> 'o set" where
  "new_side P from excluding =
     (\<Union>x \<in> set from. ancestors P x) - (\<Union>x \<in> set excluding. ancestors P x)"

lemma reachable_excluding_spec:
  assumes f: "fetches I P fetch" and c: "collects cap I P collect" and I: "I s"
    and fin: "\<forall>x \<in> set from \<union> set excluding. finite (ancestors P x)"
  shows "\<exists>r s'. reachable_excluding fetch collect from excluding cap s = Some (r, s') \<and> I s' \<and>
    (case r of
       Inr out \<Rightarrow> distinct out \<and> length out \<le> cap \<and> set out = new_side P from excluding
     | Inl (CapExceeded c) \<Rightarrow> c = cap \<and>
         (cap < card (new_side P from excluding) \<or> cap < card (\<Union>x \<in> set excluding. ancestors P x))
     | Inl (OtherError m) \<Rightarrow> True)"
proof (cases "from = []")
  case True
  then show ?thesis using I by (simp add: reachable_excluding_def new_side_def)
next
  case False
  let ?E = "\<Union>x \<in> set excluding. ancestors P x" and ?R = "new_side P from excluding"
  obtain r s1 where call: "collect_all collect {} excluding s = Some (r, s1)" "I s1"
    and r: "\<forall>out. r = Inr out \<longrightarrow> out = ?E" "\<forall>c. r = Inl (CapExceeded c) \<longrightarrow> c = cap \<and> cap < card ?E"
    using collect_all_spec [OF c I, of "{}" excluding] fin by (auto simp: closed_def)
  show ?thesis
  proof (cases r)
    case (Inl e)
    then show ?thesis
      using call False r by (auto simp: reachable_excluding_def split: reachable_error.split)
  next
    case (Inr E)
    then have E: "E = ?E" using r by simp
    obtain vis q where push: "push_new (\<lambda>x. x \<notin> E) {} [] from = (vis, q)" by fastforce
    note start = push_new_spec [where r = "[]" and q = "[]", simplified, OF push]
    have q: "distinct q" "vis = set q" "set q = {x \<in> set from. x \<notin> E}" using start by auto
    have cl: "closed P E" unfolding E by (rule closed_ancestors)
    have inv: "walk_inv P (\<lambda>p. p \<notin> E) ?R [] q"
    proof -
      have "set q \<subseteq> ?R" using q(3) by (auto simp: new_side_def E)
      moreover have "p \<in> ?R" if "x \<in> ?R" "p \<in> set (P x)" "p \<notin> E" for x p
        using that closed_ancestors [of P "set from"] unfolding closed_def new_side_def E by blast
      ultimately show ?thesis using q(1) by (simp add: walk_inv_def)
    qed
    have "finite ?R" using fin by (auto simp: new_side_def)
    from reach_loop_spec [OF f call(2) this inv, of cap, unfolded append_Nil] q(2)
    obtain out s2 where run: "reach_loop fetch E cap vis q [] s1 = Some (out, s2)" "I s2"
      and spec: "case out of
         Inr out \<Rightarrow> walk_inv P (\<lambda>p. p \<notin> E) ?R out [] \<and> length out \<le> cap \<and> set q \<subseteq> set out
       | Inl (CapExceeded c) \<Rightarrow> c = cap \<and> cap < card ?R
       | Inl (OtherError m) \<Rightarrow> True" by auto
    have "set l = ?R" if "out = Inr l" for l
    proof
      have inv': "walk_inv P (\<lambda>p. p \<notin> E) ?R l []" "set q \<subseteq> set l" using spec that by auto
      then show "set l \<subseteq> ?R" by (simp add: walk_inv_def)
      show "?R \<subseteq> set l"
      proof
        fix y assume y: "y \<in> ?R"
        then obtain x where x: "x \<in> set from" "y \<in> ancestors P x" and ny: "y \<notin> E"
          by (auto simp: new_side_def E)
        have "x \<in> set q \<union> E" using x q(3) by auto
        then show "y \<in> set l"
          using ancestors_avoiding [OF cl inv'(2)] q(3) inv'(1) x(2) ny
          by (auto simp: walk_inv_def)
      qed
    qed
    then show ?thesis
      using run spec call Inr push False
      by (cases out)
         (auto simp: reachable_excluding_def walk_inv_def split: reachable_error.splits)
  qed
qed

end
