(* ===== verification/KV_Graph.thy ===== *)
theory KV_Graph
  imports KV_Refs Commit_Graph
begin

text \<open>
  \<open>backend/kv/graph.rs\<close>: the walks of \<open>Commit_Graph\<close> over the parent keys of the store, each
  fetch in a read transaction of its own.  The theorems are for a cluster whose calls may fail at
  any point but whose parent keys nobody else changes meanwhile (objects are immutable).
\<close>

section \<open>Fetching parents\<close>

definition parent_of_pair :: "'o oid_ops \<Rightarrow> bytes \<times> bytes \<Rightarrow> 'o res" where
  "parent_of_pair H p =
     (case from_bytes H (snd p) of
        Inl e \<Rightarrow> Inl (Bail (''corrupt parent oid: '' @ display_error e))
      | Inr x \<Rightarrow> Inr x)"

definition kv_fetch_parents :: "'s kv_api \<Rightarrow> 'o oid_ops \<Rightarrow> repo_id \<Rightarrow> 'o \<Rightarrow> ('s, error, 'o list) act" where
  "kv_fetch_parents K H rid c =
     read_txn K ''begin txn for fetch_parents''
       (bindA (ctxA ''scan commit parents''
                 (kv_scan K (parents_prefix_start H rid c) (parents_prefix_end H rid c) u32_max)) (\<lambda>pairs.
          liftA (mapR (parent_of_pair H) pairs)))"

definition kv_fetch :: "bytes \<Rightarrow> 's kv_api \<Rightarrow> 'o oid_ops \<Rightarrow> repo_id \<Rightarrow> ('o, 's) fetch" where
  "kv_fetch msg K H rid c =
     map_errA (\<lambda>e. OtherError (Bail (msg @ outer_message e))) (kv_fetch_parents K H rid c)"

definition kv_is_ancestor ::
  "'s kv_api \<Rightarrow> 'o oid_ops \<Rightarrow> repo_id \<Rightarrow> 'o \<Rightarrow> 'o \<Rightarrow> 's \<Rightarrow> ((reachable_error + bool) \<times> 's) option" where
  "kv_is_ancestor K H rid = is_ancestor (\<lambda>c. map_errA OtherError (kv_fetch_parents K H rid c))"

definition kv_compute_push_kind ::
  "'s kv_api \<Rightarrow> 'o oid_ops \<Rightarrow> repo_id \<Rightarrow> 'o \<Rightarrow> 'o \<Rightarrow> 's \<Rightarrow> (push_kind \<times> 's) option" where
  "kv_compute_push_kind K H rid =
     compute_push_kind H (\<lambda>c. map_errA OtherError (kv_fetch_parents K H rid c))"

definition kv_reachable_excluding ::
  "'s kv_api \<Rightarrow> 'o oid_ops \<Rightarrow> repo_id \<Rightarrow> 'o list \<Rightarrow> 'o list \<Rightarrow> nat \<Rightarrow> 's
     \<Rightarrow> ((reachable_error + 'o list) \<times> 's) option" where
  "kv_reachable_excluding K H rid from excluding cap =
     reachable_excluding (kv_fetch ''fetching parents: '' K H rid)
       (collect_ancestors (kv_fetch ''collecting ancestors: '' K H rid) cap) from excluding cap"

section \<open>The graph of a store\<close>

definition kv_parents :: "'o oid_ops \<Rightarrow> repo_id \<Rightarrow> (bytes \<times> bytes) list \<Rightarrow> 'o \<Rightarrow> 'o list" where
  "kv_parents H rid m c =
     (case mapR (parent_of_pair H)
             (cl_scan m (parents_prefix_start H rid c) (parents_prefix_end H rid c) u32_max) of
        Inr ps \<Rightarrow> ps
      | Inl _ \<Rightarrow> [])"

definition steady :: "(bytes \<times> bytes) list \<Rightarrow> cluster \<Rightarrow> bool" where
  "steady m s \<longleftrightarrow> cl_store s = m \<and> list_all (\<lambda>e. e = Calm \<or> e = Fault) (cl_events s)"

lemma steady_tick: "steady m s \<Longrightarrow> cl_tick s = (b, t) \<Longrightarrow> steady m t"
  by (auto simp: steady_def cl_tick_def Let_def split: list.splits kv_event.splits)

lemma steady_fetch_parents:
  "triple (steady m) (kv_fetch_parents cluster_api H rid c)
     (\<lambda>ps s. ps = kv_parents H rid m c \<and> steady m s) (\<lambda>_. steady m)"
proof (rule tripleI)
  let ?lo = "parents_prefix_start H rid c" and ?hi = "parents_prefix_end H rid c"
  let ?body = "bindA (ctxA ''scan commit parents'' (kv_scan cluster_api ?lo ?hi u32_max)) (\<lambda>pairs.
      liftA (mapR (parent_of_pair H) pairs))"
  have run: "steady m t \<and> (\<forall>ps. r = Inr ps \<longrightarrow> ps = kv_parents H rid m c)"
    if s: "steady m s" and r: "kv_fetch_parents cluster_api H rid c s = (r, t)" for s r t
  proof -
    obtain b s1 where b: "cl_tick s = (b, s1)" by fastforce
    then have s1: "steady m s1" using s steady_tick by blast
    let ?s1 = "s1\<lparr> cl_snap := cl_store s1, cl_writes := [], cl_locked := [] \<rparr>"
    obtain b2 s2 where b2: "cl_tick ?s1 = (b2, s2)" by fastforce
    have "steady m ?s1" using s1 by (simp add: steady_def)
    then have "steady m s2" using steady_tick [OF _ b2] by blast
    moreover have "cl_snap s2 = m" "cl_writes s2 = []"
      using cl_tick_frame [OF b2] s1 by (simp_all add: steady_def)
    ultimately have s2: "steady m s2" "cl_snap s2 = m" "cl_writes s2 = []" by auto
    obtain b3 s3 where b3: "cl_tick s2 = (b3, s3)" by fastforce
    then have s3: "steady m s3" "cl_writes s3 = []"
      using steady_tick s2 cl_tick_frame [OF b3] by auto
    have fin: "steady m (snd (finalize_read cluster_api res s2))" for res :: "'a list res"
      using b3 s3
      by (cases res; cases b3)
         (auto simp: finalize_read_def cluster_ops cl_op_def steady_def write_alist_def)
    have "t = (if b then snd (finalize_read cluster_api (fst (?body ?s1)) s2) else s1) \<and>
        (\<forall>ps. r = Inr ps \<longrightarrow> b \<and> b2 \<and> mapR (parent_of_pair H) (cl_scan m ?lo ?hi u32_max) = Inr ps)"
      using r b b2 s2
      by (cases b; cases b2)
         (auto simp: kv_fetch_parents_def read_txn_def act_defs cluster_ops cl_begin_def cl_op_def
           cluster_api_def cl_view_def write_alist_def finalize_read_def split: sum.splits prod.splits)
    then show ?thesis using s1 fin by (auto simp: kv_parents_def)
  qed
  show "ps = kv_parents H rid m c \<and> steady m t"
    if "steady m s" "kv_fetch_parents cluster_api H rid c s = (Inr ps, t)" for s ps t
    using run that by blast
  show "steady m t" if "steady m s" "kv_fetch_parents cluster_api H rid c s = (Inl e, t)" for s e t
    using run that by blast
qed

lemma steady_fetches:
  "fetches (steady m) (kv_parents H rid m) (kv_fetch msg cluster_api H rid)"
  "fetches (steady m) (kv_parents H rid m) (\<lambda>c. map_errA OtherError (kv_fetch_parents cluster_api H rid c))"
  unfolding fetches_def kv_fetch_def
  by (auto intro!: triple_map_err triple_weaken [OF steady_fetch_parents])

text \<open>A store holds the parents of finitely many commits, so every history in it is finite.\<close>

lemma finite_ancestors:
  assumes fin: "finite {x. P x \<noteq> []}"
  shows "finite (ancestors P c)"
proof -
  let ?S = "insert c (\<Union>x \<in> {x. P x \<noteq> []}. set (P x))"
  have "closed P ?S" unfolding closed_def
  proof
    fix x assume "x \<in> ?S"
    show "set (P x) \<subseteq> ?S" by (cases "P x = []") auto
  qed
  then have "ancestors P c \<subseteq> ?S" using ancestors_least [of P ?S c] by blast
  moreover have "finite ?S" using fin by simp
  ultimately show ?thesis by (rule finite_subset)
qed

lemma parents_prefix_inj:
  assumes "object_id H" "prefix (parents_prefix_start H rid c) k" "prefix (parents_prefix_start H rid d) k"
  shows "c = d"
proof -
  obtain y z where "as_bytes H c @ y = as_bytes H d @ z"
    using assms(2,3) by (auto simp: prefix_def parents_prefix_start_def)
  then show ?thesis
    by (simp add: object_id.length_as_bytes [OF assms(1)] object_id.as_bytes_inj [OF assms(1)])
qed

lemma finite_kv_parents:
  assumes H: "object_id H"
  shows "finite (ancestors (kv_parents H rid m) c)"
proof (rule finite_ancestors)
  let ?at = "\<lambda>k. THE c. prefix (parents_prefix_start H rid c) k"
  have "{c. kv_parents H rid m c \<noteq> []} \<subseteq> ?at ` fst ` set (AList.clearjunk m)"
  proof
    fix c assume "c \<in> {c. kv_parents H rid m c \<noteq> []}"
    then have "cl_scan m (parents_prefix_start H rid c) (parents_prefix_end H rid c) u32_max \<noteq> []"
      by (auto simp: kv_parents_def split: sum.splits)
    then have "filter (\<lambda>p. parents_prefix_start H rid c \<le> fst p \<and> fst p < parents_prefix_end H rid c)
        (AList.clearjunk m) \<noteq> []" by (auto simp: cl_scan_def)
    then obtain p where p: "p \<in> set (AList.clearjunk m)"
      "parents_prefix_start H rid c \<le> fst p \<and> fst p < parents_prefix_end H rid c"
      unfolding filter_empty_conv by blast
    then have "prefix (parents_prefix_start H rid c) (fst p)" by (simp add: parents_range_iff)
    then have "?at (fst p) = c" using parents_prefix_inj [OF H] by blast
    with p(1) show "c \<in> ?at ` fst ` set (AList.clearjunk m)" by force
  qed
  then show "finite {c. kv_parents H rid m c \<noteq> []}" by (rule finite_subset) simp
qed

section \<open>Properties\<close>

text \<open>
  The classification of a push by the key-value backend: a null old id is a create, a null
  new id a delete, and otherwise \<open>FastForward\<close> is only ever reported when the old commit is an
  ancestor of the new one, even if calls fail on the way; without failures it is reported exactly
  then.  The walk always returns, also if the stored
  parents form a cycle.
\<close>

theorem kv_push_kind_correct:
  assumes H: "object_id H" and s: "steady m s"
  shows "\<exists>kind t. kv_compute_push_kind cluster_api H rid old new s = Some (kind, t) \<and>
    (kind = Create \<longleftrightarrow> is_null H old) \<and> (kind = Delete \<longleftrightarrow> \<not> is_null H old \<and> is_null H new) \<and>
    (kind = FastForward \<longrightarrow> old \<in> ancestors (kv_parents H rid m) new) \<and>
    (kind = ForcePush \<longrightarrow> old \<notin> ancestors (kv_parents H rid m) new \<or>
       (\<exists>e. kv_is_ancestor cluster_api H rid old new s = Some (Inl e, t)))"
proof -
  obtain r t where r: "kv_is_ancestor cluster_api H rid old new s = Some (r, t)"
    "case r of Inr b \<Rightarrow> b = (old \<in> ancestors (kv_parents H rid m) new) | Inl e \<Rightarrow> \<exists>m. e = OtherError m"
    using is_ancestor_spec [OF steady_fetches(2) s finite_kv_parents [OF H], of rid old new] unfolding kv_is_ancestor_def by blast
  then show ?thesis
    unfolding kv_compute_push_kind_def compute_push_kind_def kv_is_ancestor_def
    by (cases r) auto
qed

definition chain_store :: "(bytes \<times> bytes) list" where
  "chain_store = [(par sha1_ops 1 3 0, as_bytes sha1_ops 2), (par sha1_ops 1 2 0, as_bytes sha1_ops 1)]"

theorem kv_push_kind_correct_witness:
  "\<exists>kind t. kv_compute_push_kind cluster_api sha1_ops 1 1 3 (empty_cluster\<lparr> cl_store := chain_store \<rparr>) =
      Some (kind, t) \<and> (kind = FastForward \<longrightarrow> (1 :: sha1) \<in> ancestors (kv_parents sha1_ops 1 chain_store) 3)"
proof -
  have "steady chain_store (empty_cluster\<lparr> cl_store := chain_store \<rparr>)"
    by (simp add: steady_def empty_cluster_def)
  then show ?thesis using kv_push_kind_correct [OF sha1.object_id_axioms] by blast
qed

text \<open>
  C30. \<open>reachable_excluding\<close> of the key-value backend returns the commits reachable from the start
  that are not reachable from the excluded tips: each once, at most \<open>cap\<close> of them.  The cap error
  occurs only when one of the two sides really has more commits than the cap, and the walk always
  comes to an end.
\<close>

theorem kv_reachable_excluding_correct:
  assumes H: "object_id H" and s: "steady m s"
  shows "\<exists>r t. kv_reachable_excluding cluster_api H rid from excluding cap s = Some (r, t) \<and>
    (case r of
       Inr out \<Rightarrow> distinct out \<and> length out \<le> cap \<and>
         set out = new_side (kv_parents H rid m) from excluding
     | Inl (CapExceeded c) \<Rightarrow> c = cap \<and>
         (cap < card (new_side (kv_parents H rid m) from excluding) \<or>
          cap < card (\<Union>x \<in> set excluding. ancestors (kv_parents H rid m) x))
     | Inl (OtherError e) \<Rightarrow> True)"
proof -
  have "\<forall>x \<in> set from \<union> set excluding. finite (ancestors (kv_parents H rid m) x)"
    using finite_kv_parents [OF H] by blast
  from reachable_excluding_spec
    [OF steady_fetches(1) collect_ancestors_collects [OF steady_fetches(1)] s this]
  show ?thesis unfolding kv_reachable_excluding_def by blast
qed

theorem kv_reachable_excluding_correct_witness:
  "\<exists>r t. kv_reachable_excluding cluster_api sha1_ops 1 [3] [1] 10 (empty_cluster\<lparr> cl_store := chain_store \<rparr>) =
     Some (r, t) \<and>
    (case r of
       Inr out \<Rightarrow> distinct out \<and> length out \<le> 10 \<and>
         set out = new_side (kv_parents sha1_ops 1 chain_store) [3] [1]
     | Inl (CapExceeded c) \<Rightarrow> c = 10 \<and>
         (10 < card (new_side (kv_parents sha1_ops 1 chain_store) [3] [1]) \<or>
          10 < card (\<Union>x \<in> set [1]. ancestors (kv_parents sha1_ops 1 chain_store) x))
     | Inl (OtherError e) \<Rightarrow> True)"
  by (rule kv_reachable_excluding_correct [OF sha1.object_id_axioms])
     (simp add: steady_def empty_cluster_def)

end
