(* ===== verification/Pack_Inspect.thy ===== *)
theory Pack_Inspect
  imports Backend_Types
begin

text \<open>
  \<open>mizzle/src/inspect.rs\<close> and the extraction loop of the two database backends: the metadata
  of every object of a pack, for authorisation and for storage.

  The pack container, its index and the object parsers belong to gix.  They are the records
  \<open>pack_bundle\<close> and \<open>object_parser\<close>: what a pack reports for each index, and what the parsers return
  for the bytes of a commit or tag.
\<close>

section \<open>What gix provides\<close>

datatype gix_kind = GBlob | GTree | GCommit | GTag

datatype entry_header = Plain gix_kind | Delta

record 'o pack_bundle =
  bu_num :: nat
  bu_oid :: "nat \<Rightarrow> 'o"
  bu_entry :: "nat \<Rightarrow> (entry_header \<times> nat) res"
  bu_delta :: "nat \<Rightarrow> (gix_kind \<times> nat) res"
  bu_object :: "nat \<Rightarrow> bytes res"

record commit_ref =
  cr_tree :: bytes
  cr_parents :: "bytes list"
  cr_signature :: "bytes option"
  cr_author :: "identity res"
  cr_committer :: "identity res"
  cr_message :: bytes
  cr_encoding :: "bytes option"

record tag_ref =
  tr_target :: bytes
  tr_name :: bytes
  tr_tagger :: "bytes option"
  tr_message :: bytes
  tr_signature :: "bytes option"

record object_parser =
  parse_commit :: "bytes \<Rightarrow> commit_ref res"
  parse_tag :: "bytes \<Rightarrow> tag_ref res"
  parse_identity :: "bytes \<Rightarrow> identity res"

section \<open>Commit and tag metadata\<close>

definition sig_blob :: "bytes \<Rightarrow> signature_blob" where
  "sig_blob bs = \<lparr> sig_format = detect bs, sig_bytes = bs \<rparr>"

definition parse_commit_info ::
  "object_parser \<Rightarrow> 'o oid_ops \<Rightarrow> bytes \<Rightarrow> 'o \<Rightarrow> 'o commit_info res" where
  "parse_commit_info G H data x =
     bindR (context_err ''parsing commit object'' (parse_commit G data)) (\<lambda>c.
     bindR (context_err ''parsing commit tree oid'' (from_hex H (cr_tree c))) (\<lambda>tree.
     bindR (context_err ''parsing commit parent oids'' (mapR (from_hex H) (cr_parents c))) (\<lambda>parents.
     bindR (context_err ''parsing commit author'' (cr_author c)) (\<lambda>author.
     bindR (context_err ''parsing commit committer'' (cr_committer c)) (\<lambda>committer.
       Inr \<lparr> ci_oid = x, ci_tree = tree, ci_parents = parents, ci_author = author,
             ci_committer = committer, ci_message = cr_message c, ci_encoding = cr_encoding c,
             ci_signature = map_option sig_blob (cr_signature c) \<rparr>)))))"

definition parse_tag_info ::
  "object_parser \<Rightarrow> 'o oid_ops \<Rightarrow> bytes \<Rightarrow> 'o \<Rightarrow> 'o tag_info res" where
  "parse_tag_info G H data x =
     bindR (context_err ''parsing tag object'' (parse_tag G data)) (\<lambda>t.
     bindR (case tr_tagger t of
              None \<Rightarrow> Inr None
            | Some raw \<Rightarrow>
                (case parse_identity G raw of
                   Inl e \<Rightarrow> Inl (Bail (''parsing tag tagger: '' @ display_error e))
                 | Inr i \<Rightarrow> Inr (Some i))) (\<lambda>tagger.
     bindR (context_err ''parsing tag target'' (from_hex H (tr_target t))) (\<lambda>target.
       Inr \<lparr> ti_oid = x, ti_target = target, ti_name = tr_name t, ti_tagger = tagger,
             ti_message = tr_message t, ti_signature = map_option sig_blob (tr_signature t) \<rparr>)))"

section \<open>Inspecting a pack on disk\<close>

text \<open>The kind and size of an entry: from its header, or for a delta along the base chain.\<close>

definition resolve_kind :: "'o pack_bundle \<Rightarrow> nat \<Rightarrow> (gix_kind \<times> nat) res" where
  "resolve_kind bu i =
     bindR (context_err ''reading pack entry header'' (bu_entry bu i)) (\<lambda>(h, size).
       case h of
         Plain k \<Rightarrow> Inr (k, size)
       | Delta \<Rightarrow> context_err ''resolving delta header'' (bu_delta bu i))"

definition inspect_object ::
  "object_parser \<Rightarrow> 'o oid_ops \<Rightarrow> 'o pack_bundle \<Rightarrow> nat \<Rightarrow> 'o pack_object res" where
  "inspect_object G H bu i =
     bindR (resolve_kind bu i) (\<lambda>(k, size).
       case k of
         GBlob \<Rightarrow> Inr \<lparr> po_oid = bu_oid bu i, po_kind = KBlob, po_size = size \<rparr>
       | GTree \<Rightarrow> Inr \<lparr> po_oid = bu_oid bu i, po_kind = KTree, po_size = size \<rparr>
       | GCommit \<Rightarrow>
           bindR (context_err ''decoding pack object'' (bu_object bu i)) (\<lambda>data.
           bindR (parse_commit_info G H data (bu_oid bu i)) (\<lambda>c.
             Inr \<lparr> po_oid = bu_oid bu i, po_kind = KCommit c, po_size = length data \<rparr>))
       | GTag \<Rightarrow>
           bindR (context_err ''decoding pack object'' (bu_object bu i)) (\<lambda>data.
           bindR (parse_tag_info G H data (bu_oid bu i)) (\<lambda>t.
             Inr \<lparr> po_oid = bu_oid bu i, po_kind = KTag t, po_size = length data \<rparr>)))"

definition inspect_pack ::
  "object_parser \<Rightarrow> 'o oid_ops \<Rightarrow> 'o pack_bundle res \<Rightarrow> 'o pack_metadata res" where
  "inspect_pack G H at =
     bindR (context_err ''opening pack bundle'' at) (\<lambda>bu. mapR (inspect_object G H bu) [0..<bu_num bu])"

section \<open>Extracting a pack for storage (kv/objects.rs)\<close>

record 'o extracted =
  ex_oid :: 'o
  ex_kind :: byte
  ex_data :: bytes
  ex_parents :: "('o \<times> 16 word) list"

definition KIND_BLOB :: byte where "KIND_BLOB = CHR 0x00"
definition KIND_TREE :: byte where "KIND_TREE = CHR 0x01"
definition KIND_COMMIT :: byte where "KIND_COMMIT = CHR 0x02"
definition KIND_TAG :: byte where "KIND_TAG = CHR 0x03"

definition numbered :: "'o list \<Rightarrow> ('o \<times> 16 word) list" where
  "numbered ps = map (\<lambda>(i, p). (p, of_nat i)) (enumerate 0 ps)"

definition extract_object ::
  "object_parser \<Rightarrow> 'o oid_ops \<Rightarrow> 'o pack_bundle \<Rightarrow> nat \<Rightarrow> ('o extracted \<times> 'o pack_object) res" where
  "extract_object G H bu i =
     bindR (resolve_kind bu i) (\<lambda>(k, _).
     bindR (context_err ''decoding pack object'' (bu_object bu i)) (\<lambda>raw.
     bindR (case k of
              GBlob \<Rightarrow> Inr (KIND_BLOB, KBlob, [])
            | GTree \<Rightarrow> Inr (KIND_TREE, KTree, [])
            | GCommit \<Rightarrow> bindR (parse_commit_info G H raw (bu_oid bu i)) (\<lambda>c.
                Inr (KIND_COMMIT, KCommit c, numbered (ci_parents c)))
            | GTag \<Rightarrow> bindR (parse_tag_info G H raw (bu_oid bu i)) (\<lambda>t.
                Inr (KIND_TAG, KTag t, []))) (\<lambda>(kind, okind, parents).
       Inr (\<lparr> ex_oid = bu_oid bu i, ex_kind = kind, ex_data = raw, ex_parents = parents \<rparr>,
            \<lparr> po_oid = bu_oid bu i, po_kind = okind, po_size = length raw \<rparr>))))"

definition extract_pack ::
  "object_parser \<Rightarrow> 'o oid_ops \<Rightarrow> 'o pack_bundle res \<Rightarrow> ('o extracted list \<times> 'o pack_metadata) res" where
  "extract_pack G H at =
     bindR (context_err ''opening pack bundle'' at) (\<lambda>bu.
       if bu_num bu = 0 then Inr ([], [])
       else bindR (mapR (extract_object G H bu) [0..<bu_num bu]) (\<lambda>ps.
              Inr (map fst ps, map snd ps)))"

section \<open>What the metadata says\<close>

lemma parse_commit_info_oid: "parse_commit_info G H data x = Inr c \<Longrightarrow> ci_oid c = x"
  by (auto simp: parse_commit_info_def res_simps)

lemma parse_tag_info_oid: "parse_tag_info G H data x = Inr t \<Longrightarrow> ti_oid t = x"
  by (auto simp: parse_tag_info_def res_simps)

text \<open>The two readers of a pack agree: what extraction reports is what inspection reports.\<close>

lemma extract_inspect:
  assumes "extract_object G H bu i = Inr (e, p)"
    and "\<And>k n d. resolve_kind bu i = Inr (k, n) \<Longrightarrow> bu_object bu i = Inr d \<Longrightarrow> n = length d"
  shows "inspect_object G H bu i = Inr p"
  using assms
  by (auto simp: extract_object_def inspect_object_def res_simps split: gix_kind.splits)

lemma extract_object_Inr:
  "extract_object G H bu i = Inr (e, p) \<Longrightarrow>
   ex_oid e = bu_oid bu i \<and> po_oid p = bu_oid bu i \<and> bu_object bu i = Inr (ex_data e) \<and>
   po_size p = length (ex_data e) \<and>
   ex_parents e = (case po_kind p of KCommit c \<Rightarrow> numbered (ci_parents c) | _ \<Rightarrow> [])"
  by (auto simp: extract_object_def res_simps split: gix_kind.splits) (metis gix_kind.exhaust)+

end
