(* ===== verification/KV_Objects.thy ===== *)
theory KV_Objects
  imports KV_Graph Pack_Inspect
begin

text \<open>
  \<open>backend/kv/objects.rs\<close>: objects are stored under their id as one kind byte and the raw bytes,
  and the parents of a commit under one key per position.  Ingesting a pack writes all of them in
  one transaction.
\<close>

section \<open>Operations\<close>

definition encode_object :: "byte \<Rightarrow> bytes \<Rightarrow> bytes" where
  "encode_object kind data = kind # data"

definition decode_object :: "bytes \<Rightarrow> (byte \<times> bytes) res" where
  "decode_object v = (case v of [] \<Rightarrow> Inl (Bail ''object value is empty'') | k # d \<Rightarrow> Inr (k, d))"

definition kv_has_object :: "'s kv_api \<Rightarrow> 'o oid_ops \<Rightarrow> repo_id \<Rightarrow> 'o \<Rightarrow> ('s, error, bool) act" where
  "kv_has_object K H rid x =
     read_txn K ''begin txn for has_object'' (ctxA ''key_exists'' (key_exists K (obj H rid x)))"

definition kv_has_objects :: "'s kv_api \<Rightarrow> 'o oid_ops \<Rightarrow> repo_id \<Rightarrow> 'o list \<Rightarrow> ('s, error, bool list) act" where
  "kv_has_objects K H rid xs =
     (let keys = map (obj H rid) xs in
      read_txn K ''begin txn for has_objects''
        (bindA (ctxA ''batch_get'' (batch_get K keys)) (\<lambda>pairs.
           let found = fst ` set pairs in retA (map (\<lambda>k. k \<in> found) keys))))"

definition read_object_with_kind ::
  "'s kv_api \<Rightarrow> 'o oid_ops \<Rightarrow> repo_id \<Rightarrow> 'o \<Rightarrow> nat \<Rightarrow> ('s, error, (byte \<times> bytes) option) act" where
  "read_object_with_kind K H rid x cap =
     read_txn K ''begin txn for read_object''
       (bindA (ctxA ''get obj'' (kv_get K (obj H rid x))) (\<lambda>v.
          case v of
            None \<Rightarrow> retA None
          | Some b \<Rightarrow>
              bindA (liftA (decode_object b)) (\<lambda>(kind, data).
                if length data > cap then retA None else retA (Some (kind, data)))))"

definition kv_read_blob :: "'s kv_api \<Rightarrow> 'o oid_ops \<Rightarrow> repo_id \<Rightarrow> 'o \<Rightarrow> nat \<Rightarrow> ('s, error, bytes option) act" where
  "kv_read_blob K H rid x cap =
     bindA (read_object_with_kind K H rid x cap) (\<lambda>r.
       retA (case r of Some (k, d) \<Rightarrow> if k = KIND_BLOB then Some d else None | None \<Rightarrow> None))"

definition kv_read_object_raw :: "'s kv_api \<Rightarrow> 'o oid_ops \<Rightarrow> repo_id \<Rightarrow> 'o \<Rightarrow> nat \<Rightarrow> ('s, error, bytes option) act" where
  "kv_read_object_raw K H rid x cap =
     bindA (read_object_with_kind K H rid x cap) (\<lambda>r. retA (map_option snd r))"

definition kv_read_commit_info ::
  "object_parser \<Rightarrow> 's kv_api \<Rightarrow> 'o oid_ops \<Rightarrow> repo_id \<Rightarrow> 'o \<Rightarrow> ('s, error, 'o commit_info) act" where
  "kv_read_commit_info G K H rid x =
     bindA (kv_read_object_raw K H rid x u64_max) (\<lambda>raw.
     case raw of
       None \<Rightarrow> failA (Bail (''commit '' @ to_hex H x @ '' not in object store''))
     | Some d \<Rightarrow> liftA (parse_commit_info G H d x))"

section \<open>Ingesting a pack\<close>

definition put_object :: "'s kv_api \<Rightarrow> 'o oid_ops \<Rightarrow> repo_id \<Rightarrow> 'o extracted \<Rightarrow> ('s, error, 'o) act" where
  "put_object K H rid e =
     bindA (ctxA ''write object'' (kv_put K (obj H rid (ex_oid e)) (encode_object (ex_kind e) (ex_data e)))) (\<lambda>_.
     bindA (forA (ex_parents e) (\<lambda>(p, pos).
              ctxA ''write commit parent'' (kv_put K (par H rid (ex_oid e) pos) (as_bytes H p)))) (\<lambda>_.
       retA (ex_oid e)))"

definition kv_ingest_pack ::
  "object_parser \<Rightarrow> 's kv_api \<Rightarrow> 'o oid_ops \<Rightarrow> repo_id \<Rightarrow> bytes res \<Rightarrow> 'o pack_bundle res
     \<Rightarrow> ('s, error, ('o pack_metadata \<times> 'o list) option) act" where
  "kv_ingest_pack G K H rid staged at =
     bindA (liftA (context_err ''opening staged pack'' staged)) (\<lambda>file.
     bindA (liftA (context_err ''reading pack header'' (read_exact 12 file))) (\<lambda>(header, _).
     if (case pack_object_count header of None \<Rightarrow> 0 | Some n \<Rightarrow> n) = 0 then retA None
     else
       bindA (liftA (extract_pack G H at)) (\<lambda>(extracted, metadata).
       if extracted = [] then retA None
       else
         bindA (ctxA ''begin txn for ingest'' (begin_optimistic K)) (\<lambda>_.
         bindA (finallyA (mapA (put_object K H rid) extracted) (finalize_write K)) (\<lambda>oids.
           retA (Some (metadata, oids)))))))"

section \<open>The write set of a pack\<close>

fun parent_writes :: "'o oid_ops \<Rightarrow> repo_id \<Rightarrow> 'o \<Rightarrow> ('o \<times> 16 word) list \<Rightarrow> (bytes \<times> bytes option) list" where
  "parent_writes H rid c ps = rev (map (\<lambda>(p, pos). (par H rid c pos, Some (as_bytes H p))) ps)"

definition object_writes :: "'o oid_ops \<Rightarrow> repo_id \<Rightarrow> 'o extracted \<Rightarrow> (bytes \<times> bytes option) list" where
  "object_writes H rid e =
     parent_writes H rid (ex_oid e) (ex_parents e) @
     [(obj H rid (ex_oid e), Some (encode_object (ex_kind e) (ex_data e)))]"

definition pack_writes :: "'o oid_ops \<Rightarrow> repo_id \<Rightarrow> 'o extracted list \<Rightarrow> (bytes \<times> bytes option) list" where
  "pack_writes H rid es = concat (map (object_writes H rid) (rev es))"

context kv_client
begin

lemma put_parents_writes:
  "forA ps (\<lambda>(p, pos). ctxA c (kv_put K (par H rid x pos) (as_bytes H p))) s = (Inr u, t) \<Longrightarrow>
   writes t = writes s ++ map_of (parent_writes H rid x ps) \<and> commits t = commits s"
proof (induction ps arbitrary: s)
  case Nil
  then show ?case by simp
next
  case (Cons q ps)
  obtain p pos where q: "q = (p, pos)" by fastforce
  from Cons.prems q obtain s1 where put: "kv_put K (par H rid x pos) (as_bytes H p) s = (Inr (), s1)"
    and rest: "forA ps (\<lambda>(p, pos). ctxA c (kv_put K (par H rid x pos) (as_bytes H p))) s1 = (Inr u, t)"
    by (auto simp: bindA_Inr act_Inr)
  have "parent_writes H rid x (q # ps) = parent_writes H rid x ps @ [(par H rid x pos, Some (as_bytes H p))]"
    by (simp add: q)
  then have "writes s ++ map_of (parent_writes H rid x (q # ps)) =
      (writes s)(par H rid x pos \<mapsto> Some (as_bytes H p)) ++ map_of (parent_writes H rid x ps)"
    by (simp only: map_of_append map_of.simps map_add_assoc map_add_upd map_add_empty prod.sel)
  then show ?case
    using Cons.IH [OF rest, unfolded put_Inr [OF put]] put_frame [OF put] by metis
qed

lemma put_object_writes:
  assumes "put_object K H rid e s = (Inr x, t)"
  shows "x = ex_oid e \<and> writes t = writes s ++ map_of (object_writes H rid e) \<and> commits t = commits s"
proof -
  let ?k = "obj H rid (ex_oid e)" and ?v = "encode_object (ex_kind e) (ex_data e)"
  from assms obtain s1 u where put: "kv_put K ?k ?v s = (Inr (), s1)"
    and ps: "forA (ex_parents e) (\<lambda>(p, pos). ctxA ''write commit parent''
        (kv_put K (par H rid (ex_oid e) pos) (as_bytes H p))) s1 = (Inr u, t)" and x: "x = ex_oid e"
    by (auto simp: put_object_def bindA_Inr act_Inr)
  have "writes t = (writes s)(?k \<mapsto> Some ?v) ++ map_of (parent_writes H rid (ex_oid e) (ex_parents e))"
    using put_parents_writes [OF ps] put_Inr [OF put] by simp
  moreover have "writes s ++ map_of (object_writes H rid e) =
      (writes s)(?k \<mapsto> Some ?v) ++ map_of (parent_writes H rid (ex_oid e) (ex_parents e))"
    by (simp only: object_writes_def map_of_append map_of.simps map_add_assoc map_add_upd map_add_empty
        prod.sel)
  ultimately show ?thesis
    using x put_parents_writes [OF ps] put_frame [OF put] by simp
qed

lemma put_objects_writes:
  "mapA (put_object K H rid) es s = (Inr xs, t) \<Longrightarrow>
   xs = map ex_oid es \<and> writes t = writes s ++ map_of (pack_writes H rid es) \<and> commits t = commits s"
proof (induction es arbitrary: s xs)
  case Nil
  then show ?case by (simp add: pack_writes_def)
next
  case (Cons e es)
  from Cons.prems obtain x s1 ys where one: "put_object K H rid e s = (Inr x, s1)"
    and rest: "mapA (put_object K H rid) es s1 = (Inr ys, t)" and xs: "xs = x # ys"
    by (auto simp: bindA_Inr)
  have "pack_writes H rid (e # es) = pack_writes H rid es @ object_writes H rid e"
    by (simp add: pack_writes_def)
  then show ?case
    using Cons.IH [OF rest] put_object_writes [OF one] xs by (simp add: map_of_append)
qed

lemma ingest_pack_Inr:
  assumes "kv_ingest_pack G K H rid staged at s = (Inr (Some (meta, oids)), t)"
  shows "\<exists>es \<sigma>. extract_pack G H at = Inr (es, meta) \<and> oids = map ex_oid es \<and>
    commits t = commits s @ [(\<sigma>, map_of (pack_writes H rid es))] \<and>
    store t = apply_writes (map_of (pack_writes H rid es)) \<sigma>"
proof -
  from assms obtain es s1 where ex: "extract_pack G H at = Inr (es, meta)"
    and b: "begin_optimistic K s = (Inr (), s1)"
    and f: "finallyA (mapA (put_object K H rid) es) (finalize_write K) s1 = (Inr oids, t)"
    by (auto simp: kv_ingest_pack_def bindA_Inr act_Inr split: if_splits prod.splits)
  obtain r s2 where body: "mapA (put_object K H rid) es s1 = (r, s2)" by fastforce
  with f have r: "r = Inr oids" and c: "kv_commit K s2 = (Inr (), t)"
    by (cases r; auto simp: finallyA_def finalize_write_def bindA_Inr act_Inr)+
  have "oids = map ex_oid es" "writes s2 = map_of (pack_writes H rid es)" "commits s2 = commits s"
    using put_objects_writes [OF body [unfolded r]] begin_optimistic_Inr [OF b] by auto
  with ex commit_Inr [OF c] show ?thesis by auto
qed

lemma put_objects_frame:
  "triple (\<lambda>s. commits s = cs) (mapA (put_object K H rid) es) (\<lambda>_ s. commits s = cs) (\<lambda>_ s. commits s = cs)"
proof -
  have put: "triple (\<lambda>s. commits s = cs) (ctxA c (kv_put K k v)) (\<lambda>_ s. commits s = cs) (\<lambda>_ s. commits s = cs)"
    for c k v
    by (rule triple_ctx, rule tripleI) (use put_frame in fastforce)+
  have "triple (\<lambda>s. commits s = cs)
      (forA ps (\<lambda>(p, pos). ctxA ''write commit parent'' (kv_put K (par H rid x pos) (as_bytes H p))))
      (\<lambda>_ s. commits s = cs) (\<lambda>_ s. commits s = cs)" for ps x
    using put by (intro triple_for [where I = "\<lambda>_ s. commits s = cs"]) (simp add: split_def)
  then have "triple (\<lambda>s. commits s = cs) (put_object K H rid e) (\<lambda>_ s. commits s = cs) (\<lambda>_ s. commits s = cs)" for e
    unfolding put_object_def
    by (intro triple_bind [where R = "\<lambda>_ s. commits s = cs"] put triple_ret) auto
  then show ?thesis by (rule triple_mapA)
qed

lemma ingest_pack_Inl:
  assumes "kv_ingest_pack G K H rid staged at s = (Inl err, t)"
  shows "commits t = commits s \<or> (\<exists>es meta \<sigma>. extract_pack G H at = Inr (es, meta) \<and>
    commits t = commits s @ [(\<sigma>, map_of (pack_writes H rid es))])"
proof (cases "t = s")
  case False
  then obtain es meta where es: "extract_pack G H at = Inr (es, meta)"
    and run: "bindA (ctxA ''begin txn for ingest'' (begin_optimistic K)) (\<lambda>_.
        bindA (finallyA (mapA (put_object K H rid) es) (finalize_write K)) (\<lambda>oids.
          retA (Some (meta, oids)))) s = (Inl err, t)"
    using assms by (auto simp: kv_ingest_pack_def bindA_Inl split: if_splits prod.splits)
  then consider e where "begin_optimistic K s = (Inl e, t)"
    | s1 where "begin_optimistic K s = (Inr (), s1)"
        "finallyA (mapA (put_object K H rid) es) (finalize_write K) s1 = (Inl err, t)"
    by (cases "begin_optimistic K s"; cases "fst (begin_optimistic K s)")
       (auto simp: act_defs split: sum.splits prod.splits)
  then show ?thesis
  proof cases
    case 1
    then show ?thesis using begin_optimistic_Inl by blast
  next
    case (2 s1)
    obtain r s2 where body: "mapA (put_object K H rid) es s1 = (r, s2)" by fastforce
    have cs: "commits s2 = commits s"
      using triple_Inr [OF put_objects_frame, of s1 "commits s" H rid es _ s2] body
        triple_Inl [OF put_objects_frame, of s1 "commits s" H rid es _ s2] begin_optimistic_Inr [OF 2(1)]
      by (cases r) simp_all
    show ?thesis
    proof (cases r)
      case (Inl e)
      with 2(2) body have "t = snd (kv_rollback K s2)" by (simp add: finallyA_def finalize_write_def)
      then show ?thesis using rollback_frame [of s2 "fst (kv_rollback K s2)" t] cs by simp
    next
      case (Inr oids)
      with 2(2) body have "\<exists>e. kv_commit K s2 = (Inl e, t)"
        by (auto simp: finallyA_def finalize_write_def act_defs split: prod.splits sum.splits)
      moreover have "writes s2 = map_of (pack_writes H rid es)"
        using put_objects_writes [OF body [unfolded Inr]] begin_optimistic_Inr [OF 2(1)] by simp
      ultimately show ?thesis using commit_Inl [of s2 _ t] cs es by metis
    qed
  qed
qed simp

end

section \<open>Reading back an ingested pack\<close>

lemma be_bytes_mod: "be_bytes k (n mod 256 ^ k) = be_bytes k n"
proof -
  have "length (be_bytes k n) = k" by simp
  then show ?thesis by (metis be_bytes_be_val be_val_be_bytes)
qed

lemma be_bytes_less: "m < n \<Longrightarrow> n < 256 ^ k \<Longrightarrow> be_bytes k m < be_bytes k n"
proof (induction k arbitrary: m n)
  case 0
  then show ?case by simp
next
  case (Suc k)
  let ?a = "m div 256 ^ k" and ?b = "n div 256 ^ k"
  have ab: "?a \<le> ?b" using Suc.prems by (simp add: div_le_mono)
  have b: "?b < 256" using Suc.prems by (simp add: less_mult_imp_div_less)
  then have chars: "(of_char (char_of ?a :: char) :: nat) = ?a" "(of_char (char_of ?b :: char) :: nat) = ?b"
    using ab by simp_all
  show ?case
  proof (cases "?a = ?b")
    case True
    have "m mod 256 ^ k < n mod 256 ^ k"
      using Suc.prems(1) True by (metis div_mult_mod_eq nat_add_left_cancel_less)
    then have "be_bytes k (m mod 256 ^ k) < be_bytes k (n mod 256 ^ k)" using Suc.IH by simp
    with True show ?thesis by (simp add: be_bytes_mod)
  next
    case False
    with ab chars have "(char_of ?a :: char) < char_of ?b" by (simp add: char_less_iff)
    then show ?thesis by simp
  qed
qed

lemma par_less:
  "i < j \<Longrightarrow> j < 65536 \<Longrightarrow> par H rid c (of_nat i) < par H rid c (of_nat j)"
proof -
  assume "i < j" "j < 65536"
  then have "unat (of_nat i :: 16 word) = i" "unat (of_nat j :: 16 word) = j"
    by (simp_all add: unsigned_of_nat take_bit_eq_mod)
  then have "u16_be (of_nat i) < u16_be (of_nat j)"
    using be_bytes_less [of i j 2] \<open>i < j\<close> \<open>j < 65536\<close> by (simp add: u16_be_def)
  then show ?thesis by (simp add: par_def)
qed

lemma quiet_put_parents:
  "cl_events s = [] \<Longrightarrow>
   forA ps (\<lambda>(p, pos). ctxA c (kv_put cluster_api (par H rid x pos) (as_bytes H p))) s =
     (Inr (), s\<lparr> cl_writes := parent_writes H rid x ps @ cl_writes s \<rparr>)"
proof (induction ps arbitrary: s)
  case (Cons q ps)
  obtain p pos where q: "q = (p, pos)" by fastforce
  let ?s = "s\<lparr> cl_writes := (par H rid x pos, Some (as_bytes H p)) # cl_writes s \<rparr>"
  have "ctxA c (kv_put cluster_api (par H rid x pos) (as_bytes H p)) s = (Inr (), ?s)"
    using Cons.prems by (simp add: quiet)
  then show ?case using Cons.IH [of ?s] Cons.prems by (simp add: q bindA_run)
qed simp

lemma quiet_put_object:
  assumes "cl_events s = []"
  shows "put_object cluster_api H rid e s =
     (Inr (ex_oid e), s\<lparr> cl_writes := object_writes H rid e @ cl_writes s \<rparr>)"
proof -
  let ?s = "s\<lparr> cl_writes := (obj H rid (ex_oid e), Some (encode_object (ex_kind e) (ex_data e))) # cl_writes s \<rparr>"
  have "ctxA ''write object'' (kv_put cluster_api (obj H rid (ex_oid e))
      (encode_object (ex_kind e) (ex_data e))) s = (Inr (), ?s)"
    using assms by (simp add: quiet)
  moreover have "forA (ex_parents e) (\<lambda>(p, pos). ctxA ''write commit parent''
      (kv_put cluster_api (par H rid (ex_oid e) pos) (as_bytes H p))) ?s =
      (Inr (), ?s\<lparr> cl_writes := parent_writes H rid (ex_oid e) (ex_parents e) @ cl_writes ?s \<rparr>)"
    using assms by (intro quiet_put_parents) simp
  ultimately show ?thesis
    by (simp add: put_object_def bindA_run object_writes_def del: parent_writes.simps)
qed

lemma quiet_put_objects:
  "cl_events s = [] \<Longrightarrow> mapA (put_object cluster_api H rid) es s =
     (Inr (map ex_oid es), s\<lparr> cl_writes := pack_writes H rid es @ cl_writes s \<rparr>)"
proof (induction es arbitrary: s)
  case (Cons e es)
  then show ?case
    by (simp add: bindA_run(1) [OF quiet_put_object] pack_writes_def) (simp add: bindA_def)
qed (simp add: pack_writes_def)

lemma quiet_ingest_pack:
  assumes "cl_events s = []" "staged = Inr file" "12 \<le> length file"
    and "pack_object_count (take 12 file) = Some n" "n \<noteq> 0"
    and "extract_pack G H at = Inr (es, meta)" "es \<noteq> []"
  shows "\<exists>t. kv_ingest_pack G cluster_api H rid staged at s = (Inr (Some (meta, map ex_oid es)), t) \<and>
    cl_events t = [] \<and> cl_store t = write_alist (pack_writes H rid es) (cl_store s)"
proof -
  let ?s = "s\<lparr> cl_snap := cl_store s, cl_writes := [], cl_locked := [] \<rparr>"
  have "mapA (put_object cluster_api H rid) es ?s =
      (Inr (map ex_oid es), ?s\<lparr> cl_writes := pack_writes H rid es @ cl_writes ?s \<rparr>)"
    using assms(1) by (intro quiet_put_objects) simp
  then show ?thesis
    using assms
    by (simp add: kv_ingest_pack_def read_exact_def quiet_op cluster_ops cl_begin_def finalize_write_def
        act_defs)
qed

subsection \<open>The keys written\<close>

lemma map_of_concat_unique:
  assumes "distinct es" "e \<in> set es" "\<And>e'. e' \<in> set es \<Longrightarrow> e' \<noteq> e \<Longrightarrow> k \<notin> fst ` set (f e')"
  shows "map_of (concat (map f es)) k = map_of (f e) k"
  using assms
proof (induction es)
  case (Cons x es)
  show ?case
  proof (cases "x = e")
    case True
    then have "k \<notin> fst ` set (f e')" if "e' \<in> set es" for e'
      using Cons.prems(1) Cons.prems(3) [of e'] that by auto
    then have "k \<notin> fst ` set (concat (map f es))" by auto
    then have "map_of (concat (map f es)) k = None" by (simp add: map_of_eq_None_iff)
    with True show ?thesis by (simp add: map_of_append map_add_def split: option.splits)
  next
    case False
    then have "map_of (f x) k = None" using Cons.prems(3) [of x] by (simp add: map_of_eq_None_iff)
    moreover have "map_of (concat (map f es)) k = map_of (f e) k" using Cons False by simp
    ultimately show ?thesis by (simp add: map_of_append map_add_def split: option.splits)
  qed
qed simp

lemma object_writes_keys:
  "k \<in> fst ` set (object_writes H rid e) \<Longrightarrow>
   k = obj H rid (ex_oid e) \<or> (\<exists>pos. k = par H rid (ex_oid e) pos)"
  by (auto simp: object_writes_def)

lemma pack_writes_lookup:
  assumes H: "object_id H" and d: "distinct (map ex_oid es)" and e: "e \<in> set es"
    and k: "k = obj H rid (ex_oid e) \<or> prefix (parents_prefix_start H rid (ex_oid e)) k"
  shows "map_of (pack_writes H rid es) k = map_of (object_writes H rid e) k"
  unfolding pack_writes_def
proof (rule map_of_concat_unique)
  show "distinct (rev es)" using d by (simp add: distinct_map)
  show "e \<in> set (rev es)" using e by simp
  fix e' assume e': "e' \<in> set (rev es)" "e' \<noteq> e"
  then have ne: "ex_oid e' \<noteq> ex_oid e"
    using d e by (auto simp: distinct_map inj_on_def)
  show "k \<notin> fst ` set (object_writes H rid e')"
  proof
    assume "k \<in> fst ` set (object_writes H rid e')"
    then consider "k = obj H rid (ex_oid e')" | pos where "k = par H rid (ex_oid e') pos"
      using object_writes_keys by blast
    then show False
    proof cases
      case 1
      with k ne show False
        by (auto simp: object_id.obj_inj [OF H]) (auto simp: obj_def parents_prefix_start_def key_tags)
    next
      case 2
      with k ne show False
        by (auto simp: object_id.par_in_prefix [OF H] key_tags_distinct(6) [symmetric])
    qed
  qed
qed

subsection \<open>The parents read back in order\<close>

lemma scan_unique:
  assumes "sorted_wrt (<) (map fst xs)" "length xs \<le> limit"
    and "set xs = {(k, v). map_of m k = Some v \<and> lo \<le> k \<and> k < hi}"
  shows "cl_scan m lo hi limit = xs"
proof -
  obtain ys where ys: "sorted_wrt (<) (map fst ys)" "set ys = set xs" "cl_scan m lo hi limit = take limit ys"
    using scan_of_cl_scan [of m lo hi limit] assms(3) unfolding scan_of_def by metis
  have "ys = xs"
    using ys(1,2) assms(1) map_sorted_distinct_set_unique [of fst ys xs]
    by (simp add: strict_sorted_iff distinct_map inj_on_def)
  with ys(3) assms(2) show ?thesis by simp
qed

definition parent_pairs :: "'o oid_ops \<Rightarrow> repo_id \<Rightarrow> 'o \<Rightarrow> 'o list \<Rightarrow> (bytes \<times> bytes) list" where
  "parent_pairs H rid c ps = map (\<lambda>i. (par H rid c (of_nat i), as_bytes H (ps ! i))) [0..<length ps]"

lemma parent_pairs_sorted: "length ps \<le> 65536 \<Longrightarrow> sorted_wrt (<) (map fst (parent_pairs H rid c ps))"
  by (auto simp: parent_pairs_def sorted_wrt_iff_nth_less intro!: par_less)

lemma numbered_nth: "numbered ps = map (\<lambda>i. (ps ! i, of_nat i)) [0..<length ps]"
  by (rule nth_equalityI) (simp_all add: numbered_def nth_enumerate_eq)

lemma parent_writes_numbered:
  "parent_writes H rid c (numbered ps) = rev (map (map_prod id Some) (parent_pairs H rid c ps))"
  by (simp add: parent_pairs_def numbered_nth)

lemma map_of_parent_writes:
  assumes "length ps \<le> 65536"
  shows "map_of (parent_writes H rid c (numbered ps)) k =
    map_option Some (map_of (parent_pairs H rid c ps) k)"
proof -
  have "distinct (map fst (parent_pairs H rid c ps))"
    using parent_pairs_sorted [OF assms] strict_sorted_iff by blast
  then have "distinct (map fst (map (map_prod id Some) (parent_pairs H rid c ps)))"
    by (simp add: comp_def)
  moreover from this have "distinct (map fst (rev (map (map_prod id Some) (parent_pairs H rid c ps))))"
    by (simp add: rev_map [symmetric])
  ultimately have "map_of (parent_writes H rid c (numbered ps)) = map_of (map (map_prod id Some) (parent_pairs H rid c ps))"
    unfolding parent_writes_numbered by (subst map_of_inject_set) simp_all
  then show ?thesis
    by (simp add: map_prod_def map_of_map del: parent_writes.simps)
qed

definition stored_parents_match :: "'o oid_ops \<Rightarrow> repo_id \<Rightarrow> (bytes \<times> bytes) list \<Rightarrow> 'o extracted \<Rightarrow> bool" where
  "stored_parents_match H rid m e \<longleftrightarrow>
     list_all (\<lambda>p. starts_with (fst p) (parents_prefix_start H rid (ex_oid e)) \<longrightarrow>
                   fst p \<in> set (map (\<lambda>q. par H rid (ex_oid e) (snd q)) (ex_parents e))) m"

lemma pack_writes_parents:
  assumes "object_id H" "distinct (map ex_oid es)" "e \<in> set es" "ex_parents e = numbered ps"
    and "length ps \<le> 65536" "prefix (parents_prefix_start H rid (ex_oid e)) k"
  shows "map_of (pack_writes H rid es) k = map_option Some (map_of (parent_pairs H rid (ex_oid e) ps) k)"
proof -
  have "k \<noteq> obj H rid (ex_oid e)"
    using assms(6) by (auto simp: obj_def parents_prefix_start_def key_tags)
  then have "map_of (object_writes H rid e) k = map_of (parent_writes H rid (ex_oid e) (ex_parents e)) k"
    by (auto simp: object_writes_def map_of_append map_add_def split: option.splits
        simp del: parent_writes.simps)
  then show ?thesis
    using pack_writes_lookup [OF assms(1-3), of k rid] assms(4-6) map_of_parent_writes [OF assms(5)]
    by metis
qed

lemma ingested_parents:
  assumes H: "object_id H" and d: "distinct (map ex_oid es)" and e: "e \<in> set es"
    and ps: "ex_parents e = numbered ps" "length ps \<le> 65536"
    and m: "stored_parents_match H rid m e"
  shows "kv_parents H rid (write_alist (pack_writes H rid es) m) (ex_oid e) = ps"
proof -
  let ?M = "write_alist (pack_writes H rid es) m" and ?q = "parent_pairs H rid (ex_oid e) ps"
  let ?lo = "parents_prefix_start H rid (ex_oid e)" and ?hi = "parents_prefix_end H rid (ex_oid e)"
  have dq: "distinct (map fst ?q)" using parent_pairs_sorted [OF ps(2)] strict_sorted_iff by blast
  have keys: "fst ` set ?q = set (map (\<lambda>q. par H rid (ex_oid e) (snd q)) (ex_parents e))"
    by (simp add: ps numbered_nth parent_pairs_def image_image)
  have M: "map_of ?M k = map_of ?q k" if k: "prefix ?lo k" for k
  proof (cases "map_of ?q k")
    case None
    then have "k \<notin> fst ` set ?q" by (simp add: map_of_eq_None_iff)
    then have "k \<notin> fst ` set m"
      using m k unfolding keys stored_parents_match_def list_all_iff starts_with_iff by blast
    then have "map_of m k = None" by (simp add: map_of_eq_None_iff)
    then show ?thesis
      using pack_writes_parents [OF H d e ps k] by (simp add: None map_of_write_alist apply_writes_def)
  next
    case (Some v)
    then show ?thesis
      using pack_writes_parents [OF H d e ps k] by (simp add: map_of_write_alist apply_writes_def)
  qed
  have lo: "prefix ?lo k" if "(k, v) \<in> set ?q" for k v
    using that by (auto simp: parent_pairs_def parents_prefix_start_def par_def)
  have "(k, v) \<in> set ?q \<longleftrightarrow> map_of ?M k = Some v \<and> prefix ?lo k" for k v
    using M [of k] lo [of k v] map_of_eq_Some_iff [OF dq, of k v] by metis
  then have "set ?q = {(k, v). map_of ?M k = Some v \<and> ?lo \<le> k \<and> k < ?hi}"
    unfolding parents_range_iff by blast
  moreover have "length ?q \<le> u32_max" using ps(2) by (simp add: parent_pairs_def u32_max_def)
  ultimately have "cl_scan ?M ?lo ?hi u32_max = ?q"
    using parent_pairs_sorted [OF ps(2)] by (intro scan_unique)
  moreover have "mapR (parent_of_pair H) ?q = Inr (map (\<lambda>i. ps ! i) [0..<length ps])"
    by (simp add: parent_pairs_def mapR_Inr_iff list_all2_conv_all_nth parent_of_pair_def
        object_id.from_as_bytes [OF H])
  ultimately show ?thesis by (simp add: kv_parents_def map_nth)
qed

lemma ingested_object:
  assumes "object_id H" "distinct (map ex_oid es)" "e \<in> set es"
  shows "map_of (write_alist (pack_writes H rid es) m) (obj H rid (ex_oid e)) =
    Some (encode_object (ex_kind e) (ex_data e))"
proof -
  let ?k = "obj H rid (ex_oid e)"
  have "map_of (parent_writes H rid (ex_oid e) (ex_parents e)) ?k = None"
    by (auto simp: map_of_eq_None_iff key_tags_distinct)
  then have "map_of (object_writes H rid e) ?k = Some (Some (encode_object (ex_kind e) (ex_data e)))"
    by (simp add: object_writes_def map_of_append map_add_def del: parent_writes.simps)
  then show ?thesis
    using pack_writes_lookup [OF assms, of ?k rid] by (simp add: map_of_write_alist apply_writes_def)
qed

lemma quiet_read_object:
  assumes "cl_events s = []" "map_of (cl_store s) (obj H rid x) = Some (encode_object k d)" "length d \<le> cap"
  shows "fst (kv_read_object_raw cluster_api H rid x cap s) = Inr (Some d)"
  using assms
  by (simp add: kv_read_object_raw_def read_object_with_kind_def quiet write_alist_def encode_object_def
      decode_object_def)

lemma extract_pack_numbered:
  assumes "extract_pack G H at = Inr (es, meta)" "e \<in> set es"
  obtains ps where "ex_parents e = numbered ps"
proof -
  obtain bu qs where qs: "mapR (extract_object G H bu) [0..<bu_num bu] = Inr qs" "es = map fst qs"
    using assms by (auto simp: extract_pack_def res_simps split: if_splits)
  with assms(2) obtain q where q: "q \<in> set qs" "e = fst q" by auto
  with qs(1) obtain i where "extract_object G H bu i = Inr (e, snd q)"
    by (auto simp: mapR_Inr_iff list_all2_conv_all_nth in_set_conv_nth)
  from extract_object_Inr [OF this]
  have "ex_parents e = (case po_kind (snd q) of KCommit c \<Rightarrow> numbered (ci_parents c) | _ \<Rightarrow> numbered [])"
    by (cases "po_kind (snd q)") (simp_all add: numbered_nth)
  then show ?thesis using that by (cases "po_kind (snd q)") fastforce+
qed

section \<open>Properties\<close>

text \<open>
  C31. Ingesting a pack is all or nothing, whatever the other clients and the network do meanwhile:
  if it reports success, exactly one transaction was committed, and its write set is one value per
  object of the pack under its id and one value per parent of each commit under its position; the
  reported metadata and ids are those of the pack.
\<close>

theorem kv_ingest_pack_atomic:
  assumes client: "kv_client K st sn wr lk cm" and run: "kv_ingest_pack G K H rid staged at s = (r, t)"
  shows "case r of
      Inr (Some (meta, oids)) \<Rightarrow> \<exists>es \<sigma>. extract_pack G H at = Inr (es, meta) \<and> oids = map ex_oid es \<and>
        cm t = cm s @ [(\<sigma>, map_of (pack_writes H rid es))] \<and>
        st t = apply_writes (map_of (pack_writes H rid es)) \<sigma>
    | Inr None \<Rightarrow> t = s
    | Inl e \<Rightarrow> cm t = cm s \<or> (\<exists>es meta \<sigma>. extract_pack G H at = Inr (es, meta) \<and>
        cm t = cm s @ [(\<sigma>, map_of (pack_writes H rid es))])"
proof (cases r)
  case (Inl e)
  then show ?thesis using kv_client.ingest_pack_Inl [OF client] run by simp
next
  case (Inr v)
  show ?thesis
  proof (cases v)
    case None
    then have "t = s"
      using run Inr by (auto simp: kv_ingest_pack_def bindA_Inr split: if_splits prod.splits)
    with None Inr show ?thesis by simp
  next
    case (Some p)
    then show ?thesis using kv_client.ingest_pack_Inr [OF client] run Inr by (cases p) simp
  qed
qed


definition demo_identity :: identity where
  "demo_identity = \<lparr> id_name = ''a'', id_email = ''a@b'', id_time = ''0 +0000'' \<rparr>"

definition demo_parser :: object_parser where
  "demo_parser =
     \<lparr> parse_commit = (\<lambda>_. Inr \<lparr> cr_tree = to_hex sha1_ops 5, cr_parents = [to_hex sha1_ops 7, to_hex sha1_ops 6],
          cr_signature = None, cr_author = Inr demo_identity, cr_committer = Inr demo_identity,
          cr_message = ''m'', cr_encoding = None \<rparr>),
       parse_tag = (\<lambda>_. Inl (Ext ''no tag'')), parse_identity = (\<lambda>_. Inr demo_identity) \<rparr>"

definition demo_bundle :: "sha1 pack_bundle" where
  "demo_bundle = \<lparr> bu_num = 1, bu_oid = (\<lambda>_. 9), bu_entry = (\<lambda>_. Inr (Plain GCommit, 3)),
     bu_delta = (\<lambda>_. Inl (Ext ''no delta'')), bu_object = (\<lambda>_. Inr ''abc'') \<rparr>"

definition demo_commit :: "sha1 commit_info" where
  "demo_commit = \<lparr> ci_oid = 9, ci_tree = 5, ci_parents = [7, 6], ci_author = demo_identity,
     ci_committer = demo_identity, ci_message = ''m'', ci_encoding = None, ci_signature = None \<rparr>"

definition demo_extracted :: "sha1 extracted" where
  "demo_extracted = \<lparr> ex_oid = 9, ex_kind = KIND_COMMIT, ex_data = ''abc'', ex_parents = [(7, 0), (6, 1)] \<rparr>"

lemma demo_extract:
  "extract_pack demo_parser sha1_ops (Inr demo_bundle) =
     Inr ([demo_extracted], [\<lparr> po_oid = 9, po_kind = KCommit demo_commit, po_size = 3 \<rparr>])"
proof -
  have "parse_commit_info demo_parser sha1_ops ''abc'' 9 = Inr demo_commit"
    by (simp add: parse_commit_info_def demo_parser_def sha1.from_to_hex demo_commit_def)
  then show ?thesis
    by (simp add: extract_pack_def extract_object_def resolve_kind_def demo_bundle_def demo_commit_def
        demo_extracted_def numbered_nth)
qed

definition demo_file :: bytes where
  "demo_file = ''PACK'' @ [CHR 0x00, CHR 0x00, CHR 0x00, CHR 0x02, CHR 0x00, CHR 0x00, CHR 0x00, CHR 0x01]"

lemma demo_file: "12 \<le> length demo_file" "pack_object_count (take 12 demo_file) = Some 1"
  by (simp_all add: demo_file_def pack_object_count_def)

theorem kv_ingest_pack_atomic_witness:
  "\<exists>meta oids t. kv_ingest_pack demo_parser cluster_api sha1_ops 1
       (Inr demo_file) (Inr demo_bundle) empty_cluster =
     (Inr (Some (meta, oids)), t) \<and> oids = [9] \<and>
     (\<exists>\<sigma>. map (map_prod map_of map_of) (cl_commits t) =
            [(\<sigma>, map_of (pack_writes sha1_ops 1 [demo_extracted]))])"
proof -
  obtain meta oids t where t: "kv_ingest_pack demo_parser cluster_api sha1_ops 1 (Inr demo_file) (Inr demo_bundle)
      empty_cluster = (Inr (Some (meta, oids)), t)"
    using quiet_ingest_pack [OF _ refl demo_file(1,2) _ demo_extract, of empty_cluster 1]
    by (fastforce simp: empty_cluster_def)
  moreover have "cl_commits empty_cluster = []" by (simp add: empty_cluster_def)
  ultimately show ?thesis
    using kv_ingest_pack_atomic [OF cluster.kv_client_axioms t] by (auto simp: demo_extract demo_extracted_def)
qed


end
