(* ===== verification/Signatures.thy ===== *)
theory Signatures
  imports Backend_Types
begin

text \<open>
  \<open>mizzle/src/sigverify.rs\<close>: recovering the bytes that were signed from a signed commit or tag,
  and the dispatch of native verification.
\<close>

section \<open>Commits\<close>

text \<open>\<open>SplitLinesKeepTerm::next\<close>: the bytes up to and including the next newline.\<close>

definition next_term_line :: "bytes \<Rightarrow> (bytes \<times> bytes) option" where
  "next_term_line bs =
     (if bs = [] then None
      else let n = length (takeWhile (\<lambda>b. b \<noteq> NL) bs);
               end = (if n < length bs then n + 1 else length bs)
           in Some (take end bs, drop end bs))"

lemma next_term_line_shrinks: "next_term_line bs = Some (l, rest) \<Longrightarrow> length rest < length bs"
  by (auto simp: next_term_line_def Let_def split: if_splits)

definition is_blank :: "bytes \<Rightarrow> bool" where
  "is_blank line \<longleftrightarrow> line = [NL] \<or> line = [CR, NL] \<or> line = []"

definition gpgsig_key :: bytes where "gpgsig_key = ''gpgsig ''"
definition gpgsig256_key :: bytes where "gpgsig256_key = ''gpgsig-sha256 ''"

definition is_gpgsig :: "bytes \<Rightarrow> bool" where
  "is_gpgsig line \<longleftrightarrow> starts_with line gpgsig_key \<or> starts_with line gpgsig256_key"

function strip_loop :: "bool \<Rightarrow> bool \<Rightarrow> bytes \<Rightarrow> bytes" where
  "strip_loop in_body skipping raw =
     (case next_term_line raw of
        None \<Rightarrow> []
      | Some (line, rest) \<Rightarrow>
          if in_body then line @ strip_loop in_body skipping rest
          else if is_blank line then line @ strip_loop True False rest
          else if skipping \<and> starts_with line [SP] then strip_loop False True rest
          else if is_gpgsig line then strip_loop False True rest
          else line @ strip_loop False False rest)"
  by pat_completeness auto
termination
  by (relation "measure (\<lambda>(_, _, raw). length raw)") (auto dest: next_term_line_shrinks)

declare strip_loop.simps [simp del]

definition strip_gpgsig :: "bytes \<Rightarrow> bytes" where
  "strip_gpgsig raw = strip_loop False False raw"

section \<open>Tags\<close>

text \<open>\<open>windows(needle.len()).position(|w| w == needle)\<close> for a non-empty needle.\<close>

fun find_window :: "bytes \<Rightarrow> bytes \<Rightarrow> nat option" where
  "find_window needle [] = None"
| "find_window needle (b # bs) =
     (if starts_with (b # bs) needle then Some 0 else map_option Suc (find_window needle bs))"

lemma find_window_less: "find_window needle bs = Some n \<Longrightarrow> n < length bs"
  by (induction bs arbitrary: n) (auto split: if_splits)

function find_line_loop :: "bytes \<Rightarrow> bytes \<Rightarrow> nat \<Rightarrow> nat option" where
  "find_line_loop haystack needle search_from =
     (case find_window needle (drop search_from haystack) of
        None \<Rightarrow> None
      | Some rel \<Rightarrow>
          let pos = search_from + rel
          in if pos = 0 \<or> haystack ! (pos - 1) = NL then Some pos
             else find_line_loop haystack needle (pos + 1))"
  by pat_completeness auto
termination
  by (relation "measure (\<lambda>(h, _, from). length h - from)") (auto dest!: find_window_less)

declare find_line_loop.simps [simp del]

definition find_line_start :: "bytes \<Rightarrow> bytes \<Rightarrow> nat option" where
  "find_line_start haystack needle = find_line_loop haystack needle 0"

definition MARKERS :: "bytes list" where
  "MARKERS = [''-----BEGIN PGP SIGNATURE-----'', ''-----BEGIN SSH SIGNATURE-----'',
              ''-----BEGIN SIGNED MESSAGE-----'']"

fun strip_at_marker :: "bytes \<Rightarrow> bytes list \<Rightarrow> bytes" where
  "strip_at_marker raw [] = raw"
| "strip_at_marker raw (m # ms) =
     (case find_line_start raw m of Some pos \<Rightarrow> take pos raw | None \<Rightarrow> strip_at_marker raw ms)"

definition strip_tag_signature :: "bytes \<Rightarrow> bytes" where
  "strip_tag_signature raw = strip_at_marker raw MARKERS"

section \<open>Native verification\<close>

definition verify_native ::
  "signature_format \<Rightarrow> bytes \<Rightarrow> bytes \<Rightarrow> verification_key list \<Rightarrow> verification_status" where
  "verify_native fmt sig payload keys =
     (case fmt of
        UnknownFormat \<Rightarrow> UnsupportedFormat
      | _ \<Rightarrow> if keys = [] then UnknownKey else UnsupportedFormat)"

section \<open>Signing and stripping a commit\<close>

text \<open>A commit object as its header lines, the signature header among them, and the body.\<close>

definition terminated :: "bytes list \<Rightarrow> bytes" where
  "terminated ls = concat (map (\<lambda>l. l @ [NL]) ls)"

definition header_ok :: "bytes \<Rightarrow> bool" where
  "header_ok l \<longleftrightarrow> l \<noteq> [] \<and> NL \<notin> set l \<and> l \<noteq> [CR] \<and> \<not> is_gpgsig (l @ [NL])"

definition gpgsig_header :: "bytes \<Rightarrow> bytes list \<Rightarrow> bytes list" where
  "gpgsig_header first conts = (gpgsig_key @ first) # map (\<lambda>l. SP # l) conts"

definition sig_ok :: "bytes \<Rightarrow> bytes list \<Rightarrow> bool" where
  "sig_ok first conts \<longleftrightarrow> NL \<notin> set first \<and> list_all (\<lambda>l. NL \<notin> set l) conts"

lemma next_term_line_line: "NL \<notin> set l \<Longrightarrow> next_term_line (l @ NL # rest) = Some (l @ [NL], rest)"
  by (simp add: next_term_line_def takeWhile_neq_append Let_def)

lemma strip_loop_line:
  "NL \<notin> set l \<Longrightarrow> strip_loop in_body skipping (l @ NL # rest) =
     (let line = l @ [NL] in
      if in_body then line @ strip_loop in_body skipping rest
      else if is_blank line then line @ strip_loop True False rest
      else if skipping \<and> starts_with line [SP] then strip_loop False True rest
      else if is_gpgsig line then strip_loop False True rest
      else line @ strip_loop False False rest)"
  by (subst strip_loop.simps) (simp add: next_term_line_line Let_def)

lemma next_term_line_append: "next_term_line bs = Some (l, rest) \<Longrightarrow> l @ rest = bs"
  by (auto simp: next_term_line_def Let_def split: if_splits)

lemma strip_loop_body: "strip_loop True skipping body = body"
proof (induction "length body" arbitrary: body rule: less_induct)
  case less
  show ?case
  proof (cases "next_term_line body")
    case None
    then have "body = []" by (auto simp: next_term_line_def Let_def split: if_splits)
    then show ?thesis by (subst strip_loop.simps) (simp add: next_term_line_def)
  next
    case (Some p)
    obtain l rest where p: "p = (l, rest)" by fastforce
    have "strip_loop True skipping rest = rest"
      using less Some p next_term_line_shrinks by blast
    then show ?thesis
      using Some p next_term_line_append [of body l rest] by (subst strip_loop.simps) simp
  qed
qed

lemma header_not_blank: "header_ok l \<Longrightarrow> \<not> is_blank (l @ [NL])"
  by (auto simp: header_ok_def is_blank_def append_eq_Cons_conv)

lemma starts_with_SP: "starts_with (l @ [NL]) [SP] \<longleftrightarrow> (\<exists>t. l = SP # t)"
  by (cases l) (auto simp: starts_with_def ascii_defs)

lemma strip_loop_headers:
  assumes "list_all header_ok hs" and "skipping \<longrightarrow> (\<forall>h t. hs = h # t \<longrightarrow> \<not> starts_with h [SP])" and "hs \<noteq> []"
  shows "strip_loop False skipping (terminated hs @ rest) = terminated hs @ strip_loop False False rest"
  using assms
proof (induction hs arbitrary: skipping)
  case Nil
  then show ?case by simp
next
  case (Cons h hs)
  have h: "header_ok h" "NL \<notin> set h" using Cons.prems(1) by (auto simp: header_ok_def)
  have nsp: "skipping \<Longrightarrow> \<not> starts_with (h @ [NL]) [SP]"
    using Cons.prems(2) by (auto simp: starts_with_SP) (auto simp: starts_with_def)
  have "strip_loop False skipping (h @ NL # terminated hs @ rest) =
      h @ [NL] @ strip_loop False False (terminated hs @ rest)"
    using h nsp header_not_blank [OF h(1)]
    by (simp add: strip_loop_line Let_def) (auto simp: header_ok_def)
  moreover have "strip_loop False False (terminated hs @ rest) =
      terminated hs @ strip_loop False False rest"
    using Cons.IH [of False] Cons.prems(1) by (cases "hs = []") (auto simp: terminated_def)
  ultimately show ?case by (simp add: terminated_def)
qed

lemma strip_loop_continuation:
  "list_all (\<lambda>l. NL \<notin> set l) conts \<Longrightarrow>
   strip_loop False True (terminated (map (\<lambda>l. SP # l) conts) @ rest) = strip_loop False True rest"
proof (induction conts)
  case Nil
  then show ?case by (simp add: terminated_def)
next
  case (Cons l conts)
  have "NL \<notin> set (SP # l)" using Cons.prems by (simp add: ascii_defs)
  moreover have "\<not> is_blank ((SP # l) @ [NL])" by (auto simp: is_blank_def ascii_defs)
  moreover have "starts_with ((SP # l) @ [NL]) [SP]" by (simp add: starts_with_def)
  ultimately have "strip_loop False True ((SP # l) @ NL # terminated (map (\<lambda>l. SP # l) conts) @ rest) =
      strip_loop False True (terminated (map (\<lambda>l. SP # l) conts) @ rest)"
    by (simp add: strip_loop_line del: append_Cons)
  then show ?case using Cons by (simp add: terminated_def)
qed

lemma strip_loop_gpgsig:
  assumes "sig_ok first conts"
  shows "strip_loop False False (terminated (gpgsig_header first conts) @ rest) = strip_loop False True rest"
proof -
  let ?l = "gpgsig_key @ first"
  have "NL \<notin> set ?l" using assms by (simp add: sig_ok_def gpgsig_key_def ascii_defs)
  moreover have "\<not> is_blank (?l @ [NL])" by (simp add: is_blank_def gpgsig_key_def ascii_defs)
  moreover have "is_gpgsig (?l @ [NL])" by (simp add: is_gpgsig_def starts_with_def)
  ultimately have "strip_loop False False (?l @ NL # terminated (map (\<lambda>l. SP # l) conts) @ rest) =
      strip_loop False True (terminated (map (\<lambda>l. SP # l) conts) @ rest)"
    by (simp only: strip_loop_line Let_def if_False if_True simp_thms)
  then show ?thesis
    using strip_loop_continuation [of conts rest] assms
    by (simp add: terminated_def gpgsig_header_def sig_ok_def)
qed

lemma strip_loop_blank: "strip_loop False skipping (NL # body) = NL # body"
proof -
  have "next_term_line (NL # body) = Some ([NL], body)" by (simp add: next_term_line_def)
  then show ?thesis by (subst strip_loop.simps) (simp add: is_blank_def strip_loop_body)
qed

lemma strip_unsigned:
  assumes "list_all header_ok hs" and "hs \<noteq> []"
  shows "strip_gpgsig (terminated hs @ NL # body) = terminated hs @ NL # body"
  using strip_loop_headers [OF assms(1) _ assms(2), of False] by (simp add: strip_gpgsig_def strip_loop_blank)

lemma strip_signed:
  assumes "list_all header_ok hs1" "hs1 \<noteq> []" "list_all header_ok hs2" "sig_ok first conts"
    and "\<forall>h t. hs2 = h # t \<longrightarrow> \<not> starts_with h [SP]"
  shows "strip_gpgsig (terminated (hs1 @ gpgsig_header first conts @ hs2) @ NL # body) =
         terminated (hs1 @ hs2) @ NL # body"
proof -
  let ?tail = "terminated hs2 @ NL # body"
  have "strip_gpgsig (terminated (hs1 @ gpgsig_header first conts @ hs2) @ NL # body) =
      terminated hs1 @ strip_loop False False (terminated (gpgsig_header first conts) @ ?tail)"
    using strip_loop_headers [OF assms(1) _ assms(2), of False "terminated (gpgsig_header first conts) @ ?tail"]
    by (simp add: strip_gpgsig_def terminated_def)
  also have "strip_loop False False (terminated (gpgsig_header first conts) @ ?tail) = strip_loop False True ?tail"
    by (rule strip_loop_gpgsig [OF assms(4)])
  also have "\<dots> = ?tail"
    using strip_loop_headers [OF assms(3), of True "NL # body"] assms(5)
    by (cases "hs2 = []") (auto simp: strip_loop_blank terminated_def)
  finally show ?thesis by (simp add: terminated_def)
qed

section \<open>The line search\<close>

lemma find_window_Some:
  "find_window needle bs = Some n \<Longrightarrow> prefix needle (drop n bs) \<and> (\<forall>i < n. \<not> prefix needle (drop i bs))"
proof (induction bs arbitrary: n)
  case Nil
  then show ?case by simp
next
  case (Cons b bs)
  show ?case
  proof (cases "starts_with (b # bs) needle")
    case True
    with Cons.prems show ?thesis by (simp add: starts_with_iff)
  next
    case False
    with Cons.prems obtain m where m: "find_window needle bs = Some m" "n = Suc m" by auto
    have "\<not> prefix needle (drop i (b # bs))" if "i < n" for i
      using that m False Cons.IH [OF m(1)] by (cases i) (auto simp: starts_with_iff)
    with Cons.IH [OF m(1)] m show ?thesis by simp
  qed
qed

lemma find_window_None:
  "find_window needle bs = None \<Longrightarrow> needle \<noteq> [] \<Longrightarrow> \<not> prefix needle (drop i bs)"
proof (induction bs arbitrary: i)
  case Nil
  then show ?case by simp
next
  case (Cons b bs)
  then show ?case by (cases i) (auto simp: starts_with_iff split: if_splits)
qed

definition at_line_start :: "bytes \<Rightarrow> bytes \<Rightarrow> nat \<Rightarrow> bool" where
  "at_line_start hay needle p \<longleftrightarrow> prefix needle (drop p hay) \<and> (p = 0 \<or> hay ! (p - 1) = NL)"

lemma find_line_loop_spec:
  assumes "needle \<noteq> []"
  shows "case find_line_loop hay needle from of
      Some p \<Rightarrow> from \<le> p \<and> at_line_start hay needle p \<and> (\<forall>i. from \<le> i \<and> i < p \<longrightarrow> \<not> at_line_start hay needle i)
    | None \<Rightarrow> \<forall>i \<ge> from. \<not> at_line_start hay needle i"
proof (induction "length hay - from" arbitrary: "from" rule: less_induct)
  case less
  show ?case
  proof (cases "find_window needle (drop from hay)")
    case None
    have "\<not> at_line_start hay needle i" if "from \<le> i" for i
      using find_window_None [OF None assms, of "i - from"] that by (simp add: at_line_start_def)
    with None show ?thesis by (subst find_line_loop.simps) simp
  next
    case (Some rel)
    let ?p = "from + rel"
    have w: "prefix needle (drop ?p hay)" "\<forall>i < rel. \<not> prefix needle (drop (from + i) hay)"
      using find_window_Some [OF Some] by (simp_all add: add.commute)
    have before: "\<not> at_line_start hay needle i" if "from \<le> i" "i < ?p" for i
      using w(2) that by (auto simp: at_line_start_def dest: spec [of _ "i - from"])
    show ?thesis
    proof (cases "?p = 0 \<or> hay ! (?p - 1) = NL")
      case True
      with Some w before show ?thesis
        by (subst find_line_loop.simps) (auto simp: Let_def at_line_start_def)
    next
      case False
      have "?p < length hay" using find_window_less [OF Some] by simp
      then have IH: "case find_line_loop hay needle (?p + 1) of
          Some p \<Rightarrow> ?p + 1 \<le> p \<and> at_line_start hay needle p \<and>
            (\<forall>i. ?p + 1 \<le> i \<and> i < p \<longrightarrow> \<not> at_line_start hay needle i)
        | None \<Rightarrow> \<forall>i \<ge> ?p + 1. \<not> at_line_start hay needle i"
        by (intro less) simp
      have here: "\<not> at_line_start hay needle ?p" using False by (simp add: at_line_start_def)
      have all: "\<not> at_line_start hay needle i" if "from \<le> i" "i \<le> ?p" for i
        using before here that by (metis order_le_less)
      have run: "find_line_loop hay needle from = find_line_loop hay needle (?p + 1)"
        using False Some by (subst find_line_loop.simps) (auto simp: Let_def)
      have later: "\<not> at_line_start hay needle i"
        if "from \<le> i" "?p + 1 \<le> i \<longrightarrow> \<not> at_line_start hay needle i" for i
        using all that by (cases "i \<le> ?p") auto
      show ?thesis
        unfolding run using IH later by (cases "find_line_loop hay needle (?p + 1)") auto
    qed
  qed
qed

lemma find_line_start_None:
  "needle \<noteq> [] \<Longrightarrow> find_line_start hay needle = None \<longleftrightarrow> (\<forall>i. \<not> at_line_start hay needle i)"
  using find_line_loop_spec [of needle 0 hay] by (auto simp: find_line_start_def split: option.splits)

lemma find_line_start_least:
  "needle \<noteq> [] \<Longrightarrow> at_line_start hay needle p \<Longrightarrow> \<forall>i < p. \<not> at_line_start hay needle i \<Longrightarrow>
   find_line_start hay needle = Some p"
  using find_line_loop_spec [of needle 0 hay]
  by (auto simp: find_line_start_def split: option.splits) (metis linorder_neqE_nat)

lemma strip_at_marker_unique:
  assumes "m \<in> set ms" "[] \<notin> set ms" "find_line_start raw m = Some p"
    and "\<forall>m' \<in> set ms - {m}. find_line_start raw m' = None"
  shows "strip_at_marker raw ms = take p raw"
  using assms
proof (induction ms)
  case (Cons a ms)
  then show ?case by (cases "a = m") auto
qed simp

lemma MARKERS_nonempty: "[] \<notin> set MARKERS"
  by (simp add: MARKERS_def)

section \<open>Properties\<close>



text \<open>
  The signed payload of a tag: if a signature block introduced by one of the known markers is
  appended to a payload that ends in a newline, and no marker starts a line elsewhere, stripping
  it gives the payload back.
\<close>

theorem strip_tag_signature_correct:
  assumes "m \<in> set MARKERS" and "payload = [] \<or> last payload = NL"
    and "\<forall>i < length payload. \<not> at_line_start (payload @ m @ sig) m i"
    and "\<forall>m' \<in> set MARKERS - {m}. \<forall>i. \<not> at_line_start (payload @ m @ sig) m' i"
  shows "strip_tag_signature (payload @ m @ sig) = payload"
proof -
  have m: "m \<noteq> []" using assms(1) MARKERS_nonempty by metis
  have "payload = [] \<or> (payload @ m @ sig) ! (length payload - 1) = NL"
    using assms(2) by (cases payload rule: rev_cases) (auto simp: nth_append)
  then have "at_line_start (payload @ m @ sig) m (length payload)"
    by (auto simp: at_line_start_def)
  then have "find_line_start (payload @ m @ sig) m = Some (length payload)"
    using find_line_start_least [OF m] assms(3) by blast
  moreover have "\<forall>m' \<in> set MARKERS - {m}. find_line_start (payload @ m @ sig) m' = None"
    using assms(4) MARKERS_nonempty find_line_start_None by (metis Diff_iff)
  ultimately show ?thesis
    using strip_at_marker_unique [OF assms(1) MARKERS_nonempty] by (simp add: strip_tag_signature_def)
qed

theorem strip_tag_signature_correct_witness:
  "strip_tag_signature ([] @ ''-----BEGIN PGP SIGNATURE-----'' @ []) = []"
proof (rule strip_tag_signature_correct)
  show "\<forall>m' \<in> set MARKERS - {''-----BEGIN PGP SIGNATURE-----''}. \<forall>i.
      \<not> at_line_start ([] @ ''-----BEGIN PGP SIGNATURE-----'' @ []) m' i"
  proof (intro ballI allI notI)
    fix m' i assume "m' \<in> set MARKERS - {''-----BEGIN PGP SIGNATURE-----''}"
      and a: "at_line_start ([] @ ''-----BEGIN PGP SIGNATURE-----'' @ []) m' i"
    then have "find_line_start ''-----BEGIN PGP SIGNATURE-----'' m' \<noteq> None"
      using find_line_start_None [of m'] MARKERS_nonempty by auto
    moreover have "list_all (\<lambda>m'. find_line_start ''-----BEGIN PGP SIGNATURE-----'' m' = None) (tl MARKERS)"
      by code_simp
    then have "find_line_start ''-----BEGIN PGP SIGNATURE-----'' m' = None"
      using \<open>m' \<in> set MARKERS - {''-----BEGIN PGP SIGNATURE-----''}\<close>
      by (auto simp: MARKERS_def)
    ultimately show False by simp
  qed
qed (simp_all add: MARKERS_def)

end
