(* ===== verification/Backend_API.thy ===== *)
theory Backend_API
  imports Backend_Types Effects LFS_Protocol
begin

text \<open>
  The two traits the request handlers are generic in: \<open>StorageBackend\<close> (\<open>backend/mod.rs\<close>) and
  \<open>RepoAccess\<close> (\<open>traits.rs\<close>), as records of functions.  A backend is implemented in this
  repository several times; an access value is written by the application that embeds the library.

  Handlers do not propagate failures of the backend as their own: they match on the result.  So a
  call is \<open>attempt\<close>, whose value is the result, and the error type of a handler is \<open>stop\<close>: a panic
  of the task, or a call that never returns.
\<close>

section \<open>StorageBackend\<close>

record ('id, 'r, 'p, 'o, 's) backend =
  be_open :: "'id \<Rightarrow> ('s, error, 'r) act"
  be_list_refs :: "'r \<Rightarrow> ('s, error, 'o refs_snapshot) act"
  be_resolve_ref :: "'r \<Rightarrow> bytes \<Rightarrow> ('s, error, 'o option) act"
  be_update_refs :: "'r \<Rightarrow> 'o ref_update list \<Rightarrow> ('s, error, unit) act"
  be_init_repo :: "'id \<Rightarrow> ('s, error, unit) act"
  be_has_object :: "'r \<Rightarrow> 'o \<Rightarrow> ('s, error, bool) act"
  be_has_objects :: "'r \<Rightarrow> 'o list \<Rightarrow> ('s, error, bool list) act"
  be_compute_push_kind :: "'r \<Rightarrow> 'o ref_update \<Rightarrow> 's \<Rightarrow> (push_kind \<times> 's) option"
  be_build_pack :: "'r \<Rightarrow> 'o list \<Rightarrow> 'o list \<Rightarrow> pack_options \<Rightarrow> 's \<Rightarrow> ((error + 'o pack_output) \<times> 's) option"
  be_ingest_pack :: "'r \<Rightarrow> bytes \<Rightarrow> ('s, error, 'p option) act"
  be_inspect_ingested :: "'p \<Rightarrow> 's \<Rightarrow> ('o pack_metadata res \<times> 'p) \<times> 's"
  be_rollback_ingest :: "'p \<Rightarrow> 's \<Rightarrow> 's"
  be_reachable_excluding ::
    "'r \<Rightarrow> 'o list \<Rightarrow> 'o list \<Rightarrow> nat \<Rightarrow> 's \<Rightarrow> ((reachable_error + 'o list) \<times> 's) option"
  be_tree_diff :: "'r \<Rightarrow> 'o option \<Rightarrow> 'o \<Rightarrow> 's \<Rightarrow> ((error + 'o ref_diff) \<times> 's) option"
  be_read_commit_info :: "'r \<Rightarrow> 'o \<Rightarrow> ('s, error, 'o commit_info) act"
  be_read_blob :: "'r \<Rightarrow> 'o \<Rightarrow> nat \<Rightarrow> ('s, error, bytes option) act"
  be_read_object_raw :: "'r \<Rightarrow> 'o \<Rightarrow> nat \<Rightarrow> ('s, error, bytes option) act"

section \<open>RepoAccess\<close>

text \<open>
  An authoriser talks to the staged push through the methods of the \<open>Comparison\<close> trait only.  It
  is a tree of questions and answers: each node asks one method and continues with its answer.
\<close>

datatype 'o query =
    QRefs
  | QNewCommits "'o push_ref"
  | QDroppedCommits "'o push_ref"
  | QRefDiff "'o push_ref"
  | QVerify "'o commit_info"
  | QVerifyTag "'o tag_info"
  | QReadBlob 'o nat
  | QPackMetadata
  | QTags

datatype 'o answer =
    ARefs "'o push_ref list"
  | ACommits "comparison_error + 'o commit_info list"
  | ADiff "comparison_error + 'o ref_diff"
  | AStatus verification_status
  | ABlob "bytes option"
  | APack "'o pack_metadata"
  | ATags "'o tag_info list"

datatype ('o, 'a) prog = Done 'a | Ask "'o query" "'o answer \<Rightarrow> ('o, 'a) prog"

record signer =
  sg_email :: bytes
  sg_format :: signature_format
  sg_identifier :: "bytes option"

definition signer_to_key :: "signer \<Rightarrow> signer_key" where
  "signer_to_key s = \<lparr> sk_email = sg_email s, sk_format = sg_format s, sk_identifier = sg_identifier s \<rparr>"

type_synonym verification_keys = "(signer_key \<times> verification_key list) list"

record ('id, 'c, 'o) repo_access =
  acc_repo_id :: 'id
  acc_authorize_preliminary :: "'o push_ref list \<Rightarrow> bytes + 'c"
  acc_authorize_push :: "'c \<Rightarrow> ('o, bytes + unit) prog"
  acc_verification_keys :: "signer list \<Rightarrow> verification_keys"
  acc_verify_external :: "external_sig \<Rightarrow> verification_status option"
  acc_post_receive :: "('o, unit) prog"
  acc_auto_init :: bool
  acc_authorize_lfs :: "operation \<Rightarrow> bytes option \<Rightarrow> bytes + unit"

text \<open>The default methods of the trait: everything is allowed and no key is known.\<close>

definition default_access :: "'id \<Rightarrow> 'c \<Rightarrow> ('id, 'c, 'o) repo_access" where
  "default_access i c =
     \<lparr> acc_repo_id = i,
       acc_authorize_preliminary = (\<lambda>_. Inr c),
       acc_authorize_push = (\<lambda>_. Done (Inr ())),
       acc_verification_keys = (\<lambda>_. []),
       acc_verify_external = (\<lambda>_. None),
       acc_post_receive = Done (),
       acc_auto_init = False,
       acc_authorize_lfs = (\<lambda>_ _. Inr ()) \<rparr>"

section \<open>Calls from a handler\<close>

datatype stop = Panic bytes | Diverges

definition attempt :: "('s, 'e, 'a) act \<Rightarrow> ('s, stop, 'e + 'a) act" where
  "attempt m s = (case m s of (r, t) \<Rightarrow> (Inr r, t))"

definition attempt_opt :: "('s \<Rightarrow> ('a \<times> 's) option) \<Rightarrow> ('s, stop, 'a) act" where
  "attempt_opt m s = (case m s of None \<Rightarrow> (Inl Diverges, s) | Some (x, t) \<Rightarrow> (Inr x, t))"

definition modifyA :: "('s \<Rightarrow> 's) \<Rightarrow> ('s, 'e, unit) act" where
  "modifyA f s = (Inr (), f s)"

definition runA :: "('s \<Rightarrow> 'a \<times> 's) \<Rightarrow> ('s, 'e, 'a) act" where
  "runA f s = (case f s of (x, t) \<Rightarrow> (Inr x, t))"

lemma triple_attempt:
  "triple P m (\<lambda>x. Q (Inr x)) (\<lambda>e. Q (Inl e)) \<Longrightarrow> triple P (attempt m) Q E"
  unfolding triple_def attempt_def by (fastforce split: prod.splits sum.split_asm)

lemma triple_attempt_opt:
  "(\<And>s x t. P s \<Longrightarrow> m s = Some (x, t) \<Longrightarrow> Q x t) \<Longrightarrow> (\<And>s. P s \<Longrightarrow> E Diverges s) \<Longrightarrow>
   triple P (attempt_opt m) Q E"
  by (auto simp: triple_def attempt_opt_def split: prod.splits sum.splits option.splits)

lemma triple_modify: "(\<And>s. P s \<Longrightarrow> Q () (f s)) \<Longrightarrow> triple P (modifyA f) Q E"
  by (simp add: triple_def modifyA_def)

lemma triple_run: "(\<And>s x t. P s \<Longrightarrow> f s = (x, t) \<Longrightarrow> Q x t) \<Longrightarrow> triple P (runA f) Q E"
  by (auto simp: triple_def runA_def split: prod.splits)

section \<open>What a backend keeps\<close>

text \<open>
  A property of the state that every operation but \<open>update_refs\<close> keeps, whether it succeeds or
  fails.  The handlers' lemmas are proved for any such property.
\<close>

definition keeps :: "('s \<Rightarrow> bool) \<Rightarrow> ('s, 'e, 'a) act \<Rightarrow> bool" where
  "keeps P m \<longleftrightarrow> triple P m (\<lambda>_. P) (\<lambda>_. P)"

definition keeps_opt :: "('s \<Rightarrow> bool) \<Rightarrow> ('s \<Rightarrow> ('a \<times> 's) option) \<Rightarrow> bool" where
  "keeps_opt P m \<longleftrightarrow> (\<forall>s x t. P s \<longrightarrow> m s = Some (x, t) \<longrightarrow> P t)"

lemma keepsI: "(\<And>s r t. P s \<Longrightarrow> m s = (r, t) \<Longrightarrow> P t) \<Longrightarrow> keeps P m"
  unfolding keeps_def by (rule tripleI) auto

lemma keepsD: "keeps P m \<Longrightarrow> P s \<Longrightarrow> m s = (r, t) \<Longrightarrow> P t"
  unfolding keeps_def triple_def by (cases r) fastforce+

named_theorems keeps_intros

lemma keeps_simple [keeps_intros]:
  "keeps P (retA x)" "keeps P (failA e)" "keeps P (liftA r)"
  by (auto intro!: keepsI)

lemma keeps_bind [keeps_intros]: "keeps P m \<Longrightarrow> (\<And>x. keeps P (f x)) \<Longrightarrow> keeps P (bindA m f)"
  unfolding keeps_def by (rule triple_bind)

lemma keeps_ctx [keeps_intros]: "keeps P m \<Longrightarrow> keeps P (ctxA c m)"
  unfolding keeps_def by (rule triple_ctx)

lemma keeps_map_err [keeps_intros]: "keeps P m \<Longrightarrow> keeps P (map_errA g m)"
  unfolding keeps_def by (rule triple_map_err)

lemma keeps_attempt [keeps_intros]: "keeps P m \<Longrightarrow> keeps P (attempt m)"
  unfolding keeps_def by (rule triple_attempt)

lemma keeps_attempt_opt [keeps_intros]: "keeps_opt P m \<Longrightarrow> keeps P (attempt_opt m)"
  unfolding keeps_def keeps_opt_def by (rule triple_attempt_opt) auto

lemma keeps_for [keeps_intros]: "(\<And>x. keeps P (f x)) \<Longrightarrow> keeps P (forA xs f)"
  unfolding keeps_def by (rule triple_for [where I = "\<lambda>_. P"])

lemma keeps_map [keeps_intros]: "(\<And>x. keeps P (f x)) \<Longrightarrow> keeps P (mapA f xs)"
  by (induction xs) (auto intro!: keeps_intros)

lemma keeps_if [keeps_intros]: "(b \<Longrightarrow> keeps P m) \<Longrightarrow> (\<not> b \<Longrightarrow> keeps P m') \<Longrightarrow> keeps P (if b then m else m')"
  by simp

lemma keeps_sum [keeps_intros]:
  "(\<And>e. keeps P (f e)) \<Longrightarrow> (\<And>x. keeps P (g x)) \<Longrightarrow> keeps P (case r of Inl e \<Rightarrow> f e | Inr x \<Rightarrow> g x)"
  by (cases r) auto

lemma keeps_option [keeps_intros]:
  "keeps P m \<Longrightarrow> (\<And>x. keeps P (g x)) \<Longrightarrow> keeps P (case r of None \<Rightarrow> m | Some x \<Rightarrow> g x)"
  by (cases r) auto

lemma keeps_prod [keeps_intros]: "(\<And>x y. keeps P (f x y)) \<Longrightarrow> keeps P (case r of (x, y) \<Rightarrow> f x y)"
  by (cases r) auto

locale backend_keeps =
  fixes B :: "('id, 'r, 'p, 'o, 's) backend" and P :: "'s \<Rightarrow> bool"
  assumes keeps_open: "keeps P (be_open B i)"
    and keeps_init_repo: "keeps P (be_init_repo B i)"
    and keeps_list_refs: "keeps P (be_list_refs B r)"
    and keeps_resolve_ref: "keeps P (be_resolve_ref B r name)"
    and keeps_has_object: "keeps P (be_has_object B r x)"
    and keeps_has_objects: "keeps P (be_has_objects B r xs)"
    and keeps_push_kind: "keeps_opt P (be_compute_push_kind B r u)"
    and keeps_build_pack: "keeps_opt P (be_build_pack B r want have opts)"
    and keeps_ingest_pack: "keeps P (be_ingest_pack B r file)"
    and keeps_inspect: "P s \<Longrightarrow> P (snd (be_inspect_ingested B p s))"
    and keeps_rollback: "P s \<Longrightarrow> P (be_rollback_ingest B p s)"
    and keeps_reachable: "keeps_opt P (be_reachable_excluding B r from excl cap)"
    and keeps_tree_diff: "keeps_opt P (be_tree_diff B r a b)"
    and keeps_read_commit: "keeps P (be_read_commit_info B r x)"
    and keeps_read_blob: "keeps P (be_read_blob B r x n)"
    and keeps_read_raw: "keeps P (be_read_object_raw B r x n)"

end
