(* ===== verification/Comparison.thy ===== *)
theory Comparison
  imports Backend_API Signatures Commit_Graph
begin

text \<open>
  \<open>auth.rs\<close>: the lazily computed, cached view of a push that an authoriser inspects.  Every
  accessor runs on the backend state together with the caches of one \<open>ConcreteComparison\<close>.
\<close>

section \<open>State\<close>

record comparison_options =
  max_reachable_commits :: nat

definition default_options :: comparison_options where
  "default_options = \<lparr> max_reachable_commits = 50000 \<rparr>"

text \<open>The read-only part, and the caches: one cell per ref and accessor, a status per object, the keys.\<close>

record ('r, 'o) comparison =
  cx_repo :: 'r
  cx_pack :: "'o pack_metadata"
  cx_refs :: "'o push_ref list"
  cx_existing :: "'o list"
  cx_opts :: comparison_options
  cx_tags :: "'o tag_info list"

record 'o caches =
  ca_new :: "(comparison_error + 'o commit_info list) option list"
  ca_dropped :: "(comparison_error + 'o commit_info list) option list"
  ca_diffs :: "(comparison_error + 'o ref_diff) option list"
  ca_verify :: "('o \<times> verification_status) list"
  ca_keys :: "verification_keys option"

definition empty_caches :: "nat \<Rightarrow> 'o caches" where
  "empty_caches n =
     \<lparr> ca_new = replicate n None, ca_dropped = replicate n None, ca_diffs = replicate n None,
       ca_verify = [], ca_keys = None \<rparr>"

type_synonym ('o, 's, 'a) cmp_act = "('s \<times> 'o caches, stop, 'a) act"

definition on_backend :: "('s, stop, 'a) act \<Rightarrow> ('o, 's, 'a) cmp_act" where
  "on_backend m sc = (case m (fst sc) of (r, t) \<Rightarrow> (r, (t, snd sc)))"

definition on_caches :: "('o caches \<Rightarrow> 'a \<times> 'o caches) \<Rightarrow> ('o, 's, 'a) cmp_act" where
  "on_caches f sc = (case f (snd sc) of (x, c) \<Rightarrow> (Inr x, (fst sc, c)))"

section \<open>Accessors\<close>

fun position :: "('a \<Rightarrow> bool) \<Rightarrow> 'a list \<Rightarrow> nat option" where
  "position p [] = None"
| "position p (x # xs) = (if p x then Some 0 else map_option Suc (position p xs))"

definition ref_index :: "('r, 'o) comparison \<Rightarrow> 'o push_ref \<Rightarrow> ('o, 's, nat) cmp_act" where
  "ref_index X r =
     (case position (\<lambda>p. pr_refname p = pr_refname r) (cx_refs X) of
        Some i \<Rightarrow> retA i
      | None \<Rightarrow> failA (Panic (''PushRef '' @ pr_refname r @ '' not part of this Comparison'')))"

text \<open>\<open>OnceCell::get_or_init\<close> on the cell at an index of one of the three cache vectors.\<close>

definition get_or_init ::
  "('o caches \<Rightarrow> 'v option list) \<Rightarrow> (nat \<Rightarrow> 'v \<Rightarrow> 'o caches \<Rightarrow> 'o caches) \<Rightarrow> nat
     \<Rightarrow> ('s, stop, 'v) act \<Rightarrow> ('o, 's, 'v) cmp_act" where
  "get_or_init cells store i init =
     bindA (on_caches (\<lambda>c. (cells c ! i, c))) (\<lambda>cell.
       case cell of
         Some v \<Rightarrow> retA v
       | None \<Rightarrow> bindA (on_backend init) (\<lambda>v.
           bindA (on_caches (\<lambda>c. ((), store i v c))) (\<lambda>_. retA v)))"

definition set_new :: "nat \<Rightarrow> (comparison_error + 'o commit_info list) \<Rightarrow> 'o caches \<Rightarrow> 'o caches" where
  "set_new i v c = c\<lparr> ca_new := (ca_new c)[i := Some v] \<rparr>"

definition set_dropped :: "nat \<Rightarrow> (comparison_error + 'o commit_info list) \<Rightarrow> 'o caches \<Rightarrow> 'o caches" where
  "set_dropped i v c = c\<lparr> ca_dropped := (ca_dropped c)[i := Some v] \<rparr>"

definition set_diff :: "nat \<Rightarrow> (comparison_error + 'o ref_diff) \<Rightarrow> 'o caches \<Rightarrow> 'o caches" where
  "set_diff i v c = c\<lparr> ca_diffs := (ca_diffs c)[i := Some v] \<rparr>"

text \<open>The two fallible steps of an initialiser: a result as a value, its error mapped.\<close>

definition cmp_err :: "error \<Rightarrow> comparison_error" where
  "cmp_err e = CmpBackend (display_error e)"

definition reach_err :: "bytes \<Rightarrow> reachable_error \<Rightarrow> comparison_error" where
  "reach_err what e = (case e of CapExceeded l \<Rightarrow> CmpCapExceeded what l | OtherError e' \<Rightarrow> cmp_err e')"

definition map_err :: "('e \<Rightarrow> 'f) \<Rightarrow> 'e + 'a \<Rightarrow> 'f + 'a" where
  "map_err f r = (case r of Inl e \<Rightarrow> Inl (f e) | Inr x \<Rightarrow> Inr x)"

definition andThen :: "('s, stop, 'e + 'a) act \<Rightarrow> ('a \<Rightarrow> ('s, stop, 'e + 'b) act) \<Rightarrow> ('s, stop, 'e + 'b) act" where
  "andThen m f = bindA m (\<lambda>r. case r of Inl e \<Rightarrow> retA (Inl e) | Inr x \<Rightarrow> f x)"

definition read_info ::
  "('id, 'r, 'p, 'o, 's) backend \<Rightarrow> 'r \<Rightarrow> 'o \<Rightarrow> ('s, stop, comparison_error + 'o commit_info) act" where
  "read_info B r x = bindA (attempt (be_read_commit_info B r x)) (\<lambda>i. retA (map_err cmp_err i))"

fun collect_infos ::
  "('o \<Rightarrow> ('s, stop, 'e + 'i) act) \<Rightarrow> 'o list \<Rightarrow> ('s, stop, 'e + 'i list) act" where
  "collect_infos f [] = retA (Inr [])"
| "collect_infos f (x # xs) =
     andThen (f x) (\<lambda>i. andThen (collect_infos f xs) (\<lambda>is. retA (Inr (i # is))))"

definition new_excluding :: "'o oid_ops \<Rightarrow> ('r, 'o) comparison \<Rightarrow> nat \<Rightarrow> 'o list" where
  "new_excluding H X idx =
     cx_existing X @ filter (\<lambda>x. \<not> is_null H x) (map pr_new (take idx (cx_refs X)))"

definition new_commits_init ::
  "('id, 'r, 'p, 'o, 's) backend \<Rightarrow> 'o oid_ops \<Rightarrow> ('r, 'o) comparison \<Rightarrow> 'o push_ref \<Rightarrow> nat
     \<Rightarrow> ('s, stop, comparison_error + 'o commit_info list) act" where
  "new_commits_init B H X r idx =
     (if is_null H (pr_new r) then retA (Inr [])
      else
        andThen (bindA (attempt_opt (be_reachable_excluding B (cx_repo X) [pr_new r] (new_excluding H X idx)
                   (max_reachable_commits (cx_opts X)))) (\<lambda>oids. retA (map_err (reach_err ''new_commits walk'') oids)))
          (collect_infos (\<lambda>x.
             case find_commit (cx_pack X) x of
               Some c \<Rightarrow> retA (Inr c)
             | None \<Rightarrow> read_info B (cx_repo X) x)))"

definition new_commits ::
  "('id, 'r, 'p, 'o, 's) backend \<Rightarrow> 'o oid_ops \<Rightarrow> ('r, 'o) comparison \<Rightarrow> 'o push_ref
     \<Rightarrow> ('o, 's, comparison_error + 'o commit_info list) cmp_act" where
  "new_commits B H X r =
     bindA (ref_index X r) (\<lambda>idx. get_or_init ca_new set_new idx (new_commits_init B H X r idx))"

definition dropped_commits_init ::
  "('id, 'r, 'p, 'o, 's) backend \<Rightarrow> 'o oid_ops \<Rightarrow> ('r, 'o) comparison \<Rightarrow> 'o push_ref
     \<Rightarrow> ('s, stop, comparison_error + 'o commit_info list) act" where
  "dropped_commits_init B H X r =
     (if is_null H (pr_old r) then retA (Inr [])
      else
        andThen (bindA (attempt_opt (be_reachable_excluding B (cx_repo X) [pr_old r]
                   (if is_null H (pr_new r) then [] else [pr_new r])
                   (max_reachable_commits (cx_opts X)))) (\<lambda>oids. retA (map_err (reach_err ''dropped_commits walk'') oids)))
          (collect_infos (read_info B (cx_repo X))))"

definition dropped_commits ::
  "('id, 'r, 'p, 'o, 's) backend \<Rightarrow> 'o oid_ops \<Rightarrow> ('r, 'o) comparison \<Rightarrow> 'o push_ref
     \<Rightarrow> ('o, 's, comparison_error + 'o commit_info list) cmp_act" where
  "dropped_commits B H X r =
     bindA (ref_index X r) (\<lambda>idx. get_or_init ca_dropped set_dropped idx (dropped_commits_init B H X r))"

definition diff_trees ::
  "('id, 'r, 'p, 'o, 's) backend \<Rightarrow> ('r, 'o) comparison \<Rightarrow> 'o option \<Rightarrow> 'o
     \<Rightarrow> ('s, stop, comparison_error + 'o ref_diff) act" where
  "diff_trees B X a b = bindA (attempt_opt (be_tree_diff B (cx_repo X) a b)) (\<lambda>d. retA (map_err cmp_err d))"

definition new_tip_tree ::
  "('id, 'r, 'p, 'o, 's) backend \<Rightarrow> 'o oid_ops \<Rightarrow> ('r, 'o) comparison \<Rightarrow> 'o
     \<Rightarrow> ('s, stop, comparison_error + 'o) act" where
  "new_tip_tree B H X x =
     (case find_commit (cx_pack X) x of
        Some c \<Rightarrow> retA (Inr (ci_tree c))
      | None \<Rightarrow> bindA (attempt (be_read_commit_info B (cx_repo X) x)) (\<lambda>i.
          retA (case i of
                  Inr c \<Rightarrow> Inr (ci_tree c)
                | Inl _ \<Rightarrow> Inl (CmpBackend (''new tip '' @ to_hex H x @ '' not found'')))))"

definition ref_diff_init ::
  "('id, 'r, 'p, 'o, 's) backend \<Rightarrow> 'o oid_ops \<Rightarrow> 'o \<Rightarrow> ('r, 'o) comparison \<Rightarrow> 'o push_ref
     \<Rightarrow> ('s, stop, comparison_error + 'o ref_diff) act" where
  "ref_diff_init B H empty_tree X r =
     (if is_null H (pr_new r) then
        andThen (read_info B (cx_repo X) (pr_old r)) (\<lambda>old. diff_trees B X (Some (ci_tree old)) empty_tree)
      else
        andThen (new_tip_tree B H X (pr_new r)) (\<lambda>new_tree.
        andThen (if is_null H (pr_old r) then retA (Inr None)
                 else andThen (read_info B (cx_repo X) (pr_old r)) (\<lambda>old. retA (Inr (Some (ci_tree old)))))
          (\<lambda>parent_tree. diff_trees B X parent_tree new_tree)))"

definition ref_diff_of ::
  "('id, 'r, 'p, 'o, 's) backend \<Rightarrow> 'o oid_ops \<Rightarrow> 'o \<Rightarrow> ('r, 'o) comparison \<Rightarrow> 'o push_ref
     \<Rightarrow> ('o, 's, comparison_error + 'o ref_diff) cmp_act" where
  "ref_diff_of B H empty_tree X r =
     bindA (ref_index X r) (\<lambda>idx. get_or_init ca_diffs set_diff idx (ref_diff_init B H empty_tree X r))"

section \<open>Signatures\<close>

definition signers_of :: "'o pack_metadata \<Rightarrow> (bytes \<times> signature_format) list" where
  "signers_of p =
     List.map_filter (\<lambda>c. map_option (\<lambda>sig. (id_email (ci_committer c), sig_format sig)) (ci_signature c)) (pm_commits p) @
     List.map_filter (\<lambda>t. case (ti_signature t, ti_tagger t) of
         (Some sig, Some tagger) \<Rightarrow> Some (id_email tagger, sig_format sig) | _ \<Rightarrow> None) (pm_tags p)"

text \<open>The first occurrence of each pair, in order: the \<open>seen\<close> set of the source.\<close>

fun first_seen :: "'a list \<Rightarrow> 'a list \<Rightarrow> 'a list" where
  "first_seen seen [] = []"
| "first_seen seen (x # xs) = (if x \<in> set seen then first_seen seen xs else x # first_seen (x # seen) xs)"

definition signers :: "'o pack_metadata \<Rightarrow> signer list" where
  "signers p = map (\<lambda>(e, f). \<lparr> sg_email = e, sg_format = f, sg_identifier = None \<rparr>) (first_seen [] (signers_of p))"

definition cached_keys :: "('id, 'c, 'o) repo_access \<Rightarrow> ('r, 'o) comparison \<Rightarrow> 'o caches \<Rightarrow> verification_keys \<times> 'o caches" where
  "cached_keys A X c =
     (case ca_keys c of
        Some k \<Rightarrow> (k, c)
      | None \<Rightarrow> let k = acc_verification_keys A (signers (cx_pack X)) in (k, c\<lparr> ca_keys := Some k \<rparr>))"

definition run_verify ::
  "('id, 'c, 'o) repo_access \<Rightarrow> ('r, 'o) comparison \<Rightarrow> bytes \<Rightarrow> signature_format \<Rightarrow> bytes \<Rightarrow> bytes
     \<Rightarrow> 'o caches \<Rightarrow> verification_status \<times> 'o caches" where
  "run_verify A X email fmt sig payload c =
     (case cached_keys A X c of (all, c') \<Rightarrow>
        let keys = concat (map snd (filter (\<lambda>(k, _). sk_email k = email \<and> sk_format k = fmt) all));
            native = verify_native fmt sig payload keys;
            external = acc_verify_external A \<lparr> ext_format = fmt, ext_signature = sig, ext_payload = payload,
                         ext_email = email \<rparr>
        in ((case external of Some v \<Rightarrow> v | None \<Rightarrow> native), c'))"

text \<open>
  The shape \<open>verify\<close> and \<open>verify_tag\<close> share: the cached status; or, for a signed object, the verdict
  on its bytes with the signature removed; or \<open>Unsigned\<close>.  A failed read is not cached.
\<close>

definition verify_object ::
  "('id, 'c, 'o) repo_access \<Rightarrow> ('id, 'r, 'p, 'o, 's) backend \<Rightarrow> ('r, 'o) comparison \<Rightarrow> (bytes \<Rightarrow> bytes)
     \<Rightarrow> 'o \<Rightarrow> (signature_blob \<times> bytes) option \<Rightarrow> ('o, 's, verification_status) cmp_act" where
  "verify_object A B X strip x sg =
     bindA (on_caches (\<lambda>c. (map_of (ca_verify c) x, c))) (\<lambda>cached.
       case cached of
         Some v \<Rightarrow> retA v
       | None \<Rightarrow>
           (case sg of
              None \<Rightarrow> on_caches (\<lambda>c. (Unsigned, c\<lparr> ca_verify := (x, Unsigned) # ca_verify c \<rparr>))
            | Some (blob, email) \<Rightarrow>
                bindA (on_backend (attempt (be_read_object_raw B (cx_repo X) x (16 * 1024 * 1024)))) (\<lambda>raw.
                  case raw of
                    Inr (Some b) \<Rightarrow>
                      on_caches (\<lambda>c.
                        case run_verify A X email (sig_format blob) (sig_bytes blob) (strip b) c of
                          (v, c') \<Rightarrow> (v, c'\<lparr> ca_verify := (x, v) # ca_verify c' \<rparr>))
                  | _ \<Rightarrow> retA BadSignature)))"

definition verify_commit ::
  "('id, 'c, 'o) repo_access \<Rightarrow> ('id, 'r, 'p, 'o, 's) backend \<Rightarrow> ('r, 'o) comparison \<Rightarrow> 'o commit_info
     \<Rightarrow> ('o, 's, verification_status) cmp_act" where
  "verify_commit A B X c =
     verify_object A B X strip_gpgsig (ci_oid c) (map_option (\<lambda>b. (b, id_email (ci_committer c))) (ci_signature c))"

definition verify_tag ::
  "('id, 'c, 'o) repo_access \<Rightarrow> ('id, 'r, 'p, 'o, 's) backend \<Rightarrow> ('r, 'o) comparison \<Rightarrow> 'o tag_info
     \<Rightarrow> ('o, 's, verification_status) cmp_act" where
  "verify_tag A B X t =
     verify_object A B X strip_tag_signature (ti_oid t)
       (case (ti_signature t, ti_tagger t) of
          (Some blob, Some tagger) \<Rightarrow> Some (blob, id_email tagger) | _ \<Rightarrow> None)"

definition cmp_read_blob ::
  "('id, 'r, 'p, 'o, 's) backend \<Rightarrow> ('r, 'o) comparison \<Rightarrow> 'o \<Rightarrow> nat \<Rightarrow> ('o, 's, bytes option) cmp_act" where
  "cmp_read_blob B X x cap =
     bindA (on_backend (attempt (be_read_blob B (cx_repo X) x cap))) (\<lambda>r.
       retA (case r of Inr b \<Rightarrow> b | Inl _ \<Rightarrow> None))"

section \<open>Running an authoriser\<close>

definition answer_query ::
  "('id, 'c, 'o) repo_access \<Rightarrow> ('id, 'r, 'p, 'o, 's) backend \<Rightarrow> 'o oid_ops \<Rightarrow> 'o \<Rightarrow> ('r, 'o) comparison
     \<Rightarrow> 'o query \<Rightarrow> ('o, 's, 'o answer) cmp_act" where
  "answer_query A B H empty_tree X q =
     (case q of
        QRefs \<Rightarrow> retA (ARefs (cx_refs X))
      | QNewCommits r \<Rightarrow> bindA (new_commits B H X r) (\<lambda>v. retA (ACommits v))
      | QDroppedCommits r \<Rightarrow> bindA (dropped_commits B H X r) (\<lambda>v. retA (ACommits v))
      | QRefDiff r \<Rightarrow> bindA (ref_diff_of B H empty_tree X r) (\<lambda>v. retA (ADiff v))
      | QVerify c \<Rightarrow> bindA (verify_commit A B X c) (\<lambda>v. retA (AStatus v))
      | QVerifyTag t \<Rightarrow> bindA (verify_tag A B X t) (\<lambda>v. retA (AStatus v))
      | QReadBlob x cap \<Rightarrow> bindA (cmp_read_blob B X x cap) (\<lambda>v. retA (ABlob v))
      | QPackMetadata \<Rightarrow> retA (APack (cx_pack X))
      | QTags \<Rightarrow> retA (ATags (cx_tags X)))"

primrec run_prog :: "('o query \<Rightarrow> ('o, 's, 'o answer) cmp_act) \<Rightarrow> ('o, 'a) prog \<Rightarrow> ('o, 's, 'a) cmp_act" where
  "run_prog ans (Done x) = retA x"
| "run_prog ans (Ask q k) = bindA (ans q) (\<lambda>a. run_prog ans (k a))"

definition run_comparison ::
  "('id, 'c, 'o) repo_access \<Rightarrow> ('id, 'r, 'p, 'o, 's) backend \<Rightarrow> 'o oid_ops \<Rightarrow> 'o \<Rightarrow> 'r \<Rightarrow> 'o pack_metadata
     \<Rightarrow> 'o push_ref list \<Rightarrow> 'o list \<Rightarrow> comparison_options \<Rightarrow> ('o, 'a) prog \<Rightarrow> ('s, stop, 'a) act" where
  "run_comparison A B H empty_tree repo pack refs existing opts f s =
     (let X = \<lparr> cx_repo = repo, cx_pack = pack, cx_refs = refs, cx_existing = existing, cx_opts = opts,
                cx_tags = pm_tags pack \<rparr>
      in case run_prog (answer_query A B H empty_tree X) f (s, empty_caches (length refs)) of
           (r, (t, _)) \<Rightarrow> (r, t))"

section \<open>Authorisers change nothing but the caches\<close>

lemma keeps_on_backend [keeps_intros]: "keeps P m \<Longrightarrow> keeps (\<lambda>sc. P (fst sc)) (on_backend m)"
  by (rule keepsI) (auto simp: on_backend_def split: prod.splits dest: keepsD)

lemma keeps_on_caches [keeps_intros]: "keeps (\<lambda>sc. P (fst sc)) (on_caches f)"
  by (rule keepsI) (auto simp: on_caches_def split: prod.splits)

lemma keeps_andThen [keeps_intros]: "keeps P m \<Longrightarrow> (\<And>x. keeps P (f x)) \<Longrightarrow> keeps P (andThen m f)"
  unfolding andThen_def by (intro keeps_intros)

lemma keeps_collect_infos [keeps_intros]: "(\<And>x. keeps P (f x)) \<Longrightarrow> keeps P (collect_infos f xs)"
  by (induction xs) (auto intro!: keeps_intros)

lemma keeps_get_or_init [keeps_intros]:
  "keeps P init \<Longrightarrow> keeps (\<lambda>sc. P (fst sc)) (get_or_init cells store i init)"
  unfolding get_or_init_def by (intro keeps_intros)

lemma keeps_ref_index [keeps_intros]: "keeps P (ref_index X r)"
  unfolding ref_index_def by (intro keeps_intros)

lemma keeps_run_prog: "(\<And>q. keeps P (ans q)) \<Longrightarrow> keeps P (run_prog ans f)"
  by (induction f) (auto intro!: keeps_intros)

context backend_keeps
begin

lemma keeps_inits:
  "keeps P (new_commits_init B H X r idx)" "keeps P (dropped_commits_init B H X r)"
  "keeps P (ref_diff_init B H empty_tree X r)"
  unfolding new_commits_init_def dropped_commits_init_def ref_diff_init_def read_info_def diff_trees_def
    new_tip_tree_def
  by (intro keeps_intros keeps_reachable keeps_read_commit keeps_tree_diff)+

lemma keeps_verify_object: "keeps (\<lambda>sc. P (fst sc)) (verify_object A B X strip x sg)"
  unfolding verify_object_def by (intro keeps_intros keeps_read_raw)

lemma keeps_answer_query: "keeps (\<lambda>sc. P (fst sc)) (answer_query A B H empty_tree X q)"
  unfolding answer_query_def
  by (cases q) (simp_all add: new_commits_def dropped_commits_def ref_diff_of_def verify_commit_def
      verify_tag_def cmp_read_blob_def keeps_intros keeps_inits keeps_verify_object keeps_read_blob)

lemma keeps_run_comparison: "keeps P (run_comparison A B H empty_tree repo pack refs existing opts f)"
proof (rule keepsI)
  fix s r t assume "P s" "run_comparison A B H empty_tree repo pack refs existing opts f s = (r, t)"
  then show "P t"
    using keepsD [OF keeps_run_prog [OF keeps_answer_query]]
    by (fastforce simp: run_comparison_def Let_def split: prod.splits)
qed

end

section \<open>What an authoriser sees\<close>

text \<open>The laws of a backend whose commit graph is fixed while the invariant \<open>I\<close> holds.\<close>

locale graph_backend =
  fixes B :: "('id, 'r, 'p, 'o, 's) backend" and repo :: 'r and I :: "'s \<Rightarrow> bool" and Par :: "'o \<Rightarrow> 'o list"
  assumes reachable_law: "I s \<Longrightarrow> be_reachable_excluding B repo from excl cap s = Some (res, t) \<Longrightarrow>
      I t \<and> (\<forall>out. res = Inr out \<longrightarrow> distinct out \<and> set out = new_side Par from excl)"
    and commit_info_law: "I s \<Longrightarrow> be_read_commit_info B repo x s = (info, t) \<Longrightarrow>
      I t \<and> (\<forall>c. info = Inr c \<longrightarrow> ci_oid c = x)"

lemma find_commit_oid: "find_commit p x = Some c \<Longrightarrow> ci_oid c = x"
  by (auto simp: find_commit_def find_Some_iff)

lemma andThen_Inr:
  "andThen m f s = (Inr (Inr y), t) \<longleftrightarrow> (\<exists>x s'. m s = (Inr (Inr x), s') \<and> f x s' = (Inr (Inr y), t))"
proof -
  obtain r s' where "m s = (r, s')" by fastforce
  then show ?thesis by (cases r; cases "projr r") (auto simp: andThen_def bindA_def)
qed

lemma map_err_Inr [simp]: "map_err f r = Inr x \<longleftrightarrow> r = Inr x" "Inr x = map_err f r \<longleftrightarrow> r = Inr x"
  by (cases r; auto simp: map_err_def)+

lemma collect_infos_Inr:
  assumes step: "\<And>x s i t. J s \<Longrightarrow> f x s = (Inr (Inr i), t) \<Longrightarrow> J t \<and> ci_oid i = x"
    and "J s" "collect_infos f xs s = (Inr (Inr is), t)"
  shows "J t \<and> map ci_oid is = xs"
  using assms(2,3)
proof (induction xs arbitrary: s "is")
  case (Cons x xs)
  from Cons.prems(2) obtain i js s' where f: "f x s = (Inr (Inr i), s')"
    and rest: "collect_infos f xs s' = (Inr (Inr js), t)" and "is": "is = i # js"
    by (auto simp: andThen_Inr)
  from step [OF Cons.prems(1) f] Cons.IH [OF _ rest] "is" show ?case by simp
qed simp

context graph_backend
begin

lemma commit_source_law:
  assumes "I s" "(case find_commit pack x of Some c \<Rightarrow> retA (Inr c) | None \<Rightarrow> read_info B repo x) s = (Inr (Inr i), t)"
  shows "I t \<and> ci_oid i = x"
proof (cases "find_commit pack x")
  case None
  with assms obtain c where "be_read_commit_info B repo x s = (Inr c, t)" "i = c"
    by (auto simp: read_info_def bindA_Inr attempt_def split: prod.splits)
  with commit_info_law [OF assms(1)] show ?thesis by blast
next
  case (Some c)
  with assms show ?thesis by (auto simp: find_commit_oid)
qed

lemma new_commits_init_law:
  assumes X: "cx_repo X = repo" and s: "I s" and run: "new_commits_init B H X r idx s = (Inr (Inr cs), t)"
  shows "I t \<and> distinct (map ci_oid cs) \<and>
    set (map ci_oid cs) =
      (if is_null H (pr_new r) then {} else new_side Par [pr_new r] (new_excluding H X idx))"
proof (cases "is_null H (pr_new r)")
  case True
  with run s show ?thesis by (simp add: new_commits_init_def)
next
  case False
  with run X obtain oids s' where walk: "be_reachable_excluding B repo [pr_new r] (new_excluding H X idx)
      (max_reachable_commits (cx_opts X)) s = Some (Inr oids, s')"
    and infos: "collect_infos (\<lambda>x. case find_commit (cx_pack X) x of Some c \<Rightarrow> retA (Inr c)
      | None \<Rightarrow> read_info B repo x) oids s' = (Inr (Inr cs), t)"
    by (auto simp: new_commits_init_def andThen_Inr bindA_Inr attempt_opt_def split: option.splits)
  note w = reachable_law [OF s walk]
  have "I t \<and> map ci_oid cs = oids"
    by (rule collect_infos_Inr [OF commit_source_law _ infos]) (use w in auto)
  with w False show ?thesis by simp
qed

end

section \<open>The commits of all refs of a push\<close>

lemma position_Some: "position p xs = Some i \<longleftrightarrow> i < length xs \<and> p (xs ! i) \<and> (\<forall>j < i. \<not> p (xs ! j))"
proof (induction xs arbitrary: i)
  case (Cons x xs)
  show ?case
    by (cases i) (auto simp: Cons less_Suc_eq_0_disj)
qed simp

lemma ref_index_distinct:
  assumes "distinct (map pr_refname (cx_refs X))" "i < length (cx_refs X)"
  shows "ref_index X (cx_refs X ! i) sc = (Inr i, sc)"
proof -
  have "pr_refname (cx_refs X ! j) \<noteq> pr_refname (cx_refs X ! i)" if "j < i" for j
    using assms that by (auto simp: distinct_conv_nth)
  then have "position (\<lambda>p. pr_refname p = pr_refname (cx_refs X ! i)) (cx_refs X) = Some i"
    using assms(2) by (simp add: position_Some)
  then show ?thesis by (simp add: ref_index_def)
qed

definition tips :: "'o oid_ops \<Rightarrow> 'o push_ref list \<Rightarrow> 'o list" where
  "tips H refs = filter (\<lambda>x. \<not> is_null H x) (map pr_new refs)"

lemma new_side_snoc:
  "new_side Par (xs @ ys) ex = new_side Par xs ex \<union> new_side Par ys (ex @ xs)"
  "new_side Par xs ex \<inter> new_side Par ys (ex @ xs) = {}"
  "new_side Par [] ex = {}"
  by (auto simp: new_side_def)

context graph_backend
begin

lemma new_commits_all:
  assumes X: "cx_repo X = repo" "distinct (map pr_refname (cx_refs X))"
    and refs: "cx_refs X = ps @ qs"
    and cells: "length (ca_new (snd sc)) = length (cx_refs X)" "\<forall>i < length (cx_refs X). length ps \<le> i \<longrightarrow> ca_new (snd sc) ! i = None"
    and I: "I (fst sc)"
    and run: "mapA (new_commits B H X) qs sc = (Inr (map Inr css), sc')"
  shows "distinct (map ci_oid (concat css)) \<and>
    set (map ci_oid (concat css)) = new_side Par (tips H qs) (cx_existing X @ tips H ps)"
  using refs cells I run
proof (induction qs arbitrary: ps sc css)
  case Nil
  then show ?case by (simp add: tips_def new_side_def)
next
  case (Cons q qs)
  let ?n = "length ps"
  have n: "?n < length (cx_refs X)" "cx_refs X ! ?n = q" using Cons.prems(1) by auto
  from Cons.prems(5) obtain cs css' sc1 where one: "new_commits B H X q sc = (Inr (Inr cs), sc1)"
    and rest: "mapA (new_commits B H X) qs sc1 = (Inr (map Inr css'), sc')" and css: "css = cs # css'"
    by (cases css) (auto simp: bindA_Inr)
  have "get_or_init ca_new set_new ?n (new_commits_init B H X q ?n) sc = (Inr (Inr cs), sc1)"
    using one ref_index_distinct [OF X(2) n(1), of sc] n(2) by (simp add: new_commits_def bindA_def)
  then obtain t where init: "new_commits_init B H X q ?n (fst sc) = (Inr (Inr cs), t)"
    and sc1: "sc1 = (t, set_new ?n (Inr cs) (snd sc))"
    using Cons.prems(3) n by (auto simp: get_or_init_def bindA_Inr on_caches_def on_backend_def split: prod.splits)
  note law = new_commits_init_law [OF X(1) Cons.prems(4) init]
  have "new_excluding H X ?n = cx_existing X @ tips H ps"
    using Cons.prems(1) by (simp add: new_excluding_def tips_def)
  with law have cs: "distinct (map ci_oid cs)" "set (map ci_oid cs) = new_side Par (tips H [q]) (cx_existing X @ tips H ps)"
    by (auto simp: tips_def new_side_def)
  have "distinct (map ci_oid (concat css')) \<and>
      set (map ci_oid (concat css')) = new_side Par (tips H qs) (cx_existing X @ tips H (ps @ [q]))"
  proof (rule Cons.IH [OF _ _ _ _ rest])
    show "\<forall>i < length (cx_refs X). length (ps @ [q]) \<le> i \<longrightarrow> ca_new (snd sc1) ! i = None"
      using Cons.prems(2,3) by (auto simp: sc1 set_new_def nth_list_update)
  qed (use Cons.prems law in \<open>auto simp: sc1 set_new_def\<close>)
  moreover have "tips H (ps @ [q]) = tips H ps @ tips H [q]" "tips H (q # qs) = tips H [q] @ tips H qs"
    by (simp_all add: tips_def)
  ultimately show ?case
    using cs new_side_snoc(1,2) [where Par = Par and xs = "tips H [q]" and ys = "tips H qs"
        and ex = "cx_existing X @ tips H ps"] css
    by simp
qed

end

section \<open>Stable answers\<close>

text \<open>
  The caches only grow: a cell that is filled keeps its value whatever an authoriser asks.
\<close>

definition caches_grow :: "'o caches \<Rightarrow> 'o caches \<Rightarrow> bool" where
  "caches_grow c d \<longleftrightarrow>
     length (ca_new d) = length (ca_new c) \<and> length (ca_dropped d) = length (ca_dropped c) \<and>
     length (ca_diffs d) = length (ca_diffs c) \<and>
     (\<forall>i v. i < length (ca_new c) \<longrightarrow> ca_new c ! i = Some v \<longrightarrow> ca_new d ! i = Some v) \<and>
     (\<forall>i v. i < length (ca_dropped c) \<longrightarrow> ca_dropped c ! i = Some v \<longrightarrow> ca_dropped d ! i = Some v) \<and>
     (\<forall>i v. i < length (ca_diffs c) \<longrightarrow> ca_diffs c ! i = Some v \<longrightarrow> ca_diffs d ! i = Some v) \<and>
     (\<forall>x v. map_of (ca_verify c) x = Some v \<longrightarrow> map_of (ca_verify d) x = Some v) \<and>
     (\<forall>k. ca_keys c = Some k \<longrightarrow> ca_keys d = Some k)"

lemma caches_grow_refl [simp]: "caches_grow c c"
  by (simp add: caches_grow_def)

lemma caches_grow_trans: "caches_grow c d \<Longrightarrow> caches_grow d e \<Longrightarrow> caches_grow c e"
  by (simp add: caches_grow_def)

definition grows :: "('o, 's, 'a) cmp_act \<Rightarrow> bool" where
  "grows m \<longleftrightarrow> (\<forall>sc r td. m sc = (r, td) \<longrightarrow> caches_grow (snd sc) (snd td))"

lemma growsI: "(\<And>sc r td. m sc = (r, td) \<Longrightarrow> caches_grow (snd sc) (snd td)) \<Longrightarrow> grows m"
  by (simp add: grows_def)

lemma growsD: "grows m \<Longrightarrow> m sc = (r, td) \<Longrightarrow> caches_grow (snd sc) (snd td)"
  unfolding grows_def by blast

lemma grows_simple: "grows (retA x)" "grows (failA e)" "grows (on_backend m)"
  by (auto intro!: growsI simp: on_backend_def split: prod.splits)

lemma grows_bind: "grows m \<Longrightarrow> (\<And>x. grows (f x)) \<Longrightarrow> grows (bindA m f)"
proof (rule growsI)
  fix sc r td assume m: "grows m" and f: "\<And>x. grows (f x)" and run: "bindA m f sc = (r, td)"
  obtain r' sc' where m': "m sc = (r', sc')" by (metis surj_pair)
  with run growsD [OF m m'] show "caches_grow (snd sc) (snd td)"
    by (cases r') (auto simp: bindA_def dest: growsD [OF f] intro: caches_grow_trans)
qed

lemma grows_ref_index: "grows (ref_index X r)"
  unfolding ref_index_def by (cases "position (\<lambda>p. pr_refname p = pr_refname r) (cx_refs X)") (simp_all add: grows_simple)

lemma get_or_init_grows:
  assumes "\<And>c v. cells c ! i = None \<Longrightarrow> caches_grow c (store i v c)"
    and run: "get_or_init cells store i init sc = (r, td)"
  shows "caches_grow (snd sc) (snd td)"
proof (cases "cells (snd sc) ! i")
  case None
  then have empty: "cells c ! i = None" if "c = snd sc" for c using that by simp
  with run None show ?thesis
    by (auto simp: get_or_init_def bindA_def on_caches_def on_backend_def assms(1)
        split: prod.splits sum.splits)
next
  case (Some v)
  with run show ?thesis by (auto simp: get_or_init_def bindA_def on_caches_def)
qed

lemma cell_kept: "xs ! i = None \<Longrightarrow> j < length xs \<Longrightarrow> xs ! j = Some v \<Longrightarrow> xs[i := Some w] ! j = Some v"
  by (cases "i = j") auto

lemma grows_cells:
  "grows (get_or_init ca_new set_new i init)"
  "grows (get_or_init ca_dropped set_dropped i init')"
  "grows (get_or_init ca_diffs set_diff i init'')"
  by (rule growsI, erule get_or_init_grows [rotated],
      simp add: caches_grow_def set_new_def set_dropped_def set_diff_def cell_kept)+

lemma cached_keys_grow: "cached_keys A X c = (k, c') \<Longrightarrow> caches_grow c c' \<and> ca_verify c' = ca_verify c"
  by (auto simp: cached_keys_def Let_def caches_grow_def split: option.splits)

lemma run_verify_grow: "run_verify A X email fmt sig payload c = (v, c') \<Longrightarrow> caches_grow c c' \<and> ca_verify c' = ca_verify c"
  by (auto simp: run_verify_def Let_def split: prod.splits dest!: cached_keys_grow)

lemma grows_verify_object: "grows (verify_object A B X strip x sg)"
proof (rule growsI)
  fix sc r td assume run: "verify_object A B X strip x sg sc = (r, td)"
  have new: "caches_grow c (c'\<lparr> ca_verify := (x, v) # ca_verify c' \<rparr>)"
    if "caches_grow c c'" "ca_verify c' = ca_verify c" "map_of (ca_verify c) x = None" for c c' v
    using that by (auto simp: caches_grow_def)
  show "caches_grow (snd sc) (snd td)"
  proof (cases "map_of (ca_verify (snd sc)) x")
    case None
    then show ?thesis
      using run new [OF _ _ None]
      by (auto simp: verify_object_def bindA_def on_caches_def on_backend_def attempt_def
          split: prod.splits sum.splits option.splits dest!: run_verify_grow)
  next
    case (Some v)
    with run show ?thesis by (auto simp: verify_object_def bindA_def on_caches_def)
  qed
qed

lemma grows_answer_query: "grows (answer_query A B H empty_tree X q)"
  unfolding answer_query_def
  by (cases q) (simp_all add: new_commits_def dropped_commits_def ref_diff_of_def verify_commit_def
      verify_tag_def cmp_read_blob_def grows_bind grows_simple grows_ref_index grows_cells grows_verify_object)

lemma grows_run_prog: "grows (run_prog (answer_query A B H empty_tree X) f)"
proof (induction f)
  case (Done x)
  show ?case unfolding run_prog.simps by (rule grows_simple)
next
  case (Ask q k)
  then show ?case unfolding run_prog.simps by (intro grows_bind grows_answer_query) auto
qed

text \<open>A filled cell answers without a call to the backend.\<close>

lemma get_or_init_hit: "cells (snd sc) ! i = Some v \<Longrightarrow> get_or_init cells store i init sc = (Inr v, sc)"
  by (simp add: get_or_init_def bindA_def on_caches_def)

lemma get_or_init_filled:
  assumes "get_or_init cells store i init sc = (Inr v, sc1)" "cells (store i v (snd sc)) ! i = Some v"
  shows "cells (snd sc1) ! i = Some v"
  using assms
  by (cases "cells (snd sc) ! i")
     (auto simp: get_or_init_def bindA_Inr on_caches_def on_backend_def split: prod.splits)

lemma accessor_stable:
  assumes acc: "bindA (ref_index X r) (\<lambda>i. get_or_init cells store i (init i)) sc = (Inr v, sc1)"
    and fill: "\<And>i. i < length (cx_refs X) \<Longrightarrow> cells (store i v (snd sc)) ! i = Some v"
    and kept: "\<And>i. i < length (cx_refs X) \<Longrightarrow> cells (snd sc1) ! i = Some v \<Longrightarrow> cells (snd sc2) ! i = Some v"
  shows "bindA (ref_index X r) (\<lambda>i. get_or_init cells store i (init i)) sc2 = (Inr v, sc2)"
proof -
  from acc obtain i where i: "position (\<lambda>p. pr_refname p = pr_refname r) (cx_refs X) = Some i"
    and run: "get_or_init cells store i (init i) sc = (Inr v, sc1)"
    by (auto simp: bindA_Inr ref_index_def split: option.splits)
  then have "i < length (cx_refs X)" by (simp add: position_Some)
  then have "cells (snd sc2) ! i = Some v" using get_or_init_filled [OF run fill] kept by blast
  then show ?thesis by (simp add: bindA_def ref_index_def i get_or_init_hit)
qed

definition lazily_cached :: "'o query \<Rightarrow> bool" where
  "lazily_cached q =
     (case q of QNewCommits _ \<Rightarrow> True | QDroppedCommits _ \<Rightarrow> True | QRefDiff _ \<Rightarrow> True | _ \<Rightarrow> False)"

lemma answers_stable:
  assumes q: "lazily_cached q" and sc: "caches_grow (empty_caches (length (cx_refs X))) (snd sc)"
    and first: "answer_query A B H empty_tree X q sc = (Inr a, sc1)" and later: "caches_grow (snd sc1) (snd sc2)"
  shows "answer_query A B H empty_tree X q sc2 = (Inr a, sc2)"
proof -
  have len: "length (ca_new (snd sc)) = length (cx_refs X)" "length (ca_dropped (snd sc)) = length (cx_refs X)"
    "length (ca_diffs (snd sc)) = length (cx_refs X)"
    using sc by (simp_all add: caches_grow_def empty_caches_def)
  have "caches_grow (snd sc) (snd sc1)" using growsD [OF grows_answer_query first] .
  then have len1: "length (ca_new (snd sc1)) = length (cx_refs X)" "length (ca_dropped (snd sc1)) = length (cx_refs X)"
    "length (ca_diffs (snd sc1)) = length (cx_refs X)"
    using len by (simp_all add: caches_grow_def)
  show ?thesis
  proof (cases q)
    case (QNewCommits r)
    with first obtain v where v: "new_commits B H X r sc = (Inr v, sc1)" "a = ACommits v"
      by (auto simp: answer_query_def bindA_Inr)
    have "new_commits B H X r sc2 = (Inr v, sc2)"
      using v(1) later len1 unfolding new_commits_def
      by (elim accessor_stable) (auto simp: set_new_def len caches_grow_def)
    with v QNewCommits show ?thesis by (simp add: answer_query_def bindA_def)
  next
    case (QDroppedCommits r)
    with first obtain v where v: "dropped_commits B H X r sc = (Inr v, sc1)" "a = ACommits v"
      by (auto simp: answer_query_def bindA_Inr)
    have "dropped_commits B H X r sc2 = (Inr v, sc2)"
      using v(1) later len1 unfolding dropped_commits_def
      by (elim accessor_stable) (auto simp: set_dropped_def len caches_grow_def)
    with v QDroppedCommits show ?thesis by (simp add: answer_query_def bindA_def)
  next
    case (QRefDiff r)
    with first obtain v where v: "ref_diff_of B H empty_tree X r sc = (Inr v, sc1)" "a = ADiff v"
      by (auto simp: answer_query_def bindA_Inr)
    have "ref_diff_of B H empty_tree X r sc2 = (Inr v, sc2)"
      using v(1) later len1 unfolding ref_diff_of_def
      by (elim accessor_stable) (auto simp: set_diff_def len caches_grow_def)
    with v QRefDiff show ?thesis by (simp add: answer_query_def bindA_def)
  qed (use q in \<open>simp_all add: lazily_cached_def\<close>)
qed

end
