(* ===== verification/Pack_Cache.thy ===== *)
theory Pack_Cache
  imports Backend_Types KV_Keys
begin

text \<open>
  \<open>backend/pack_cache.rs\<close>: built packs kept on disk under a hash of the request.  SHA-256 is an
  argument; the directory is an association list from paths to contents, together with what
  the file system refuses.
\<close>

record cache_dir =
  cd_files :: "(bytes \<times> bytes) list"
  cd_unreadable :: "bytes list"
  cd_read_only :: bool

fun le_bytes :: "nat \<Rightarrow> nat \<Rightarrow> bytes" where
  "le_bytes k n = rev (be_bytes k n)"

definition filter_tag :: "pack_filter option \<Rightarrow> byte" where
  "filter_tag f =
     (case f of None \<Rightarrow> CHR 0x00 | Some BlobNone \<Rightarrow> CHR 0x01 | Some TreeNone \<Rightarrow> CHR 0x02)"

definition bool_byte :: "bool \<Rightarrow> byte" where
  "bool_byte b = (if b then CHR 0x01 else CHR 0x00)"

definition cache_preimage :: "'o oid_ops \<Rightarrow> repo_id \<Rightarrow> 'o list \<Rightarrow> 'o list \<Rightarrow> pack_options \<Rightarrow> bytes" where
  "cache_preimage H rid want have opts =
     le_bytes 8 (unat rid) @ concat (sort (map (as_bytes H) want)) @ [CHR 0x00] @
     concat (sort (map (as_bytes H) have)) @ [CHR 0x01] @
     le_bytes 4 (case opt_deepen opts of None \<Rightarrow> 0 | Some d \<Rightarrow> d) @
     [filter_tag (opt_filter opts), bool_byte (opt_thin_pack opts)]"

definition cache_key ::
  "(bytes \<Rightarrow> bytes) \<Rightarrow> 'o oid_ops \<Rightarrow> repo_id \<Rightarrow> 'o list \<Rightarrow> 'o list \<Rightarrow> pack_options \<Rightarrow> bytes" where
  "cache_key sha H rid want have opts = sha (cache_preimage H rid want have opts)"

definition as_filename :: "bytes \<Rightarrow> bytes" where
  "as_filename key = key @ ''.pack''"

definition cache_path :: "repo_id \<Rightarrow> bytes \<Rightarrow> bytes" where
  "cache_path rid key = show_nat (unat rid) @ ''/'' @ as_filename key"

text \<open>What reading a byte string yields to a reader with a buffer of \<open>n\<close> bytes.\<close>

function chunks :: "nat \<Rightarrow> bytes \<Rightarrow> bytes list" where
  "chunks n bs = (if n = 0 \<or> bs = [] then [] else take n bs # chunks n (drop n bs))"
  by pat_completeness auto
termination by (relation "measure (\<lambda>(n, bs). length bs)") auto

declare chunks.simps [simp del]

definition MAX_SIDEBAND :: nat where "MAX_SIDEBAND = 65516 - 16"

definition output_of :: "bytes \<Rightarrow> 'o pack_output" where
  "output_of bs = \<lparr> out_reader = map Inr (chunks MAX_SIDEBAND bs), out_shallow = [], out_progress = None \<rparr>"

definition try_hit :: "repo_id \<Rightarrow> bytes \<Rightarrow> cache_dir \<Rightarrow> 'o pack_output option" where
  "try_hit rid key d =
     (case map_of (cd_files d) (cache_path rid key) of
        None \<Rightarrow> None
      | Some bs \<Rightarrow> if cache_path rid key \<in> set (cd_unreadable d) then None else Some (output_of bs))"

definition cache_write :: "repo_id \<Rightarrow> bytes \<Rightarrow> bytes \<Rightarrow> cache_dir \<Rightarrow> cache_dir" where
  "cache_write rid key bs d =
     (if cd_read_only d then d else d\<lparr> cd_files := (cache_path rid key, bs) # cd_files d \<rparr>)"

lemma concat_chunks: "0 < n \<Longrightarrow> concat (chunks n bs) = bs"
  by (induction n bs rule: chunks.induct) (simp add: chunks.simps)

lemma chunks_size: "c \<in> set (chunks n bs) \<Longrightarrow> c \<noteq> [] \<and> length c \<le> n"
proof (induction n bs rule: chunks.induct)
  case (1 n bs)
  show ?case
  proof (cases "n = 0 \<or> bs = []")
    case True
    with 1(2) show ?thesis by (simp add: chunks.simps)
  next
    case False
    with 1(2) have "c = take n bs \<or> c \<in> set (chunks n (drop n bs))"
      by (simp add: chunks.simps [of n bs])
    with 1(1) False show ?thesis by auto
  qed
qed

end
