(* ===== verification/KV_Pack.thy ===== *)
theory KV_Pack
  imports KV_Objects Pack_Cache
begin

text \<open>
  \<open>backend/kv/build_pack.rs\<close>: the objects a fetch needs, collected from the store and handed to the
  pack writer of gix, and the diff of two trees.  gix's tree parser, pack writer, tree diff and
  hashes are the record \<open>pack_tools\<close>.  A \<open>HashSet\<close> of ids is the list of its members in the order
  they were inserted; the source iterates over it in an unspecified order, so the results below
  speak of the members only.
\<close>

section \<open>What gix provides\<close>

record 'o tree_entry =
  te_mode :: nat
  te_is_tree :: bool
  te_oid :: 'o

datatype 'o tree_change =
    Addition nat 'o bytes
  | Deletion nat 'o bytes
  | Modification nat 'o bytes

record 'o pack_tools =
  pt_tree :: "bytes \<Rightarrow> 'o tree_entry list res"
  pt_pack :: "('o \<times> bytes) list \<Rightarrow> 'o list \<Rightarrow> bytes res list"
  pt_sha1 :: "bytes \<Rightarrow> bytes"
  pt_sha256 :: "bytes \<Rightarrow> bytes"
  pt_empty_tree :: 'o
  pt_diff :: "('o \<times> bytes) list \<Rightarrow> 'o \<Rightarrow> 'o \<Rightarrow> 'o tree_change list res"

section \<open>Reading objects\<close>

definition read_object_of_kind ::
  "'s kv_api \<Rightarrow> 'o oid_ops \<Rightarrow> repo_id \<Rightarrow> 'o \<Rightarrow> byte \<Rightarrow> ('s, error, bytes option) act" where
  "read_object_of_kind K H rid x kind =
     read_txn K ''begin txn for read_object_of_kind''
       (bindA (ctxA ''get obj'' (kv_get K (obj H rid x))) (\<lambda>v.
          retA (case v of
                  Some (k # d) \<Rightarrow> if k = kind then Some d else None
                | _ \<Rightarrow> None)))"

definition kind_of_byte :: "byte \<Rightarrow> gix_kind option" where
  "kind_of_byte k =
     (if k = KIND_BLOB then Some GBlob else if k = KIND_TREE then Some GTree
      else if k = KIND_COMMIT then Some GCommit else if k = KIND_TAG then Some GTag else None)"

definition read_object_with_gix_kind ::
  "'s kv_api \<Rightarrow> 'o oid_ops \<Rightarrow> repo_id \<Rightarrow> 'o \<Rightarrow> ('s, error, (gix_kind \<times> bytes) option) act" where
  "read_object_with_gix_kind K H rid x =
     read_txn K ''begin txn for read_object_with_gix_kind''
       (bindA (ctxA ''get obj'' (kv_get K (obj H rid x))) (\<lambda>v.
          retA (case v of
                  Some (k # d) \<Rightarrow> map_option (\<lambda>g. (g, d)) (kind_of_byte k)
                | _ \<Rightarrow> None)))"

definition read_commit_tree ::
  "object_parser \<Rightarrow> 's kv_api \<Rightarrow> 'o oid_ops \<Rightarrow> repo_id \<Rightarrow> 'o \<Rightarrow> ('s, error, 'o option) act" where
  "read_commit_tree G K H rid x =
     bindA (kv_read_object_raw K H rid x u64_max) (\<lambda>raw.
       retA (case raw of
               None \<Rightarrow> None
             | Some d \<Rightarrow>
                 (case parse_commit G d of
                    Inl _ \<Rightarrow> None
                  | Inr c \<Rightarrow> (case from_hex H (cr_tree c) of Inr t \<Rightarrow> Some t | Inl _ \<Rightarrow> None))))"

section \<open>The objects of a tree\<close>

text \<open>The loop over the entries of one tree: new subtrees are pushed, everything is inserted.\<close>

fun add_entries :: "'o list \<Rightarrow> 'o list \<Rightarrow> 'o tree_entry list \<Rightarrow> 'o list \<times> 'o list" where
  "add_entries acc stack [] = (acc, stack)"
| "add_entries acc stack (e # es) =
     (if te_is_tree e \<and> te_oid e \<notin> set acc
      then add_entries (hs_insert (te_oid e) acc) (te_oid e # stack) es
      else add_entries (hs_insert (te_oid e) acc) stack es)"

partial_function (option) collect_tree_loop ::
  "'o pack_tools \<Rightarrow> 's kv_api \<Rightarrow> 'o oid_ops \<Rightarrow> repo_id \<Rightarrow> 'o list \<Rightarrow> 'o list \<Rightarrow> 's
     \<Rightarrow> ((error + 'o list) \<times> 's) option" where
  "collect_tree_loop T K H rid acc stack s =
     (case stack of
        [] \<Rightarrow> Some (Inr acc, s)
      | x # rest \<Rightarrow>
          (case read_object_of_kind K H rid x KIND_TREE s of
             (Inl e, s') \<Rightarrow> Some (Inl e, s')
           | (Inr None, s') \<Rightarrow> collect_tree_loop T K H rid acc rest s'
           | (Inr (Some d), s') \<Rightarrow>
               (case context_err (''parsing tree '' @ to_hex H x) (pt_tree T d) of
                  Inl e \<Rightarrow> Some (Inl e, s')
                | Inr es \<Rightarrow>
                    (case add_entries acc rest es of
                       (acc', stack') \<Rightarrow> collect_tree_loop T K H rid acc' stack' s'))))"

definition collect_tree_oids ::
  "'o pack_tools \<Rightarrow> 's kv_api \<Rightarrow> 'o oid_ops \<Rightarrow> repo_id \<Rightarrow> 'o \<Rightarrow> 'o list \<Rightarrow> 's
     \<Rightarrow> ((error + 'o list) \<times> 's) option" where
  "collect_tree_oids T K H rid x acc =
     (if x \<in> set acc then collect_tree_loop T K H rid acc []
      else collect_tree_loop T K H rid (hs_insert x acc) [x])"

fun collect_commit_trees ::
  "object_parser \<Rightarrow> 'o pack_tools \<Rightarrow> 's kv_api \<Rightarrow> 'o oid_ops \<Rightarrow> repo_id \<Rightarrow> 'o list \<Rightarrow> 'o list \<Rightarrow> 's
     \<Rightarrow> ((error + 'o list) \<times> 's) option" where
  "collect_commit_trees G T K H rid acc [] s = Some (Inr acc, s)"
| "collect_commit_trees G T K H rid acc (c # cs) s =
     (case read_commit_tree G K H rid c s of
        (Inl e, s') \<Rightarrow> Some (Inl e, s')
      | (Inr None, s') \<Rightarrow> collect_commit_trees G T K H rid acc cs s'
      | (Inr (Some t), s') \<Rightarrow>
          (case collect_tree_oids T K H rid t acc s' of
             None \<Rightarrow> None
           | Some (Inl e, s'') \<Rightarrow> Some (Inl e, s'')
           | Some (Inr acc', s'') \<Rightarrow> collect_commit_trees G T K H rid acc' cs s''))"

section \<open>Building a pack\<close>

definition display_reachable :: "reachable_error \<Rightarrow> bytes" where
  "display_reachable e =
     (case e of
        CapExceeded l \<Rightarrow> ''reachability walk exceeded cap of '' @ show_nat l @ '' commits''
      | OtherError e' \<Rightarrow> display_error e')"

definition kv_walk ::
  "bytes \<Rightarrow> 's kv_api \<Rightarrow> 'o oid_ops \<Rightarrow> repo_id \<Rightarrow> 'o list \<Rightarrow> 'o list \<Rightarrow> 's
     \<Rightarrow> ((error + 'o list) \<times> 's) option" where
  "kv_walk msg K H rid from excluding s =
     map_option (\<lambda>(r, t). (case r of Inl e \<Rightarrow> Inl (Bail (msg @ display_reachable e)) | Inr xs \<Rightarrow> Inr xs, t))
       (kv_reachable_excluding K H rid from excluding u64_max s)"

text \<open>Two steps in sequence, of which each may fail or not return.\<close>

definition bindO ::
  "('s \<Rightarrow> (('e + 'a) \<times> 's) option) \<Rightarrow> ('a \<Rightarrow> 's \<Rightarrow> (('e + 'b) \<times> 's) option) \<Rightarrow> 's \<Rightarrow> (('e + 'b) \<times> 's) option" where
  "bindO m f s =
     (case m s of None \<Rightarrow> None | Some (Inl e, t) \<Rightarrow> Some (Inl e, t) | Some (Inr x, t) \<Rightarrow> f x t)"

definition totalO :: "('s, 'e, 'a) act \<Rightarrow> 's \<Rightarrow> (('e + 'a) \<times> 's) option" where
  "totalO m s = Some (m s)"

text \<open>The want side and the have side of the collection; the rest of the have side is removed.\<close>

definition needed_objects ::
  "object_parser \<Rightarrow> 'o pack_tools \<Rightarrow> 's kv_api \<Rightarrow> 'o oid_ops \<Rightarrow> repo_id \<Rightarrow> 'o list \<Rightarrow> 'o list \<Rightarrow> 's
     \<Rightarrow> ((error + 'o list) \<times> 's) option" where
  "needed_objects G T K H rid want have =
     bindO (kv_walk ''reachable walk for build_pack: '' K H rid want have) (\<lambda>want_commits.
     bindO (collect_commit_trees G T K H rid (fold hs_insert (want_commits @ want) []) want_commits) (\<lambda>needed.
       if have = [] then totalO (retA needed)
       else
         bindO (kv_walk ''have-side walk: '' K H rid have []) (\<lambda>have_commits.
         bindO (collect_commit_trees G T K H rid (fold hs_insert have_commits []) have_commits) (\<lambda>have_set.
           totalO (retA (filter (\<lambda>x. x \<notin> set have_set) needed))))))"

definition kind_name :: "gix_kind \<Rightarrow> bytes" where
  "kind_name k = (case k of GBlob \<Rightarrow> ''blob'' | GTree \<Rightarrow> ''tree'' | GCommit \<Rightarrow> ''commit'' | GTag \<Rightarrow> ''tag'')"

definition loose_object :: "gix_kind \<Rightarrow> bytes \<Rightarrow> bytes" where
  "loose_object k data = kind_name k @ '' '' @ show_nat (length data) @ [NUL] @ data"

definition assemble_pack :: "'o pack_tools \<Rightarrow> ('o \<times> gix_kind \<times> bytes) list \<Rightarrow> bytes res" where
  "assemble_pack T fetched =
     (let loose = foldl (\<lambda>files (x, k, d). if x \<in> fst ` set files then files else (x, loose_object k d) # files)
                    [] fetched
      in bindR (mapR id (pt_pack T loose (map fst fetched))) (\<lambda>cs. Inr (concat cs)))"

definition build_empty_pack :: "'o pack_tools \<Rightarrow> bytes" where
  "build_empty_pack T =
     (let buf = ''PACK'' @ be_bytes 4 2 @ be_bytes 4 0 in buf @ pt_sha1 T buf)"

definition on_store ::
  "('s \<Rightarrow> (('e + 'a) \<times> 's) option) \<Rightarrow> 's \<times> 'd \<Rightarrow> (('e + 'a) \<times> 's \<times> 'd) option" where
  "on_store m sd = map_option (\<lambda>(r, t). (r, (t, snd sd))) (m (fst sd))"

definition fetch_objects ::
  "'s kv_api \<Rightarrow> 'o oid_ops \<Rightarrow> repo_id \<Rightarrow> 'o list \<Rightarrow> ('s, error, ('o \<times> gix_kind \<times> bytes) list) act" where
  "fetch_objects K H rid xs =
     bindA (mapA (\<lambda>x. bindA (read_object_with_gix_kind K H rid x) (\<lambda>r. retA (map_option (\<lambda>(k, d). (x, k, d)) r))) xs)
       (\<lambda>rs. retA (List.map_filter id rs))"

definition kv_build_pack ::
  "object_parser \<Rightarrow> 'o pack_tools \<Rightarrow> 's kv_api \<Rightarrow> 'o oid_ops \<Rightarrow> repo_id \<Rightarrow> 'o list \<Rightarrow> 'o list \<Rightarrow> pack_options
     \<Rightarrow> 's \<times> cache_dir \<Rightarrow> ((error + 'o pack_output) \<times> 's \<times> cache_dir) option" where
  "kv_build_pack G T K H rid want have opts sd =
     (let key = cache_key (pt_sha256 T) H rid want have opts in
      case try_hit rid key (snd sd) of
        Some out \<Rightarrow> Some (Inr out, sd)
      | None \<Rightarrow>
          bindO (on_store (needed_objects G T K H rid want have)) (\<lambda>needed.
            if needed = [] then
              (\<lambda>sd. Some (Inr (output_of (build_empty_pack T)),
                          (fst sd, cache_write rid key (build_empty_pack T) (snd sd))))
            else
              bindO (on_store (totalO (fetch_objects K H rid needed))) (\<lambda>fetched sd.
                case assemble_pack T fetched of
                  Inl e \<Rightarrow> Some (Inl e, sd)
                | Inr pack \<Rightarrow> Some (Inr (output_of pack), (fst sd, cache_write rid key pack (snd sd))))) sd)"

section \<open>Tree diff\<close>

text \<open>
  The recursion of \<open>fetch_trees_recursive\<close>, depth first, with the trees still to be visited as a
  list in the order the recursion reaches them.
\<close>

partial_function (option) fetch_trees_loop ::
  "'o pack_tools \<Rightarrow> 's kv_api \<Rightarrow> 'o oid_ops \<Rightarrow> repo_id \<Rightarrow> ('o \<times> bytes) list \<Rightarrow> 'o list \<Rightarrow> 's
     \<Rightarrow> ((error + ('o \<times> bytes) list) \<times> 's) option" where
  "fetch_trees_loop T K H rid store todo s =
     (case todo of
        [] \<Rightarrow> Some (Inr store, s)
      | x # rest \<Rightarrow>
          if x = pt_empty_tree T then fetch_trees_loop T K H rid ((x, []) # store) rest s
          else if x \<in> fst ` set store then fetch_trees_loop T K H rid store rest s
          else
            (case read_object_of_kind K H rid x KIND_TREE s of
               (Inl e, s') \<Rightarrow> Some (Inl e, s')
             | (Inr None, s') \<Rightarrow> Some (Inl (Bail (''tree '' @ to_hex H x @ '' not found'')), s')
             | (Inr (Some d), s') \<Rightarrow>
                 (case context_err (''parsing tree '' @ to_hex H x) (pt_tree T d) of
                    Inl e \<Rightarrow> Some (Inl e, s')
                  | Inr es \<Rightarrow>
                      fetch_trees_loop T K H rid ((x, d) # store)
                        (map te_oid (filter te_is_tree es) @ rest) s')))"

definition diff_entry :: "'o tree_change \<Rightarrow> 'o ref_diff_entry" where
  "diff_entry c =
     (case c of
        Addition m x p \<Rightarrow> \<lparr> de_path = p, de_change = Added, de_mode = m, de_oid = x \<rparr>
      | Deletion m x p \<Rightarrow> \<lparr> de_path = p, de_change = Removed, de_mode = m, de_oid = x \<rparr>
      | Modification m x p \<Rightarrow> \<lparr> de_path = p, de_change = Modified, de_mode = m, de_oid = x \<rparr>)"

definition kv_tree_diff ::
  "'o pack_tools \<Rightarrow> 's kv_api \<Rightarrow> 'o oid_ops \<Rightarrow> repo_id \<Rightarrow> 'o option \<Rightarrow> 'o \<Rightarrow> 's
     \<Rightarrow> ((error + 'o ref_diff) \<times> 's) option" where
  "kv_tree_diff T K H rid parent_tree child_tree =
     (let lhs = (case parent_tree of None \<Rightarrow> pt_empty_tree T | Some t \<Rightarrow> t); rhs = child_tree in
      bindO (fetch_trees_loop T K H rid [] [lhs]) (\<lambda>store.
      bindO (fetch_trees_loop T K H rid store [rhs]) (\<lambda>store.
        totalO (liftA (
          if map_of store lhs = None then Inl (Ctx (''reading parent tree '' @ to_hex H lhs) (Ext ''not found''))
          else if map_of store rhs = None then Inl (Ctx (''reading child tree '' @ to_hex H rhs) (Ext ''not found''))
          else bindR (context_err ''running tree diff'' (pt_diff T store lhs rhs)) (\<lambda>cs.
                 Inr (map diff_entry cs)))))))"

end
