(* ===== verification/KV_Backend.thy ===== *)
theory KV_Backend
  imports KV_Pack Backend_API
begin

text \<open>
  The key-value backend as an implementation of the \<open>StorageBackend\<close> trait (\<open>backend/kv/mod.rs\<close>).
  Its state is the client's together with the pack cache on disk.  The handle of a repository is
  its id; the handle of an ingested pack holds the metadata until it is inspected.
\<close>

record 'o kv_ingested =
  ki_metadata :: "'o pack_metadata option"
  ki_oids :: "'o list"
  ki_repo :: repo_id

definition kv_act :: "('s, 'e, 'a) act \<Rightarrow> ('s \<times> cache_dir, 'e, 'a) act" where
  "kv_act m sd = (case m (fst sd) of (r, t) \<Rightarrow> (r, (t, snd sd)))"

definition kv_opt :: "('s \<Rightarrow> ('a \<times> 's) option) \<Rightarrow> 's \<times> cache_dir \<Rightarrow> ('a \<times> 's \<times> cache_dir) option" where
  "kv_opt m sd = map_option (\<lambda>(x, t). (x, (t, snd sd))) (m (fst sd))"

definition kv_inspect_ingested :: "'o kv_ingested \<Rightarrow> 's \<Rightarrow> ('o pack_metadata res \<times> 'o kv_ingested) \<times> 's" where
  "kv_inspect_ingested p s =
     ((case ki_metadata p of
         Some m \<Rightarrow> (Inr m, p\<lparr> ki_metadata := None \<rparr>)
       | None \<Rightarrow> (Inl (Bail ''inspect_ingested called more than once''), p)), s)"

definition kv_ingest ::
  "object_parser \<Rightarrow> (bytes \<Rightarrow> 'o pack_bundle res) \<Rightarrow> 's kv_api \<Rightarrow> 'o oid_ops \<Rightarrow> repo_id \<Rightarrow> bytes
     \<Rightarrow> ('s, error, 'o kv_ingested option) act" where
  "kv_ingest G bundle_of K H rid file =
     bindA (kv_ingest_pack G K H rid (Inr file) (bundle_of file)) (\<lambda>r.
       retA (map_option (\<lambda>(meta, oids). \<lparr> ki_metadata = Some meta, ki_oids = oids, ki_repo = rid \<rparr>) r))"

definition kv_backend ::
  "object_parser \<Rightarrow> (bytes \<Rightarrow> 'o pack_bundle res) \<Rightarrow> 'o pack_tools \<Rightarrow> 's kv_api \<Rightarrow> 'o oid_ops
     \<Rightarrow> (bytes, repo_id, 'o kv_ingested, 'o, 's \<times> cache_dir) backend" where
  "kv_backend G bundle_of T K H =
     \<lparr> be_open = (\<lambda>path. kv_act (kv_open_inner K path)),
       be_list_refs = (\<lambda>rid. kv_act (kv_list_refs K H rid)),
       be_resolve_ref = (\<lambda>rid name. kv_act (kv_resolve_ref K H rid name)),
       be_update_refs = (\<lambda>rid us. kv_act (kv_update_refs K H rid us)),
       be_init_repo = (\<lambda>path. kv_act (bindA (kv_init_repo_inner K path) (\<lambda>_. retA ()))),
       be_has_object = (\<lambda>rid x. kv_act (kv_has_object K H rid x)),
       be_has_objects = (\<lambda>rid xs. kv_act (kv_has_objects K H rid xs)),
       be_compute_push_kind = (\<lambda>rid u. kv_opt (kv_compute_push_kind K H rid (old_oid u) (new_oid u))),
       be_build_pack = (\<lambda>rid. kv_build_pack G T K H rid),
       be_ingest_pack = (\<lambda>rid file. kv_act (kv_ingest G bundle_of K H rid file)),
       be_inspect_ingested = kv_inspect_ingested,
       be_rollback_ingest = (\<lambda>_ s. s),
       be_reachable_excluding = (\<lambda>rid from excl cap. kv_opt (kv_reachable_excluding K H rid from excl cap)),
       be_tree_diff = (\<lambda>rid a b. kv_opt (kv_tree_diff T K H rid a b)),
       be_read_commit_info = (\<lambda>rid x. kv_act (kv_read_commit_info G K H rid x)),
       be_read_blob = (\<lambda>rid x cap. kv_act (kv_read_blob K H rid x cap)),
       be_read_object_raw = (\<lambda>rid x cap. kv_act (kv_read_object_raw K H rid x cap)) \<rparr>"

section \<open>Walks keep what their fetch keeps\<close>

lemma keeps_optI: "(\<And>s x t. P s \<Longrightarrow> m s = Some (x, t) \<Longrightarrow> P t) \<Longrightarrow> keeps_opt P m"
  by (auto simp: keeps_opt_def)

lemma keeps_optD: "keeps_opt P m \<Longrightarrow> P s \<Longrightarrow> m s = Some (x, t) \<Longrightarrow> P t"
  by (auto simp: keeps_opt_def)

lemma keeps_ancestor_loop:
  assumes "\<And>c. keeps P (fetch c)"
  shows "keeps_opt P (ancestor_loop fetch a vis frontier)"
proof (rule keeps_optI)
  fix s x t assume "P s" and run: "ancestor_loop fetch a vis frontier s = Some (x, t)"
  from run assms \<open>P s\<close> show "P t"
  proof (induction fetch a vis frontier s "(x, t)" arbitrary: x t rule: ancestor_loop.raw_induct [rotated, consumes 1, case_names step])
    case (step loop fetch a vis frontier s)
    show ?case
    proof (cases frontier)
      case (Cons c rest)
      obtain r s' where r: "fetch c s = (r, s')" by fastforce
      then have "P s'" using keepsD [OF step(3,4)] by blast
      with step Cons r show ?thesis by (auto split: sum.splits option.splits prod.splits)
    qed (use step in simp)
  qed
qed

lemma keeps_collect_loop:
  assumes "\<And>c. keeps P (fetch c)"
  shows "keeps_opt P (collect_loop fetch cap acc frontier)"
proof (rule keeps_optI)
  fix s x t assume "P s" and run: "collect_loop fetch cap acc frontier s = Some (x, t)"
  from run assms \<open>P s\<close> show "P t"
  proof (induction fetch cap acc frontier s "(x, t)" arbitrary: x t rule: collect_loop.raw_induct [rotated, consumes 1, case_names step])
    case (step loop fetch cap acc frontier s)
    show ?case
    proof (cases frontier)
      case (Cons c rest)
      obtain r s' where r: "fetch c s = (r, s')" by fastforce
      then have "P s'" using keepsD [OF step(3,4)] by blast
      with step Cons r show ?thesis by (auto split: sum.splits option.splits prod.splits if_splits)
    qed (use step in simp)
  qed
qed

lemma keeps_reach_loop:
  assumes "\<And>c. keeps P (fetch c)"
  shows "keeps_opt P (reach_loop fetch excl cap vis q res)"
proof (rule keeps_optI)
  fix s x t assume "P s" and run: "reach_loop fetch excl cap vis q res s = Some (x, t)"
  from run assms \<open>P s\<close> show "P t"
  proof (induction fetch excl cap vis q res s "(x, t)" arbitrary: x t rule: reach_loop.raw_induct [rotated, consumes 1, case_names step])
    case (step loop fetch excl cap vis q res s)
    show ?case
    proof (cases q)
      case (Cons c rest)
      obtain r s' where r: "fetch c s = (r, s')" by fastforce
      then have "P s'" using keepsD [OF step(3,4)] by blast
      with step Cons r show ?thesis by (auto split: sum.splits option.splits prod.splits if_splits)
    qed (use step in simp)
  qed
qed

lemma keeps_collect_all:
  assumes "\<And>acc c. keeps_opt P (collect acc c)"
  shows "keeps_opt P (collect_all collect acc xs)"
proof (rule keeps_optI)
  fix s x t assume "P s" "collect_all collect acc xs s = Some (x, t)"
  then show "P t"
  proof (induction xs arbitrary: acc s)
    case (Cons c xs)
    from Cons.prems obtain r s' where r: "collect acc c s = Some (r, s')"
      by (auto split: option.splits)
    then have "P s'" using keeps_optD [OF assms] Cons.prems(1) by blast
    with Cons r show ?case by (cases r) auto
  qed simp
qed

lemma keeps_walks:
  assumes f: "\<And>c. keeps P (fetch c)"
  shows "keeps_opt P (compute_push_kind H fetch old new)"
    and "keeps_opt P (collect_ancestors fetch cap acc y)"
    and "\<And>collect. (\<And>acc c. keeps_opt P (collect acc c)) \<Longrightarrow>
      keeps_opt P (reachable_excluding fetch collect from excluding cap)"
proof -
  show "keeps_opt P (compute_push_kind H fetch old new)"
    using keeps_optD [OF keeps_ancestor_loop [OF f]]
    by (auto intro!: keeps_optI simp: compute_push_kind_def is_ancestor_def split: if_splits)
  show "keeps_opt P (collect_ancestors fetch cap acc y)"
    using keeps_optD [OF keeps_collect_loop [OF f]]
    by (auto intro!: keeps_optI simp: collect_ancestors_def split: if_splits)
  show "keeps_opt P (reachable_excluding fetch collect from excluding cap)"
    if c: "\<And>acc c. keeps_opt P (collect acc c)" for collect
  proof (rule keeps_optI)
    fix s x t assume "P s" and run: "reachable_excluding fetch collect from excluding cap s = Some (x, t)"
    show "P t"
    proof (cases "from = []")
      case False
      with run obtain r s' where r: "collect_all collect {} excluding s = Some (r, s')"
        by (auto simp: reachable_excluding_def split: option.splits)
      then have "P s'" by (rule keeps_optD [OF keeps_collect_all [where collect = collect, OF c] \<open>P s\<close>])
      with run r False show ?thesis
        by (cases r) (auto simp: reachable_excluding_def split: prod.splits
            dest: keeps_optD [OF keeps_reach_loop [OF f]])
    qed (use run \<open>P s\<close> in \<open>simp add: reachable_excluding_def\<close>)
  qed
qed

lemma keeps_bindO: "keeps_opt P m \<Longrightarrow> (\<And>x. keeps_opt P (f x)) \<Longrightarrow> keeps_opt P (bindO m f)"
proof (rule keeps_optI)
  fix s x t assume m: "keeps_opt P m" and f: "\<And>x. keeps_opt P (f x)" and "P s" "bindO m f s = Some (x, t)"
  then obtain r s' where r: "m s = Some (r, s')" by (auto simp: bindO_def split: option.splits)
  have "P s'" by (rule keeps_optD [OF m \<open>P s\<close> r])
  with r \<open>bindO m f s = Some (x, t)\<close> show "P t"
    by (cases r) (auto simp: bindO_def intro: keeps_optD [OF f])
qed

lemma keeps_opt_if: "keeps_opt P m \<Longrightarrow> keeps_opt P m' \<Longrightarrow> keeps_opt P (if b then m else m')"
  by simp

lemma keeps_totalO: "keeps P m \<Longrightarrow> keeps_opt P (totalO m)"
  by (auto simp: keeps_opt_def totalO_def dest: keepsD)

lemma keeps_collect_tree_loop:
  assumes "\<And>x. keeps P (read_object_of_kind K H rid x KIND_TREE)"
  shows "keeps_opt P (collect_tree_loop T K H rid acc stack)"
proof (rule keeps_optI)
  fix s x t assume "P s" and run: "collect_tree_loop T K H rid acc stack s = Some (x, t)"
  from run assms \<open>P s\<close> show "P t"
  proof (induction T K H rid acc stack s "(x, t)" arbitrary: x t
      rule: collect_tree_loop.raw_induct [rotated, consumes 1, case_names step])
    case (step loop T K H rid acc stack s)
    show ?case
    proof (cases stack)
      case (Cons c rest)
      obtain r s' where r: "read_object_of_kind K H rid c KIND_TREE s = (r, s')" by fastforce
      then have "P s'" using keepsD [OF step(3,4)] by blast
      with step Cons r show ?thesis by (auto split: sum.splits option.splits prod.splits)
    qed (use step in simp)
  qed
qed

lemma keeps_fetch_trees_loop:
  assumes "\<And>x. keeps P (read_object_of_kind K H rid x KIND_TREE)"
  shows "keeps_opt P (fetch_trees_loop T K H rid st todo)"
proof (rule keeps_optI)
  fix s x t assume "P s" and run: "fetch_trees_loop T K H rid st todo s = Some (x, t)"
  from run assms \<open>P s\<close> show "P t"
  proof (induction T K H rid st todo s "(x, t)" arbitrary: x t
      rule: fetch_trees_loop.raw_induct [rotated, consumes 1, case_names step])
    case (step loop T K H rid st todo s)
    show ?case
    proof (cases todo)
      case (Cons c rest)
      obtain r s' where r: "read_object_of_kind K H rid c KIND_TREE s = (r, s')" by fastforce
      then have "P s'" using keepsD [OF step(3,4)] by blast
      with step Cons r show ?thesis by (auto split: sum.splits option.splits prod.splits if_splits)
    qed (use step in simp)
  qed
qed

lemma keeps_collect_commit_trees:
  assumes "\<And>x. keeps P (read_object_of_kind K H rid x KIND_TREE)" "\<And>x. keeps P (read_commit_tree G K H rid x)"
  shows "keeps_opt P (collect_commit_trees G T K H rid acc cs)"
proof (rule keeps_optI)
  fix s x t assume "P s" "collect_commit_trees G T K H rid acc cs s = Some (x, t)"
  then show "P t"
  proof (induction cs arbitrary: acc s)
    case (Cons c cs)
    obtain r s' where r: "read_commit_tree G K H rid c s = (r, s')" by fastforce
    then have s': "P s'" using keepsD [OF assms(2) Cons.prems(1)] by blast
    have tree: "P s''" if "collect_tree_oids T K H rid y acc s' = Some (z, s'')" for y z s''
      using that s' keeps_optD [OF keeps_collect_tree_loop [OF assms(1)] s']
      by (auto simp: collect_tree_oids_def split: if_splits)
    show ?case
    proof (cases r)
      case (Inr v)
      then show ?thesis
        using Cons.IH [OF s'] Cons.IH [OF tree] Cons.prems(2) tree r
        by (auto split: option.splits sum.splits prod.splits)
    qed (use Cons.prems r s' in simp)
  qed simp
qed

lemma triple_option:
  "triple P m Q E \<Longrightarrow> (\<And>x. triple P (f x) Q E) \<Longrightarrow> triple P (case v of None \<Rightarrow> m | Some x \<Rightarrow> f x) Q E"
  by (cases v) auto

section \<open>The pack cache beside the store\<close>

lemma keeps_kv_act: "keeps P m \<Longrightarrow> keeps (\<lambda>sd. P (fst sd)) (kv_act m)"
  by (rule keepsI) (auto simp: kv_act_def split: prod.splits dest: keepsD)

lemma keeps_kv_opt: "keeps_opt P m \<Longrightarrow> keeps_opt (\<lambda>sd. P (fst sd)) (kv_opt m)"
  by (rule keeps_optI) (auto simp: kv_opt_def dest: keeps_optD)

lemma keeps_on_store: "keeps_opt P m \<Longrightarrow> keeps_opt (\<lambda>sd. P (fst sd)) (on_store m)"
  by (rule keeps_optI) (auto simp: on_store_def dest: keeps_optD)

text \<open>The shape of \<open>build_pack\<close>: the cache, the objects needed, their contents, the pack, the cache again.\<close>

lemma keeps_cached_build:
  fixes hit :: "cache_dir \<Rightarrow> 'x pack_output option" and mk :: "bytes \<Rightarrow> 'x pack_output"
  assumes needed: "keeps_opt P needed" and "fetch": "\<And>xs. keeps P (fetch xs)"
  shows "keeps_opt (\<lambda>sd. P (fst sd)) (\<lambda>sd. case hit (snd sd) of
      Some out \<Rightarrow> Some (Inr out, sd)
    | None \<Rightarrow>
        bindO (on_store needed) (\<lambda>xs.
          if xs = [] then (\<lambda>sd. Some (Inr (mk none), (fst sd, put none (snd sd))))
          else bindO (on_store (totalO (fetch xs))) (\<lambda>fetched sd.
            case assemble fetched of
              Inl e \<Rightarrow> Some (Inl e, sd)
            | Inr pack \<Rightarrow> Some (Inr (mk pack), (fst sd, put pack (snd sd))))) sd)"
proof -
  let ?P = "\<lambda>sd. P (fst sd)"
  have empty: "keeps_opt ?P (\<lambda>sd. Some (Inr (mk none), (fst sd, put none (snd sd))))"
    by (rule keeps_optI) auto
  have pack: "keeps_opt ?P (\<lambda>sd. case assemble fetched of
      Inl e \<Rightarrow> Some (Inl e, sd) | Inr pack \<Rightarrow> Some (Inr (mk pack), (fst sd, put pack (snd sd))))" for fetched
    by (rule keeps_optI) (auto split: sum.splits)
  have build: "keeps_opt ?P (bindO (on_store needed) (\<lambda>xs.
      if xs = [] then (\<lambda>sd. Some (Inr (mk none), (fst sd, put none (snd sd))))
      else bindO (on_store (totalO (fetch xs))) (\<lambda>fetched sd.
        case assemble fetched of
          Inl e \<Rightarrow> Some (Inl e, sd)
        | Inr pack \<Rightarrow> Some (Inr (mk pack), (fst sd, put pack (snd sd))))))"
    by (intro keeps_bindO keeps_opt_if keeps_on_store needed keeps_totalO "fetch" pack empty)
  show ?thesis
  proof (rule keeps_optI)
    fix sd x td assume sd: "?P sd" and run: "(case hit (snd sd) of
      Some out \<Rightarrow> Some (Inr out, sd)
    | None \<Rightarrow>
        bindO (on_store needed) (\<lambda>xs.
          if xs = [] then (\<lambda>sd. Some (Inr (mk none), (fst sd, put none (snd sd))))
          else bindO (on_store (totalO (fetch xs))) (\<lambda>fetched sd.
            case assemble fetched of
              Inl e \<Rightarrow> Some (Inl e, sd)
            | Inr pack \<Rightarrow> Some (Inr (mk pack), (fst sd, put pack (snd sd))))) sd) = Some (x, td)"
    then show "?P td" by (cases "hit (snd sd)") (use keeps_optD [OF build sd] in auto)
  qed
qed

section \<open>Only update\_refs writes refs\<close>

text \<open>The commits of this process that touch a ref key, in order.\<close>

definition ref_writing :: "kv_writes \<Rightarrow> bool" where
  "ref_writing w \<longleftrightarrow> (\<exists>rid name. refkey rid name \<in> dom w)"

definition ref_log :: "(kv_store \<times> kv_writes) list \<Rightarrow> (kv_store \<times> kv_writes) list" where
  "ref_log cs = filter (\<lambda>c. ref_writing (snd c)) cs"

lemma ref_log_append [simp]:
  "ref_log (cs @ [(\<sigma>, w)]) = (if ref_writing w then ref_log cs @ [(\<sigma>, w)] else ref_log cs)"
  by (simp add: ref_log_def)

lemma ref_writing_simps [simp]:
  "\<not> ref_writing Map.empty"
  "ref_writing (w(k \<mapsto> v)) \<longleftrightarrow> (\<exists>rid name. k = refkey rid name) \<or> ref_writing w"
  unfolding ref_writing_def by (simp_all del: refkey_inj) blast

lemma pack_writes_no_refs: "\<not> ref_writing (map_of (pack_writes H rid es))"
proof -
  have "refkey r n \<notin> fst ` set (pack_writes H rid es)" for r n
    by (auto simp: pack_writes_def object_writes_def key_tags_distinct)
  then show ?thesis unfolding ref_writing_def dom_map_of_conv_image_fst by blast
qed

context kv_client
begin

abbreviation log_is :: "(kv_store \<times> kv_writes) list \<Rightarrow> 's \<Rightarrow> bool" where
  "log_is L s \<equiv> ref_log (commits s) = L"

lemma keeps_reading [keeps_intros]:
  "keeps (reading cs \<sigma>) (kv_get K k)" "keeps (reading cs \<sigma>) (kv_scan K lo hi limit)"
  "keeps (reading cs \<sigma>) (key_exists K k)" "keeps (reading cs \<sigma>) (batch_get K ks)"
  unfolding keeps_def
  by (rule triple_weaken [OF triple_get] triple_weaken [OF triple_scan]
      triple_weaken [OF triple_key_exists] triple_weaken [OF triple_batch_get]; simp)+

lemma keeps_read_txn:
  assumes "\<And>cs \<sigma>. keeps (reading cs \<sigma>) body"
  shows "keeps (log_is L) (read_txn K msg body)"
proof (rule keepsI)
  fix s r t assume s: "log_is L s" and run: "read_txn K msg body s = (r, t)"
  have "triple (reading cs \<sigma>) body (\<lambda>v s. True \<and> reading cs \<sigma> s) (\<lambda>_. reading cs \<sigma>)" for cs \<sigma>
    using assms by (simp add: keeps_def)
  from read_txn_commits [OF this run] s show "log_is L t" by auto
qed

lemma keeps_kv_reads:
  "keeps (log_is L) (kv_open_inner K path)"
  "keeps (log_is L) (kv_list_refs K H rid)"
  "keeps (log_is L) (kv_resolve_ref K H rid name)"
  "keeps (log_is L) (kv_has_object K H rid x)"
  "keeps (log_is L) (kv_has_objects K H rid xs)"
  "keeps (log_is L) (read_object_with_kind K H rid x n)"
  "keeps (log_is L) (kv_fetch_parents K H rid x)"
  "keeps (log_is L) (read_object_of_kind K H rid x kind)"
  "keeps (log_is L) (read_object_with_gix_kind K H rid x)"
  unfolding kv_open_inner_def kv_list_refs_def kv_list_refs_body_def kv_resolve_ref_def kv_has_object_def
    kv_has_objects_def read_object_with_kind_def kv_fetch_parents_def read_object_of_kind_def
    read_object_with_gix_kind_def Let_def
  by (intro keeps_read_txn keeps_intros)+

lemma keeps_kv_objects:
  "keeps (log_is L) (kv_read_object_raw K H rid x n)"
  "keeps (log_is L) (kv_read_blob K H rid x n)"
  "keeps (log_is L) (kv_read_commit_info G K H rid x)"
  "keeps (log_is L) (read_commit_tree G K H rid x)"
  "keeps (log_is L) (fetch_objects K H rid xs)"
  unfolding kv_read_object_raw_def kv_read_blob_def kv_read_commit_info_def read_commit_tree_def fetch_objects_def
  by (intro keeps_kv_reads keeps_intros)+

lemma keeps_kv_walks:
  "keeps_opt (log_is L) (kv_compute_push_kind K H rid old new)"
  "keeps_opt (log_is L) (kv_reachable_excluding K H rid from excluding cap)"
  unfolding kv_compute_push_kind_def kv_reachable_excluding_def kv_fetch_def
  by (intro keeps_walks keeps_kv_reads keeps_intros)+

lemma keeps_kv_walk: "keeps_opt (log_is L) (kv_walk msg K H rid from excluding)"
  using keeps_kv_walks(2) unfolding keeps_opt_def kv_walk_def by fastforce

lemma keeps_needed_objects: "keeps_opt (log_is L) (needed_objects G T K H rid want have)"
proof -
  have trees: "keeps_opt (log_is L) (collect_commit_trees G T K H rid acc cs)" for acc cs
    using keeps_kv_reads(8) keeps_kv_objects(4) by (rule keeps_collect_commit_trees)
  show ?thesis
    unfolding needed_objects_def
    by (cases "have = []") (auto intro!: keeps_bindO keeps_kv_walk trees keeps_totalO keeps_intros)
qed

lemma keeps_kv_tree_diff: "keeps_opt (log_is L) (kv_tree_diff T K H rid a b)"
  unfolding kv_tree_diff_def Let_def
  by (intro keeps_bindO keeps_totalO keeps_fetch_trees_loop keeps_kv_reads keeps_intros)

text \<open>Creating a repository writes the counter, the index and the marker, and no ref.\<close>

definition no_refs :: "(kv_store \<times> kv_writes) list \<Rightarrow> 's \<Rightarrow> bool" where
  "no_refs cs s \<longleftrightarrow> commits s = cs \<and> \<not> ref_writing (writes s)"

abbreviation committed :: "(kv_store \<times> kv_writes) list \<Rightarrow> 's \<Rightarrow> bool" where
  "committed cs s \<equiv> commits s = cs"

lemma keeps_committed [keeps_intros]:
  "keeps (committed cs) (kv_get K k)" "keeps (committed cs) (get_for_update K k)" "keeps (committed cs) (kv_put K k v)"
  by (rule keepsI; metis get_frame get_for_update_frame put_frame)+

lemma triple_no_refs:
  "triple (no_refs cs) (kv_get K k) (\<lambda>_. no_refs cs) (\<lambda>_. committed cs)"
  "triple (no_refs cs) (get_for_update K k) (\<lambda>_. no_refs cs) (\<lambda>_. committed cs)"
  by (rule tripleI; simp add: no_refs_def; metis get_frame get_for_update_frame)+

lemma triple_put_no_refs:
  assumes "\<And>rid name. k \<noteq> refkey rid name"
  shows "triple (no_refs cs) (kv_put K k v) (\<lambda>_. no_refs cs) (\<lambda>_. committed cs)"
  by (rule tripleI) (auto simp: no_refs_def assms dest: put_Inr put_frame)

lemma keeps_write_txn:
  assumes body: "\<And>cs. triple (no_refs cs) body (\<lambda>_. no_refs cs) (\<lambda>_. committed cs)"
    and frame: "\<And>cs. keeps (committed cs) body"
  shows "keeps (log_is L) (write_txn K msg body)"
proof (rule keepsI)
  fix s r t assume s: "log_is L s" and run: "write_txn K msg body s = (r, t)"
  have fresh: "no_refs (commits s) s1" if "begin_pessimistic K s = (Inr (), s1)" for s1
    using begin_pessimistic_Inr [OF that] by (simp add: no_refs_def)
  show "log_is L t"
  proof (cases r)
    case (Inl e)
    have frame': "\<forall>s r t. body s = (r, t) \<longrightarrow> commits t = commits s" using keepsD [OF frame] by blast
    from run Inl have run': "write_txn K msg body s = (Inl e, t)" by simp
    show ?thesis
      by (rule write_txn_Inl [OF run' frame'])
         (use s triple_Inr [OF body fresh] in \<open>force simp: no_refs_def\<close>)+
  next
    case (Inr v)
    with run have "write_txn K msg body s = (Inr v, t)" by simp
    then show ?thesis
      by (rule write_txn_Inr) (use s triple_Inr [OF body fresh] in \<open>force simp: no_refs_def\<close>)
  qed
qed

lemma keeps_kv_init_repo: "keeps (log_is L) (kv_init_repo_inner K path)"
proof -
  have keys: "repo_index path \<noteq> refkey rid name" "next_repo_id \<noteq> refkey rid name" "repo_meta i tag \<noteq> refkey rid name"
    for rid name i tag
    using key_tags_distinct(3-5) by metis+
  have probe: "keeps (log_is L) (read_txn K msg (bindA (ctxA c (kv_get K k)) (\<lambda>v.
      case v of None \<Rightarrow> retA None | Some b \<Rightarrow> liftA (f b))))" for msg c k and f :: "bytes \<Rightarrow> repo_id option res"
    by (intro keeps_read_txn keeps_intros)
  show ?thesis
    unfolding kv_init_repo_inner_def
  proof (intro keeps_bind probe keeps_option keeps_simple keeps_write_txn, goal_cases)
    case (1 probe cs)
    show ?case
      by (intro triple_bind [where R = "\<lambda>_. no_refs cs"] triple_option triple_ctx triple_no_refs
          triple_put_no_refs keys triple_ret triple_lift) (auto simp: no_refs_def)
  qed (intro keeps_intros)+
qed

lemma keeps_kv_ingest: "keeps (log_is L) (kv_ingest_pack G K H rid staged at)"
proof (rule keepsI)
  fix s r t assume s: "log_is L s" and run: "kv_ingest_pack G K H rid staged at s = (r, t)"
  consider e where "r = Inl e" | "r = Inr None" | meta oids where "r = Inr (Some (meta, oids))"
    by (cases r; cases "projr r") auto
  then show "log_is L t"
  proof cases
    case 1
    with s run ingest_pack_Inl [of G H rid staged at s e t] show ?thesis by (auto simp: pack_writes_no_refs)
  next
    case 2
    with s run have "t = s"
      by (auto simp: kv_ingest_pack_def bindA_Inr split: if_splits prod.splits)
    with s show ?thesis by simp
  next
    case 3
    with s run ingest_pack_Inr [of G H rid staged at s meta oids t] show ?thesis
      by (auto simp: pack_writes_no_refs)
  qed
qed

text \<open>
  The backend keeps the log of ref writes: of its operations only \<open>update_refs\<close> adds to it.
\<close>

lemma keeps_kv_build_pack: "keeps_opt (\<lambda>sd. log_is L (fst sd)) (kv_build_pack G T K H rid want have opts)"
  unfolding kv_build_pack_def [abs_def] Let_def
  by (rule keeps_cached_build [OF keeps_needed_objects keeps_kv_objects(5)])

lemma kv_backend_keeps: "backend_keeps (kv_backend G bundle_of T K H) (\<lambda>sd. log_is L (fst sd))"
proof unfold_locales
  note defs = kv_backend_def backend.simps
  show "keeps (\<lambda>sd. log_is L (fst sd)) (be_init_repo (kv_backend G bundle_of T K H) i)" for i
    unfolding defs by (intro keeps_kv_act keeps_kv_init_repo keeps_intros)
  show "keeps (\<lambda>sd. log_is L (fst sd)) (be_ingest_pack (kv_backend G bundle_of T K H) r bs)" for r bs
    unfolding defs kv_ingest_def by (intro keeps_kv_act keeps_kv_ingest keeps_intros)
  show "keeps_opt (\<lambda>sd. log_is L (fst sd)) (be_build_pack (kv_backend G bundle_of T K H) r ws hs opts)" for r ws hs opts
    unfolding defs by (rule keeps_kv_build_pack)
qed (auto simp: kv_backend_def kv_inspect_ingested_def intro!: keeps_kv_act keeps_kv_opt keeps_kv_reads
    keeps_kv_objects keeps_kv_walks keeps_kv_tree_diff)

end

interpretation cluster_backend: backend_keeps "kv_backend G bundle_of T cluster_api H"
  "\<lambda>sd. ref_log (map (map_prod map_of map_of) (cl_commits (fst sd))) = L" for G bundle_of T H L
  by (rule cluster.kv_backend_keeps)

end
