(* ===== verification/KV_Comparison.thy ===== *)
theory KV_Comparison
  imports Comparison KV_Backend
begin

text \<open>
  The view an authoriser gets over the key-value backend: the laws of \<open>graph_backend\<close> hold for it as
  long as nobody changes the store, whatever calls fail.
\<close>

section \<open>Read transactions keep the store\<close>

definition idle :: "(bytes \<times> bytes) list \<Rightarrow> cluster \<Rightarrow> bool" where
  "idle m s \<longleftrightarrow> steady m s \<and> cl_writes s = []"

lemma idle_tick: "idle m s \<Longrightarrow> cl_tick s = (b, t) \<Longrightarrow> idle m t"
  unfolding idle_def using steady_tick cl_tick_frame by metis

lemma idle_op: "(\<And>s. idle m s \<Longrightarrow> idle m (snd (f s))) \<Longrightarrow> keeps (idle m) (cl_op f)"
  by (rule keepsI) (auto simp: cl_op_def split: prod.splits bool.splits dest: idle_tick, metis idle_tick snd_conv)

lemma keeps_idle [keeps_intros]: "keeps (idle m) (kv_get cluster_api k)"
  unfolding cluster_ops by (rule idle_op) simp

lemma steady_read_txn:
  assumes body: "keeps (idle m) body"
  shows "keeps (steady m) (read_txn cluster_api msg body)"
proof (rule keepsI)
  fix s r t assume s: "steady m s" and run: "read_txn cluster_api msg body s = (r, t)"
  obtain b s1 where b: "cl_tick s = (b, s1)" by fastforce
  then have s1: "steady m s1" using s steady_tick by blast
  let ?s1 = "s1\<lparr> cl_snap := cl_store s1, cl_writes := [], cl_locked := [] \<rparr>"
  obtain r2 s2 where b2: "body ?s1 = (r2, s2)" by fastforce
  have "idle m ?s1" using s1 by (simp add: idle_def steady_def)
  then have s2: "idle m s2" using keepsD [OF body _ b2] by blast
  obtain b3 s3 where b3: "cl_tick s2 = (b3, s3)" by fastforce
  then have "idle m s3" using idle_tick s2 by blast
  then have "steady m (snd (finalize_read cluster_api r2 s2))"
    using b3 by (cases r2; cases b3)
      (auto simp: finalize_read_def cluster_ops cl_op_def steady_def idle_def write_alist_def)
  with run b b2 s1 show "steady m t"
    by (cases b) (auto simp: read_txn_def act_defs cluster_ops cl_begin_def cl_op_def)
qed

lemma steady_read_commit_info: "keeps (steady m) (kv_read_commit_info G cluster_api H rid x)"
  unfolding kv_read_commit_info_def kv_read_object_raw_def read_object_with_kind_def
  by (intro keeps_intros steady_read_txn)

lemma kv_read_commit_info_oid: "kv_read_commit_info G K H rid x s = (Inr c, t) \<Longrightarrow> ci_oid c = x"
  by (auto simp: kv_read_commit_info_def bindA_Inr parse_commit_info_oid split: option.splits)

lemma steady_reachable:
  assumes "object_id H" "steady m s" "kv_reachable_excluding cluster_api H rid from excl cap s = Some (r, t)"
  shows "steady m t \<and> (\<forall>out. r = Inr out \<longrightarrow> distinct out \<and> set out = new_side (kv_parents H rid m) from excl)"
proof -
  have "\<forall>x \<in> set from \<union> set excl. finite (ancestors (kv_parents H rid m) x)"
    using finite_kv_parents [OF assms(1)] by blast
  from reachable_excluding_spec
    [OF steady_fetches(1) [where msg = "''fetching parents: ''"]
        collect_ancestors_collects [OF steady_fetches(1) [where msg = "''collecting ancestors: ''"]] assms(2) this,
     of cap]
  show ?thesis using assms(3) unfolding kv_reachable_excluding_def by auto
qed

lemma kv_graph_backend:
  assumes "object_id H"
  shows "graph_backend (kv_backend G bundle_of T cluster_api H) rid (\<lambda>sd. steady m (fst sd)) (kv_parents H rid m)"
proof
  fix s :: "cluster \<times> cache_dir" and "from" excl cap res t
  assume "steady m (fst s)"
    "be_reachable_excluding (kv_backend G bundle_of T cluster_api H) rid from excl cap s = Some (res, t)"
  then show "steady m (fst t) \<and> (\<forall>out. res = Inr out \<longrightarrow> distinct out \<and>
      set out = new_side (kv_parents H rid m) from excl)"
    using steady_reachable [OF assms] by (auto simp: kv_backend_def kv_opt_def)
next
  fix s :: "cluster \<times> cache_dir" and x info t
  assume "steady m (fst s)" "be_read_commit_info (kv_backend G bundle_of T cluster_api H) rid x s = (info, t)"
  then show "steady m (fst t) \<and> (\<forall>c. info = Inr c \<longrightarrow> ci_oid c = x)"
    by (auto simp: kv_backend_def kv_act_def split: prod.splits dest: kv_read_commit_info_oid
        keepsD [OF steady_read_commit_info])
qed

interpretation sha1_graph: graph_backend "kv_backend G bundle_of T cluster_api sha1_ops" rid
  "\<lambda>sd. steady m (fst sd)" "kv_parents sha1_ops rid m" for G bundle_of T rid m
  by (rule kv_graph_backend [OF sha1.object_id_axioms])

section \<open>Properties\<close>


definition demo_view :: "(repo_id, sha1) comparison" where
  "demo_view =
     \<lparr> cx_repo = 1, cx_pack = [\<lparr> po_oid = 9, po_kind = KCommit demo_commit, po_size = 3 \<rparr>],
       cx_refs = [\<lparr> pr_refname = ''refs/heads/main'', pr_kind = Create, pr_old = 0, pr_new = 9 \<rparr>],
       cx_existing = [], cx_opts = default_options, cx_tags = [] \<rparr>"

definition demo_tools :: "sha1 pack_tools" where
  "demo_tools =
     \<lparr> pt_tree = (\<lambda>_. Inr []), pt_pack = (\<lambda>loose xs. map (Inr \<circ> snd) loose), pt_sha1 = (\<lambda>_. replicate 20 NUL),
       pt_sha256 = (\<lambda>b. b), pt_empty_tree = 4, pt_diff = (\<lambda>_ _ _. Inr []) \<rparr>"

definition demo_backend :: "(bytes, repo_id, sha1 kv_ingested, sha1, cluster \<times> cache_dir) backend" where
  "demo_backend = kv_backend demo_parser (\<lambda>_. Inr demo_bundle) demo_tools cluster_api sha1_ops"

definition empty_dir :: cache_dir where
  "empty_dir = \<lparr> cd_files = [], cd_unreadable = [], cd_read_only = False \<rparr>"

lemma demo_fetch_parents:
  "kv_fetch msg cluster_api sha1_ops 1 9 (empty_cluster\<lparr> cl_commits := cs \<rparr>) =
     (Inr [], empty_cluster\<lparr> cl_commits := cs @ [([], [])] \<rparr>)"
  by (simp add: kv_fetch_def kv_fetch_parents_def quiet cluster_api_def empty_cluster_def
      write_alist_def cl_scan_def)

lemma demo_reachable:
  "kv_reachable_excluding cluster_api sha1_ops 1 [9] [] 50000 empty_cluster =
     Some (Inr [9], empty_cluster\<lparr> cl_commits := [([], [])] \<rparr>)"
proof -
  have "empty_cluster = empty_cluster\<lparr> cl_commits := [] \<rparr>" by (simp add: empty_cluster_def)
  then have "kv_fetch msg cluster_api sha1_ops 1 9 empty_cluster =
     (Inr [], empty_cluster\<lparr> cl_commits := [([], [])] \<rparr>)" for msg
    using demo_fetch_parents [of msg "[]"] by simp
  then show ?thesis
    by (simp add: kv_reachable_excluding_def reachable_excluding_def reach_loop.simps)
qed

lemma demo_backend_reachable:
  "be_reachable_excluding demo_backend 1 [9] [] 50000 (empty_cluster, empty_dir) =
     Some (Inr [9], (empty_cluster\<lparr> cl_commits := [([], [])] \<rparr>, empty_dir))"
  by (simp add: demo_backend_def kv_backend_def kv_opt_def demo_reachable)

lemma sha1_nine: "\<not> is_null sha1_ops 9"
  by (simp add: sha1_ops_def)

lemma demo_new_commits:
  "mapA (new_commits demo_backend sha1_ops demo_view) (cx_refs demo_view)
      ((empty_cluster, empty_dir), empty_caches (length (cx_refs demo_view))) = (Inr (map Inr [[demo_commit]]),
      ((empty_cluster\<lparr> cl_commits := [([], [])] \<rparr>, empty_dir), set_new 0 (Inr [demo_commit]) (empty_caches 1)))"
  by (simp add: new_commits_def ref_index_def get_or_init_def new_commits_init_def new_excluding_def demo_view_def
      demo_backend_reachable sha1_nine default_options_def attempt_opt_def map_err_def find_commit_def
      pm_commits_def List.map_filter_def demo_commit_def empty_caches_def set_new_def bindA_def andThen_def
      on_backend_def on_caches_def)


text \<open>
  C38. An authoriser gets one answer per question.  Once \<open>new_commits\<close>, \<open>dropped_commits\<close> or \<open>ref_diff\<close>
  has been answered for a ref, in success or in error, the same question gets the same answer for
  the rest of the comparison, whatever is asked in between, and without another call to the backend.
\<close>

theorem authoriser_answers_stable:
  assumes "lazily_cached q"
    and "run_prog (answer_query A B H empty_tree X) before (s, empty_caches (length (cx_refs X))) = (Inr y, sc)"
    and "answer_query A B H empty_tree X q sc = (Inr a, sc1)"
    and "run_prog (answer_query A B H empty_tree X) later sc1 = (Inr z, sc2)"
  shows "answer_query A B H empty_tree X q sc2 = (Inr a, sc2)"
  by (rule answers_stable [OF assms(1) _ assms(3)])
     (use growsD [OF grows_run_prog assms(2)] growsD [OF grows_run_prog assms(4)] in simp_all)

definition demo_access :: "(bytes, unit, sha1) repo_access" where
  "demo_access = default_access ''/srv/a.git'' ()"

theorem authoriser_answers_stable_witness:
  "\<exists>sc1.
     answer_query demo_access demo_backend sha1_ops 4 demo_view (QNewCommits (hd (cx_refs demo_view)))
       ((empty_cluster, empty_dir), empty_caches (length (cx_refs demo_view))) = (Inr (ACommits (Inr [demo_commit])), sc1) \<and>
     answer_query demo_access demo_backend sha1_ops 4 demo_view (QNewCommits (hd (cx_refs demo_view))) sc1 =
       (Inr (ACommits (Inr [demo_commit])), sc1)"
proof -
  let ?ans = "answer_query demo_access demo_backend sha1_ops 4 demo_view"
    and ?q = "QNewCommits (hd (cx_refs demo_view))"
    and ?sc = "((empty_cluster, empty_dir), empty_caches (length (cx_refs demo_view)))"
  obtain r where refs: "cx_refs demo_view = [r]" by (simp add: demo_view_def)
  then obtain sc1 where first: "?ans ?q ?sc = (Inr (ACommits (Inr [demo_commit])), sc1)"
    using demo_new_commits by (auto simp: answer_query_def bindA_Inr bindA_run)
  have "run_prog ?ans (Done ()) ?sc = (Inr (), ?sc)" "run_prog ?ans (Ask QTags (\<lambda>_. Done ())) sc1 = (Inr (), sc1)"
    by (simp_all add: bindA_def answer_query_def)
  from authoriser_answers_stable [OF _ this(1) first this(2)] have "?ans ?q sc1 = (Inr (ACommits (Inr [demo_commit])), sc1)"
    by (simp add: lazily_cached_def)
  with first show ?thesis by blast
qed

end
