(* ===== verification/Push_Pipeline.thy ===== *)
theory Push_Pipeline
  imports Comparison Pack_Cache
begin

text \<open>
  Serving a push: \<open>mizzle/src/receive.rs\<close> and the receive-pack half of \<open>mizzle/src/serve.rs\<close>, over
  HTTP (\<open>recv_pack_info_refs\<close>, \<open>recv_pack_post\<close>) and over a connection (\<open>serve_receive_pack\<close>).

  The packet-line writer is gix's, so it is the record \<open>pkt_writer\<close> over a state \<open>'w\<close> that may
  refuse a write.  A future given to \<open>spawn\<close> is a value of the response, the \<open>task\<close> that produces
  its body: it runs later, in whatever state the backend is in by then.
\<close>

section \<open>Output\<close>

datatype channel = DataChannel | ProgressChannel

record 'w pkt_writer =
  w_text :: "bytes \<Rightarrow> ('w, error, unit) act"
  w_flush :: "('w, error, unit) act"
  w_delim :: "('w, error, unit) act"
  w_band :: "channel \<Rightarrow> bytes \<Rightarrow> ('w, error, unit) act"

definition on_state :: "('s, 'e, 'a) act \<Rightarrow> ('s \<times> 'w, 'e, 'a) act" where
  "on_state m sw = (case m (fst sw) of (r, t) \<Rightarrow> (r, (t, snd sw)))"

definition on_writer :: "('w, 'e, 'a) act \<Rightarrow> ('s \<times> 'w, 'e, 'a) act" where
  "on_writer m sw = (case m (snd sw) of (r, w) \<Rightarrow> (r, (fst sw, w)))"

type_synonym ('s, 'w) task = "('s \<times> 'w, stop, unit) act"

record ('s, 'w) git_response =
  status_code :: nat
  resp_content_type :: "bytes option"
  resp_reader :: "('s, 'w) task option"
  resp_body :: "bytes option"

definition stream_response :: "bytes option \<Rightarrow> ('s, 'w) task \<Rightarrow> ('s, 'w) git_response" where
  "stream_response ct task =
     \<lparr> status_code = 200, resp_content_type = ct, resp_reader = Some task, resp_body = None \<rparr>"

definition res_try :: "error + 'a \<Rightarrow> ('a \<Rightarrow> ('s, stop, ('s, 'w) git_response) act)
    \<Rightarrow> ('s, stop, ('s, 'w) git_response) act" where
  "res_try r f =
     (case r of
        Inr x \<Rightarrow> f x
      | Inl e \<Rightarrow> retA \<lparr> status_code = 500, resp_content_type = Some ''text/plain'', resp_reader = None,
                        resp_body = Some (''internal error: '' @ display_error e) \<rparr>)"

text \<open>A task that logs its error and ends.\<close>

definition logged :: "('s \<times> 'w, error, unit) act \<Rightarrow> ('s, 'w) task" where
  "logged m = bindA (attempt m) (\<lambda>_. retA ())"

section \<open>Reports and advertisements\<close>

definition reject_report :: "'w pkt_writer \<Rightarrow> bytes list \<Rightarrow> bytes \<Rightarrow> ('w, error, unit) act" where
  "reject_report W names msg =
     bindA (w_text W ''unpack ok'') (\<lambda>_.
     bindA (forA names (\<lambda>n. w_text W (''ng '' @ n @ '' '' @ msg))) (\<lambda>_. w_flush W))"

definition update_refs_and_report ::
  "('id, 'r, 'p, 'o, 's) backend \<Rightarrow> 'w pkt_writer \<Rightarrow> 'r \<Rightarrow> 'o ref_update list \<Rightarrow> ('s \<times> 'w, error, unit) act" where
  "update_refs_and_report B W repo us =
     bindA (on_state (ctxA ''updating refs'' (be_update_refs B repo us))) (\<lambda>_.
       on_writer (bindA (w_text W ''unpack ok'') (\<lambda>_.
                  bindA (forA us (\<lambda>u. w_text W (''ok '' @ refname u))) (\<lambda>_. w_flush W))))"

definition null_hex :: bytes where
  "null_hex = ''0000000000000000000000000000000000000000''"

text \<open>A ref advertisement: the capabilities follow the first line after a NUL.\<close>

fun advertise_lines :: "'o oid_ops \<Rightarrow> bytes \<Rightarrow> bool \<Rightarrow> ('o \<times> bytes) list \<Rightarrow> bytes list" where
  "advertise_lines H caps first [] = []"
| "advertise_lines H caps first ((x, name) # rs) =
     (to_hex H x @ [SP] @ name @ (if first then [NUL] @ caps else [])) # advertise_lines H caps False rs"

definition advertise_refs ::
  "'w pkt_writer \<Rightarrow> 'o oid_ops \<Rightarrow> bytes \<Rightarrow> ('o \<times> bytes) list \<Rightarrow> ('w, error, unit) act" where
  "advertise_refs W H caps refs =
     bindA (if refs = [] then w_text W (null_hex @ '' capabilities^{}'' @ [NUL] @ caps)
            else forA (advertise_lines H caps True refs) (w_text W)) (\<lambda>_. w_flush W)"

definition receive_caps :: bytes where
  "receive_caps = ''report-status delete-refs ofs-delta agent=mizzle/dev''"

definition info_refs_receive_pack_task ::
  "'w pkt_writer \<Rightarrow> 'o oid_ops \<Rightarrow> ('o \<times> bytes) list \<Rightarrow> ('w, error, unit) act" where
  "info_refs_receive_pack_task W H refs = advertise_refs W H receive_caps refs"

definition recv_pack_info_refs ::
  "('id, 'c, 'o) repo_access \<Rightarrow> ('id, 'r, 'p, 'o, 's) backend \<Rightarrow> 'w pkt_writer \<Rightarrow> 'o oid_ops \<Rightarrow> 'id
     \<Rightarrow> ('s, stop, ('s, 'w) git_response) act" where
  "recv_pack_info_refs A B W H i =
     bindA (if acc_auto_init A then attempt (be_init_repo B i) else retA (Inr ())) (\<lambda>r. res_try r (\<lambda>_.
     bindA (attempt (be_open B i)) (\<lambda>r. res_try r (\<lambda>repo.
     bindA (attempt (be_list_refs B repo)) (\<lambda>r. res_try r (\<lambda>snapshot.
       retA (stream_response (Some ''application/x-git-receive-pack-advertisement'')
         (logged (on_writer (
            bindA (w_text W ''# service=git-receive-pack'') (\<lambda>_.
            bindA (w_flush W) (\<lambda>_.
              info_refs_receive_pack_task W H (as_receive_pack snapshot)))))))))))))"

section \<open>Staging a pack\<close>

text \<open>What the temporary file may refuse.\<close>

record temp_env =
  tmp_create :: "unit res"
  tmp_clone :: "unit res"
  tmp_write :: "bytes \<Rightarrow> unit res"

definition stage_pack :: "temp_env \<Rightarrow> bytes \<Rightarrow> bytes option res" where
  "stage_pack E body =
     bindR (context_err ''creating temp file for pack staging'' (tmp_create E)) (\<lambda>_.
     bindR (context_err ''cloning temp file handle'' (tmp_clone E)) (\<lambda>_.
     bindR (foldR (\<lambda>file buf. bindR (context_err ''writing pack data to temp file'' (tmp_write E buf))
              (\<lambda>_. Inr (file @ buf))) [] (chunks (64 * 1024) body)) (\<lambda>file.
       Inr (if file = [] then None else Some file))))"

section \<open>The refs of a push\<close>

definition build_push_refs :: "'o ref_update list \<Rightarrow> ('o ref_update \<Rightarrow> push_kind) \<Rightarrow> 'o push_ref list" where
  "build_push_refs us kind =
     map (\<lambda>u. \<lparr> pr_refname = refname u, pr_kind = kind u, pr_old = old_oid u, pr_new = new_oid u \<rparr>) us"

definition build_push_refs_async ::
  "('id, 'r, 'p, 'o, 's) backend \<Rightarrow> 'r \<Rightarrow> 'o ref_update list \<Rightarrow> ('s, stop, 'o push_ref list) act" where
  "build_push_refs_async B repo us =
     mapA (\<lambda>u. bindA (attempt_opt (be_compute_push_kind B repo u)) (\<lambda>kind.
       retA \<lparr> pr_refname = refname u, pr_kind = kind, pr_old = old_oid u, pr_new = new_oid u \<rparr>)) us"

definition tips_not_pushed :: "'o push_ref list \<Rightarrow> 'o refs_snapshot \<Rightarrow> 'o list" where
  "tips_not_pushed refs snapshot =
     concat (map (\<lambda>r. ri_oid r # (case ri_peeled r of None \<Rightarrow> [] | Some p \<Rightarrow> [p]))
       (filter (\<lambda>r. ri_name r \<notin> pr_refname ` set refs) (rs_refs snapshot)))"

definition existing_ref_tips ::
  "('id, 'r, 'p, 'o, 's) backend \<Rightarrow> 'r \<Rightarrow> 'o push_ref list \<Rightarrow> ('s, stop, 'o list) act" where
  "existing_ref_tips B repo refs =
     bindA (attempt (be_list_refs B repo)) (\<lambda>r.
       retA (case r of Inl _ \<Rightarrow> [] | Inr snapshot \<Rightarrow> tips_not_pushed refs snapshot))"

text \<open>Ingest, and the inspection of what was ingested: \<open>None\<close> when there was no pack.\<close>

definition ingest_staged ::
  "('id, 'r, 'p, 'o, 's) backend \<Rightarrow> 'r \<Rightarrow> bytes option \<Rightarrow> ('s, stop, error + 'p option) act" where
  "ingest_staged B repo staged =
     (case staged of None \<Rightarrow> retA (Inr None) | Some f \<Rightarrow> attempt (be_ingest_pack B repo f))"

definition rollback_written :: "('id, 'r, 'p, 'o, 's) backend \<Rightarrow> 'p option \<Rightarrow> ('s, stop, unit) act" where
  "rollback_written B written =
     (case written of None \<Rightarrow> retA () | Some p \<Rightarrow> modifyA (be_rollback_ingest B p))"

definition inspect_written ::
  "('id, 'r, 'p, 'o, 's) backend \<Rightarrow> 'p option \<Rightarrow> ('s, stop, (error + 'o pack_metadata option) \<times> 'p option) act" where
  "inspect_written B written =
     (case written of
        None \<Rightarrow> retA (Inr None, None)
      | Some p \<Rightarrow> bindA (runA (be_inspect_ingested B p)) (\<lambda>(r, p').
          case r of
            Inr meta \<Rightarrow> retA (Inr (Some meta), Some p')
          | Inl e \<Rightarrow> bindA (rollback_written B (Some p')) (\<lambda>_. retA (Inl e, None))))"

definition meta_or_empty :: "'o pack_metadata option \<Rightarrow> 'o pack_metadata" where
  "meta_or_empty m = (case m of None \<Rightarrow> [] | Some p \<Rightarrow> p)"

definition inspection_failed :: "error \<Rightarrow> bytes" where
  "inspection_failed e = ''pack inspection failed: '' @ display_error e"

section \<open>A push over HTTP\<close>

definition reject_response ::
  "'w pkt_writer \<Rightarrow> 'o ref_update list \<Rightarrow> bytes \<Rightarrow> ('s, 'w) git_response" where
  "reject_response W us msg =
     stream_response (Some ''application/x-git-receive-pack-result'')
       (logged (on_writer (reject_report W (map refname us) msg)))"

definition success_task ::
  "('id, 'c, 'o) repo_access \<Rightarrow> ('id, 'r, 'p, 'o, 's) backend \<Rightarrow> 'w pkt_writer \<Rightarrow> 'o oid_ops \<Rightarrow> 'o \<Rightarrow> 'r
     \<Rightarrow> 'o ref_update list \<Rightarrow> 'o push_ref list \<Rightarrow> 'o list \<Rightarrow> 'o pack_metadata option \<Rightarrow> ('s, 'w) task" where
  "success_task A B W H empty_tree repo us push_refs existing meta =
     (let owned_kinds = map (\<lambda>pr. (pr_refname pr, pr_kind pr)) push_refs;
          owned_old_new = map (\<lambda>pr. (pr_old pr, pr_new pr)) push_refs in
      bindA (attempt (update_refs_and_report B W repo us)) (\<lambda>r.
        case r of
          Inl e \<Rightarrow> retA ()
        | Inr _ \<Rightarrow>
            let post_refs = map (\<lambda>((name, kind), (old, new)).
                  \<lparr> pr_refname = name, pr_kind = kind, pr_old = old, pr_new = new \<rparr>) (zip owned_kinds owned_old_new)
            in on_state (run_comparison A B H empty_tree repo (meta_or_empty meta) post_refs existing
                 default_options (acc_post_receive A))))"

definition recv_pack_post ::
  "('id, 'c, 'o) repo_access \<Rightarrow> ('id, 'r, 'p, 'o, 's) backend \<Rightarrow> 'w pkt_writer \<Rightarrow> 'o oid_ops \<Rightarrow> 'o \<Rightarrow> temp_env
     \<Rightarrow> 'id \<Rightarrow> protocol_limits \<Rightarrow> bytes \<Rightarrow> ('s, stop, ('s, 'w) git_response) act" where
  "recv_pack_post A B W H empty_tree E i limits body =
     res_try (read_receive_request H limits body) (\<lambda>(us, body).
     case acc_authorize_preliminary A (build_push_refs us (preliminary_push_kind H)) of
       Inl msg \<Rightarrow> retA (reject_response W us msg)
     | Inr push_ctx \<Rightarrow>
         bindA (attempt (be_open B i)) (\<lambda>r. res_try r (\<lambda>repo.
         res_try (stage_pack E body) (\<lambda>staged.
         bindA (ingest_staged B repo staged) (\<lambda>r. res_try r (\<lambda>written_pack.
         bindA (inspect_written B written_pack) (\<lambda>(inspected, written_pack).
         case inspected of
           Inl e \<Rightarrow> retA (reject_response W us (inspection_failed e))
         | Inr pack_meta \<Rightarrow>
             bindA (build_push_refs_async B repo us) (\<lambda>push_refs.
             bindA (existing_ref_tips B repo push_refs) (\<lambda>existing.
             bindA (run_comparison A B H empty_tree repo (meta_or_empty pack_meta) push_refs existing
                      default_options (acc_authorize_push A push_ctx)) (\<lambda>auth_result.
             bindA (case auth_result of
                      Inl msg \<Rightarrow> bindA (rollback_written B written_pack) (\<lambda>_.
                        retA (map (\<lambda>u. (refname u, msg)) us))
                    | Inr _ \<Rightarrow> retA []) (\<lambda>rejected.
               retA (stream_response (Some ''application/x-git-receive-pack-result'')
                 (if rejected \<noteq> []
                  then logged (on_writer (
                         bindA (w_text W ''unpack ok'') (\<lambda>_.
                         bindA (forA rejected (\<lambda>(name, msg). w_text W (''ng '' @ name @ '' '' @ msg))) (\<lambda>_.
                           w_flush W))))
                  else success_task A B W H empty_tree repo us push_refs existing pack_meta)))))))))))))"

section \<open>A push over a connection\<close>

definition serve_receive_pack ::
  "('id, 'c, 'o) repo_access \<Rightarrow> ('id, 'r, 'p, 'o, 's) backend \<Rightarrow> 'w pkt_writer \<Rightarrow> 'o oid_ops \<Rightarrow> 'o \<Rightarrow> temp_env
     \<Rightarrow> protocol_limits \<Rightarrow> bytes \<Rightarrow> ('s \<times> 'w, stop, error + unit) act" where
  "serve_receive_pack A B W H empty_tree E limits reader =
     (let i = acc_repo_id A in
      andThen (if acc_auto_init A then on_state (attempt (be_init_repo B i)) else retA (Inr ())) (\<lambda>_.
      andThen (on_state (attempt (be_open B i))) (\<lambda>repo.
      andThen (on_state (attempt (be_list_refs B repo))) (\<lambda>snapshot.
      andThen (attempt (on_writer (info_refs_receive_pack_task W H (as_receive_pack snapshot)))) (\<lambda>_.
      andThen (retA (read_receive_request H limits reader)) (\<lambda>(us, reader).
      case acc_authorize_preliminary A (build_push_refs us (preliminary_push_kind H)) of
        Inl msg \<Rightarrow> attempt (on_writer (reject_report W (map refname us) msg))
      | Inr push_ctx \<Rightarrow>
          andThen (retA (stage_pack E reader)) (\<lambda>staged.
          andThen (on_state (ingest_staged B repo staged)) (\<lambda>written_pack.
          bindA (on_state (inspect_written B written_pack)) (\<lambda>(inspected, written_pack).
          case inspected of
            Inl e \<Rightarrow> attempt (on_writer (reject_report W (map refname us) (inspection_failed e)))
          | Inr pack_meta \<Rightarrow>
              bindA (on_state (build_push_refs_async B repo us)) (\<lambda>push_refs.
              bindA (on_state (existing_ref_tips B repo push_refs)) (\<lambda>existing.
              bindA (on_state (run_comparison A B H empty_tree repo (meta_or_empty pack_meta) push_refs existing
                       default_options (acc_authorize_push A push_ctx))) (\<lambda>auth_result.
              case auth_result of
                Inl msg \<Rightarrow> bindA (on_state (rollback_written B written_pack)) (\<lambda>_.
                  attempt (on_writer (reject_report W (map refname us) msg)))
              | Inr _ \<Rightarrow>
                  andThen (attempt (update_refs_and_report B W repo us)) (\<lambda>_.
                  bindA (on_state (build_push_refs_async B repo us)) (\<lambda>post_refs.
                  bindA (on_state (run_comparison A B H empty_tree repo (meta_or_empty pack_meta) post_refs existing
                           default_options (acc_post_receive A))) (\<lambda>_.
                    retA (Inr ()))))))))))))))))"

section \<open>What a push needs\<close>

definition update_of :: "'o push_ref \<Rightarrow> 'o ref_update" where
  "update_of r = \<lparr> old_oid = pr_old r, new_oid = pr_new r, refname = pr_refname r \<rparr>"

text \<open>
  A batch of updates is authorised when the preliminary check accepted exactly these updates and
  the authoriser, with the context of that check, said yes to a comparison of exactly these updates.
\<close>

definition authorised ::
  "('id, 'c, 'o) repo_access \<Rightarrow> ('id, 'r, 'p, 'o, 's) backend \<Rightarrow> 'o oid_ops \<Rightarrow> 'o \<Rightarrow> 'o ref_update list \<Rightarrow> bool" where
  "authorised A B H empty_tree us \<longleftrightarrow>
     (\<exists>ctx repo pack refs existing s t.
        acc_authorize_preliminary A (build_push_refs us (preliminary_push_kind H)) = Inr ctx \<and>
        map update_of refs = us \<and>
        run_comparison A B H empty_tree repo pack refs existing default_options (acc_authorize_push A ctx) s =
          (Inr (Inr ()), t))"

lemma keeps_bind_strong:
  assumes "keeps P m" "\<And>s x t. m s = (Inr x, t) \<Longrightarrow> keeps P (f x)"
  shows "keeps P (bindA m f)"
proof (rule keepsI)
  fix s r t assume "P s" and run: "bindA m f s = (r, t)"
  obtain r' s' where m: "m s = (r', s')" by fastforce
  have "P s'" by (rule keepsD [OF assms(1) \<open>P s\<close> m])
  with run m show "P t" by (cases r') (auto simp: bindA_def dest: keepsD [OF assms(2)])
qed

lemma keeps_on_state [keeps_intros]: "keeps P m \<Longrightarrow> keeps (\<lambda>sw. P (fst sw)) (on_state m)"
  by (rule keepsI) (auto simp: on_state_def split: prod.splits dest: keepsD)

lemma keeps_on_writer [keeps_intros]: "keeps (\<lambda>sw. P (fst sw)) (on_writer m)"
  by (rule keepsI) (auto simp: on_writer_def split: prod.splits)

lemma keeps_logged [keeps_intros]: "keeps P m \<Longrightarrow> keeps P (logged m)"
  unfolding logged_def by (intro keeps_intros)

lemma keeps_res_try [keeps_intros]: "(\<And>x. keeps P (f x)) \<Longrightarrow> keeps P (res_try r f)"
  unfolding res_try_def by (intro keeps_intros)

lemma on_state_Inr: "on_state m sw = (Inr x, tw) \<Longrightarrow> m (fst sw) = (Inr x, fst tw)"
  by (auto simp: on_state_def split: prod.splits)

lemma build_push_refs_async_Inr:
  "build_push_refs_async B repo us s = (Inr refs, t) \<Longrightarrow> map update_of refs = us"
proof (induction us arbitrary: s refs)
  case (Cons u us)
  then obtain k rs s1 where "refs = \<lparr> pr_refname = refname u, pr_kind = k, pr_old = old_oid u, pr_new = new_oid u \<rparr> # rs"
    "build_push_refs_async B repo us s1 = (Inr rs, t)"
    by (auto simp: build_push_refs_async_def bindA_Inr)
  with Cons.IH show ?case by (simp add: update_of_def)
qed (simp add: build_push_refs_async_def)

lemma keeps_andThen_ret: "(\<And>x. r = Inr x \<Longrightarrow> keeps P (f x)) \<Longrightarrow> keeps P (andThen (retA r) f)"
  by (cases r) (auto simp: keeps_def triple_def andThen_def bindA_def)

lemma keeps_prod_eq: "(\<And>x y. r = (x, y) \<Longrightarrow> keeps P (f x y)) \<Longrightarrow> keeps P (case r of (x, y) \<Rightarrow> f x y)"
  by (cases r) auto

lemma keeps_sum_eq:
  "(\<And>e. r = Inl e \<Longrightarrow> keeps P (f e)) \<Longrightarrow> (\<And>x. r = Inr x \<Longrightarrow> keeps P (g x)) \<Longrightarrow>
   keeps P (case r of Inl e \<Rightarrow> f e | Inr x \<Rightarrow> g x)"
  by (cases r) auto

definition returns :: "('a \<Rightarrow> bool) \<Rightarrow> ('s, 'e, 'a) act \<Rightarrow> bool" where
  "returns R m \<longleftrightarrow> (\<forall>s x t. m s = (Inr x, t) \<longrightarrow> R x)"

lemma returnsD: "returns R m \<Longrightarrow> m s = (Inr x, t) \<Longrightarrow> R x"
  by (auto simp: returns_def)

lemma returns_ret: "R x \<Longrightarrow> returns R (retA x)"
  by (simp add: returns_def)

lemma returns_bind: "(\<And>s x t. m s = (Inr x, t) \<Longrightarrow> returns R (f x)) \<Longrightarrow> returns R (bindA m f)"
  by (fastforce simp: returns_def bindA_Inr)

lemma returns_sum:
  "(\<And>e. r = Inl e \<Longrightarrow> returns R (f e)) \<Longrightarrow> (\<And>x. r = Inr x \<Longrightarrow> returns R (g x)) \<Longrightarrow>
   returns R (case r of Inl e \<Rightarrow> f e | Inr x \<Rightarrow> g x)"
  by (cases r) auto

lemma returns_prod: "(\<And>x y. r = (x, y) \<Longrightarrow> returns R (f x y)) \<Longrightarrow> returns R (case r of (x, y) \<Rightarrow> f x y)"
  by (cases r) auto

definition safe_response :: "('s \<Rightarrow> bool) \<Rightarrow> ('s, 'w) git_response \<Rightarrow> bool" where
  "safe_response P resp \<longleftrightarrow>
     (\<forall>task. resp_reader resp = Some task \<longrightarrow> keeps (\<lambda>sw. P (fst sw)) task)"

lemma returns_res_try:
  "(\<And>x. r = Inr x \<Longrightarrow> returns (safe_response P) (f x)) \<Longrightarrow> returns (safe_response P) (res_try r f)"
  by (cases r) (auto simp: res_try_def safe_response_def intro: returns_ret)

lemma safe_stream: "keeps (\<lambda>sw. P (fst sw)) task \<Longrightarrow> safe_response P (stream_response ct task)"
  by (simp add: safe_response_def stream_response_def)

lemma safe_reject: "safe_response P (reject_response W us msg)"
  unfolding reject_response_def by (intro safe_stream keeps_intros)

context backend_keeps
begin

lemma keeps_rollback_written [keeps_intros]: "keeps P (rollback_written B written)"
  unfolding rollback_written_def
  by (cases written) (auto intro!: keepsI keeps_rollback simp: modifyA_def)

lemma keeps_inspect_written [keeps_intros]: "keeps P (inspect_written B written)"
proof (cases written)
  case None
  then show ?thesis by (simp add: inspect_written_def keeps_intros)
next
  case (Some p)
  have "keeps P (runA (be_inspect_ingested B p))"
    by (rule keepsI) (auto simp: runA_def split: prod.splits dest: keeps_inspect [of _ p])
  then show ?thesis
    unfolding inspect_written_def Some option.case by (intro keeps_intros)
qed

lemma keeps_steps [keeps_intros]:
  "keeps P (ingest_staged B repo staged)" "keeps P (build_push_refs_async B repo us)"
  "keeps P (existing_ref_tips B repo refs)"
  unfolding ingest_staged_def build_push_refs_async_def existing_ref_tips_def
  by (intro keeps_intros keeps_ingest_pack keeps_push_kind keeps_list_refs)+

text \<open>The decision: what follows a yes need not keep anything when there is no yes.\<close>

lemma keeps_decision:
  assumes ctx: "acc_authorize_preliminary A (build_push_refs us (preliminary_push_kind H)) = Inr ctx"
    and no: "\<not> authorised A B H empty_tree us" and f: "\<And>refs ex msg. keeps (\<lambda>sw. P (fst sw)) (f refs ex msg)"
  shows "keeps (\<lambda>sw. P (fst sw)) (bindA (on_state (build_push_refs_async B repo us)) (\<lambda>refs.
     bindA (on_state (existing_ref_tips B repo refs)) (\<lambda>ex.
     bindA (on_state (run_comparison A B H empty_tree repo pack refs ex default_options (acc_authorize_push A ctx)))
       (\<lambda>r. case r of Inl msg \<Rightarrow> f refs ex msg | Inr u \<Rightarrow> g refs ex u))))"
proof (rule keeps_bind_strong)
  fix sw refs tw assume "on_state (build_push_refs_async B repo us) sw = (Inr refs, tw)"
  then have refs: "map update_of refs = us" by (auto dest: on_state_Inr build_push_refs_async_Inr)
  show "keeps (\<lambda>sw. P (fst sw)) (bindA (on_state (existing_ref_tips B repo refs)) (\<lambda>ex.
     bindA (on_state (run_comparison A B H empty_tree repo pack refs ex default_options (acc_authorize_push A ctx)))
       (\<lambda>r. case r of Inl msg \<Rightarrow> f refs ex msg | Inr u \<Rightarrow> g refs ex u)))"
  proof (rule keeps_bind, goal_cases)
    case (2 ex)
    show ?case
    proof (rule keeps_bind_strong)
      fix sw r tw
      assume run: "on_state (run_comparison A B H empty_tree repo pack refs ex default_options
        (acc_authorize_push A ctx)) sw = (Inr r, tw)"
      have "r \<noteq> Inr u" for u
        using on_state_Inr [OF run] no ctx refs unfolding authorised_def by auto
      then show "keeps (\<lambda>sw. P (fst sw)) (case r of Inl msg \<Rightarrow> f refs ex msg | Inr u \<Rightarrow> g refs ex u)"
        using f by (cases r) auto
    qed (intro keeps_intros keeps_run_comparison)
  qed (intro keeps_intros)
qed (intro keeps_intros)

lemma keeps_serve_receive_pack:
  assumes no: "\<And>us rest. read_receive_request H limits reader = Inr (us, rest) \<Longrightarrow> \<not> authorised A B H empty_tree us"
  shows "keeps (\<lambda>sw. P (fst sw)) (serve_receive_pack A B W H empty_tree E limits reader)"
proof -
  show ?thesis
    unfolding serve_receive_pack_def Let_def
    by (intro keeps_decision keeps_andThen_ret keeps_andThen keeps_if keeps_on_state keeps_attempt keeps_on_writer
        keeps_init_repo keeps_open keeps_list_refs keeps_simple keeps_prod_eq keeps_sum_eq keeps_bind keeps_steps
        keeps_inspect_written keeps_rollback_written)
       (use no in auto)
qed

lemma keeps_recv_pack_post: "keeps P (recv_pack_post A B W H empty_tree E i limits body)"
  unfolding recv_pack_post_def by (intro keeps_intros keeps_open keeps_run_comparison)

lemma keeps_recv_pack_info_refs: "keeps P (recv_pack_info_refs A B W H i)"
  unfolding recv_pack_info_refs_def by (intro keeps_intros keeps_open keeps_init_repo keeps_list_refs)

lemma safe_decision:
  assumes ctx: "acc_authorize_preliminary A (build_push_refs us (preliminary_push_kind H)) = Inr ctx"
    and no: "\<not> authorised A B H empty_tree us" and us: "us \<noteq> []"
    and refs: "build_push_refs_async B repo us s0 = (Inr refs, s1)"
    and run: "run_comparison A B H empty_tree repo pack refs ex default_options (acc_authorize_push A ctx) s2 =
      (Inr auth, s3)"
    and rej: "(case auth of
        Inl msg \<Rightarrow> bindA (rollback_written B written) (\<lambda>_. retA (map (\<lambda>u. (refname u, msg)) us))
      | Inr _ \<Rightarrow> retA []) s4 = (Inr rejected, s5)"
  shows "rejected \<noteq> []"
proof -
  have "auth \<noteq> Inr ()"
    using run no ctx build_push_refs_async_Inr [OF refs] unfolding authorised_def by auto
  then show ?thesis using rej us by (cases auth) (auto simp: bindA_Inr)
qed

lemma safe_recv_pack_post:
  assumes no: "\<And>us rest. read_receive_request H limits body = Inr (us, rest) \<Longrightarrow>
      us \<noteq> [] \<and> \<not> authorised A B H empty_tree us"
  shows "returns (safe_response P) (recv_pack_post A B W H empty_tree E i limits body)"
  unfolding recv_pack_post_def
proof (intro returns_res_try returns_prod returns_sum returns_bind returns_ret safe_reject safe_stream, goal_cases)
  case prems: (1 x us rest ctx s1 r1 t1 repo staged s2 r2 t2 written s3 insp t3 inspected written' meta s4 refs t4 s5
      ex t5 s6 auth t6 s7 rejected t7)
  have "rejected \<noteq> []"
    by (rule safe_decision [OF prems(3)]) (use prems no in auto)
  then show ?case by (simp add: keeps_intros split_def)
qed

end

end
