(* ===== verification/Push_Properties.thy ===== *)
theory Push_Properties
  imports Push_Pipeline KV_Comparison
begin

text \<open>
  The push pipeline on the key-value backend: no ref is written without authorisation, and the
  client is told of success only when the whole batch took effect.
\<close>

section \<open>A pipe\<close>

text \<open>A writer that keeps what was sent and breaks when its reader has gone after \<open>room\<close> packets.\<close>

datatype packet = PText bytes | PFlush | PDelim | PBand channel bytes

record pipe =
  sent :: "packet list"
  room :: nat

definition pipe_put :: "packet \<Rightarrow> (pipe, error, unit) act" where
  "pipe_put p w =
     (if room w = 0 then (Inl (Ext ''broken pipe''), w)
      else (Inr (), \<lparr> sent = sent w @ [p], room = room w - 1 \<rparr>))"

definition pipe_writer :: "pipe pkt_writer" where
  "pipe_writer = \<lparr> w_text = (\<lambda>b. pipe_put (PText b)), w_flush = pipe_put PFlush, w_delim = pipe_put PDelim,
     w_band = (\<lambda>c b. pipe_put (PBand c b)) \<rparr>"

definition new_pipe :: "nat \<Rightarrow> pipe" where
  "new_pipe n = \<lparr> sent = [], room = n \<rparr>"

definition commits_of :: "cluster \<Rightarrow> (kv_store \<times> kv_writes) list" where
  "commits_of s = map (map_prod map_of map_of) (cl_commits s)"

lemma cluster_keeps:
  "backend_keeps (kv_backend G bundle_of T cluster_api H) (\<lambda>sd. ref_log (commits_of (fst sd)) = L)"
  unfolding commits_of_def by (rule cluster_backend.backend_keeps_axioms)

section \<open>Properties\<close>

text \<open>
  C2. No ref changes without authorisation (over a connection).  When a receive-pack session has
  ended, in success, in error or in a panic, either this process committed no write to any ref, or the
  preliminary check accepted exactly the updates the client sent and the authoriser said yes to a
  comparison of exactly these updates.
\<close>

theorem push_needs_authorisation:
  assumes run: "serve_receive_pack A (kv_backend G bundle_of T cluster_api H) W H empty_tree E limits reader
      ((s, d), w) = (r, ((t, d'), w'))"
  shows "ref_log (commits_of t) = ref_log (commits_of s) \<or>
    (\<exists>us rest. read_receive_request H limits reader = Inr (us, rest) \<and>
       authorised A (kv_backend G bundle_of T cluster_api H) H empty_tree us)"
  using keepsD [OF backend_keeps.keeps_serve_receive_pack [OF cluster_keeps] _ run] by fastforce

definition rejecting_access :: "(bytes, unit, sha1) repo_access" where
  "rejecting_access = demo_access\<lparr> acc_authorize_push := (\<lambda>_. Done (Inl ''no'')), acc_auto_init := True \<rparr>"

definition temp_ok :: temp_env where
  "temp_ok = \<lparr> tmp_create = Inr (), tmp_clone = Inr (), tmp_write = (\<lambda>_. Inr ()) \<rparr>"

lemma rejecting_not_authorised: "\<not> authorised rejecting_access B H empty_tree us"
  by (auto simp: authorised_def rejecting_access_def run_comparison_def Let_def)

theorem push_needs_authorisation_witness:
  "ref_log (commits_of (fst (fst (snd (serve_receive_pack rejecting_access demo_backend pipe_writer sha1_ops 4 temp_ok
     default_limits (push_request sha1_ops [] [demo_update] []) ((empty_cluster, empty_dir), new_pipe 100)))))) = []"
proof -
  let ?run = "serve_receive_pack rejecting_access demo_backend pipe_writer sha1_ops 4 temp_ok default_limits
     (push_request sha1_ops [] [demo_update] []) ((empty_cluster, empty_dir), new_pipe 100)"
  obtain r t d' w' where run: "?run = (r, ((t, d'), w'))" by (metis surj_pair)
  have "ref_log (commits_of empty_cluster) = []" by (simp add: ref_log_def commits_of_def empty_cluster_def)
  then show ?thesis
    using push_needs_authorisation [OF run [unfolded demo_backend_def]] run
    by (simp add: rejecting_not_authorised)
qed

text \<open>
  C6. No ref changes without authorisation (over HTTP).  The handler of a push request itself commits
  no write to any ref, and neither does the task that streams its response, unless the updates were
  authorised as above or there were none.
\<close>

theorem http_push_needs_authorisation:
  assumes run: "recv_pack_post A (kv_backend G bundle_of T cluster_api H) W H empty_tree E i limits body (s, d) =
      (Inr resp, (t, d'))"
  shows "ref_log (commits_of t) = ref_log (commits_of s) \<and>
    ((\<forall>L. safe_response (\<lambda>sd. ref_log (commits_of (fst sd)) = L) resp) \<or>
     (\<exists>us rest. read_receive_request H limits body = Inr (us, rest) \<and>
        (us = [] \<or> authorised A (kv_backend G bundle_of T cluster_api H) H empty_tree us)))"
proof
  show "ref_log (commits_of t) = ref_log (commits_of s)"
    using keepsD [OF backend_keeps.keeps_recv_pack_post [OF cluster_keeps] _ run] by simp
  show "(\<forall>L. safe_response (\<lambda>sd. ref_log (commits_of (fst sd)) = L) resp) \<or>
     (\<exists>us rest. read_receive_request H limits body = Inr (us, rest) \<and>
        (us = [] \<or> authorised A (kv_backend G bundle_of T cluster_api H) H empty_tree us))"
    using returnsD [OF backend_keeps.safe_recv_pack_post [OF cluster_keeps] run] by blast
qed

definition closed_access :: "(bytes, unit, sha1) repo_access" where
  "closed_access = demo_access\<lparr> acc_authorize_preliminary := (\<lambda>_. Inl ''denied'') \<rparr>"

lemma demo_request:
  "read_receive_request sha1_ops default_limits (push_request sha1_ops [] [demo_update] []) = Inr ([demo_update], [])"
  by (rule read_push_request [OF sha1.object_id_axioms])
     (simp_all add: demo_update_def sendable_def in_range_def NUL_def default_limits_def)

definition denied_response :: "(cluster \<times> cache_dir, pipe) git_response" where
  "denied_response = reject_response pipe_writer [demo_update] ''denied''"

theorem http_push_needs_authorisation_witness:
  "recv_pack_post closed_access demo_backend pipe_writer sha1_ops 4 temp_ok ''/srv/a.git'' default_limits
     (push_request sha1_ops [] [demo_update] []) (empty_cluster, empty_dir) =
     (Inr denied_response, (empty_cluster, empty_dir)) \<and>
   safe_response (\<lambda>sd. ref_log (commits_of (fst sd)) = []) denied_response"
proof -
  let ?resp = denied_response
  have run: "recv_pack_post closed_access demo_backend pipe_writer sha1_ops 4 temp_ok ''/srv/a.git'' default_limits
     (push_request sha1_ops [] [demo_update] []) (empty_cluster, empty_dir) =
     (Inr ?resp, (empty_cluster, empty_dir))"
    by (simp add: recv_pack_post_def demo_request res_try_def closed_access_def denied_response_def)
  have "\<not> authorised closed_access demo_backend sha1_ops 4 [demo_update]"
    by (simp add: authorised_def closed_access_def)
  with http_push_needs_authorisation [OF run [unfolded demo_backend_def]] demo_request run show ?thesis
    by (auto simp: demo_backend_def)
qed



text \<open>
  A push without updates that the authoriser rejects is answered like an accepted one: the
  response is the task of an accepted push, which runs \<open>post_receive\<close>.
\<close>

theorem empty_push_rejection_ignored:
  assumes "read_receive_request H limits body = Inr ([], [])" "acc_authorize_preliminary A [] = Inr ctx"
    and "acc_authorize_push A ctx = Done (Inl msg)" "be_open B i s = (Inr repo, s1)"
    and "be_list_refs B repo s1 = (Inr snapshot, s2)" "tmp_create E = Inr ()" "tmp_clone E = Inr ()"
  shows "recv_pack_post A B W H empty_tree E i limits body s =
    (Inr (stream_response (Some ''application/x-git-receive-pack-result'')
       (success_task A B W H empty_tree repo [] [] (tips_not_pushed [] snapshot) None)), s2)"
  using assms
  by (simp add: recv_pack_post_def res_try_def build_push_refs_def stage_pack_def chunks.simps ingest_staged_def
      inspect_written_def rollback_written_def build_push_refs_async_def existing_ref_tips_def run_comparison_def
      Let_def attempt_def bindA_def split: prod.splits)

definition repo_cluster :: cluster where
  "repo_cluster = empty_cluster\<lparr> cl_store := [(repo_index ''/srv/a.git'', encode_u64 1)] \<rparr>"

lemma demo_open:
  "\<exists>t. be_open demo_backend ''/srv/a.git'' (repo_cluster, empty_dir) = (Inr 1, (t, empty_dir)) \<and>
     cl_events t = [] \<and> cl_store t = cl_store repo_cluster"
  by (simp add: demo_backend_def kv_backend_def kv_act_def kv_open_inner_def quiet repo_cluster_def empty_cluster_def
      write_alist_def decode_encode_u64)

lemma demo_list_refs:
  assumes "cl_events t = []" "cl_store t = cl_store repo_cluster"
  shows "\<exists>u. be_list_refs demo_backend 1 (t, empty_dir) = (Inr \<lparr> rs_head = None, rs_refs = [] \<rparr>, (u, empty_dir))"
proof -
  have "repo_index ''/srv/a.git'' \<noteq> refkey 1 n" for n by (metis key_tags_distinct(3))
  then have "\<not> (refs_prefix_start 1 \<le> repo_index ''/srv/a.git'' \<and> repo_index ''/srv/a.git'' < refs_prefix_end 1)"
    unfolding refs_range_iff by blast
  then have "cl_scan (cl_store repo_cluster) (refs_prefix_start 1) (refs_prefix_end 1) SCAN_LIMIT = []"
    by (auto simp: cl_scan_def repo_cluster_def)
  with assms show ?thesis
    by (simp add: demo_backend_def kv_backend_def kv_act_def kv_list_refs_def kv_list_refs_body_def quiet
        write_alist_def cluster_api_def head_of_def)
qed

theorem empty_push_rejection_ignored_witness:
  "\<exists>t. recv_pack_post rejecting_access demo_backend pipe_writer sha1_ops 4 temp_ok ''/srv/a.git'' default_limits ''0000''
      (repo_cluster, empty_dir) =
    (Inr (stream_response (Some ''application/x-git-receive-pack-result'')
       (success_task rejecting_access demo_backend pipe_writer sha1_ops 4 1 [] [] [] None)), t)"
proof -
  obtain t where t: "be_open demo_backend ''/srv/a.git'' (repo_cluster, empty_dir) = (Inr 1, (t, empty_dir))"
    "cl_events t = []" "cl_store t = cl_store repo_cluster" using demo_open by blast
  obtain u where u: "be_list_refs demo_backend 1 (t, empty_dir) =
      (Inr \<lparr> rs_head = None, rs_refs = [] \<rparr>, (u, empty_dir))" using demo_list_refs [OF t(2,3)] by blast
  have body: "read_receive_request sha1_ops default_limits ''0000'' = Inr ([], [])"
    using read_push_request [OF sha1.object_id_axioms, of "[]" "[]" default_limits "[]"]
    by (simp add: push_request_def)
  show ?thesis
    using empty_push_rejection_ignored [OF body _ _ t(1) u, of rejecting_access "()" "''no''" temp_ok pipe_writer 4]
    by (simp add: rejecting_access_def demo_access_def default_access_def temp_ok_def tips_not_pushed_def)
qed

end
