(* ===== verification/Fetch_Pipeline.thy ===== *)
theory Fetch_Pipeline
  imports Push_Pipeline
begin

text \<open>
  Serving a fetch: \<open>mizzle/src/ls_refs.rs\<close>, \<open>mizzle/src/fetch.rs\<close> and the upload-pack half of
  \<open>mizzle/src/serve.rs\<close>, with the two protocol dispatchers.
\<close>

section \<open>Listing refs\<close>

definition head_line :: "'o oid_ops \<Rightarrow> list_refs_args \<Rightarrow> 'o head_info option \<Rightarrow> bytes option" where
  "head_line H args head =
     (case head of
        Some h \<Rightarrow>
          (if la_symrefs args then
             (case hi_symref h of
                Some target \<Rightarrow> Some (to_hex H (hi_oid h) @ '' HEAD symref-target:'' @ target)
              | None \<Rightarrow> Some (to_hex H (hi_oid h) @ '' HEAD''))
           else Some (to_hex H (hi_oid h) @ '' HEAD''))
      | None \<Rightarrow> if la_unborn args then Some ''unborn HEAD'' else None)"

definition selected :: "list_refs_args \<Rightarrow> 'o ref_info \<Rightarrow> bool" where
  "selected args r \<longleftrightarrow> la_prefixes args = [] \<or> list_ex (\<lambda>p. starts_with (ri_name r) p) (la_prefixes args)"

definition ref_line :: "'o oid_ops \<Rightarrow> list_refs_args \<Rightarrow> 'o ref_info \<Rightarrow> bytes" where
  "ref_line H args r =
     (let base = to_hex H (ri_oid r) @ '' '' @ ri_name r in
      case (ri_symref r, ri_peeled r) of
        (Some target, _) \<Rightarrow> if la_symrefs args then base @ '' symref-target:'' @ target else base
      | (None, Some p) \<Rightarrow> if la_peel args then base @ '' peeled:'' @ to_hex H p else base
      | _ \<Rightarrow> base)"

definition perform_listrefs ::
  "'w pkt_writer \<Rightarrow> 'o oid_ops \<Rightarrow> 'o refs_snapshot \<Rightarrow> list_refs_args \<Rightarrow> ('w, error, unit) act" where
  "perform_listrefs W H snapshot args =
     bindA (case head_line H args (rs_head snapshot) of None \<Rightarrow> retA () | Some l \<Rightarrow> w_text W l) (\<lambda>_.
     bindA (forA (rs_refs snapshot) (\<lambda>r. if selected args r then w_text W (ref_line H args r) else retA ())) (\<lambda>_.
       w_flush W))"

section \<open>Fetching\<close>

definition known_haves :: "'o list \<Rightarrow> bool list \<Rightarrow> 'o list" where
  "known_haves have known = List.map_filter (\<lambda>(x, e). if e then Some x else None) (zip have known)"

definition drain_progress :: "'w pkt_writer \<Rightarrow> bytes list \<Rightarrow> ('w, error, unit) act" where
  "drain_progress W msgs = forA msgs (w_band W ProgressChannel)"

definition poll :: "bytes list list option \<Rightarrow> bytes list \<times> bytes list list option" where
  "poll rx = (case rx of None \<Rightarrow> ([], None) | Some [] \<Rightarrow> ([], Some []) | Some (m # ms) \<Rightarrow> (m, Some ms))"

fun stream_pack_sideband ::
  "'w pkt_writer \<Rightarrow> bytes res list \<Rightarrow> bytes list list option \<Rightarrow> ('w, error, unit) act" where
  "stream_pack_sideband W [] rx =
     bindA (drain_progress W (fst (poll rx))) (\<lambda>_. drain_progress W (fst (poll (snd (poll rx)))))"
| "stream_pack_sideband W (r # rs) rx =
     bindA (drain_progress W (fst (poll rx))) (\<lambda>_.
       case r of
         Inl e \<Rightarrow> failA e
       | Inr [] \<Rightarrow> drain_progress W (fst (poll (snd (poll rx))))
       | Inr (b # bs) \<Rightarrow> bindA (w_band W DataChannel (b # bs)) (\<lambda>_. stream_pack_sideband W rs (snd (poll rx))))"

definition pack_opts :: "'o fetch_args \<Rightarrow> pack_options res" where
  "pack_opts args =
     bindR (case fa_filter args of None \<Rightarrow> Inr None | Some f \<Rightarrow> bindR (filter_parse f) (\<lambda>p. Inr (Some p))) (\<lambda>flt.
       Inr \<lparr> opt_deepen = fa_deepen args, opt_filter = flt, opt_thin_pack = fa_thin_pack args \<rparr>)"

definition acknowledge :: "'w pkt_writer \<Rightarrow> 'o oid_ops \<Rightarrow> 'o list \<Rightarrow> ('w, error, unit) act" where
  "acknowledge W H have =
     bindA (w_text W ''acknowledgments'') (\<lambda>_.
       if have = [] then w_text W ''NAK'' else forA have (\<lambda>x. w_text W (''ACK '' @ to_hex H x)))"

definition send_pack ::
  "'w pkt_writer \<Rightarrow> 'o fetch_args \<Rightarrow> 'o pack_output \<Rightarrow> ('w, error, unit) act" where
  "send_pack W args out =
     bindA (stream_pack_sideband W (out_reader out) (if fa_no_progress args then None else out_progress out)) (\<lambda>_.
       w_flush W)"

definition build_requested ::
  "('id, 'r, 'p, 'o, 's) backend \<Rightarrow> 'r \<Rightarrow> 'o fetch_args \<Rightarrow> 'o list \<Rightarrow> ('s \<times> 'w, stop, error + 'o pack_output) act" where
  "build_requested B repo args have =
     andThen (retA (pack_opts args)) (\<lambda>opts. on_state (attempt_opt (be_build_pack B repo (fa_want args) have opts)))"

definition perform_fetch ::
  "('id, 'r, 'p, 'o, 's) backend \<Rightarrow> 'w pkt_writer \<Rightarrow> 'o oid_ops \<Rightarrow> 'r \<Rightarrow> 'o fetch_args
     \<Rightarrow> ('s \<times> 'w, stop, error + unit) act" where
  "perform_fetch B W H repo args =
     andThen (on_state (attempt (be_has_objects B repo (fa_have args)))) (\<lambda>known.
       let have = known_haves (fa_have args) known;
           ready = (have \<noteq> [] \<and> \<not> fa_wait_for_done args);
           rest = andThen (build_requested B repo args have) (\<lambda>out.
                    attempt (on_writer (
                      bindA (if out_shallow out = [] then retA ()
                             else bindA (w_text W ''shallow-info'') (\<lambda>_.
                                  bindA (forA (out_shallow out) (\<lambda>x. w_text W (''shallow '' @ to_hex H x))) (\<lambda>_.
                                    w_delim W))) (\<lambda>_.
                      bindA (w_text W ''packfile'') (\<lambda>_. send_pack W args out)))))
       in if fa_done args then rest
          else andThen (attempt (on_writer (acknowledge W H have))) (\<lambda>_.
                 if \<not> ready then attempt (on_writer (w_flush W))
                 else andThen (attempt (on_writer (bindA (w_text W ''ready'') (\<lambda>_. w_delim W)))) (\<lambda>_. rest)))"

definition perform_fetch_v1 ::
  "('id, 'r, 'p, 'o, 's) backend \<Rightarrow> 'w pkt_writer \<Rightarrow> 'o oid_ops \<Rightarrow> 'r \<Rightarrow> 'o fetch_args
     \<Rightarrow> ('s \<times> 'w, stop, error + unit) act" where
  "perform_fetch_v1 B W H repo args =
     andThen (on_state (attempt (be_has_objects B repo (fa_have args)))) (\<lambda>known.
     andThen (build_requested B repo args (known_haves (fa_have args) known)) (\<lambda>out.
       attempt (on_writer (
         bindA (forA (out_shallow out) (\<lambda>x. w_text W (''shallow '' @ to_hex H x))) (\<lambda>_.
         bindA (w_text W ''NAK'') (\<lambda>_. send_pack W args out))))))"

section \<open>Advertisements\<close>

definition upload_caps :: bytes where
  "upload_caps = ''side-band-64k ofs-delta shallow filter agent=mizzle/dev''"

definition upload_pack_v1_refs :: "'w pkt_writer \<Rightarrow> 'o oid_ops \<Rightarrow> ('o \<times> bytes) list \<Rightarrow> ('w, error, unit) act" where
  "upload_pack_v1_refs W H refs = advertise_refs W H upload_caps refs"

definition service_preamble :: "'w pkt_writer \<Rightarrow> ('w, error, unit) act" where
  "service_preamble W = bindA (w_text W ''# service=git-upload-pack'') (\<lambda>_. w_flush W)"

definition info_refs_upload_pack_v1_task ::
  "'w pkt_writer \<Rightarrow> 'o oid_ops \<Rightarrow> ('o \<times> bytes) list \<Rightarrow> ('s, 'w) task" where
  "info_refs_upload_pack_v1_task W H refs =
     logged (on_writer (bindA (service_preamble W) (\<lambda>_. upload_pack_v1_refs W H refs)))"

definition capability_advertisement_v2 :: "'w pkt_writer \<Rightarrow> ('w, error, unit) act" where
  "capability_advertisement_v2 W =
     bindA (w_text W ''version 2'') (\<lambda>_.
     bindA (w_text W ''agent=mizzle/dev'') (\<lambda>_.
     bindA (w_text W ''ls-refs=unborn'') (\<lambda>_.
     bindA (w_text W ''fetch=ref-in-want wait-for-done shallow filter'') (\<lambda>_. w_flush W))))"

definition info_refs_task :: "'w pkt_writer \<Rightarrow> ('s, 'w) task" where
  "info_refs_task W = logged (on_writer (bindA (service_preamble W) (\<lambda>_. capability_advertisement_v2 W)))"

section \<open>Dispatch over HTTP\<close>

text \<open>The wants named by ref: a name that does not resolve, or fails to, is skipped.\<close>

definition resolve_wants ::
  "('id, 'r, 'p, 'o, 's) backend \<Rightarrow> 'r \<Rightarrow> 'o fetch_args \<Rightarrow> ('s, stop, 'o fetch_args) act" where
  "resolve_wants B repo args =
     foldA (\<lambda>args name.
       bindA (attempt (be_resolve_ref B repo name)) (\<lambda>r.
         retA (case r of Inr (Some x) \<Rightarrow> args\<lparr> fa_want := fa_want args @ [x] \<rparr> | _ \<Rightarrow> args)))
       args (fa_want_refs args)"

definition plain_response :: "nat \<Rightarrow> bytes option \<Rightarrow> bytes option \<Rightarrow> ('s, 'w) git_response" where
  "plain_response code ct body =
     \<lparr> status_code = code, resp_content_type = ct, resp_reader = None, resp_body = body \<rparr>"

definition wants_service :: "bytes \<Rightarrow> bytes \<Rightarrow> bool" where
  "wants_service query service = list_ex (\<lambda>kv. kv = ''service='' @ service) (split_on (CHR ''&'') query)"

definition fetch_task :: "('s \<times> 'w, stop, error + unit) act \<Rightarrow> ('s, 'w) task" where
  "fetch_task m = bindA m (\<lambda>_. retA ())"

definition serve_git_protocol_1 ::
  "('id, 'c, 'o) repo_access \<Rightarrow> ('id, 'r, 'p, 'o, 's) backend \<Rightarrow> 'w pkt_writer \<Rightarrow> 'o oid_ops \<Rightarrow> 'o \<Rightarrow> temp_env
     \<Rightarrow> (bytes \<Rightarrow> parser) \<Rightarrow> bytes \<Rightarrow> bytes \<Rightarrow> bytes \<Rightarrow> protocol_limits \<Rightarrow> bytes \<Rightarrow> ('s, stop, ('s, 'w) git_response) act" where
  "serve_git_protocol_1 A B W H empty_tree E packets path query content_type limits body =
     (let i = acc_repo_id A in
      if path = ''info/refs'' \<and> wants_service query ''git-receive-pack'' then recv_pack_info_refs A B W H i
      else if path = ''info/refs'' \<and> wants_service query ''git-upload-pack'' then
        bindA (if acc_auto_init A then attempt (be_init_repo B i) else retA (Inr ())) (\<lambda>r. res_try r (\<lambda>_.
        bindA (attempt (be_open B i)) (\<lambda>r. res_try r (\<lambda>repo.
        bindA (attempt (be_list_refs B repo)) (\<lambda>r. res_try r (\<lambda>snapshot.
          retA (stream_response (Some ''application/x-git-upload-pack-advertisement'')
                 (info_refs_upload_pack_v1_task W H (as_upload_pack_v1 snapshot)))))))))
      else if path = ''git-receive-pack'' then
        (if content_type \<noteq> ''application/x-git-receive-pack-request''
         then retA (plain_response 400 None (Some ''Expected content type application/x-git-receive-pack-request''))
         else recv_pack_post A B W H empty_tree E i limits body)
      else if path = ''git-upload-pack'' then
        (if content_type \<noteq> ''application/x-git-upload-pack-request''
         then retA (plain_response 400 None (Some ''Expected content type application/x-git-upload-pack-request''))
         else
           bindA (attempt (be_open B i)) (\<lambda>r. res_try r (\<lambda>repo.
           res_try (read_fetch_args_v1 H limits (packets body)) (\<lambda>args.
           bindA (resolve_wants B repo args) (\<lambda>args.
             retA (stream_response None (fetch_task (perform_fetch_v1 B W H repo args))))))))
      else retA (plain_response 404 None None))"

definition serve_git_protocol_2 ::
  "('id, 'c, 'o) repo_access \<Rightarrow> ('id, 'r, 'p, 'o, 's) backend \<Rightarrow> 'w pkt_writer \<Rightarrow> 'o oid_ops \<Rightarrow> 'o \<Rightarrow> temp_env
     \<Rightarrow> (bytes \<Rightarrow> parser) \<Rightarrow> bytes \<Rightarrow> bytes \<Rightarrow> bytes \<Rightarrow> protocol_limits \<Rightarrow> bytes \<Rightarrow> ('s, stop, ('s, 'w) git_response) act" where
  "serve_git_protocol_2 A B W H empty_tree E packets path query content_type limits body =
     (let i = acc_repo_id A in
      if path = ''info/refs'' \<and> wants_service query ''git-receive-pack'' then recv_pack_info_refs A B W H i
      else if path = ''info/refs'' then
        retA (stream_response (Some ''application/x-git-upload-pack-advertisement'') (info_refs_task W))
      else if path = ''git-receive-pack'' then
        (if content_type \<noteq> ''application/x-git-receive-pack-request''
         then retA (plain_response 400 None (Some ''Expected content type application/x-git-receive-pack-request''))
         else recv_pack_post A B W H empty_tree E i limits body)
      else if path = ''git-upload-pack'' then
        (if content_type \<noteq> ''application/x-git-upload-pack-request''
         then retA (plain_response 400 (Some ''application/x-git-upload-pack-advertisement'')
                      (Some ''Expected content type application/x-git-upload-pack-request''))
         else
           res_try (read_command (packets body)) (\<lambda>(command, parser).
             case command of
               ListRefs \<Rightarrow>
                 res_try (read_lsrefs_args limits parser) (\<lambda>(args, _).
                 bindA (attempt (be_open B i)) (\<lambda>r. res_try r (\<lambda>repo.
                 bindA (attempt (be_list_refs B repo)) (\<lambda>r. res_try r (\<lambda>snapshot.
                   retA (stream_response None (logged (on_writer (perform_listrefs W H snapshot args)))))))))
             | Empty \<Rightarrow> retA (plain_response 404 None None)
             | Fetch \<Rightarrow>
                 bindA (attempt (be_open B i)) (\<lambda>r. res_try r (\<lambda>repo.
                 res_try (read_fetch_args H limits parser) (\<lambda>(args, _).
                 bindA (resolve_wants B repo args) (\<lambda>args.
                   retA (stream_response None (fetch_task (perform_fetch B W H repo args)))))))))
      else retA (plain_response 404 None None))"

section \<open>A session over a connection\<close>

text \<open>Every command consumes packets, so the loop of a version 2 session ends.\<close>

lemma next_line_shorter: "next_line m p = Inr (l, p') \<Longrightarrow> length p' < length p"
  by (induction m p rule: next_line.induct) auto

lemma read_command_shorter: "read_command p = Inr (c, p') \<Longrightarrow> length p' < length p"
proof -
  assume run: "read_command p = Inr (c, p')"
  then obtain l q where l: "next_line ''no line when expecting command'' p = Inr (l, q)"
    by (auto simp: read_command_def bindR_eq_Inr)
  with run have "p' = q"
    by (cases l) (auto simp: read_command_def bindR_eq_Inr split: if_splits)
  with next_line_shorter [OF l] show ?thesis by simp
qed

lemma skip_shorter: "skip_till_delimiter p = Inr p' \<Longrightarrow> length p' \<le> length p"
  by (induction p rule: skip_till_delimiter.induct) (auto split: if_splits)

lemma args_loop_shorter: "args_loop step args p = Inr (a, p') \<Longrightarrow> length p' \<le> length p"
  by (induction step args p rule: args_loop.induct) (force simp: res_simps)+

lemma read_args_shorter:
  "read_lsrefs_args lim p = Inr (la, p') \<Longrightarrow> length p' \<le> length p"
  "read_fetch_args H lim p = Inr (fa, p') \<Longrightarrow> length p' \<le> length p"
  unfolding read_lsrefs_args_def read_fetch_args_def
  by (auto simp: res_simps dest!: skip_shorter args_loop_shorter)

function upload_session ::
  "('id, 'r, 'p, 'o, 's) backend \<Rightarrow> 'w pkt_writer \<Rightarrow> 'o oid_ops \<Rightarrow> protocol_limits \<Rightarrow> 'r \<Rightarrow> parser
     \<Rightarrow> ('s \<times> 'w, stop, error + unit) act" where
  "upload_session B W H limits repo p =
     (case read_command p of
        Inl _ \<Rightarrow> retA (Inr ())
      | Inr (command, p1) \<Rightarrow>
          (case command of
             ListRefs \<Rightarrow>
               (case read_lsrefs_args limits p1 of
                  Inl e \<Rightarrow> retA (Inl e)
                | Inr (args, p2) \<Rightarrow>
                    andThen (on_state (attempt (be_list_refs B repo))) (\<lambda>snapshot.
                    andThen (attempt (on_writer (perform_listrefs W H snapshot args))) (\<lambda>_.
                      upload_session B W H limits repo p2)))
           | Fetch \<Rightarrow>
               (case read_fetch_args H limits p1 of
                  Inl e \<Rightarrow> retA (Inl e)
                | Inr (args, p2) \<Rightarrow>
                    bindA (on_state (resolve_wants B repo args)) (\<lambda>args.
                    andThen (perform_fetch B W H repo args) (\<lambda>_.
                      upload_session B W H limits repo p2)))
           | Empty \<Rightarrow> retA (Inr ())))"
  by pat_completeness auto
termination
proof (relation "measure (\<lambda>(B, W, H, limits, repo, p). length p)", goal_cases)
  case (2 B W H limits repo p r c p1 r' args p2)
  then show ?case using read_command_shorter [of p c p1] read_args_shorter(2) [of H limits p1 args p2] by simp
next
  case (3 B W H limits repo p r c p1 r' args p2)
  then show ?case using read_command_shorter [of p c p1] read_args_shorter(1) [of limits p1 args p2] by simp
qed simp

declare upload_session.simps [simp del]

definition serve_upload_pack ::
  "('id, 'c, 'o) repo_access \<Rightarrow> ('id, 'r, 'p, 'o, 's) backend \<Rightarrow> 'w pkt_writer \<Rightarrow> 'o oid_ops \<Rightarrow> nat \<Rightarrow> protocol_limits
     \<Rightarrow> parser \<Rightarrow> ('s \<times> 'w, stop, error + unit) act" where
  "serve_upload_pack A B W H version limits p =
     (let i = acc_repo_id A in
      andThen (if acc_auto_init A then on_state (attempt (be_init_repo B i)) else retA (Inr ())) (\<lambda>_.
      andThen (on_state (attempt (be_open B i))) (\<lambda>repo.
        if 2 \<le> version then
          andThen (attempt (on_writer (capability_advertisement_v2 W))) (\<lambda>_. upload_session B W H limits repo p)
        else
          andThen (on_state (attempt (be_list_refs B repo))) (\<lambda>snapshot.
          andThen (attempt (on_writer (upload_pack_v1_refs W H (as_upload_pack_v1 snapshot)))) (\<lambda>_.
          andThen (retA (read_fetch_args_v1 H limits p)) (\<lambda>args.
          bindA (on_state (resolve_wants B repo args)) (\<lambda>args.
            perform_fetch_v1 B W H repo args)))))))"

end
