(* ===== verification/KV_Pack_Properties.thy ===== *)
theory KV_Pack_Properties
  imports KV_Comparison "HOL-Library.Multiset"
begin

text \<open>
  What \<open>build_pack\<close> of the key-value backend puts into a pack, on a store nobody changes meanwhile:
  the objects of the wanted history that the client's history does not have, all of them, and the
  collection ends whatever the trees in the store look like.
\<close>

section \<open>Reading one object\<close>

definition snapped :: "(bytes \<times> bytes) list \<Rightarrow> cluster \<Rightarrow> bool" where
  "snapped m s \<longleftrightarrow> idle m s \<and> cl_snap s = m"

lemma snapped_get:
  "triple (snapped m) (kv_get cluster_api k) (\<lambda>v s. v = map_of m k \<and> snapped m s) (\<lambda>_. snapped m)"
proof -
  have run: "snapped m t \<and> (\<forall>v. r = Inr v \<longrightarrow> v = map_of m k)"
    if s: "snapped m s" and r: "kv_get cluster_api k s = (r, t)" for s r t
  proof -
    obtain b s1 where b: "cl_tick s = (b, s1)" by fastforce
    have "idle m s1" using s idle_tick [OF _ b] by (simp add: snapped_def)
    moreover have "cl_snap s1 = m" using s cl_tick_frame [OF b] by (simp add: snapped_def)
    ultimately show ?thesis
      using r b by (cases b) (auto simp: cluster_ops cl_op_def cl_view_def snapped_def idle_def write_alist_def)
  qed
  then show ?thesis by (auto intro!: tripleI)
qed

lemma steady_begin:
  assumes "steady m s" "begin_optimistic cluster_api s = (r, t)"
  shows "if r = Inr () then snapped m t else steady m t"
proof -
  obtain b s1 where b: "cl_tick s = (b, s1)" by fastforce
  with assms steady_tick have "steady m s1" by blast
  with assms b show ?thesis
    by (cases b) (auto simp: cluster_ops cl_begin_def cl_op_def snapped_def idle_def steady_def)
qed

lemma steady_finalize_read:
  assumes "snapped m s" "finalize_read cluster_api res s = (r, t)"
  shows "r = res \<and> steady m t"
proof -
  obtain b s1 where b: "cl_tick s = (b, s1)" by fastforce
  with assms(1) have "idle m s1" using idle_tick by (auto simp: snapped_def)
  with assms(2) b show ?thesis
    by (cases res; cases b)
       (auto simp: finalize_read_def cluster_ops cl_op_def idle_def steady_def write_alist_def)
qed

lemma steady_read:
  assumes body: "triple (snapped m) body (\<lambda>x s. Q x \<and> snapped m s) (\<lambda>_. snapped m)"
  shows "triple (steady m) (read_txn cluster_api msg body) (\<lambda>x s. Q x \<and> steady m s) (\<lambda>_. steady m)"
proof -
  have run: "steady m t \<and> (\<forall>x. r = Inr x \<longrightarrow> Q x)"
    if s: "steady m s" and r: "read_txn cluster_api msg body s = (r, t)" for s r t
  proof -
    obtain b s1 where b: "begin_optimistic cluster_api s = (b, s1)" by fastforce
    show ?thesis
    proof (cases b)
      case (Inl e)
      with r b steady_begin [OF s b] show ?thesis by (auto simp: read_txn_def act_defs)
    next
      case (Inr u)
      then have s1: "snapped m s1" using steady_begin [OF s b] by simp
      obtain r2 s2 where b2: "body s1 = (r2, s2)" by fastforce
      then have s2: "snapped m s2" "\<forall>x. r2 = Inr x \<longrightarrow> Q x"
        using triple_Inr [OF body s1] triple_Inl [OF body s1] by (cases r2; fastforce)+
      have "finalize_read cluster_api r2 s2 = (r, t)" using r b Inr b2 by (simp add: read_txn_def act_defs)
      with steady_finalize_read [OF s2(1) this] s2(2) show ?thesis by simp
    qed
  qed
  then show ?thesis by (auto intro!: tripleI)
qed

lemma steady_get:
  "triple (steady m) (read_txn cluster_api msg (bindA (ctxA c (kv_get cluster_api k)) (\<lambda>v. retA (f v))))
     (\<lambda>x s. x = f (map_of m k) \<and> steady m s) (\<lambda>_. steady m)"
  by (rule steady_read, rule triple_bind, rule triple_ctx, rule snapped_get) (auto intro: triple_ret)

section \<open>The trees of a store\<close>

definition entries_of :: "'o pack_tools \<Rightarrow> 'o oid_ops \<Rightarrow> repo_id \<Rightarrow> (bytes \<times> bytes) list \<Rightarrow> 'o \<Rightarrow> 'o tree_entry list" where
  "entries_of T H rid m x =
     (case map_of m (obj H rid x) of
        Some (k # d) \<Rightarrow> if k = KIND_TREE then (case pt_tree T d of Inr es \<Rightarrow> es | Inl _ \<Rightarrow> []) else []
      | _ \<Rightarrow> [])"

definition tree_children :: "'o pack_tools \<Rightarrow> 'o oid_ops \<Rightarrow> repo_id \<Rightarrow> (bytes \<times> bytes) list \<Rightarrow> 'o \<Rightarrow> 'o list" where
  "tree_children T H rid m x = map te_oid (entries_of T H rid m x)"

definition commit_tree ::
  "object_parser \<Rightarrow> 'o oid_ops \<Rightarrow> repo_id \<Rightarrow> (bytes \<times> bytes) list \<Rightarrow> 'o \<Rightarrow> 'o option" where
  "commit_tree G H rid m c =
     (case map_of m (obj H rid c) of
        Some (k # d) \<Rightarrow>
          if u64_max < length d then None
          else (case parse_commit G d of
                  Inl _ \<Rightarrow> None
                | Inr r \<Rightarrow> (case from_hex H (cr_tree r) of Inr t \<Rightarrow> Some t | Inl _ \<Rightarrow> None))
      | _ \<Rightarrow> None)"

text \<open>The mode of a tree entry tells its kind: an entry that is not a tree does not name a tree.\<close>

definition modes_agree :: "'o pack_tools \<Rightarrow> 'o oid_ops \<Rightarrow> repo_id \<Rightarrow> (bytes \<times> bytes) list \<Rightarrow> bool" where
  "modes_agree T H rid m \<longleftrightarrow>
     (\<forall>x. \<forall>e \<in> set (entries_of T H rid m x). \<not> te_is_tree e \<longrightarrow> entries_of T H rid m (te_oid e) = [])"

lemma finite_tree_children:
  assumes "object_id H"
  shows "finite {x. tree_children T H rid m x \<noteq> []}"
proof -
  have "{x. tree_children T H rid m x \<noteq> []} \<subseteq> {x. obj H rid x \<in> dom (map_of m)}"
    by (auto simp: tree_children_def entries_of_def split: option.splits)
  moreover have "finite {x. obj H rid x \<in> dom (map_of m)}"
    using finite_vimageI [OF finite_dom_map_of [of m], of "obj H rid"]
    by (simp add: vimage_def inj_def object_id.obj_inj [OF assms])
  ultimately show ?thesis by (rule finite_subset)
qed

lemma steady_read_tree:
  "triple (steady m) (read_object_of_kind cluster_api H rid x KIND_TREE)
     (\<lambda>v s. v = (case map_of m (obj H rid x) of Some (k # d) \<Rightarrow> if k = KIND_TREE then Some d else None | _ \<Rightarrow> None) \<and>
        steady m s) (\<lambda>_. steady m)"
  unfolding read_object_of_kind_def by (rule steady_get)

lemma steady_read_commit_tree:
  "triple (steady m) (read_commit_tree G cluster_api H rid c)
     (\<lambda>v s. v = commit_tree G H rid m c \<and> steady m s) (\<lambda>_. steady m)"
proof -
  have "triple (steady m) (read_object_with_kind cluster_api H rid c u64_max)
     (\<lambda>v s. (case map_of m (obj H rid c) of
          Some (k # d) \<Rightarrow> v = (if u64_max < length d then None else Some (k, d))
        | None \<Rightarrow> v = None | Some [] \<Rightarrow> False) \<and> steady m s) (\<lambda>_. steady m)"
    unfolding read_object_with_kind_def
  proof (rule steady_read, rule triple_bind, rule triple_ctx, rule snapped_get)
    fix v
    show "triple (\<lambda>s. v = map_of m (obj H rid c) \<and> snapped m s)
       (case v of None \<Rightarrow> retA None
        | Some b \<Rightarrow> bindA (liftA (decode_object b)) (\<lambda>(kind, data).
            if u64_max < length data then retA None else retA (Some (kind, data))))
       (\<lambda>x s. (case map_of m (obj H rid c) of
            Some (k # d) \<Rightarrow> x = (if u64_max < length d then None else Some (k, d))
          | None \<Rightarrow> x = None | Some [] \<Rightarrow> False) \<and> snapped m s) (\<lambda>_. snapped m)"
      by (cases "map_of m (obj H rid c)"; cases v) (auto simp: triple_def decode_object_def bindA_def split: list.splits)
  qed
  note raw = this
  have run: "steady m t \<and> (\<forall>v. r = Inr v \<longrightarrow> v = commit_tree G H rid m c)"
    if s: "steady m s" and r: "read_commit_tree G cluster_api H rid c s = (r, t)" for s r t
  proof -
    obtain q s1 where q: "read_object_with_kind cluster_api H rid c u64_max s = (q, s1)" by fastforce
    show ?thesis
    proof (cases q)
      case (Inl e)
      with r q triple_Inl [OF raw s] show ?thesis
        by (auto simp: read_commit_tree_def kv_read_object_raw_def bindA_def)
    next
      case (Inr v)
      then have v: "steady m s1" "case map_of m (obj H rid c) of
          Some (k # d) \<Rightarrow> v = (if u64_max < length d then None else Some (k, d)) | None \<Rightarrow> v = None | Some [] \<Rightarrow> False"
        using triple_Inr [OF raw s] q by auto
      have "t = s1" "r = Inr (case map_option snd v of None \<Rightarrow> None
          | Some d \<Rightarrow> (case parse_commit G d of Inl _ \<Rightarrow> None
              | Inr c \<Rightarrow> (case from_hex H (cr_tree c) of Inr t \<Rightarrow> Some t | Inl _ \<Rightarrow> None)))"
        using r q Inr by (auto simp: read_commit_tree_def kv_read_object_raw_def bindA_def)
      with v show ?thesis
        by (cases "map_of m (obj H rid c)") (auto simp: commit_tree_def split: list.splits if_splits)
    qed
  qed
  then show ?thesis by (auto intro!: tripleI)
qed

section \<open>Collecting the objects of a tree\<close>

lemma add_entries_spec:
  "add_entries acc stack es = (acc', stack') \<Longrightarrow>
   set acc' = set acc \<union> te_oid ` set es \<and> set stack \<subseteq> set stack' \<and> set stack' \<subseteq> set stack \<union> te_oid ` set es \<and>
   set acc' \<subseteq> set acc \<union> set stack' \<union> te_oid ` {e \<in> set es. \<not> te_is_tree e}"
proof (induction acc stack es rule: add_entries.induct)
  case (2 acc stack e es)
  define N N' I where "N = te_oid ` {e \<in> set es. \<not> te_is_tree e}"
    and "N' = te_oid ` {e' \<in> set (e # es). \<not> te_is_tree e'}" and "I = te_oid ` set es"
  have N: "N \<subseteq> N'" "\<not> te_is_tree e \<Longrightarrow> te_oid e \<in> N'" by (auto simp: N_def N'_def)
  have I: "te_oid ` set (e # es) = insert (te_oid e) I" by (simp add: I_def)
  have "set acc' = set acc \<union> insert (te_oid e) I \<and> set stack \<subseteq> set stack' \<and>
      set stack' \<subseteq> set stack \<union> insert (te_oid e) I \<and> set acc' \<subseteq> set acc \<union> set stack' \<union> N'"
  proof (cases "te_is_tree e \<and> te_oid e \<notin> set acc")
    case True
    with 2(3) have "add_entries (hs_insert (te_oid e) acc) (te_oid e # stack) es = (acc', stack')" by simp
    note h = 2(1) [OF True this, folded N_def I_def, unfolded set_hs_insert list.set(2)]
    show ?thesis by (intro conjI) (use h N(1) in blast)+
  next
    case False
    with 2(3) have "add_entries (hs_insert (te_oid e) acc) stack es = (acc', stack')" by auto
    note h = 2(2) [OF False this, folded N_def I_def, unfolded set_hs_insert]
    show ?thesis by (intro conjI) (use h N False in blast)+
  qed
  then show ?case unfolding I N'_def [symmetric] .
qed simp

lemma add_entries_room:
  "add_entries acc stack es = (acc', stack') \<Longrightarrow> finite U \<Longrightarrow> te_oid ` set es \<subseteq> U \<Longrightarrow>
   length stack' + card (U - set acc') \<le> length stack + card (U - set acc)"
proof (induction acc stack es rule: add_entries.induct)
  case (2 acc stack e es)
  let ?V = "U - insert (te_oid e) (set acc)"
  have le: "card ?V \<le> card (U - set acc)" using 2(4) by (intro card_mono) auto
  show ?case
  proof (cases "te_is_tree e \<and> te_oid e \<notin> set acc")
    case True
    then have "Suc (card (U - set acc - {te_oid e})) = card (U - set acc)"
      using 2(4,5) by (intro card_Suc_Diff1) auto
    moreover have "U - set acc - {te_oid e} = ?V" by auto
    ultimately have "Suc (card ?V) = card (U - set acc)" by simp
    with 2(1) [OF True] 2(3-5) True show ?thesis by simp
  next
    case False
    then have "add_entries (hs_insert (te_oid e) acc) stack es = (acc', stack')" using 2(3) by auto
    with 2(2) [OF False] 2(4,5) le show ?thesis by simp
  qed
qed simp

text \<open>Everything seen so far is still to be expanded or has its entries among what was seen.\<close>

definition expanded :: "('o \<Rightarrow> 'o list) \<Rightarrow> 'o list \<Rightarrow> 'o list \<Rightarrow> bool" where
  "expanded C acc stack \<longleftrightarrow> set stack \<subseteq> set acc \<and> (\<forall>x \<in> set acc. x \<in> set stack \<or> set (C x) \<subseteq> set acc)"

lemma read_tree_cases:
  assumes "steady m s"
  obtains (fail) e t where "read_object_of_kind cluster_api H rid x KIND_TREE s = (Inl e, t)" "steady m t"
  | (leaf) t where "read_object_of_kind cluster_api H rid x KIND_TREE s = (Inr None, t)" "steady m t"
      "entries_of T H rid m x = []"
  | (tree) d t where "read_object_of_kind cluster_api H rid x KIND_TREE s = (Inr (Some d), t)" "steady m t"
      "entries_of T H rid m x = (case pt_tree T d of Inr es \<Rightarrow> es | Inl _ \<Rightarrow> [])"
proof -
  let ?v = "case map_of m (obj H rid x) of Some (k # d) \<Rightarrow> if k = KIND_TREE then Some d else None | _ \<Rightarrow> None"
  obtain r t where r: "read_object_of_kind cluster_api H rid x KIND_TREE s = (r, t)" by fastforce
  have t: "steady m t" "\<forall>v. r = Inr v \<longrightarrow> v = ?v"
    using triple_Inr [OF steady_read_tree assms] triple_Inl [OF steady_read_tree assms] r by (cases r; fastforce)+
  have es: "entries_of T H rid m x = (case ?v of None \<Rightarrow> [] | Some d \<Rightarrow> (case pt_tree T d of Inr es \<Rightarrow> es | Inl _ \<Rightarrow> []))"
    by (auto simp: entries_of_def split: option.splits list.splits)
  show thesis
  proof (cases r)
    case (Inr v)
    then show ?thesis using r t es leaf tree by (cases v) auto
  qed (use r t fail in auto)
qed

lemma expanded_step:
  assumes agree: "modes_agree T H rid m" and es: "entries_of T H rid m x = es"
    and add: "add_entries acc rest es = (acc', stack')" and ex: "expanded (tree_children T H rid m) acc (x # rest)"
  shows "expanded (tree_children T H rid m) acc' stack'"
proof -
  let ?C = "tree_children T H rid m"
  note spec = add_entries_spec [OF add]
  have leaf: "?C y = []" if "y \<in> te_oid ` {e \<in> set es. \<not> te_is_tree e}" for y
    using that agree es unfolding modes_agree_def tree_children_def by auto
  have Cx: "set (?C x) = te_oid ` set es" by (simp add: tree_children_def es)
  show ?thesis
    unfolding expanded_def
  proof (intro conjI ballI)
    show "set stack' \<subseteq> set acc'" using spec ex by (auto simp: expanded_def)
    fix y assume "y \<in> set acc'"
    then have "y \<in> set acc \<or> y \<in> set stack' \<or> ?C y = []" using spec leaf by blast
    then show "y \<in> set stack' \<or> set (?C y) \<subseteq> set acc'" using ex spec Cx by (auto simp: expanded_def)
  qed
qed

lemma ancestors_step:
  assumes "A \<union> S' \<subseteq> A0 \<union> S \<union> set (C x)" "x \<in> S"
  shows "(\<Union>y \<in> A \<union> S'. ancestors C y) \<subseteq> (\<Union>y \<in> A0 \<union> S. ancestors C y)"
proof (rule UN_least)
  fix y assume "y \<in> A \<union> S'"
  then have "y \<in> A0 \<union> S \<or> y \<in> set (C x)" using assms by blast
  then have "y \<in> (\<Union>y \<in> A0 \<union> S. ancestors C y)"
    using ancestors_parent [OF ancestors_self, of y C x] ancestors_self [of y C] assms(2) by blast
  then show "ancestors C y \<subseteq> (\<Union>y \<in> A0 \<union> S. ancestors C y)" by (rule ancestors_least [OF closed_ancestors])
qed

text \<open>What a run of the loop from \<open>acc\<close> and \<open>stack\<close> achieves.\<close>

definition collected ::
  "bool \<Rightarrow> 'o pack_tools \<Rightarrow> 'o oid_ops \<Rightarrow> repo_id \<Rightarrow> (bytes \<times> bytes) list \<Rightarrow> 'o set \<Rightarrow> 'o set
     \<Rightarrow> ((error + 'o list) \<times> cluster) option \<Rightarrow> bool" where
  "collected ok T H rid m A S res \<longleftrightarrow>
     (\<exists>r t. res = Some (r, t) \<and> steady m t \<and>
        (\<forall>out. r = Inr out \<longrightarrow> A \<subseteq> set out \<and> set out \<subseteq> (\<Union>x \<in> A \<union> S. ancestors (tree_children T H rid m) x) \<and>
           (ok \<longrightarrow> closed (tree_children T H rid m) (set out))))"

lemma collected_mono:
  assumes "collected ok T H rid m A' S' res" "A \<subseteq> A'"
    "(\<Union>x \<in> A' \<union> S'. ancestors (tree_children T H rid m) x) \<subseteq> (\<Union>x \<in> A \<union> S. ancestors (tree_children T H rid m) x)"
  shows "collected ok T H rid m A S res"
  using assms unfolding collected_def by (metis (no_types, lifting) subset_trans)

lemma collect_tree_loop_spec:
  assumes H: "object_id H" and agree: "ok \<Longrightarrow> modes_agree T H rid m" and "steady m s"
    and "ok \<Longrightarrow> expanded (tree_children T H rid m) acc stack"
  shows "collected ok T H rid m (set acc) (set stack) (collect_tree_loop T cluster_api H rid acc stack s)"
proof -
  let ?C = "tree_children T H rid m"
  define U where "U = (\<Union>x \<in> {x. ?C x \<noteq> []}. set (?C x))"
  have fin: "finite U" using finite_tree_children [OF H] by (auto simp: U_def)
  show ?thesis
    using assms(3,4)
  proof (induction "length stack + card (U - set acc)" arbitrary: acc stack s rule: less_induct)
    case less
    show ?case
    proof (cases stack)
      case Nil
      then show ?thesis using less.prems
        by (subst collect_tree_loop.simps) (auto simp: collected_def expanded_def closed_def intro!: ancestors_self)
    next
      case (Cons x rest)
      from less.prems(1) show ?thesis
      proof (cases rule: read_tree_cases [where x = x and H = H and rid = rid and T = T])
        case (fail e t)
        then show ?thesis by (subst collect_tree_loop.simps) (simp add: Cons collected_def)
      next
        case (leaf t)
        have "ok \<Longrightarrow> expanded ?C acc rest"
          using less.prems(2) leaf(3) Cons by (fastforce simp: expanded_def tree_children_def)
        from less.hyps [OF _ leaf(2) this] have "collected ok T H rid m (set acc) (set rest)
            (collect_tree_loop T cluster_api H rid acc rest t)" by (simp add: Cons)
        then show ?thesis
          by (subst collect_tree_loop.simps) (auto simp: Cons leaf(1) intro: collected_mono)
      next
        case (tree d t)
        show ?thesis
        proof (cases "pt_tree T d")
          case (Inl e)
          with tree show ?thesis by (subst collect_tree_loop.simps) (simp add: Cons context_err_def collected_def)
        next
          case (Inr es)
          with tree(3) have es: "entries_of T H rid m x = es" by simp
          then have Cx: "set (?C x) = te_oid ` set es" by (simp add: tree_children_def)
          obtain acc' stack' where add: "add_entries acc rest es = (acc', stack')" by fastforce
          have "te_oid ` set es \<subseteq> U" using Cx by (cases "?C x = []") (auto simp: U_def)
          then have "length stack' + card (U - set acc') < length stack + card (U - set acc)"
            using add_entries_room [OF add fin] Cons by simp
          from less.hyps [OF this tree(2)] expanded_step [OF agree es add] less.prems(2) Cons
          have "collected ok T H rid m (set acc') (set stack') (collect_tree_loop T cluster_api H rid acc' stack' t)" by simp
          then have "collected ok T H rid m (set acc) (set stack) (collect_tree_loop T cluster_api H rid acc' stack' t)"
          proof (rule collected_mono)
            show "set acc \<subseteq> set acc'" using add_entries_spec [OF add] by blast
            have "set acc' \<union> set stack' \<subseteq> set acc \<union> set stack \<union> set (?C x)"
              unfolding Cx using add_entries_spec [OF add] Cons by auto
            then show "(\<Union>x \<in> set acc' \<union> set stack'. ancestors ?C x) \<subseteq> (\<Union>x \<in> set acc \<union> set stack. ancestors ?C x)"
              by (rule ancestors_step) (simp add: Cons)
          qed
          then show ?thesis
            by (subst collect_tree_loop.simps) (simp add: Cons tree(1) Inr context_err_def add)
        qed
      qed
    qed
  qed
qed

lemma collect_tree_oids_spec:
  assumes H: "object_id H" and agree: "ok \<Longrightarrow> modes_agree T H rid m" and s: "steady m s"
    and cl: "ok \<Longrightarrow> closed (tree_children T H rid m) (set acc)"
  shows "\<exists>r t. collect_tree_oids T cluster_api H rid x acc s = Some (r, t) \<and> steady m t \<and>
    (\<forall>out. r = Inr out \<and> ok \<longrightarrow> set out = set acc \<union> ancestors (tree_children T H rid m) x)"
proof (cases "x \<in> set acc")
  case True
  then show ?thesis
    using s ancestors_least [of "tree_children T H rid m" "set acc"] cl by (simp add: collect_tree_oids_def collect_tree_loop.simps) blast
next
  case False
  let ?C = "tree_children T H rid m"
  have "ok \<Longrightarrow> expanded ?C (hs_insert x acc) [x]" using cl by (auto simp: expanded_def closed_def)
  from collect_tree_loop_spec [where ok = ok, OF H agree s this] obtain r t where
    run: "collect_tree_oids T cluster_api H rid x acc s = Some (r, t)" "steady m t" and
    out: "\<And>out. r = Inr out \<Longrightarrow> insert x (set acc) \<subseteq> set out \<and> set out \<subseteq> (\<Union>y \<in> insert x (set acc). ancestors ?C y) \<and>
       (ok \<longrightarrow> closed ?C (set out))"
    unfolding collected_def by (auto simp: collect_tree_oids_def False)
  have "set out = set acc \<union> ancestors ?C x" if r: "r = Inr out" and ok: ok for out
  proof
    have "(\<Union>y \<in> set acc. ancestors ?C y) \<subseteq> set acc" using ancestors_least [OF cl [OF ok]] by blast
    with out [OF r] show "set out \<subseteq> set acc \<union> ancestors ?C x" by fastforce
    show "set acc \<union> ancestors ?C x \<subseteq> set out" using out [OF r] ok ancestors_least [of ?C "set out" x] by blast
  qed
  with run show ?thesis by blast
qed

definition tree_objects ::
  "object_parser \<Rightarrow> 'o pack_tools \<Rightarrow> 'o oid_ops \<Rightarrow> repo_id \<Rightarrow> (bytes \<times> bytes) list \<Rightarrow> 'o set \<Rightarrow> 'o set" where
  "tree_objects G T H rid m cs =
     (\<Union>c \<in> cs. case commit_tree G H rid m c of None \<Rightarrow> {} | Some t \<Rightarrow> ancestors (tree_children T H rid m) t)"

lemma collect_commit_trees_spec:
  assumes H: "object_id H" and agree: "ok \<Longrightarrow> modes_agree T H rid m" and "steady m s"
    and "ok \<Longrightarrow> closed (tree_children T H rid m) (set acc)"
  shows "\<exists>r t. collect_commit_trees G T cluster_api H rid acc cs s = Some (r, t) \<and> steady m t \<and>
    (\<forall>out. r = Inr out \<and> ok \<longrightarrow> set out = set acc \<union> tree_objects G T H rid m (set cs))"
  using assms(3,4)
proof (induction cs arbitrary: acc s)
  case (Cons c cs)
  obtain q s1 where q: "read_commit_tree G cluster_api H rid c s = (q, s1)" by fastforce
  have s1: "steady m s1" "\<And>v. q = Inr v \<Longrightarrow> v = commit_tree G H rid m c"
    using triple_Inr [OF steady_read_commit_tree Cons.prems(1)] triple_Inl [OF steady_read_commit_tree Cons.prems(1)] q
    by (cases q; fastforce)+
  show ?case
  proof (cases q)
    case (Inl e)
    with q s1 show ?thesis by simp
  next
    case (Inr v)
    show ?thesis
    proof (cases v)
      case None
      with s1(2) [OF Inr] have "tree_objects G T H rid m (set (c # cs)) = tree_objects G T H rid m (set cs)"
        by (simp add: tree_objects_def)
      with Cons.IH [OF s1(1) Cons.prems(2)] q Inr None show ?thesis by simp
    next
      case (Some x)
      obtain r t where r: "collect_tree_oids T cluster_api H rid x acc s1 = Some (r, t)" "steady m t"
        "\<And>out. r = Inr out \<Longrightarrow> ok \<Longrightarrow> set out = set acc \<union> ancestors (tree_children T H rid m) x"
        using collect_tree_oids_spec [OF H agree s1(1) Cons.prems(2)] by blast
      have tree: "commit_tree G H rid m c = Some x" using s1(2) [OF Inr] Some by simp
      have objs: "tree_objects G T H rid m (set (c # cs)) =
          ancestors (tree_children T H rid m) x \<union> tree_objects G T H rid m (set cs)"
        using tree by (simp add: tree_objects_def)
      show ?thesis
      proof (cases r)
        case (Inl e)
        with q \<open>q = Inr v\<close> Some r show ?thesis by simp
      next
        case out: (Inr out)
        have "closed (tree_children T H rid m) (set out)" if ok
          unfolding r(3) [OF out that]
          using closed_Un [OF Cons.prems(2) [OF that] closed_ancestors [of "tree_children T H rid m" "{x}"]] by simp
        from Cons.IH [OF r(2) this] show ?thesis
          using q Inr Some r out by (simp add: objs [simplified] Un_assoc)
      qed
    qed
  qed
qed (simp add: tree_objects_def)

section \<open>The objects a fetch needs\<close>

lemma steady_walk:
  assumes H: "object_id H" and s: "steady m s"
  shows "\<exists>r t. kv_walk msg cluster_api H rid ts excl s = Some (r, t) \<and> steady m t \<and>
    (\<forall>out. r = Inr out \<longrightarrow> set out = new_side (kv_parents H rid m) ts excl)"
proof -
  have "\<forall>x \<in> set ts \<union> set excl. finite (ancestors (kv_parents H rid m) x)"
    using finite_kv_parents [OF H] by blast
  from reachable_excluding_spec
    [OF steady_fetches(1) [where msg = "''fetching parents: ''"]
        collect_ancestors_collects [OF steady_fetches(1) [where msg = "''collecting ancestors: ''"]] s this,
     of u64_max]
  obtain r t where run: "kv_reachable_excluding cluster_api H rid ts excl u64_max s = Some (r, t)" "steady m t"
    and r: "case r of
         Inr out \<Rightarrow> distinct out \<and> length out \<le> u64_max \<and> set out = new_side (kv_parents H rid m) ts excl
       | Inl (CapExceeded c) \<Rightarrow> c = u64_max \<and> (u64_max < card (new_side (kv_parents H rid m) ts excl) \<or>
           u64_max < card (\<Union>x \<in> set excl. ancestors (kv_parents H rid m) x))
       | Inl (OtherError e) \<Rightarrow> True"
    unfolding kv_reachable_excluding_def by blast
  from r have "\<forall>out. r = Inr out \<longrightarrow> set out = new_side (kv_parents H rid m) ts excl" by (cases r) auto
  with run show ?thesis by (auto simp: kv_walk_def split: sum.splits)
qed

definition history :: "'o oid_ops \<Rightarrow> repo_id \<Rightarrow> (bytes \<times> bytes) list \<Rightarrow> 'o list \<Rightarrow> 'o set" where
  "history H rid m ts = (\<Union>x \<in> set ts. ancestors (kv_parents H rid m) x)"

text \<open>The commits of a history with everything their trees hold.\<close>

definition objects_of ::
  "object_parser \<Rightarrow> 'o pack_tools \<Rightarrow> 'o oid_ops \<Rightarrow> repo_id \<Rightarrow> (bytes \<times> bytes) list \<Rightarrow> 'o set \<Rightarrow> 'o set" where
  "objects_of G T H rid m cs = cs \<union> tree_objects G T H rid m cs"

definition pack_set ::
  "object_parser \<Rightarrow> 'o pack_tools \<Rightarrow> 'o oid_ops \<Rightarrow> repo_id \<Rightarrow> (bytes \<times> bytes) list \<Rightarrow> 'o list \<Rightarrow> 'o list \<Rightarrow> 'o set" where
  "pack_set G T H rid m want have =
     (set want \<union> objects_of G T H rid m (history H rid m want - history H rid m have)) -
     objects_of G T H rid m (history H rid m have)"

text \<open>Wants and commits are not trees, and modes tell kinds.\<close>

definition kinds_agree :: "'o pack_tools \<Rightarrow> 'o oid_ops \<Rightarrow> repo_id \<Rightarrow> (bytes \<times> bytes) list \<Rightarrow> 'o list \<Rightarrow> 'o list \<Rightarrow> bool" where
  "kinds_agree T H rid m want have \<longleftrightarrow> modes_agree T H rid m \<and>
     (\<forall>x \<in> set want \<union> history H rid m want \<union> history H rid m have. entries_of T H rid m x = [])"

lemma set_fold_hs_insert [simp]: "set (fold hs_insert xs acc) = set xs \<union> set acc"
  by (induction xs arbitrary: acc) auto

lemma closed_leaves: "(\<And>x. x \<in> A \<Longrightarrow> C x = []) \<Longrightarrow> closed C A"
  by (simp add: closed_def)

lemma bindO_Some: "m s = Some (r, t) \<Longrightarrow> bindO m f s = (case r of Inl e \<Rightarrow> Some (Inl e, t) | Inr x \<Rightarrow> f x t)"
  by (cases r) (auto simp: bindO_def)

definition ends :: "(bytes \<times> bytes) list \<Rightarrow> ('a \<Rightarrow> bool) \<Rightarrow> ((error + 'a) \<times> cluster) option \<Rightarrow> bool" where
  "ends m Q res \<longleftrightarrow> (\<exists>r t. res = Some (r, t) \<and> steady m t \<and> (\<forall>x. r = Inr x \<longrightarrow> Q x))"

lemma ends_bindO:
  assumes "ends m Q (f s)" "\<And>x t. steady m t \<Longrightarrow> Q x \<Longrightarrow> ends m R (g x t)"
  shows "ends m R (bindO f g s)"
proof -
  from assms(1) obtain r t where "f s = Some (r, t)" "steady m t" "\<forall>x. r = Inr x \<longrightarrow> Q x"
    unfolding ends_def by blast
  with assms(2) show ?thesis by (cases r) (auto simp: bindO_Some, auto simp: ends_def)
qed

lemma needed_objects_spec:
  assumes H: "object_id H" and s: "steady m s"
  shows "ends m (\<lambda>out. kinds_agree T H rid m want have \<longrightarrow> set out = pack_set G T H rid m want have)
    (needed_objects G T cluster_api H rid want have s)"
proof -
  let ?P = "kv_parents H rid m" and ?C = "tree_children T H rid m" and ?ok = "kinds_agree T H rid m want have"
  let ?N = "history H rid m want - history H rid m have" and ?E = "history H rid m have"
  have agree: "?ok \<Longrightarrow> modes_agree T H rid m" by (simp add: kinds_agree_def)
  have leaves: "?ok \<Longrightarrow> A \<subseteq> set want \<union> history H rid m want \<union> ?E \<Longrightarrow> closed ?C A" for A
    by (rule closed_leaves) (auto simp: kinds_agree_def tree_children_def)
  have walk: "ends m (\<lambda>out. set out = new_side ?P ts excl) (kv_walk msg cluster_api H rid ts excl s)"
    if "steady m s" for msg ts excl s using steady_walk [OF H that] unfolding ends_def by blast
  have trees: "ends m (\<lambda>out. ?ok \<longrightarrow> set out = set acc \<union> tree_objects G T H rid m (set cs))
      (collect_commit_trees G T cluster_api H rid acc cs s)"
    if "steady m s" "?ok \<Longrightarrow> closed ?C (set acc)" for acc cs s
    using collect_commit_trees_spec [where ok = ?ok, OF H agree that] unfolding ends_def by blast
  show ?thesis
    unfolding needed_objects_def
  proof (rule ends_bindO, rule walk, rule s, rule ends_bindO, rule trees)
    fix wc t assume t: "steady m t" and "set wc = new_side ?P want have"
    then have wc: "set wc = ?N" by (simp add: new_side_def history_def)
    show "steady m t" by fact
    show "closed ?C (set (fold hs_insert (wc @ want) []))" if ?ok
      by (rule leaves [OF that]) (auto simp: wc)
    fix needed t1 assume t1: "steady m t1" and
      "?ok \<longrightarrow> set needed = set (fold hs_insert (wc @ want) []) \<union> tree_objects G T H rid m (set wc)"
    then have needed: "?ok \<Longrightarrow> set needed = set want \<union> objects_of G T H rid m ?N"
      using wc by (auto simp: objects_of_def)
    show "ends m (\<lambda>out. ?ok \<longrightarrow> set out = pack_set G T H rid m want have)
       ((if have = [] then totalO (retA needed)
         else bindO (kv_walk ''have-side walk: '' cluster_api H rid have []) (\<lambda>have_commits.
              bindO (collect_commit_trees G T cluster_api H rid (fold hs_insert have_commits []) have_commits) (\<lambda>have_set.
                totalO (retA (filter (\<lambda>x. x \<notin> set have_set) needed))))) t1)"
    proof (cases "have = []")
      case True
      then show ?thesis using needed t1
        by (auto simp: ends_def totalO_def pack_set_def history_def objects_of_def tree_objects_def)
    next
      case False
      have "ends m (\<lambda>out. ?ok \<longrightarrow> set out = pack_set G T H rid m want have)
         (bindO (kv_walk ''have-side walk: '' cluster_api H rid have []) (\<lambda>have_commits.
              bindO (collect_commit_trees G T cluster_api H rid (fold hs_insert have_commits []) have_commits) (\<lambda>have_set.
                totalO (retA (filter (\<lambda>x. x \<notin> set have_set) needed)))) t1)"
      proof (rule ends_bindO, rule walk, rule t1, rule ends_bindO, rule trees)
        fix hc t2 assume "steady m t2" and "set hc = new_side ?P have []"
        then have hc: "set hc = ?E" by (simp add: new_side_def history_def)
        show "steady m t2" by fact
        show "closed ?C (set (fold hs_insert hc []))" if ?ok
          by (rule leaves [OF that]) (auto simp: hc)
        fix hs t3 assume "steady m t3" "?ok \<longrightarrow> set hs = set (fold hs_insert hc []) \<union> tree_objects G T H rid m (set hc)"
        then show "ends m (\<lambda>out. ?ok \<longrightarrow> set out = pack_set G T H rid m want have)
            (totalO (retA (filter (\<lambda>x. x \<notin> set hs) needed)) t3)"
          using needed hc by (auto simp: ends_def totalO_def pack_set_def objects_of_def)
      qed
      with False show ?thesis by simp
    qed
  qed
qed

definition stored_object :: "'o oid_ops \<Rightarrow> repo_id \<Rightarrow> (bytes \<times> bytes) list \<Rightarrow> 'o \<Rightarrow> (gix_kind \<times> bytes) option" where
  "stored_object H rid m x =
     (case map_of m (obj H rid x) of Some (k # d) \<Rightarrow> map_option (\<lambda>g. (g, d)) (kind_of_byte k) | _ \<Rightarrow> None)"

lemma triple_mapA_values:
  assumes f: "\<And>x. triple I (f x) (\<lambda>y s. y = g x \<and> I s) (\<lambda>_. I)"
  shows "triple I (mapA f xs) (\<lambda>ys s. ys = map g xs \<and> I s) (\<lambda>_. I)"
proof (induction xs)
  case (Cons x xs)
  show ?case
  proof (rule tripleI)
    show "ys = map g (x # xs) \<and> I t" if s: "I s" and run: "mapA f (x # xs) s = (Inr ys, t)" for s ys t
    proof -
      obtain y s1 zs where y: "f x s = (Inr y, s1)" "mapA f xs s1 = (Inr zs, t)" "ys = y # zs"
        using run by (auto simp: bindA_Inr)
      from triple_Inr [OF f s y(1)] have "y = g x" "I s1" by auto
      with triple_Inr [OF Cons _ y(2)] y(3) show ?thesis by simp
    qed
    show "I t" if s: "I s" and run: "mapA f (x # xs) s = (Inl e, t)" for s e t
    proof -
      consider "f x s = (Inl e, t)" | y s1 where "f x s = (Inr y, s1)" "mapA f xs s1 = (Inl e, t)"
        using run by (auto simp: bindA_Inl)
      then show ?thesis
        using s triple_Inl [OF f] triple_Inr [OF f] triple_Inl [OF Cons] by cases blast+
    qed
  qed
qed (simp add: triple_def)

lemma set_map_filter_id: "set (List.map_filter id (map g xs)) = {y. \<exists>x \<in> set xs. g x = Some y}"
  by (induction xs) (auto simp: List.map_filter_def)

lemma steady_fetch_objects:
  "triple (steady m) (fetch_objects cluster_api H rid xs)
     (\<lambda>fs s. set fs = {(x, k, d). x \<in> set xs \<and> stored_object H rid m x = Some (k, d)} \<and> steady m s) (\<lambda>_. steady m)"
proof -
  have one: "triple (steady m) (read_object_with_gix_kind cluster_api H rid x)
      (\<lambda>v s. v = stored_object H rid m x \<and> steady m s) (\<lambda>_. steady m)" for x
    unfolding read_object_with_gix_kind_def stored_object_def by (rule steady_get)
  have "triple (steady m) (bindA (read_object_with_gix_kind cluster_api H rid x) (\<lambda>r.
      retA (map_option (\<lambda>(k, d). (x, k, d)) r)))
      (\<lambda>v s. v = map_option (\<lambda>(k, d). (x, k, d)) (stored_object H rid m x) \<and> steady m s) (\<lambda>_. steady m)" for x
    by (rule triple_bind [OF one]) (auto intro!: triple_ret)
  from triple_mapA_values [OF this, where xs = xs] show ?thesis
    unfolding fetch_objects_def
    by (rule triple_bind) (auto intro!: triple_ret simp: set_map_filter_id)
qed


definition blob_store :: "(bytes \<times> bytes) list" where
  "blob_store = [(obj sha1_ops 1 7, encode_object KIND_BLOB ''data'')]"

definition plain_opts :: pack_options where
  "plain_opts = \<lparr> opt_deepen = None, opt_filter = None, opt_thin_pack = False \<rparr>"


section \<open>Every operation comes to an end\<close>

lemma ends_fetch_trees:
  assumes H: "object_id H" and "steady m s"
  shows "ends m (\<lambda>_. True) (fetch_trees_loop T cluster_api H rid store todo s)"
proof -
  define D where "D = {x. obj H rid x \<in> dom (map_of m)}"
  have fin: "finite D"
    using finite_vimageI [OF finite_dom_map_of [of m], of "obj H rid"]
    by (simp add: D_def vimage_def inj_def object_id.obj_inj [OF H])
  show ?thesis
    using assms(2)
  proof (induction "(card (D - fst ` set store), length todo)" arbitrary: store todo s
      rule: wf_induct_rule [OF wf_lex_prod [OF wf_less_than wf_less_than]])
    case less: 1
    have smaller: "card (D - fst ` set ((x, d) # store)) \<le> card (D - fst ` set store)" for x d
      using fin by (intro card_mono) auto
    show ?case
    proof (cases todo)
      case Nil
      then show ?thesis using less.prems by (subst fetch_trees_loop.simps) (simp add: ends_def)
    next
      case (Cons x rest)
      show ?thesis
      proof (cases "x = pt_empty_tree T \<or> x \<in> fst ` set store")
        case True
        have "ends m (\<lambda>_. True) (fetch_trees_loop T cluster_api H rid ((x, []) # store) rest s)"
          "ends m (\<lambda>_. True) (fetch_trees_loop T cluster_api H rid store rest s)"
          using less.hyps [OF _ less.prems, of "(x, []) # store" rest] less.hyps [OF _ less.prems, of store rest]
            smaller [of x "[]"] Cons by (auto simp: le_less)
        with True show ?thesis by (subst fetch_trees_loop.simps) (auto simp: Cons)
      next
        case False
        obtain q t where q: "read_object_of_kind cluster_api H rid x KIND_TREE s = (q, t)" by fastforce
        have t: "steady m t" and v: "\<And>v. q = Inr v \<Longrightarrow> v = (case map_of m (obj H rid x) of
            Some (k # d) \<Rightarrow> if k = KIND_TREE then Some d else None | _ \<Rightarrow> None)"
          using triple_Inr [OF steady_read_tree less.prems] triple_Inl [OF steady_read_tree less.prems] q
          by (cases q; fastforce)+
        have "ends m (\<lambda>_. True) (fetch_trees_loop T cluster_api H rid ((x, d) # store) ts t)" if "q = Inr (Some d)" for d ts
        proof -
          have "x \<in> D" using v [OF that] by (auto simp: D_def split: option.splits)
          then have "D - fst ` set ((x, d) # store) \<subset> D - fst ` set store" using False by auto
          then have "card (D - fst ` set ((x, d) # store)) < card (D - fst ` set store)"
            using fin by (intro psubset_card_mono) auto
          then show ?thesis using less.hyps [OF _ t, of "(x, d) # store" ts] by simp
        qed
        with False q t show ?thesis
          by (subst fetch_trees_loop.simps) (auto simp: Cons ends_def split: sum.splits option.splits)
      qed
    qed
  qed
qed

lemma ends_tree_diff:
  assumes "object_id H" "steady m s"
  shows "ends m (\<lambda>_. True) (kv_tree_diff T cluster_api H rid a b s)"
  unfolding kv_tree_diff_def Let_def
  by (rule ends_bindO, rule ends_fetch_trees [OF assms], rule ends_bindO, rule ends_fetch_trees [OF assms(1)], assumption)
     (simp add: totalO_def ends_def)

lemma ends_build_pack:
  assumes "object_id H" "steady m s"
  shows "\<exists>r t d'. kv_build_pack G T cluster_api H rid want have opts (s, d) = Some (r, (t, d')) \<and> steady m t"
proof (cases "try_hit rid (cache_key (pt_sha256 T) H rid want have opts) d :: 'a pack_output option")
  case None
  from needed_objects_spec [OF assms, of T rid want "have" G] obtain r t where
    r: "needed_objects G T cluster_api H rid want have s = Some (r, t)" "steady m t" unfolding ends_def by blast
  obtain q u where q: "fetch_objects cluster_api H rid (case r of Inr xs \<Rightarrow> xs | Inl _ \<Rightarrow> []) t = (q, u)" by fastforce
  then have "steady m u"
    using triple_Inr [OF steady_fetch_objects r(2)] triple_Inl [OF steady_fetch_objects r(2)] by (cases q) blast+
  with None r q show ?thesis
    by (cases r; cases q)
       (auto simp: kv_build_pack_def Let_def bindO_def on_store_def totalO_def split: sum.splits)
qed (use assms in \<open>simp add: kv_build_pack_def Let_def\<close>)

text \<open>
  C35. Nothing in the store makes an operation of the key-value backend run forever: building a pack,
  diffing two trees, walking the commit graph and classifying a push return, whatever objects are
  stored (trees that contain themselves and commits that are their own ancestors included) and
  wherever calls to the cluster fail.
\<close>

theorem kv_walks_end:
  assumes "object_id H" "steady m s"
  shows "kv_build_pack G T cluster_api H rid want have opts (s, d) \<noteq> None \<and>
    kv_tree_diff T cluster_api H rid a b s \<noteq> None \<and>
    kv_reachable_excluding cluster_api H rid want have cap s \<noteq> None \<and>
    kv_compute_push_kind cluster_api H rid old new s \<noteq> None"
proof (intro conjI)
  show "kv_build_pack G T cluster_api H rid want have opts (s, d) \<noteq> None" using ends_build_pack [OF assms] by force
  show "kv_tree_diff T cluster_api H rid a b s \<noteq> None" using ends_tree_diff [OF assms] by (force simp: ends_def)
  have fin: "\<forall>x \<in> set want \<union> set have. finite (ancestors (kv_parents H rid m) x)"
    "finite (ancestors (kv_parents H rid m) new)" using finite_kv_parents [OF assms(1)] by blast+
  show "kv_reachable_excluding cluster_api H rid want have cap s \<noteq> None"
    using reachable_excluding_spec
      [OF steady_fetches(1) collect_ancestors_collects [OF steady_fetches(1)] assms(2) fin(1)]
    unfolding kv_reachable_excluding_def by force
  show "kv_compute_push_kind cluster_api H rid old new s \<noteq> None"
    using is_ancestor_spec [OF steady_fetches(2) assms(2) fin(2)]
    unfolding kv_compute_push_kind_def compute_push_kind_def by force
qed

definition self_tree_store :: "(bytes \<times> bytes) list" where
  "self_tree_store = [(obj sha1_ops 1 5, encode_object KIND_TREE ''self'')]"

definition self_tools :: "sha1 pack_tools" where
  "self_tools = demo_tools\<lparr> pt_tree := (\<lambda>_. Inr [\<lparr> te_mode = 16384, te_is_tree = True, te_oid = 5 \<rparr>]) \<rparr>"

theorem kv_walks_end_witness:
  "tree_children self_tools sha1_ops 1 self_tree_store 5 = [5] \<and>
   kv_tree_diff self_tools cluster_api sha1_ops 1 None 5 (empty_cluster\<lparr> cl_store := self_tree_store \<rparr>) \<noteq> None"
proof -
  have "steady self_tree_store (empty_cluster\<lparr> cl_store := self_tree_store \<rparr>)"
    by (simp add: steady_def empty_cluster_def)
  from kv_walks_end [OF sha1.object_id_axioms this] show ?thesis
    by (simp add: tree_children_def entries_of_def self_tree_store_def self_tools_def encode_object_def KIND_TREE_def)
qed

section \<open>The cache\<close>

lemma sort_mset_cong: "mset xs = mset ys \<Longrightarrow> sort xs = sort ys"
  by (metis mset_sort properties_for_sort sorted_sort)

text \<open>
  C36. A pack that was built once is served again without a look at the store: after \<open>build_pack\<close>
  returned a pack, any later request for the same wants and haves, in any order and with the same
  options, gets the same bytes from the cache, whatever the store holds by then.
\<close>

theorem pack_cache_reuse:
  assumes run: "kv_build_pack G T K H rid want have opts (s, d) = Some (Inr out, (t, d'))"
    and dir: "\<not> cd_read_only d" "cd_unreadable d = []"
    and same: "mset want' = mset want" "mset have' = mset have"
  shows "kv_build_pack G T K' H rid want' have' opts (s', d') = Some (Inr out, (s', d'))"
proof -
  let ?key = "cache_key (pt_sha256 T) H rid want have opts"
  have key: "cache_key (pt_sha256 T) H rid want' have' opts = ?key"
    using same sort_mset_cong [of "map (as_bytes H) want'" "map (as_bytes H) want"]
      sort_mset_cong [of "map (as_bytes H) have'" "map (as_bytes H) have"]
    by (simp add: cache_key_def cache_preimage_def)
  have "try_hit rid ?key d' = Some out"
  proof (cases "try_hit rid ?key d :: 'a pack_output option")
    case None
    then show ?thesis using run dir
      by (auto simp: kv_build_pack_def Let_def bindO_def on_store_def totalO_def try_hit_def cache_write_def
          split: option.splits sum.splits prod.splits if_splits)
  next
    case (Some o)
    then show ?thesis using run by (simp add: kv_build_pack_def Let_def)
  qed
  then show ?thesis by (simp add: kv_build_pack_def Let_def key)
qed

lemma demo_build_empty:
  "kv_build_pack demo_parser demo_tools cluster_api sha1_ops 1 [] [] plain_opts (s, empty_dir) =
     Some (Inr (output_of (build_empty_pack demo_tools)),
       (s, cache_write 1 (cache_key (pt_sha256 demo_tools) sha1_ops 1 [] [] plain_opts) (build_empty_pack demo_tools) empty_dir))"
  by (simp add: kv_build_pack_def Let_def try_hit_def empty_dir_def bindO_def on_store_def
      needed_objects_def kv_walk_def kv_reachable_excluding_def reachable_excluding_def totalO_def)

theorem pack_cache_reuse_witness:
  "\<exists>d'. kv_build_pack demo_parser demo_tools cluster_api sha1_ops 1 [] [] plain_opts (empty_cluster, empty_dir) =
      Some (Inr (output_of (build_empty_pack demo_tools)), (empty_cluster, d')) \<and>
    kv_build_pack demo_parser demo_tools cluster_api sha1_ops 1 [] [] plain_opts
      (empty_cluster\<lparr> cl_store := blob_store \<rparr>, d') =
      Some (Inr (output_of (build_empty_pack demo_tools)), (empty_cluster\<lparr> cl_store := blob_store \<rparr>, d'))"
  using demo_build_empty [of empty_cluster] pack_cache_reuse [OF demo_build_empty [of empty_cluster], of "[]" "[]"]
  by (simp add: empty_dir_def)

definition opt_tags :: "pack_options \<Rightarrow> nat \<times> pack_filter option \<times> bool" where
  "opt_tags opts = (case opt_deepen opts of None \<Rightarrow> 0 | Some d \<Rightarrow> d, opt_filter opts, opt_thin_pack opts)"

lemma concat_same_length_inj:
  assumes "\<And>x. x \<in> set xs \<union> set ys \<Longrightarrow> length x = n" "0 < n" "concat xs = concat ys"
  shows "xs = ys"
  using assms
proof (induction xs arbitrary: ys)
  case Nil
  then show ?case by (cases ys) auto
next
  case (Cons x xs)
  then obtain y ys' where ys: "ys = y # ys'" by (cases ys) auto
  with Cons.prems(1) have len: "length x = n" "length y = n" by auto
  have "x @ concat xs = y @ concat ys'" using Cons.prems(3) ys by simp
  then have "x = y" "concat xs = concat ys'" using len by auto
  with Cons.IH [of ys'] Cons.prems ys show ?case by auto
qed

lemma sorted_chunks_inj:
  assumes H: "object_id H" and eq: "concat (sort (map (as_bytes H) xs)) = concat (sort (map (as_bytes H) ys))"
  shows "mset xs = mset ys"
proof -
  have "sort (map (as_bytes H) xs) = sort (map (as_bytes H) ys)"
    by (rule concat_same_length_inj [OF _ _ eq, where n = 20]) (auto simp: object_id.length_as_bytes [OF H])
  then have "image_mset (as_bytes H) (mset xs) = image_mset (as_bytes H) (mset ys)" by (metis mset_map mset_sort)
  then show ?thesis
    using multiset.inj_map [of "as_bytes H"] object_id.as_bytes_inj [OF H] by (auto simp: inj_def)
qed

lemma length_sorted_chunks: "object_id H \<Longrightarrow> length (concat (sort (map (as_bytes H) xs))) = 20 * length xs"
proof -
  assume H: "object_id H"
  have "\<forall>x \<in> set ys. length x = 20 \<Longrightarrow> length (concat ys) = 20 * length ys" for ys :: "bytes list"
    by (induction ys) auto
  from this [of "sort (map (as_bytes H) xs)"] show ?thesis by (simp add: object_id.length_as_bytes [OF H])
qed

lemma opt_tail_inj:
  assumes "fst (opt_tags p) < 2 ^ 32" "fst (opt_tags q) < 2 ^ 32"
    and eq: "le_bytes 4 (fst (opt_tags p)) @ [filter_tag (opt_filter p), bool_byte (opt_thin_pack p)] =
      le_bytes 4 (fst (opt_tags q)) @ [filter_tag (opt_filter q), bool_byte (opt_thin_pack q)]"
  shows "opt_tags p = opt_tags q"
proof -
  have "be_bytes 4 (fst (opt_tags p)) = be_bytes 4 (fst (opt_tags q))"
    "filter_tag (opt_filter p) = filter_tag (opt_filter q)" "bool_byte (opt_thin_pack p) = bool_byte (opt_thin_pack q)"
    using eq by simp_all
  moreover have "256 ^ 4 = (2 ^ 32 :: nat)" by simp
  then have "fst (opt_tags p) = fst (opt_tags q)" using calculation(1) assms(1,2) by (metis be_bytes_inj)
  ultimately show ?thesis
    by (auto simp: opt_tags_def filter_tag_def bool_byte_def split: option.splits pack_filter.splits if_splits)
qed

text \<open>
  Requests share a cached pack only if they ask for the same: with a hash that does not collide,
  two requests to one repository with the same number of wants have the same cache key exactly when
  they have the same wants and haves up to order and the same options (no depth counting as depth 0).
\<close>

theorem pack_cache_key_separates:
  assumes H: "object_id H" and sha: "inj sha" and len: "length want' = length want"
    and deep: "fst (opt_tags opts) < 2 ^ 32" "fst (opt_tags opts') < 2 ^ 32"
  shows "cache_key sha H rid want have opts = cache_key sha H rid want' have' opts' \<longleftrightarrow>
    mset want = mset want' \<and> mset have = mset have' \<and> opt_tags opts = opt_tags opts'"
proof
  assume "mset want = mset want' \<and> mset have = mset have' \<and> opt_tags opts = opt_tags opts'"
  then show "cache_key sha H rid want have opts = cache_key sha H rid want' have' opts'"
    using sort_mset_cong [of "map (as_bytes H) want'" "map (as_bytes H) want"]
      sort_mset_cong [of "map (as_bytes H) have'" "map (as_bytes H) have"]
    by (simp add: cache_key_def cache_preimage_def opt_tags_def)
next
  assume "cache_key sha H rid want have opts = cache_key sha H rid want' have' opts'"
  then have eq: "cache_preimage H rid want have opts = cache_preimage H rid want' have' opts'"
    using sha by (auto simp: cache_key_def dest: injD)
  let ?W = "\<lambda>xs. concat (sort (map (as_bytes H) xs))"
  let ?R = "\<lambda>p. CHR 0x01 # le_bytes 4 (fst (opt_tags p)) @ [filter_tag (opt_filter p), bool_byte (opt_thin_pack p)]"
  from eq have "?W want @ CHR 0x00 # ?W have @ ?R opts = ?W want' @ CHR 0x00 # ?W have' @ ?R opts'"
    by (simp add: cache_preimage_def opt_tags_def)
  moreover have "length (?W want) = length (?W want')" using len by (simp add: length_sorted_chunks [OF H])
  ultimately have W: "?W want = ?W want'" and "?W have @ ?R opts = ?W have' @ ?R opts'" by simp_all
  moreover have "length (?R opts) = length (?R opts')" by simp
  ultimately have "?W have = ?W have'" and R: "?R opts = ?R opts'"
    using append_eq_append_conv [of "?W have" "?W have'" "?R opts" "?R opts'"] by blast+
  moreover have "opt_tags opts = opt_tags opts'" using opt_tail_inj [OF deep] R by simp
  ultimately show "mset want = mset want' \<and> mset have = mset have' \<and> opt_tags opts = opt_tags opts'"
    using W sorted_chunks_inj [OF H] by blast
qed

definition two_wants :: "sha1 list" where "two_wants = [9, 4]"

theorem pack_cache_key_separates_witness:
  "cache_key (\<lambda>b. b) sha1_ops 1 two_wants [] plain_opts = cache_key (\<lambda>b. b) sha1_ops 1 [4, 9] [] plain_opts \<and>
   cache_key (\<lambda>b. b) sha1_ops 1 two_wants [] plain_opts \<noteq> cache_key (\<lambda>b. b) sha1_ops 1 [4, 8] [] plain_opts"
proof -
  have "fst (opt_tags plain_opts) < 2 ^ 32" by (simp add: opt_tags_def plain_opts_def)
  from pack_cache_key_separates [OF sha1.object_id_axioms _ _ this this, of "\<lambda>b. b" "[4, 9]" two_wants 1 "[]" "[]"]
    pack_cache_key_separates [OF sha1.object_id_axioms _ _ this this, of "\<lambda>b. b" "[4, 8]" two_wants 1 "[]" "[]"]
  show ?thesis by (simp add: two_wants_def)
qed

end
