(* ===== verification/Fetch_Properties.thy ===== *)
theory Fetch_Properties
  imports Fetch_Pipeline Push_Properties KV_Pack_Properties
begin

text \<open>
  What a fetch promises: the store's refs are not written, the pack reaches the client byte for byte,
  and the answers to ls-refs and to the negotiation are what was asked for.
\<close>

section \<open>Fetching writes no ref\<close>

context backend_keeps
begin

lemma keeps_resolve_wants [keeps_intros]: "keeps P (resolve_wants B repo args)"
proof -
  have "keeps P (foldA (\<lambda>args name. bindA (attempt (be_resolve_ref B repo name)) (\<lambda>r.
      retA (case r of Inr (Some x) \<Rightarrow> args\<lparr> fa_want := fa_want args @ [x] \<rparr> | _ \<Rightarrow> args))) a names)" for a names
    by (induction names arbitrary: a) (auto intro!: keeps_intros keeps_resolve_ref)
  then show ?thesis by (simp add: resolve_wants_def)
qed

lemma keeps_build_requested [keeps_intros]: "keeps (\<lambda>sw. P (fst sw)) (build_requested B repo args have)"
  unfolding build_requested_def by (intro keeps_intros keeps_build_pack)

lemma keeps_perform_fetch [keeps_intros]:
  "keeps (\<lambda>sw. P (fst sw)) (perform_fetch B W H repo args)"
  "keeps (\<lambda>sw. P (fst sw)) (perform_fetch_v1 B W H repo args)"
  unfolding perform_fetch_def perform_fetch_v1_def Let_def by (intro keeps_intros keeps_has_objects)+

lemma keeps_upload_session: "keeps (\<lambda>sw. P (fst sw)) (upload_session B W H limits repo p)"
proof (induction "length p" arbitrary: p rule: less_induct)
  case less
  have again: "keeps (\<lambda>sw. P (fst sw)) (upload_session B W H limits repo p')" if "length p' < length p" for p'
    using less that by blast
  show ?case
  proof (cases "read_command p")
    case (Inl e)
    then show ?thesis by (subst upload_session.simps) (simp add: keeps_intros)
  next
    case (Inr cp)
    then obtain c p1 where c: "read_command p = Inr (c, p1)" by (cases cp) auto
    note p1 = read_command_shorter [OF c]
    have ls: "keeps (\<lambda>sw. P (fst sw)) (upload_session B W H limits repo p2)"
      if "read_lsrefs_args limits p1 = Inr (args, p2)" for args p2
      using again p1 read_args_shorter(1) [OF that] by simp
    have ft: "keeps (\<lambda>sw. P (fst sw)) (upload_session B W H limits repo p2)"
      if "read_fetch_args H limits p1 = Inr (args, p2)" for args p2
      using again p1 read_args_shorter(2) [OF that] by simp
    show ?thesis
    proof (cases c)
      case Fetch
      then show ?thesis
        by (subst upload_session.simps)
           (auto simp: c intro!: keeps_intros ft split: sum.splits prod.splits)
    next
      case ListRefs
      then show ?thesis
        by (subst upload_session.simps)
           (auto simp: c intro!: keeps_intros keeps_list_refs ls split: sum.splits prod.splits)
    next
      case Empty
      then show ?thesis by (subst upload_session.simps) (simp add: c keeps_intros)
    qed
  qed
qed

lemma keeps_serve_upload_pack: "keeps (\<lambda>sw. P (fst sw)) (serve_upload_pack A B W H version limits p)"
  unfolding serve_upload_pack_def Let_def
  by (intro keeps_intros keeps_init_repo keeps_open keeps_list_refs keeps_upload_session)

lemma keeps_http:
  "keeps P (serve_git_protocol_1 A B W H empty_tree E packets path query ct limits body)"
  "keeps P (serve_git_protocol_2 A B W H empty_tree E packets path query ct limits body)"
proof -
  show "keeps P (serve_git_protocol_1 A B W H empty_tree E packets path query ct limits body)"
    unfolding serve_git_protocol_1_def Let_def
    by (intro keeps_if keeps_recv_pack_info_refs keeps_recv_pack_post)
       (intro keeps_intros keeps_init_repo keeps_open keeps_list_refs)+
  have cmd: "keeps P (case c of ListRefs \<Rightarrow> l | Empty \<Rightarrow> e | Fetch \<Rightarrow> f)"
    if "keeps P l" "keeps P e" "keeps P f" for c and l e f :: "('s, stop, ('s, 'w) git_response) act"
    using that by (cases c) auto
  show "keeps P (serve_git_protocol_2 A B W H empty_tree E packets path query ct limits body)"
    unfolding serve_git_protocol_2_def Let_def
    by (intro keeps_if keeps_recv_pack_info_refs keeps_recv_pack_post)
       (intro cmd keeps_intros keeps_init_repo keeps_open keeps_list_refs)+
qed

end

context backend_keeps
begin

lemma safe_upload_advertisement:
  "returns (safe_response P) (recv_pack_info_refs A B W H i)"
  unfolding recv_pack_info_refs_def by (intro returns_res_try returns_bind returns_ret safe_stream keeps_intros)

lemma safe_http:
  assumes "path \<noteq> ''git-receive-pack''"
  shows "returns (safe_response P) (serve_git_protocol_1 A B W H empty_tree E packets path query ct limits body)"
    "returns (safe_response P) (serve_git_protocol_2 A B W H empty_tree E packets path query ct limits body)"
proof -
  have if_split: "returns R (if b then m else m')" if "b \<Longrightarrow> returns R m" "\<not> b \<Longrightarrow> returns R m'"
    for R :: "('s, 'w) git_response \<Rightarrow> bool" and b and m m' :: "('s, stop, ('s, 'w) git_response) act"
    using that by simp
  have plain: "safe_response P (plain_response c t b)" for c t b
    by (simp add: safe_response_def plain_response_def)
  show "returns (safe_response P) (serve_git_protocol_1 A B W H empty_tree E packets path query ct limits body)"
    unfolding serve_git_protocol_1_def Let_def fetch_task_def info_refs_upload_pack_v1_task_def
    by (intro if_split safe_upload_advertisement returns_res_try returns_bind returns_ret safe_stream plain keeps_intros)
       (use assms in auto)
  have cmd: "returns R (case c of ListRefs \<Rightarrow> l | Empty \<Rightarrow> e | Fetch \<Rightarrow> f)"
    if "returns R l" "returns R e" "returns R f"
    for R :: "('s, 'w) git_response \<Rightarrow> bool" and c and l e f :: "('s, stop, ('s, 'w) git_response) act"
    using that by (cases c) auto
  show "returns (safe_response P) (serve_git_protocol_2 A B W H empty_tree E packets path query ct limits body)"
    unfolding serve_git_protocol_2_def Let_def fetch_task_def info_refs_task_def
    by (intro if_split cmd safe_upload_advertisement returns_res_try returns_prod returns_bind returns_ret safe_stream plain keeps_intros)
       (use assms in auto)
qed

end

section \<open>What arrives\<close>

text \<open>
  \<open>writes ps m\<close>: on a pipe with room for them \<open>m\<close> sends the packets \<open>ps\<close> and succeeds, and whenever
  it succeeds it has sent exactly these.
\<close>

definition sent_more :: "packet list \<Rightarrow> pipe \<Rightarrow> pipe" where
  "sent_more ps w = \<lparr> sent = sent w @ ps, room = room w - length ps \<rparr>"

definition writes :: "packet list \<Rightarrow> (pipe, error, unit) act \<Rightarrow> bool" where
  "writes ps m \<longleftrightarrow>
     (\<forall>w. (length ps \<le> room w \<longrightarrow> m w = (Inr (), sent_more ps w)) \<and>
          (\<forall>w'. m w = (Inr (), w') \<longrightarrow> length ps \<le> room w))"

named_theorems writes_intros

lemma writesD: "writes ps m \<Longrightarrow> m w = (Inr u, w') \<Longrightarrow> w' = sent_more ps w \<and> length ps \<le> room w"
  by (fastforce simp: writes_def)

lemma writes_run: "writes ps m \<Longrightarrow> length ps \<le> room w \<Longrightarrow> m w = (Inr (), sent_more ps w)"
  by (simp add: writes_def)

lemma sent_more_append [simp]: "sent_more qs (sent_more ps w) = sent_more (ps @ qs) w"
  for w :: pipe by (simp add: sent_more_def)

lemma writes_simple [writes_intros]:
  "writes [] (retA ())" "writes [PText b] (w_text pipe_writer b)" "writes [PFlush] (w_flush pipe_writer)"
  "writes [PDelim] (w_delim pipe_writer)" "writes [PBand c b] (w_band pipe_writer c b)"
  by (auto simp: writes_def pipe_writer_def pipe_put_def sent_more_def Suc_le_eq)

lemma writes_bind [writes_intros]:
  assumes m: "writes ps m" and f: "writes qs k"
  shows "writes (ps @ qs) (bindA m (\<lambda>_. k))"
  unfolding writes_def
proof (intro allI conjI impI)
  fix w :: pipe assume "length (ps @ qs) \<le> room w"
  with writes_run [OF m, of w] writes_run [OF f, of "sent_more ps w"]
  show "bindA m (\<lambda>_. k) w = (Inr (), sent_more (ps @ qs) w)" by (simp add: bindA_def sent_more_def)
next
  fix w w' assume "bindA m (\<lambda>_. k) w = (Inr (), w')"
  then obtain w1 where "m w = (Inr (), w1)" "k w1 = (Inr (), w')" by (auto simp: bindA_Inr)
  with writesD [OF m] writesD [OF f] show "length (ps @ qs) \<le> room w" by (fastforce simp: sent_more_def)
qed

lemma writes_for [writes_intros]:
  assumes "\<And>x. writes (ps x) (f x)"
  shows "writes (concat (map ps xs)) (forA xs f)"
proof (induction xs)
  case (Cons x xs)
  then show ?case using writes_bind [OF assms [of x]] by simp
qed (auto simp: writes_def sent_more_def retA_def)

lemma writes_texts: "writes (map PText (map g xs)) (forA xs (\<lambda>x. w_text pipe_writer (g x)))"
  using writes_for [of "\<lambda>x. [PText (g x)]"] writes_simple(2) by (simp add: comp_def) 

definition listing :: "'o oid_ops \<Rightarrow> list_refs_args \<Rightarrow> 'o refs_snapshot \<Rightarrow> packet list" where
  "listing H args snapshot =
     map PText (case head_line H args (rs_head snapshot) of None \<Rightarrow> [] | Some l \<Rightarrow> [l]) @
     map PText (map (ref_line H args) (filter (selected args) (rs_refs snapshot))) @ [PFlush]"

lemma writes_listrefs: "writes (listing H args snapshot) (perform_listrefs pipe_writer H snapshot args)"
proof -
  have refs: "writes (concat (map (\<lambda>r. if selected args r then [PText (ref_line H args r)] else []) rs))
     (forA rs (\<lambda>r. if selected args r then w_text pipe_writer (ref_line H args r) else retA ()))" for rs
    by (rule writes_for) (simp add: writes_simple)
  have flat: "concat (map (\<lambda>r. if selected args r then [PText (ref_line H args r)] else []) rs) =
     map PText (map (ref_line H args) (filter (selected args) rs))" for rs by (induction rs) auto
  have head: "writes (map PText (case head_line H args (rs_head snapshot) of None \<Rightarrow> [] | Some l \<Rightarrow> [l]))
     (case head_line H args (rs_head snapshot) of None \<Rightarrow> retA () | Some l \<Rightarrow> w_text pipe_writer l)"
    by (auto split: option.splits intro: writes_simple)
  show ?thesis
    unfolding perform_listrefs_def listing_def
    by (rule writes_bind [OF head writes_bind [OF refs [unfolded flat] writes_simple(3)]])
qed

definition acks :: "'o oid_ops \<Rightarrow> 'o list \<Rightarrow> packet list" where
  "acks H common = PText ''acknowledgments'' #
     (if common = [] then [PText ''NAK''] else map PText (map (\<lambda>x. ''ACK '' @ to_hex H x) common))"

lemma writes_acknowledge: "writes (acks H common) (acknowledge pipe_writer H common)"
proof -
  have "writes (if common = [] then [PText ''NAK''] else map PText (map (\<lambda>x. ''ACK '' @ to_hex H x) common))
     (if common = [] then w_text pipe_writer ''NAK'' else forA common (\<lambda>x. w_text pipe_writer (''ACK '' @ to_hex H x)))"
    by (simp add: writes_simple writes_texts del: map_map)
  from writes_bind [OF writes_simple(2) this] show ?thesis by (simp add: acknowledge_def acks_def)
qed

text \<open>The bytes of a pack as its reader yields them, up to the end of file or the first error.\<close>

fun pack_of :: "bytes res list \<Rightarrow> bytes" where
  "pack_of (Inr (b # bs) # rs) = (b # bs) @ pack_of rs"
| "pack_of _ = []"

fun broken :: "bytes res list \<Rightarrow> bool" where
  "broken (Inr (b # bs) # rs) = broken rs"
| "broken (Inl e # rs) = True"
| "broken _ = False"

definition data_of :: "packet list \<Rightarrow> bytes" where
  "data_of ps = concat (map (\<lambda>p. case p of PBand DataChannel b \<Rightarrow> b | _ \<Rightarrow> []) ps)"

lemma data_of_append [simp]: "data_of (ps @ qs) = data_of ps @ data_of qs"
  by (simp add: data_of_def)

lemma pack_of_nonempty:
  "(\<And>c. c \<in> set cs \<Longrightarrow> c \<noteq> []) \<Longrightarrow> pack_of (map Inr cs) = concat cs \<and> \<not> broken (map Inr cs)"
proof (induction cs)
  case (Cons c cs)
  then show ?case by (cases c) auto
qed simp

lemma pack_of_chunks: "0 < n \<Longrightarrow> pack_of (map Inr (chunks n bs)) = bs \<and> \<not> broken (map Inr (chunks n bs))"
  using pack_of_nonempty [of "chunks n bs"] chunks_size concat_chunks by metis

definition band_only :: "packet list \<Rightarrow> bool" where
  "band_only ps \<longleftrightarrow> (\<forall>p \<in> set ps. \<exists>c b. p = PBand c b)"

lemma writes_progress: "writes (map (PBand ProgressChannel) msgs) (drain_progress pipe_writer msgs)"
  using writes_for [of "\<lambda>x. [PBand ProgressChannel x]"] writes_simple(5)
  by (simp add: drain_progress_def comp_def)

lemma data_of_progress [simp]: "data_of (map (PBand ProgressChannel) msgs) = []"
  by (simp add: data_of_def)

text \<open>
  \<open>emits R m\<close>: whatever the outcome, \<open>m\<close> appended packets of the side band to the pipe, and \<open>R\<close> holds of
  the outcome, the pack data among them and the room left.
\<close>

definition emits :: "(error + unit \<Rightarrow> bytes \<Rightarrow> nat \<Rightarrow> bool) \<Rightarrow> (pipe, error, unit) act \<Rightarrow> bool" where
  "emits R m \<longleftrightarrow> (\<forall>w r w'. m w = (r, w') \<longrightarrow>
     (\<exists>ps. sent w' = sent w @ ps \<and> room w' + length ps = room w \<and> band_only ps \<and> R r (data_of ps) (room w')))"

lemma emits_bind:
  assumes m: "emits R m" and k: "\<And>d n. R (Inr ()) d n \<Longrightarrow> emits (\<lambda>r d'. S r (d @ d')) k"
    and err: "\<And>e d n. R (Inl e) d n \<Longrightarrow> S (Inl e) d n"
  shows "emits S (bindA m (\<lambda>_. k))"
  unfolding emits_def
proof (intro allI impI)
  fix w r w' assume run: "bindA m (\<lambda>_. k) w = (r, w')"
  obtain r1 w1 where m1: "m w = (r1, w1)" by fastforce
  with m obtain ps where ps: "sent w1 = sent w @ ps" "room w1 + length ps = room w" "band_only ps"
    "R r1 (data_of ps) (room w1)" unfolding emits_def by blast
  show "\<exists>ps. sent w' = sent w @ ps \<and> room w' + length ps = room w \<and> band_only ps \<and> S r (data_of ps) (room w')"
  proof (cases r1)
    case (Inl e)
    with run m1 ps err show ?thesis by (auto simp: bindA_def)
  next
    case (Inr u)
    with run m1 have "k w1 = (r, w')" by (simp add: bindA_def)
    with k [of "data_of ps" "room w1"] Inr ps(4) obtain qs where
      "sent w' = sent w1 @ qs" "room w' + length qs = room w1" "band_only qs" "S r (data_of ps @ data_of qs) (room w')"
      unfolding emits_def by fastforce
    with ps show ?thesis by (intro exI [of _ "ps @ qs"]) (auto simp: band_only_def)
  qed
qed

lemma emits_band:
  "emits (\<lambda>r d n. (r = Inr () \<and> d = (case c of DataChannel \<Rightarrow> b | _ \<Rightarrow> [])) \<or> (\<exists>e. r = Inl e \<and> d = [] \<and> n = 0))
     (w_band pipe_writer c b)"
  unfolding emits_def
proof (intro allI impI, goal_cases)
  case (1 w r w')
  then show ?case
    by (cases "room w = 0"; intro exI [of _ "if room w = 0 then [] else [PBand c b]"])
       (auto simp: pipe_writer_def pipe_put_def band_only_def data_of_def split: channel.splits)
qed

lemma emits_nothing: "emits (\<lambda>r d n. r = x \<and> d = []) (\<lambda>w. (x, w))"
  by (auto simp: emits_def band_only_def data_of_def)

lemma emits_weaken: "emits R m \<Longrightarrow> (\<And>r d n. R r d n \<Longrightarrow> S r d n) \<Longrightarrow> emits S m"
  unfolding emits_def by blast

lemma emits_progress: "emits (\<lambda>r d n. d = [] \<and> (r = Inr () \<or> n = 0)) (drain_progress pipe_writer msgs)"
  unfolding drain_progress_def
proof (induction msgs)
  case Nil
  show ?case using emits_weaken [OF emits_nothing [of "Inr ()"]] by (simp add: retA_def)
next
  case (Cons b msgs)
  show ?case unfolding forA_simps by (rule emits_bind [OF emits_band]) (use Cons.IH in auto)
qed

definition faithful :: "bytes res list \<Rightarrow> error + unit \<Rightarrow> bytes \<Rightarrow> nat \<Rightarrow> bool" where
  "faithful reads r d n \<longleftrightarrow> prefix d (pack_of reads) \<and>
     (case r of Inr _ \<Rightarrow> d = pack_of reads \<and> \<not> broken reads | Inl _ \<Rightarrow> broken reads \<or> n = 0)"

lemma emits_stream: "emits (faithful reads) (stream_pack_sideband pipe_writer reads rx)"
proof (induction pipe_writer reads rx rule: stream_pack_sideband.induct)
  case (1 rx)
  show ?case unfolding stream_pack_sideband.simps
    by (rule emits_bind [OF emits_progress], rule emits_weaken [OF emits_progress]) (auto simp: faithful_def split: sum.splits)
next
  case (2 a rs rx)
  have rest: "emits (\<lambda>r d. faithful (a # rs) r ([] @ d)) (case a of Inl e \<Rightarrow> failA e
       | Inr [] \<Rightarrow> drain_progress pipe_writer (fst (poll (snd (poll rx))))
       | Inr (b # bs) \<Rightarrow> bindA (w_band pipe_writer DataChannel (b # bs))
           (\<lambda>_. stream_pack_sideband pipe_writer rs (snd (poll rx))))"
  proof (cases a)
    case (Inl e)
    show ?thesis unfolding Inl sum.case failA_def
      by (rule emits_weaken [OF emits_nothing]) (auto simp: faithful_def)
  next
    case (Inr c)
    show ?thesis
    proof (cases c)
      case Nil
      show ?thesis unfolding Inr Nil list.case sum.case
        by (rule emits_weaken [OF emits_progress]) (auto simp: faithful_def split: sum.splits)
    next
      case (Cons b bs)
      show ?thesis unfolding Inr Cons list.case sum.case
        by (rule emits_bind [OF emits_band], rule emits_weaken [OF 2 [OF Inr Cons]])
           (auto simp: faithful_def split: sum.splits)
    qed
  qed
  show ?case unfolding stream_pack_sideband.simps
    by (rule emits_bind [OF emits_progress], use rest in auto) (auto simp: faithful_def split: sum.splits)
qed

lemma send_pack_Inr:
  assumes "send_pack pipe_writer args out w = (Inr u, w')"
  shows "\<exists>ps. sent w' = sent w @ ps @ [PFlush] \<and> band_only ps \<and> data_of ps = pack_of (out_reader out)"
proof -
  from assms obtain v w1 where s: "stream_pack_sideband pipe_writer (out_reader out)
      (if fa_no_progress args then None else out_progress out) w = (Inr v, w1)" "w_flush pipe_writer w1 = (Inr u, w')"
    by (auto simp: send_pack_def bindA_Inr)
  with emits_stream [of "out_reader out"] obtain ps where "sent w1 = sent w @ ps" "band_only ps"
    "data_of ps = pack_of (out_reader out)" unfolding emits_def faithful_def by fastforce
  moreover have "sent w' = sent w1 @ [PFlush]"
    using writesD [OF writes_simple(3) s(2)] by (simp add: sent_more_def)
  ultimately show ?thesis by (intro exI [of _ ps]) auto
qed

definition shallow_section :: "'o oid_ops \<Rightarrow> 'o list \<Rightarrow> packet list" where
  "shallow_section H xs =
     (if xs = [] then [] else PText ''shallow-info'' # map PText (map (\<lambda>x. ''shallow '' @ to_hex H x) xs) @ [PDelim])"

lemma writes_shallow_section: "writes (shallow_section H xs)
   (if xs = [] then retA ()
    else bindA (w_text pipe_writer ''shallow-info'') (\<lambda>_.
         bindA (forA xs (\<lambda>x. w_text pipe_writer (''shallow '' @ to_hex H x))) (\<lambda>_. w_delim pipe_writer)))"
proof (cases "xs = []")
  case False
  with writes_bind [OF writes_simple(2) writes_bind [OF writes_texts writes_simple(4)]] show ?thesis
    by (simp add: shallow_section_def)
next
  case True
  show ?thesis unfolding shallow_section_def if_P [OF True] by (rule writes_simple(1))
qed

lemma andThen_InrInr:
  "andThen m f s = (Inr (Inr y), t) \<longleftrightarrow> (\<exists>x s1. m s = (Inr (Inr x), s1) \<and> f x s1 = (Inr (Inr y), t))"
  by (auto simp: andThen_def bindA_def split: prod.splits sum.splits)

lemma on_attempts_InrInr:
  "on_state (attempt m) (s, w) = (Inr (Inr x), tw) \<longleftrightarrow> (\<exists>t. m s = (Inr x, t) \<and> tw = (t, w))"
  "attempt (on_writer k) (s, w) = (Inr (Inr x), tw) \<longleftrightarrow> (\<exists>w'. k w = (Inr x, w') \<and> tw = (s, w'))"
  by (auto simp: on_state_def on_writer_def attempt_def split: prod.splits)

lemma build_requested_Inr:
  "build_requested B repo args have (s, w) = (Inr (Inr out), tw) \<longleftrightarrow>
   (\<exists>opts t. pack_opts args = Inr opts \<and> be_build_pack B repo (fa_want args) have opts s = Some (Inr out, t) \<and> tw = (t, w))"
  by (auto simp: build_requested_def andThen_def bindA_def on_state_def attempt_opt_def
      split: sum.splits prod.splits option.splits)

definition pack_section ::
  "('id, 'r, 'p, 'o, 's) backend \<Rightarrow> 'o oid_ops \<Rightarrow> 'r \<Rightarrow> 'o fetch_args \<Rightarrow> 'o list \<Rightarrow> ('s \<times> pipe, stop, error + unit) act" where
  "pack_section B H repo args common =
     andThen (build_requested B repo args common) (\<lambda>out. attempt (on_writer (
       bindA (if out_shallow out = [] then retA ()
          else bindA (w_text pipe_writer ''shallow-info'') (\<lambda>_.
               bindA (forA (out_shallow out) (\<lambda>x. w_text pipe_writer (''shallow '' @ to_hex H x))) (\<lambda>_.
                 w_delim pipe_writer))) (\<lambda>_.
       bindA (w_text pipe_writer ''packfile'') (\<lambda>_. send_pack pipe_writer args out)))))"

lemma perform_fetch_alt:
  "perform_fetch B pipe_writer H repo args =
     andThen (on_state (attempt (be_has_objects B repo (fa_have args)))) (\<lambda>known.
       let common = known_haves (fa_have args) known in
       if fa_done args then pack_section B H repo args common
       else andThen (attempt (on_writer (acknowledge pipe_writer H common))) (\<lambda>_.
              if common = [] \<or> fa_wait_for_done args then attempt (on_writer (w_flush pipe_writer))
              else andThen (attempt (on_writer (bindA (w_text pipe_writer ''ready'') (\<lambda>_. w_delim pipe_writer)))) (\<lambda>_.
                     pack_section B H repo args common)))"
  unfolding perform_fetch_def pack_section_def Let_def de_Morgan_conj not_not by (rule refl)

lemma pack_section_Inr:
  assumes "pack_section B H repo args common (s, w) = (Inr (Inr ()), (t, w'))"
  shows "\<exists>opts out ps. pack_opts args = Inr opts \<and>
      be_build_pack B repo (fa_want args) common opts s = Some (Inr out, t) \<and>
      sent w' = sent w @ shallow_section H (out_shallow out) @ [PText ''packfile''] @ ps @ [PFlush] \<and>
      band_only ps \<and> data_of ps = pack_of (out_reader out)"
proof -
  from assms obtain opts out w1 w2 where b: "pack_opts args = Inr opts"
    "be_build_pack B repo (fa_want args) common opts s = Some (Inr out, t)"
    and w1: "(if out_shallow out = [] then retA () else bindA (w_text pipe_writer ''shallow-info'') (\<lambda>_.
          bindA (forA (out_shallow out) (\<lambda>x. w_text pipe_writer (''shallow '' @ to_hex H x))) (\<lambda>_.
            w_delim pipe_writer))) w = (Inr (), w1)"
    and w2: "w_text pipe_writer ''packfile'' w1 = (Inr (), w2)"
    and w': "send_pack pipe_writer args out w2 = (Inr (), w')"
    unfolding pack_section_def andThen_InrInr
    by (clarsimp simp: on_attempts_InrInr build_requested_Inr bindA_Inr simp del: if_split)
  with send_pack_Inr [OF w'] writesD [OF writes_shallow_section w1] writesD [OF writes_simple(2) w2] show ?thesis
    by (auto simp: sent_more_def)
qed

text \<open>
  C4. A version 2 fetch, on any backend.  When \<open>perform_fetch\<close> succeeds, the haves the backend knows
  were acknowledged unless the client was done; without a common commit, or when the client asked to
  wait, the answer ends there and no pack is built; otherwise the pack the backend built for the wants
  and the common commits follows, byte for byte, in side-band packets, after the shallow commits.
\<close>

theorem fetch_answer:
  assumes run: "perform_fetch B pipe_writer H repo args (s, w) = (Inr (Inr ()), (t, w'))"
  shows "\<exists>known s1. be_has_objects B repo (fa_have args) s = (Inr known, s1) \<and>
    (let common = known_haves (fa_have args) known in
     if \<not> fa_done args \<and> (common = [] \<or> fa_wait_for_done args)
     then t = s1 \<and> sent w' = sent w @ acks H common @ [PFlush]
     else \<exists>opts out ps. pack_opts args = Inr opts \<and>
            be_build_pack B repo (fa_want args) common opts s1 = Some (Inr out, t) \<and>
            sent w' = sent w @ (if fa_done args then [] else acks H common @ [PText ''ready'', PDelim]) @
              shallow_section H (out_shallow out) @ [PText ''packfile''] @ ps @ [PFlush] \<and>
            band_only ps \<and> data_of ps = pack_of (out_reader out))"
proof -
  from run obtain known s1 where known: "be_has_objects B repo (fa_have args) s = (Inr known, s1)"
    by (auto simp: perform_fetch_alt andThen_InrInr on_attempts_InrInr)
  define common where "common = known_haves (fa_have args) known"
  consider (pack) "fa_done args" "pack_section B H repo args common (s1, w) = (Inr (Inr ()), (t, w'))"
    | (wait) w1 where "\<not> fa_done args" "common = [] \<or> fa_wait_for_done args" "t = s1"
        "acknowledge pipe_writer H common w = (Inr (), w1)" "w_flush pipe_writer w1 = (Inr (), w')"
    | (ready) w1 w2 where "\<not> fa_done args" "\<not> (common = [] \<or> fa_wait_for_done args)"
        "acknowledge pipe_writer H common w = (Inr (), w1)"
        "bindA (w_text pipe_writer ''ready'') (\<lambda>_. w_delim pipe_writer) w1 = (Inr (), w2)"
        "pack_section B H repo args common (s1, w2) = (Inr (Inr ()), (t, w'))"
    using run known unfolding perform_fetch_alt common_def
    by (auto simp: andThen_InrInr on_attempts_InrInr Let_def split: if_splits)
  then show ?thesis
  proof cases
    case pack
    with known pack_section_Inr [OF pack(2)] show ?thesis by (auto simp: Let_def common_def)
  next
    case wait
    with known writesD [OF writes_acknowledge wait(4)] writesD [OF writes_simple(3) wait(5)] show ?thesis
      by (auto simp: Let_def common_def sent_more_def)
  next
    case ready
    with known writesD [OF writes_acknowledge ready(3)] writesD [OF writes_bind [OF writes_simple(2,4)] ready(4)]
      pack_section_Inr [OF ready(5)] show ?thesis by (auto simp: Let_def common_def sent_more_def)
  qed
qed

definition demo_fetch_args :: "sha1 fetch_args" where
  "demo_fetch_args = fetch_init\<lparr> fa_done := True \<rparr>"

lemma demo_has_objects:
  "\<exists>t. be_has_objects demo_backend 1 [] (empty_cluster, d) = (Inr [], (t, d))"
  by (simp add: demo_backend_def kv_backend_def kv_act_def kv_has_objects_def quiet cluster_api_def
      empty_cluster_def write_alist_def)

lemma demo_build_pack:
  "\<exists>d'. be_build_pack demo_backend 1 [] [] opts (s, empty_dir) = Some (Inr (output_of (build_empty_pack demo_tools)), (s, d'))"
  by (simp add: demo_backend_def kv_backend_def kv_build_pack_def try_hit_def empty_dir_def bindO_def on_store_def
      needed_objects_def kv_walk_def kv_reachable_excluding_def reachable_excluding_def totalO_def)

lemma demo_chunks: "chunks MAX_SIDEBAND (build_empty_pack demo_tools) = [build_empty_pack demo_tools]"
  by (simp add: chunks.simps MAX_SIDEBAND_def build_empty_pack_def demo_tools_def)

theorem fetch_answer_witness:
  "\<exists>t ps w'. perform_fetch demo_backend pipe_writer sha1_ops 1 demo_fetch_args ((empty_cluster, empty_dir), new_pipe 9) =
     (Inr (Inr ()), (t, w')) \<and> sent w' = PText ''packfile'' # ps @ [PFlush] \<and> data_of ps = build_empty_pack demo_tools"
proof -
  obtain t where t: "be_has_objects demo_backend 1 [] (empty_cluster, empty_dir) = (Inr [], (t, empty_dir))"
    using demo_has_objects by blast
  obtain d' where d': "be_build_pack demo_backend 1 [] [] \<lparr> opt_deepen = None, opt_filter = None, opt_thin_pack = False \<rparr>
      (t, empty_dir) = Some (Inr (output_of (build_empty_pack demo_tools)), (t, d'))" using demo_build_pack by blast
  obtain b bs where b: "build_empty_pack demo_tools = b # bs" by (simp add: build_empty_pack_def)
  have "\<exists>w'. perform_fetch demo_backend pipe_writer sha1_ops 1 demo_fetch_args ((empty_cluster, empty_dir), new_pipe 9) =
     (Inr (Inr ()), ((t, d'), w'))"
    using t d' b demo_chunks [unfolded b]
    by (simp add: perform_fetch_def demo_fetch_args_def fetch_init_def andThen_def bindA_def on_state_def attempt_def
        known_haves_def build_requested_def pack_opts_def attempt_opt_def output_of_def Let_def
        send_pack_def on_writer_def pipe_writer_def pipe_put_def new_pipe_def drain_progress_def poll_def)
  then obtain w' where w': "perform_fetch demo_backend pipe_writer sha1_ops 1 demo_fetch_args
      ((empty_cluster, empty_dir), new_pipe 9) = (Inr (Inr ()), ((t, d'), w'))" by blast
  from fetch_answer [OF this] t d' obtain ps where
    "sent w' = PText ''packfile'' # ps @ [PFlush]" "data_of ps = pack_of [Inr (build_empty_pack demo_tools)]"
    by (auto simp: Let_def demo_fetch_args_def fetch_init_def known_haves_def pack_opts_def output_of_def demo_chunks
        shallow_section_def new_pipe_def map_filter_def)
  with w' b show ?thesis by auto
qed

text \<open>
  Fetching changes no ref.  A whole upload-pack session over a connection, in any version of the
  protocol, with any requests, ends with the same ref writes committed as it began with, whether it
  succeeds, fails or stops; creating the repository on first access writes no ref either.
\<close>

theorem fetch_writes_no_ref:
  "ref_log (commits_of (fst (fst (snd (serve_upload_pack A (kv_backend G bundle_of T cluster_api H) W H version limits p
     ((s, d), w)))))) = ref_log (commits_of s)"
proof -
  obtain r t d' w' where run: "serve_upload_pack A (kv_backend G bundle_of T cluster_api H) W H version limits p
     ((s, d), w) = (r, ((t, d'), w'))" by (metis surj_pair)
  from keepsD [OF backend_keeps.keeps_serve_upload_pack [OF cluster_keeps] _ run] run show ?thesis by simp
qed

text \<open>
  Only a request to \<open>git-receive-pack\<close> can change a ref over HTTP: every other request, in either
  protocol, commits no ref write while it is handled, nor does the task that streams its response.
\<close>

theorem http_fetch_writes_no_ref:
  assumes path: "path \<noteq> ''git-receive-pack''"
    and run: "serve_git_protocol_1 A (kv_backend G bundle_of T cluster_api H) W H empty_tree E packets path query ct limits body
        (s, d) = (Inr resp, (t, d')) \<or>
      serve_git_protocol_2 A (kv_backend G bundle_of T cluster_api H) W H empty_tree E packets path query ct limits body
        (s, d) = (Inr resp, (t, d'))"
  shows "ref_log (commits_of t) = ref_log (commits_of s) \<and>
    (\<forall>L. safe_response (\<lambda>sd. ref_log (commits_of (fst sd)) = L) resp)"
  using run
proof (rule disjE)
  assume "serve_git_protocol_1 A (kv_backend G bundle_of T cluster_api H) W H empty_tree E packets path query ct limits body
    (s, d) = (Inr resp, (t, d'))"
  from keepsD [OF backend_keeps.keeps_http(1) [OF cluster_keeps] _ this]
    returnsD [OF backend_keeps.safe_http(1) [OF cluster_keeps path] this] show ?thesis by simp
next
  assume "serve_git_protocol_2 A (kv_backend G bundle_of T cluster_api H) W H empty_tree E packets path query ct limits body
    (s, d) = (Inr resp, (t, d'))"
  from keepsD [OF backend_keeps.keeps_http(2) [OF cluster_keeps] _ this]
    returnsD [OF backend_keeps.safe_http(2) [OF cluster_keeps path] this] show ?thesis by simp
qed

definition advertisement :: "(cluster \<times> cache_dir, pipe) git_response" where
  "advertisement = stream_response (Some ''application/x-git-upload-pack-advertisement'') (info_refs_task pipe_writer)"

theorem http_fetch_writes_no_ref_witness:
  "serve_git_protocol_2 demo_access demo_backend pipe_writer sha1_ops 4 temp_ok (\<lambda>_. []) ''info/refs''
     ''service=git-upload-pack'' [] default_limits [] (empty_cluster, empty_dir) =
     (Inr advertisement, (empty_cluster, empty_dir)) \<and>
   safe_response (\<lambda>sd. ref_log (commits_of (fst sd)) = []) advertisement"
proof -
  have run: "serve_git_protocol_2 demo_access demo_backend pipe_writer sha1_ops 4 temp_ok (\<lambda>_. []) ''info/refs''
     ''service=git-upload-pack'' [] default_limits [] (empty_cluster, empty_dir) =
     (Inr advertisement, (empty_cluster, empty_dir))"
    by (simp add: serve_git_protocol_2_def wants_service_def advertisement_def)
  with http_fetch_writes_no_ref [OF _ disjI2 [OF run [unfolded demo_backend_def]]] show ?thesis by simp
qed

section \<open>Every request is answered\<close>

definition answers :: "('a \<Rightarrow> bool) \<Rightarrow> ('s, 'e, 'a) act \<Rightarrow> bool" where
  "answers R m \<longleftrightarrow> (\<forall>s. \<exists>x t. m s = (Inr x, t) \<and> R x)"

named_theorems answers_intros

lemma answers_ret [answers_intros]: "R x \<Longrightarrow> answers R (retA x)"
  by (simp add: answers_def)

lemma answers_bind [answers_intros]: "answers (\<lambda>_. True) m \<Longrightarrow> (\<And>x. answers R (f x)) \<Longrightarrow> answers R (bindA m f)"
  unfolding answers_def by (metis bindA_run(1))

lemma answers_attempt [answers_intros]: "answers (\<lambda>_. True) (attempt m)"
  by (auto simp: answers_def attempt_def split: prod.splits)

lemma answers_if [answers_intros]:
  "(b \<Longrightarrow> answers R m) \<Longrightarrow> (\<not> b \<Longrightarrow> answers R m') \<Longrightarrow> answers R (if b then m else m')"
  by simp

lemma answers_prod [answers_intros]: "(\<And>x y. answers R (f x y)) \<Longrightarrow> answers R (case r of (x, y) \<Rightarrow> f x y)"
  by (cases r) auto

lemma answers_command [answers_intros]:
  "answers R l \<Longrightarrow> answers R e \<Longrightarrow> answers R f \<Longrightarrow> answers R (case c of ListRefs \<Rightarrow> l | Empty \<Rightarrow> e | Fetch \<Rightarrow> f)"
  by (cases c) auto

definition well_formed_response :: "('s, 'w) git_response \<Rightarrow> bool" where
  "well_formed_response resp \<longleftrightarrow>
     status_code resp \<in> {200, 400, 404, 500} \<and> (resp_reader resp = None \<longleftrightarrow> status_code resp \<noteq> 200)"

lemma well_formed_responses:
  "well_formed_response (stream_response ct task)"
  "c \<in> {400, 404, 500} \<Longrightarrow> well_formed_response (plain_response c ct b)"
  by (auto simp: well_formed_response_def stream_response_def plain_response_def)

lemma answers_res_try [answers_intros]:
  "(\<And>x. answers well_formed_response (f x)) \<Longrightarrow> answers well_formed_response (res_try r f)"
  by (cases r) (auto simp: res_try_def well_formed_response_def intro: answers_intros)

lemma answers_resolve_wants [answers_intros]: "answers (\<lambda>_. True) (resolve_wants B repo args)"
proof -
  have "answers (\<lambda>_. True) (foldA (\<lambda>args name. bindA (attempt (be_resolve_ref B repo name)) (\<lambda>r.
      retA (case r of Inr (Some x) \<Rightarrow> args\<lparr> fa_want := fa_want args @ [x] \<rparr> | _ \<Rightarrow> args))) a names)" for a names
    by (induction names arbitrary: a) (auto intro!: answers_intros)
  then show ?thesis by (simp add: resolve_wants_def)
qed



section \<open>Listing refs\<close>


definition demo_snapshot :: "sha1 refs_snapshot" where
  "demo_snapshot = \<lparr> rs_head = None,
     rs_refs = [\<lparr> ri_name = ''refs/heads/main'', ri_oid = 7, ri_peeled = None, ri_symref = None \<rparr>,
                \<lparr> ri_name = ''refs/tags/v1'', ri_oid = 8, ri_peeled = Some 9, ri_symref = None \<rparr>] \<rparr>"

definition tags_args :: list_refs_args where
  "tags_args = lsrefs_init\<lparr> la_prefixes := [''refs/tags/''], la_unborn := True \<rparr>"


section \<open>A session ends\<close>

definition completes :: "('s \<Rightarrow> bool) \<Rightarrow> ('s, 'e, 'a) act \<Rightarrow> bool" where
  "completes P m \<longleftrightarrow> (\<forall>s. P s \<longrightarrow> (\<exists>x t. m s = (Inr x, t) \<and> P t))"

named_theorems completes_intros

lemma completes_ret [completes_intros]: "completes P (retA x)"
  by (simp add: completes_def)

lemma completes_bind [completes_intros]: "completes P m \<Longrightarrow> (\<And>x. completes P (f x)) \<Longrightarrow> completes P (bindA m f)"
  unfolding completes_def by (metis bindA_run(1))

lemma completes_andThen [completes_intros]: "completes P m \<Longrightarrow> (\<And>x. completes P (f x)) \<Longrightarrow> completes P (andThen m f)"
  unfolding andThen_def by (rule completes_bind) (auto split: sum.splits intro: completes_intros)

lemma completes_attempt [completes_intros]: "keeps P m \<Longrightarrow> completes P (attempt m)"
  by (auto simp: completes_def attempt_def split: prod.splits dest: keepsD)

lemma completes_on_state [completes_intros]: "completes P m \<Longrightarrow> completes (\<lambda>sw. P (fst sw)) (on_state m)"
  unfolding completes_def on_state_def by (fastforce split: prod.splits)

lemma completes_on_writer [completes_intros]: "completes (\<lambda>sw. P (fst sw)) (attempt (on_writer m))"
  by (rule completes_attempt) (rule keeps_on_writer)

lemma completes_if [completes_intros]:
  "(b \<Longrightarrow> completes P m) \<Longrightarrow> (\<not> b \<Longrightarrow> completes P m') \<Longrightarrow> completes P (if b then m else m')"
  by simp

text \<open>The operations of a backend that a fetch uses keep \<open>P\<close>, and building a pack returns.\<close>

locale fetch_backend =
  fixes B :: "('id, 'r, 'p, 'o, 's) backend" and P :: "'s \<Rightarrow> bool"
  assumes keeps_open: "keeps P (be_open B i)"
    and keeps_list_refs: "keeps P (be_list_refs B r)"
    and keeps_resolve_ref: "keeps P (be_resolve_ref B r name)"
    and keeps_has_objects: "keeps P (be_has_objects B r xs)"
    and build_pack_ends: "P s \<Longrightarrow> \<exists>out t. be_build_pack B r want have opts s = Some (out, t) \<and> P t"
begin

lemma completes_resolve_wants [completes_intros]: "completes P (resolve_wants B repo args)"
proof -
  have "completes P (foldA (\<lambda>args name. bindA (attempt (be_resolve_ref B repo name)) (\<lambda>r.
      retA (case r of Inr (Some x) \<Rightarrow> args\<lparr> fa_want := fa_want args @ [x] \<rparr> | _ \<Rightarrow> args))) a names)" for a names
    by (induction names arbitrary: a) (auto intro!: completes_intros keeps_resolve_ref)
  then show ?thesis by (simp add: resolve_wants_def)
qed

lemma completes_build_requested [completes_intros]:
  "completes (\<lambda>sw. P (fst sw)) (build_requested B repo args have)"
proof -
  have "completes P (attempt_opt (be_build_pack B repo (fa_want args) have opts))" for opts
    unfolding completes_def
  proof (intro allI impI)
    fix s assume "P s"
    from build_pack_ends [OF this, of repo "fa_want args" "have" opts] show
      "\<exists>x t. attempt_opt (be_build_pack B repo (fa_want args) have opts) s = (Inr x, t) \<and> P t"
      by (auto simp: attempt_opt_def)
  qed
  then show ?thesis unfolding build_requested_def by (intro completes_intros)
qed

lemma completes_perform_fetch [completes_intros]:
  "completes (\<lambda>sw. P (fst sw)) (perform_fetch B W H repo args)"
  "completes (\<lambda>sw. P (fst sw)) (perform_fetch_v1 B W H repo args)"
  unfolding perform_fetch_def perform_fetch_v1_def Let_def by (intro completes_intros keeps_has_objects)+

lemma completes_upload_session [completes_intros]:
  "completes (\<lambda>sw. P (fst sw)) (upload_session B W H limits repo p)"
proof (induction "length p" arbitrary: p rule: less_induct)
  case less
  have again: "completes (\<lambda>sw. P (fst sw)) (upload_session B W H limits repo p2)"
    if "read_command p = Inr (c, p1)" "length p2 \<le> length p1" for c p1 p2
    using less read_command_shorter [OF that(1)] that(2) by simp
  show ?case
    by (subst upload_session.simps)
       (auto intro!: completes_intros keeps_list_refs again dest: read_args_shorter
         split: sum.splits prod.splits command.splits)
qed

lemma completes_serve_upload_pack:
  assumes "\<not> acc_auto_init A"
  shows "completes (\<lambda>sw. P (fst sw)) (serve_upload_pack A B W H version limits p)"
  using assms unfolding serve_upload_pack_def Let_def
  by (auto intro!: completes_intros keeps_open keeps_list_refs)

end

lemma keeps_idle_reads [keeps_intros]:
  "keeps (idle m) (kv_scan cluster_api lo hi n)" "keeps (idle m) (batch_get cluster_api ks)"
  unfolding cluster_api_def kv_api.simps by (rule idle_op, simp)+

lemma kv_fetch_backend:
  assumes "object_id H"
  shows "fetch_backend (kv_backend G bundle_of T cluster_api H) (\<lambda>sd. steady m (fst sd))"
proof
  have lift: "keeps (\<lambda>sd. steady m (fst sd)) (kv_act f)" if "keeps (steady m) f" for f :: "(cluster, 'e, 'x) act"
    using that by (auto intro!: keepsI simp: kv_act_def split: prod.splits dest: keepsD)
  note kv = kv_backend_def backend.simps
  show "keeps (\<lambda>sd. steady m (fst sd)) (be_open (kv_backend G bundle_of T cluster_api H) i)" for i
    unfolding kv kv_open_inner_def by (intro lift steady_read_txn keeps_intros)
  show "keeps (\<lambda>sd. steady m (fst sd)) (be_list_refs (kv_backend G bundle_of T cluster_api H) r)" for r
    unfolding kv kv_list_refs_def kv_list_refs_body_def by (intro lift steady_read_txn keeps_intros)
  show "keeps (\<lambda>sd. steady m (fst sd)) (be_resolve_ref (kv_backend G bundle_of T cluster_api H) r name)" for r name
    unfolding kv kv_resolve_ref_def by (intro lift steady_read_txn keeps_intros)
  show "keeps (\<lambda>sd. steady m (fst sd)) (be_has_objects (kv_backend G bundle_of T cluster_api H) r xs)" for r xs
    unfolding kv kv_has_objects_def Let_def by (intro lift steady_read_txn keeps_intros)
  show "\<exists>out t. be_build_pack (kv_backend G bundle_of T cluster_api H) r want have opts s = Some (out, t) \<and> steady m (fst t)"
    if "steady m (fst s)" for s r want "have" opts
    using ends_build_pack [OF assms that] by (cases s) (fastforce simp: kv)
qed

interpretation sha1_fetch: fetch_backend "kv_backend G bundle_of T cluster_api sha1_ops" "\<lambda>sd. steady m (fst sd)"
  for G bundle_of T m
  by (rule kv_fetch_backend [OF sha1.object_id_axioms])



end
