(* ===== verification/SQL_Store.thy ===== *)
theory SQL_Store
  imports Effects KV_Keys "HOL-Library.AList"
begin

text \<open>
  The database of the SQL backend (\<open>backend/sql/schema.rs\<close>): its four tables, what each statement of
  the sources does to them, and the connection pool.  SQLite and sqlx are not part of the repository:
  the pool is the record \<open>sql_api\<close>, an argument of every operation, and the locale \<open>sql_client\<close> states
  what the code relies on.  A query on the pool sees one committed state of the tables.  A transaction
  works on the state that was committed when its first statement ran, nobody else commits between
  that and its own commit, and what it did is visible to others as a whole or not at all.
\<close>

section \<open>Tables\<close>

text \<open>Each table is keyed by its primary key; \<open>repositories\<close> has a second unique column, the path.\<close>

record tables =
  repositories :: "(bytes \<times> (repo_id \<times> bytes option)) list"
  objects :: "((repo_id \<times> bytes) \<times> (int \<times> bytes)) list"
  refs :: "((repo_id \<times> bytes) \<times> bytes) list"
  commit_parents :: "((repo_id \<times> bytes \<times> int) \<times> bytes) list"

definition ensure_schema :: tables where
  "ensure_schema = \<lparr> repositories = [], objects = [], refs = [], commit_parents = [] \<rparr>"

datatype statement =
    InsertRepo bytes
  | DeleteRef repo_id bytes bytes
  | InsertRef repo_id bytes bytes
  | UpdateRef bytes repo_id bytes bytes
  | InsertObject repo_id bytes int bytes
  | InsertParent repo_id bytes bytes int

text \<open>An \<open>INTEGER PRIMARY KEY\<close> that is not given is one more than the largest in the table.\<close>

definition next_row_id :: "tables \<Rightarrow> repo_id" where
  "next_row_id t = foldr max (map (fst \<circ> snd) (repositories t)) 0 + 1"

text \<open>The number of rows affected and the tables after it, or the error of a violated constraint.\<close>

definition apply_statement :: "statement \<Rightarrow> tables \<Rightarrow> error + nat \<times> tables" where
  "apply_statement st t =
     (case st of
        InsertRepo path \<Rightarrow>
          (case map_of (repositories t) path of
             Some _ \<Rightarrow> Inr (0, t)
           | None \<Rightarrow> Inr (1, t\<lparr> repositories := (path, (next_row_id t, None)) # repositories t \<rparr>))
      | DeleteRef rid name x \<Rightarrow>
          if map_of (refs t) (rid, name) = Some x
          then Inr (1, t\<lparr> refs := AList.delete (rid, name) (refs t) \<rparr>) else Inr (0, t)
      | InsertRef rid name x \<Rightarrow>
          (case map_of (refs t) (rid, name) of
             Some _ \<Rightarrow> Inl (Ext ''UNIQUE constraint failed: refs.repo_id, refs.name'')
           | None \<Rightarrow> Inr (1, t\<lparr> refs := AList.update (rid, name) x (refs t) \<rparr>))
      | UpdateRef new rid name old \<Rightarrow>
          if map_of (refs t) (rid, name) = Some old
          then Inr (1, t\<lparr> refs := AList.update (rid, name) new (refs t) \<rparr>) else Inr (0, t)
      | InsertObject rid x kind data \<Rightarrow>
          (case map_of (objects t) (rid, x) of
             Some _ \<Rightarrow> Inr (0, t)
           | None \<Rightarrow> Inr (1, t\<lparr> objects := ((rid, x), (kind, data)) # objects t \<rparr>))
      | InsertParent rid c p pos \<Rightarrow>
          (case map_of (commit_parents t) (rid, c, pos) of
             Some _ \<Rightarrow> Inr (0, t)
           | None \<Rightarrow> Inr (1, t\<lparr> commit_parents := ((rid, c, pos), p) # commit_parents t \<rparr>)))"

fun apply_all :: "statement list \<Rightarrow> tables \<Rightarrow> tables option" where
  "apply_all [] t = Some t"
| "apply_all (st # sts) t = (case apply_statement st t of Inl _ \<Rightarrow> None | Inr (_, t') \<Rightarrow> apply_all sts t')"

lemma apply_all_append:
  "apply_all (xs @ ys) t = (case apply_all xs t of None \<Rightarrow> None | Some t' \<Rightarrow> apply_all ys t')"
  by (induction xs arbitrary: t) (auto split: sum.splits)

section \<open>The pool\<close>

record 's sql_api =
  sql_see :: "('s, error, tables) act"
  sql_execute :: "statement \<Rightarrow> ('s, error, nat) act"
  sql_begin :: "('s, error, unit) act"
  sql_exec :: "statement \<Rightarrow> ('s, error, nat) act"
  sql_commit :: "('s, error, unit) act"
  sql_rollback :: "'s \<Rightarrow> 's"

definition sql_query :: "'s sql_api \<Rightarrow> (tables \<Rightarrow> 'a) \<Rightarrow> ('s, error, 'a) act" where
  "sql_query Q f = bindA (sql_see Q) (\<lambda>t. retA (f t))"

text \<open>
  \<open>let mut tx = pool.begin()\<close>, a body and \<open>tx.commit()\<close>: a body that returns early drops the
  transaction, which rolls it back.
\<close>

definition sql_txn :: "'s sql_api \<Rightarrow> bytes \<Rightarrow> bytes \<Rightarrow> ('s, error, 'a) act \<Rightarrow> ('s, error, 'a) act" where
  "sql_txn Q begin_msg commit_msg body =
     bindA (ctxA begin_msg (sql_begin Q)) (\<lambda>_.
       finallyA body (\<lambda>r. case r of
           Inl e \<Rightarrow> (\<lambda>s. (Inl e, sql_rollback Q s))
         | Inr x \<Rightarrow> bindA (ctxA commit_msg (sql_commit Q)) (\<lambda>_. retA x)))"

locale sql_client =
  fixes Q :: "'s sql_api"
    and committed :: "'s \<Rightarrow> tables" and base :: "'s \<Rightarrow> tables" and ran :: "'s \<Rightarrow> statement list"
    and commits :: "'s \<Rightarrow> (tables \<times> statement list) list"
  assumes see_Inr: "sql_see Q s = (Inr t, s') \<Longrightarrow> committed s' = t \<and> commits s' = commits s"
    and see_Inl: "sql_see Q s = (Inl e, s') \<Longrightarrow> commits s' = commits s"
    and execute_Inr: "sql_execute Q st s = (Inr n, s') \<Longrightarrow>
      \<exists>\<sigma>. apply_statement st \<sigma> = Inr (n, committed s') \<and> commits s' = commits s @ [(\<sigma>, [st])]"
    and execute_Inl: "sql_execute Q st s = (Inl e, s') \<Longrightarrow> commits s' = commits s"
    and begin_Inr: "sql_begin Q s = (Inr u, s') \<Longrightarrow> ran s' = [] \<and> commits s' = commits s"
    and begin_Inl: "sql_begin Q s = (Inl e, s') \<Longrightarrow> commits s' = commits s"
    and exec_Inr: "sql_exec Q st s = (Inr n, s') \<Longrightarrow>
      (\<exists>\<pi> \<tau>. apply_all (ran s) (base s') = Some \<pi> \<and> apply_statement st \<pi> = Inr (n, \<tau>)) \<and>
      ran s' = ran s @ [st] \<and> (ran s \<noteq> [] \<longrightarrow> base s' = base s) \<and> commits s' = commits s"
    and exec_Inl: "sql_exec Q st s = (Inl e, s') \<Longrightarrow> commits s' = commits s"
    and commit_Inr: "sql_commit Q s = (Inr u, s') \<Longrightarrow> ran s \<noteq> [] \<Longrightarrow>
      commits s' = commits s @ [(base s, ran s)] \<and> apply_all (ran s) (base s) = Some (committed s')"
    and commit_Inl: "sql_commit Q s = (Inl e, s') \<Longrightarrow> commits s' = commits s"
    and rollback: "commits (sql_rollback Q s) = commits s"
begin

text \<open>A transaction leaves one commit of the statements it ran, or nothing.\<close>

lemma sql_txn_Inr:
  assumes run: "sql_txn Q bm cm body s = (Inr x, t)"
    and body: "\<And>s0 s1. ran s0 = [] \<Longrightarrow> commits s0 = commits s \<Longrightarrow> body s0 = (Inr x, s1) \<Longrightarrow>
      commits s1 = commits s \<and> ran s1 \<noteq> [] \<and> R (base s1) (ran s1)"
  shows "\<exists>\<sigma> sts. commits t = commits s @ [(\<sigma>, sts)] \<and> apply_all sts \<sigma> = Some (committed t) \<and> R \<sigma> sts"
proof -
  from run obtain s0 u where s0: "sql_begin Q s = (Inr u, s0)"
    and fin: "finallyA body (\<lambda>r. case r of Inl e \<Rightarrow> (\<lambda>s. (Inl e, sql_rollback Q s))
       | Inr x \<Rightarrow> bindA (ctxA cm (sql_commit Q)) (\<lambda>_. retA x)) s0 = (Inr x, t)"
    by (auto simp: sql_txn_def bindA_Inr act_Inr)
  obtain r s1 where b: "body s0 = (r, s1)" by fastforce
  with fin obtain u' where "r = Inr x" "sql_commit Q s1 = (Inr u', t)"
    by (cases r) (auto simp: finallyA_def bindA_Inr act_Inr)
  with body [of s0 s1] b begin_Inr [OF s0] commit_Inr [of s1] show ?thesis by auto
qed

lemma sql_txn_Inl:
  assumes run: "sql_txn Q bm cm body s = (Inl e, t)"
    and body: "\<And>s0 r s1. commits s0 = commits s \<Longrightarrow> body s0 = (r, s1) \<Longrightarrow> commits s1 = commits s"
  shows "commits t = commits s"
proof (cases "sql_begin Q s")
  case (Pair q s0)
  show ?thesis
  proof (cases q)
    case (Inl e')
    with run Pair have "t = s0" by (simp add: sql_txn_def act_defs)
    with begin_Inl Pair Inl show ?thesis by blast
  next
    case (Inr u)
    obtain r s1 where b: "body s0 = (r, s1)" by fastforce
    then have s1: "commits s1 = commits s" using body begin_Inr Pair Inr by blast
    show ?thesis
    proof (cases r)
      case (Inl e')
      with run Pair Inr b have "t = sql_rollback Q s1" by (simp add: sql_txn_def act_defs)
      with s1 rollback show ?thesis by simp
    next
      case r: (Inr x)
      obtain q2 s2 where q2: "sql_commit Q s1 = (q2, s2)" by fastforce
      with run Pair Inr b r obtain e' where "q2 = Inl e'" "t = s2"
        by (cases q2) (simp_all add: sql_txn_def act_defs)
      with q2 commit_Inl s1 show ?thesis by metis
    qed
  qed
qed

end

section \<open>A concrete database\<close>

text \<open>
  It satisfies the laws: a schedule of events lets each call go on, lets other connections run
  statements first (unless this one has begun to write), or makes it fail.
\<close>

datatype sql_event = Proceed | Others "statement list" | SqlFault

record sqlite =
  lite_tables :: tables
  lite_base :: tables
  lite_ran :: "statement list"
  lite_commits :: "(tables \<times> statement list) list"
  lite_events :: "sql_event list"

definition apply_many :: "statement list \<Rightarrow> tables \<Rightarrow> tables" where
  "apply_many sts t = foldl (\<lambda>t st. case apply_statement st t of Inr (_, t') \<Rightarrow> t' | Inl _ \<Rightarrow> t) t sts"

definition lite_tick :: "bool \<Rightarrow> sqlite \<Rightarrow> bool \<times> sqlite" where
  "lite_tick open s =
     (case lite_events s of
        [] \<Rightarrow> (True, s)
      | e # es \<Rightarrow>
          let s' = s\<lparr> lite_events := es \<rparr>
          in case e of
               Proceed \<Rightarrow> (True, s')
             | SqlFault \<Rightarrow> (False, s')
             | Others sts \<Rightarrow> (True, if open then s'\<lparr> lite_tables := apply_many sts (lite_tables s) \<rparr> else s'))"

definition lite_op :: "(sqlite \<Rightarrow> bool) \<Rightarrow> (sqlite, error, 'a) act \<Rightarrow> (sqlite, error, 'a) act" where
  "lite_op open m s =
     (case lite_tick (open s) s of (False, s') \<Rightarrow> (Inl (Ext ''database error''), s') | (True, s') \<Rightarrow> m s')"

definition lite_exec :: "statement \<Rightarrow> (sqlite, error, nat) act" where
  "lite_exec st s =
     (let b = (if lite_ran s = [] then lite_tables s else lite_base s)
      in case apply_all (lite_ran s) b of
           None \<Rightarrow> (Inl (Ext ''no transaction''), s)
         | Some p \<Rightarrow>
             (case apply_statement st p of
                Inl e \<Rightarrow> (Inl e, s)
              | Inr (n, _) \<Rightarrow> (Inr n, s\<lparr> lite_base := b, lite_ran := lite_ran s @ [st] \<rparr>)))"

definition lite_commit :: "(sqlite, error, unit) act" where
  "lite_commit s =
     (case apply_all (lite_ran s) (lite_base s) of
        None \<Rightarrow> (Inl (Ext ''no transaction''), s)
      | Some t \<Rightarrow>
          if lite_ran s = [] then (Inr (), s)
          else (Inr (), s\<lparr> lite_tables := t, lite_ran := [], lite_commits := lite_commits s @ [(lite_base s, lite_ran s)] \<rparr>))"

definition lite_execute :: "statement \<Rightarrow> (sqlite, error, nat) act" where
  "lite_execute st s =
     (case apply_statement st (lite_tables s) of
        Inl e \<Rightarrow> (Inl e, s)
      | Inr (n, t) \<Rightarrow> (Inr n, s\<lparr> lite_tables := t, lite_commits := lite_commits s @ [(lite_tables s, [st])] \<rparr>))"

definition lite_api :: "sqlite sql_api" where
  "lite_api =
     \<lparr> sql_see = lite_op (\<lambda>_. True) (\<lambda>s. (Inr (lite_tables s), s)),
       sql_execute = (\<lambda>st. lite_op (\<lambda>_. True) (lite_execute st)),
       sql_begin = lite_op (\<lambda>_. True) (\<lambda>s. (Inr (), s\<lparr> lite_ran := [] \<rparr>)),
       sql_exec = (\<lambda>st. lite_op (\<lambda>s. lite_ran s = []) (lite_exec st)),
       sql_commit = lite_op (\<lambda>s. lite_ran s = []) lite_commit,
       sql_rollback = (\<lambda>s. s\<lparr> lite_ran := [] \<rparr>) \<rparr>"

lemma lite_tick_frame:
  "lite_tick b s = (c, t) \<Longrightarrow> lite_base t = lite_base s \<and> lite_ran t = lite_ran s \<and> lite_commits t = lite_commits s"
  by (auto simp: lite_tick_def Let_def split: list.splits sql_event.splits)

lemma lite_op_cases:
  assumes "lite_op b m s = (r, t)"
  obtains (fault) "r = Inl (Ext ''database error'')" "lite_base t = lite_base s" "lite_ran t = lite_ran s"
      "lite_commits t = lite_commits s"
  | (run) s1 where "m s1 = (r, t)" "lite_base s1 = lite_base s" "lite_ran s1 = lite_ran s" "lite_commits s1 = lite_commits s"
proof -
  obtain c s1 where c: "lite_tick (b s) s = (c, s1)" by fastforce
  then show thesis using assms lite_tick_frame [OF c] fault run by (cases c) (auto simp: lite_op_def)
qed

interpretation lite: sql_client lite_api lite_tables lite_base lite_ran lite_commits
proof (unfold_locales, goal_cases)
  case (1 s t s')
  then show ?case unfolding lite_api_def sql_api.simps by (cases rule: lite_op_cases) auto
next
  case (2 s e s')
  then show ?case unfolding lite_api_def sql_api.simps by (cases rule: lite_op_cases) auto
next
  case (3 st s n s')
  then show ?case unfolding lite_api_def sql_api.simps
    by (cases rule: lite_op_cases) (auto simp: lite_execute_def split: sum.splits)
next
  case (4 st s e s')
  then show ?case unfolding lite_api_def sql_api.simps
    by (cases rule: lite_op_cases) (auto simp: lite_execute_def split: sum.splits)
next
  case (5 s u s')
  then show ?case unfolding lite_api_def sql_api.simps by (cases rule: lite_op_cases) auto
next
  case (6 s e s')
  then show ?case unfolding lite_api_def sql_api.simps by (cases rule: lite_op_cases) auto
next
  case (7 st s n s')
  then show ?case unfolding lite_api_def sql_api.simps
    by (cases rule: lite_op_cases) (auto simp: lite_exec_def Let_def split: option.splits sum.splits if_splits)
next
  case (8 st s e s')
  then show ?case unfolding lite_api_def sql_api.simps
    by (cases rule: lite_op_cases) (auto simp: lite_exec_def Let_def split: option.splits sum.splits if_splits)
next
  case (9 s u s')
  then show ?case unfolding lite_api_def sql_api.simps
    by (cases rule: lite_op_cases) (auto simp: lite_commit_def split: option.splits if_splits)
next
  case (10 s e s')
  then show ?case unfolding lite_api_def sql_api.simps
    by (cases rule: lite_op_cases) (auto simp: lite_commit_def split: option.splits if_splits)
next
  case (11 s)
  then show ?case by (simp add: lite_api_def)
qed

end
