(* ===== verification/SQL_Backend.thy ===== *)
theory SQL_Backend
  imports SQL_Store KV_Backend
begin

text \<open>
  The SQL backend (\<open>backend/sql/*.rs\<close>) as an implementation of the \<open>StorageBackend\<close> trait.  Each
  query on the pool sees a committed state of the tables of its own; \<open>update_refs\<close> and
  \<open>ingest_pack\<close> run their statements in one transaction.  Rows without \<open>ORDER BY\<close> come in the order of
  the table, which the theorems do not depend on.  The two recursive queries use \<open>UNION ALL\<close>, so they
  enumerate paths and not commits, and do not end on a cycle.
\<close>

section \<open>Refs (sql/refs.rs)\<close>

definition parse_oid :: "'o oid_ops \<Rightarrow> bytes \<Rightarrow> 'o res" where
  "parse_oid H b =
     (case from_bytes H b of
        Inl e \<Rightarrow> Inl (Bail (''corrupt OID in database: '' @ outer_message e))
      | Inr x \<Rightarrow> Inr x)"

definition select_head :: "repo_id \<Rightarrow> tables \<Rightarrow> bytes option option" where
  "select_head rid t = map_option snd (find (\<lambda>r. fst r = rid) (map snd (repositories t)))"

definition select_refs :: "repo_id \<Rightarrow> tables \<Rightarrow> (bytes \<times> bytes) list" where
  "select_refs rid t = map (\<lambda>((_, n), b). (n, b)) (filter (\<lambda>r. fst (fst r) = rid) (refs t))"

definition ref_of_row :: "'o oid_ops \<Rightarrow> bytes \<times> bytes \<Rightarrow> 'o ref_info res" where
  "ref_of_row H row =
     bindR (parse_oid H (snd row)) (\<lambda>x.
       Inr \<lparr> ri_name = fst row, ri_oid = x, ri_peeled = None, ri_symref = None \<rparr>)"

definition sql_list_refs :: "'s sql_api \<Rightarrow> 'o oid_ops \<Rightarrow> repo_id \<Rightarrow> ('s, error, 'o refs_snapshot) act" where
  "sql_list_refs Q H rid =
     bindA (ctxA ''reading HEAD from repositories'' (sql_query Q (select_head rid))) (\<lambda>row.
     let target = (case row of Some (Some h) \<Rightarrow> h | _ \<Rightarrow> ''refs/heads/main'') in
     bindA (ctxA ''listing refs'' (sql_query Q (select_refs rid))) (\<lambda>rows.
     bindA (liftA (mapR (ref_of_row H) rows)) (\<lambda>rs.
       retA \<lparr> rs_head = head_of target (rev rs), rs_refs = rs \<rparr>)))"

definition sql_resolve_ref :: "'s sql_api \<Rightarrow> 'o oid_ops \<Rightarrow> repo_id \<Rightarrow> bytes \<Rightarrow> ('s, error, 'o option) act" where
  "sql_resolve_ref Q H rid name =
     bindA (ctxA ''resolving ref'' (sql_query Q (\<lambda>t. map_of (refs t) (rid, name)))) (\<lambda>row.
       case row of
         None \<Rightarrow> retA None
       | Some b \<Rightarrow> liftA (bindR (parse_oid H b) (\<lambda>x. Inr (Some x))))"

definition sql_stale :: "'o oid_ops \<Rightarrow> 'o ref_update \<Rightarrow> error" where
  "sql_stale H u = Bail (''stale info for ref '' @ refname u @ '': expected '' @ to_hex H (old_oid u))"

definition sql_update_one :: "'s sql_api \<Rightarrow> 'o oid_ops \<Rightarrow> repo_id \<Rightarrow> 'o ref_update \<Rightarrow> ('s, error, unit) act" where
  "sql_update_one Q H rid u =
     (if new_oid u = null_oid H then
        bindA (ctxA ''deleting ref'' (sql_exec Q (DeleteRef rid (refname u) (as_bytes H (old_oid u))))) (\<lambda>n.
          if n = 0 then failA (sql_stale H u) else retA ())
      else if old_oid u = null_oid H then
        bindA (map_errA (\<lambda>e. Bail (''ref '' @ refname u @ '' already exists: '' @ outer_message e))
                 (sql_exec Q (InsertRef rid (refname u) (as_bytes H (new_oid u))))) (\<lambda>_. retA ())
      else
        bindA (ctxA ''updating ref''
                 (sql_exec Q (UpdateRef (as_bytes H (new_oid u)) rid (refname u) (as_bytes H (old_oid u))))) (\<lambda>n.
          if n = 0 then failA (sql_stale H u) else retA ()))"

definition sql_update_refs :: "'s sql_api \<Rightarrow> 'o oid_ops \<Rightarrow> repo_id \<Rightarrow> 'o ref_update list \<Rightarrow> ('s, error, unit) act" where
  "sql_update_refs Q H rid us =
     (if us = [] then retA ()
      else sql_txn Q ''beginning ref transaction'' ''committing ref transaction''
             (forA us (sql_update_one Q H rid)))"

section \<open>Repositories (sql/mod.rs)\<close>

definition sql_open :: "'s sql_api \<Rightarrow> bytes \<Rightarrow> ('s, error, repo_id) act" where
  "sql_open Q path =
     bindA (ctxA ''looking up repository'' (sql_query Q (\<lambda>t. map_option fst (map_of (repositories t) path)))) (\<lambda>row.
       case row of
         Some i \<Rightarrow> retA i
       | None \<Rightarrow> failA (Bail (debug_str path @ '' does not appear to be a git repository'')))"

definition sql_init_repo :: "'s sql_api \<Rightarrow> bytes \<Rightarrow> ('s, error, unit) act" where
  "sql_init_repo Q path =
     bindA (ctxA ''initialising repository'' (sql_execute Q (InsertRepo path))) (\<lambda>_. retA ())"

section \<open>Commit graph (sql/graph.rs)\<close>

definition parent_rows :: "repo_id \<Rightarrow> bytes \<Rightarrow> tables \<Rightarrow> (int \<times> bytes) list" where
  "parent_rows rid c t =
     map (\<lambda>((_, _, pos), p). (pos, p)) (filter (\<lambda>((r, c', _), _). r = rid \<and> c' = c) (commit_parents t))"

text \<open>
  \<open>WITH RECURSIVE ancestors(oid) AS (SELECT ?1 UNION ALL SELECT cp.parent_oid ..)\<close>: a row is taken
  from the queue, becomes a row of the result, and the rows the join finds for it are appended.
  \<open>EXISTS\<close> stops at the first row that matches.
\<close>

partial_function (option) cte_rows :: "(bytes \<Rightarrow> bytes list) \<Rightarrow> bytes list \<Rightarrow> bytes list \<Rightarrow> bytes list option" where
  "cte_rows up out q =
     (case q of [] \<Rightarrow> Some out | x # rest \<Rightarrow> cte_rows up (out @ [x]) (rest @ up x))"

partial_function (option) cte_exists :: "(bytes \<Rightarrow> bytes list) \<Rightarrow> bytes \<Rightarrow> bytes list \<Rightarrow> bool option" where
  "cte_exists up a q =
     (case q of
        [] \<Rightarrow> Some False
      | x # rest \<Rightarrow> if x = a then Some True else cte_exists up a (rest @ up x))"

definition joined :: "repo_id \<Rightarrow> tables \<Rightarrow> bytes \<Rightarrow> bytes list" where
  "joined rid t c = map snd (parent_rows rid c t)"

definition sql_is_ancestor ::
  "'s sql_api \<Rightarrow> 'o oid_ops \<Rightarrow> repo_id \<Rightarrow> 'o \<Rightarrow> 'o \<Rightarrow> 's \<Rightarrow> ((error + bool) \<times> 's) option" where
  "sql_is_ancestor Q H rid a d =
     bindO (totalO (sql_see Q)) (\<lambda>t s.
       map_option (\<lambda>b. (Inr b, s)) (cte_exists (joined rid t) (as_bytes H a) [as_bytes H d]))"

definition sql_compute_push_kind ::
  "'s sql_api \<Rightarrow> 'o oid_ops \<Rightarrow> repo_id \<Rightarrow> 'o \<Rightarrow> 'o \<Rightarrow> 's \<Rightarrow> (push_kind \<times> 's) option" where
  "sql_compute_push_kind Q H rid old new s =
     (if is_null H old then Some (Create, s)
      else if is_null H new then Some (Delete, s)
      else map_option (\<lambda>(r, s'). (if r = Inr True then FastForward else ForcePush, s'))
             (sql_is_ancestor Q H rid old new s))"

definition sql_fetch_parents :: "'s sql_api \<Rightarrow> 'o oid_ops \<Rightarrow> repo_id \<Rightarrow> ('o, 's) fetch" where
  "sql_fetch_parents Q H rid c =
     bindA (map_errA (\<lambda>e. OtherError (Bail (''fetching parents: '' @ outer_message e)))
              (sql_query Q (\<lambda>t. map snd (sort_key fst (parent_rows rid (as_bytes H c) t))))) (\<lambda>rows.
       map_errA OtherError (liftA (mapR (parse_oid H) rows)))"

definition sql_collect_ancestors ::
  "'s sql_api \<Rightarrow> 'o oid_ops \<Rightarrow> repo_id \<Rightarrow> 'o set \<Rightarrow> 'o \<Rightarrow> 's \<Rightarrow> ((reachable_error + 'o set) \<times> 's) option" where
  "sql_collect_ancestors Q H rid acc x =
     bindO (totalO (map_errA (\<lambda>e. OtherError (Bail (''collecting ancestors: '' @ outer_message e))) (sql_see Q)))
       (\<lambda>t s. map_option (\<lambda>rows.
           (case mapR (parse_oid H) rows of Inl e \<Rightarrow> Inl (OtherError e) | Inr xs \<Rightarrow> Inr (acc \<union> set xs), s))
         (cte_rows (joined rid t) [] [as_bytes H x]))"

definition sql_reachable_excluding ::
  "'s sql_api \<Rightarrow> 'o oid_ops \<Rightarrow> repo_id \<Rightarrow> 'o list \<Rightarrow> 'o list \<Rightarrow> nat \<Rightarrow> 's
     \<Rightarrow> ((reachable_error + 'o list) \<times> 's) option" where
  "sql_reachable_excluding Q H rid =
     reachable_excluding (sql_fetch_parents Q H rid) (sql_collect_ancestors Q H rid)"

section \<open>Objects (sql/objects.rs)\<close>

definition SQL_BLOB :: int where "SQL_BLOB = 0"
definition SQL_TREE :: int where "SQL_TREE = 1"
definition SQL_COMMIT :: int where "SQL_COMMIT = 2"
definition SQL_TAG :: int where "SQL_TAG = 3"

definition select_object :: "'o oid_ops \<Rightarrow> repo_id \<Rightarrow> 'o \<Rightarrow> tables \<Rightarrow> (int \<times> bytes) option" where
  "select_object H rid x t = map_of (objects t) (rid, as_bytes H x)"

text \<open>\<open>fetch_one\<close>: no row is an error of sqlx.\<close>

definition fetch_one :: "('s, error, 'a option) act \<Rightarrow> ('s, error, 'a) act" where
  "fetch_one m =
     bindA m (\<lambda>r. case r of
         Some x \<Rightarrow> retA x
       | None \<Rightarrow> failA (Ext ''no rows returned by a query that expected to return at least one row''))"

definition sql_has_object :: "'s sql_api \<Rightarrow> 'o oid_ops \<Rightarrow> repo_id \<Rightarrow> 'o \<Rightarrow> ('s, error, bool) act" where
  "sql_has_object Q H rid x =
     ctxA ''checking object existence'' (sql_query Q (\<lambda>t. select_object H rid x t \<noteq> None))"

definition sql_has_objects :: "'s sql_api \<Rightarrow> 'o oid_ops \<Rightarrow> repo_id \<Rightarrow> 'o list \<Rightarrow> ('s, error, bool list) act" where
  "sql_has_objects Q H rid xs = mapA (sql_has_object Q H rid) xs"

definition sql_read_blob :: "'s sql_api \<Rightarrow> 'o oid_ops \<Rightarrow> repo_id \<Rightarrow> 'o \<Rightarrow> nat \<Rightarrow> ('s, error, bytes option) act" where
  "sql_read_blob Q H rid x cap =
     bindA (ctxA ''reading blob metadata''
              (sql_query Q (\<lambda>t. map_option (\<lambda>(k, d). (k, length d)) (select_object H rid x t)))) (\<lambda>row.
     case row of
       None \<Rightarrow> retA None
     | Some (kind, len) \<Rightarrow>
         if kind \<noteq> SQL_BLOB \<or> len > cap then retA None
         else
           bindA (ctxA ''reading blob data''
                    (fetch_one (sql_query Q (\<lambda>t. map_option snd (select_object H rid x t))))) (\<lambda>d.
             retA (Some d)))"

definition sql_read_object_raw :: "'s sql_api \<Rightarrow> 'o oid_ops \<Rightarrow> repo_id \<Rightarrow> 'o \<Rightarrow> nat \<Rightarrow> ('s, error, bytes option) act" where
  "sql_read_object_raw Q H rid x cap =
     bindA (ctxA ''reading object length''
              (sql_query Q (\<lambda>t. map_option (length \<circ> snd) (select_object H rid x t)))) (\<lambda>row.
     case row of
       None \<Rightarrow> retA None
     | Some len \<Rightarrow>
         if len > cap then retA None
         else
           bindA (ctxA ''reading object data''
                    (fetch_one (sql_query Q (\<lambda>t. map_option snd (select_object H rid x t))))) (\<lambda>d.
             retA (Some d)))"

definition show_int :: "int \<Rightarrow> bytes" where
  "show_int i = (if i < 0 then ''-'' @ show_nat (nat (- i)) else show_nat (nat i))"

definition sql_read_commit_info ::
  "object_parser \<Rightarrow> 's sql_api \<Rightarrow> 'o oid_ops \<Rightarrow> repo_id \<Rightarrow> 'o \<Rightarrow> ('s, error, 'o commit_info) act" where
  "sql_read_commit_info G Q H rid x =
     bindA (ctxA ''reading commit'' (sql_query Q (select_object H rid x))) (\<lambda>row.
     case row of
       Some (kind, d) \<Rightarrow>
         if kind \<noteq> SQL_COMMIT
         then failA (Bail (''object '' @ to_hex H x @ '' is not a commit (kind='' @ show_int kind @ '')''))
         else liftA (parse_commit_info G H d x)
     | None \<Rightarrow> failA (Bail (''commit '' @ to_hex H x @ '' not in object store'')))"

section \<open>Ingesting a pack (sql/objects.rs)\<close>

record 'o sql_extracted =
  sx_oid :: 'o
  sx_kind :: int
  sx_data :: bytes
  sx_parents :: "('o \<times> int) list"

text \<open>\<open>i as i32\<close>\<close>

definition as_i32 :: "nat \<Rightarrow> int" where
  "as_i32 i = sint (of_nat i :: 32 word)"

definition sql_extract_object ::
  "object_parser \<Rightarrow> 'o oid_ops \<Rightarrow> 'o pack_bundle \<Rightarrow> nat \<Rightarrow> ('o sql_extracted \<times> 'o pack_object) res" where
  "sql_extract_object G H bu i =
     bindR (resolve_kind bu i) (\<lambda>(k, _).
     bindR (context_err ''decoding pack object'' (bu_object bu i)) (\<lambda>raw.
     bindR (case k of
              GBlob \<Rightarrow> Inr (SQL_BLOB, KBlob, [])
            | GTree \<Rightarrow> Inr (SQL_TREE, KTree, [])
            | GCommit \<Rightarrow> bindR (parse_commit_info G H raw (bu_oid bu i)) (\<lambda>c.
                Inr (SQL_COMMIT, KCommit c, map (\<lambda>(j, p). (p, as_i32 j)) (enumerate 0 (ci_parents c))))
            | GTag \<Rightarrow> bindR (parse_tag_info G H raw (bu_oid bu i)) (\<lambda>t.
                Inr (SQL_TAG, KTag t, []))) (\<lambda>(kind, okind, parents).
       Inr (\<lparr> sx_oid = bu_oid bu i, sx_kind = kind, sx_data = raw, sx_parents = parents \<rparr>,
            \<lparr> po_oid = bu_oid bu i, po_kind = okind, po_size = length raw \<rparr>))))"

definition sql_extract_pack ::
  "object_parser \<Rightarrow> 'o oid_ops \<Rightarrow> 'o pack_bundle res \<Rightarrow> ('o sql_extracted list \<times> 'o pack_metadata) res" where
  "sql_extract_pack G H at =
     bindR (context_err ''opening pack bundle'' at) (\<lambda>bu.
       if bu_num bu = 0 then Inr ([], [])
       else bindR (mapR (sql_extract_object G H bu) [0..<bu_num bu]) (\<lambda>ps.
              Inr (map fst ps, map snd ps)))"

definition sql_put_object :: "'s sql_api \<Rightarrow> 'o oid_ops \<Rightarrow> repo_id \<Rightarrow> 'o sql_extracted \<Rightarrow> ('s, error, 'o) act" where
  "sql_put_object Q H rid e =
     bindA (ctxA ''inserting object''
              (sql_exec Q (InsertObject rid (as_bytes H (sx_oid e)) (sx_kind e) (sx_data e)))) (\<lambda>_.
     bindA (mapA (\<lambda>(p, pos). ctxA ''inserting commit parent''
              (sql_exec Q (InsertParent rid (as_bytes H (sx_oid e)) (as_bytes H p) pos))) (sx_parents e)) (\<lambda>_.
       retA (sx_oid e)))"

definition sql_ingest_pack ::
  "object_parser \<Rightarrow> 's sql_api \<Rightarrow> 'o oid_ops \<Rightarrow> repo_id \<Rightarrow> bytes res \<Rightarrow> 'o pack_bundle res
     \<Rightarrow> ('s, error, ('o pack_metadata \<times> 'o list) option) act" where
  "sql_ingest_pack G Q H rid staged at =
     bindA (liftA (context_err ''opening staged pack'' staged)) (\<lambda>file.
     bindA (liftA (context_err ''reading pack header'' (read_exact 12 file))) (\<lambda>(header, _).
     if (case pack_object_count header of None \<Rightarrow> 0 | Some n \<Rightarrow> n) = 0 then retA None
     else
       bindA (liftA (sql_extract_pack G H at)) (\<lambda>(extracted, metadata).
       if extracted = [] then retA None
       else
         bindA (sql_txn Q ''beginning ingest transaction'' ''committing ingest transaction''
                  (mapA (sql_put_object Q H rid) extracted)) (\<lambda>oids.
           retA (Some (metadata, oids))))))"

section \<open>Building a pack (sql/objects.rs)\<close>

definition sql_commit_tree ::
  "object_parser \<Rightarrow> 's sql_api \<Rightarrow> 'o oid_ops \<Rightarrow> repo_id \<Rightarrow> 'o \<Rightarrow> ('s, error, 'o option) act" where
  "sql_commit_tree G Q H rid x =
     sql_query Q (\<lambda>t.
       case select_object H rid x t of
         None \<Rightarrow> None
       | Some (_, d) \<Rightarrow>
           (case parse_commit G d of
              Inl _ \<Rightarrow> None
            | Inr c \<Rightarrow> (case from_hex H (cr_tree c) of Inr y \<Rightarrow> Some y | Inl _ \<Rightarrow> None)))"

definition select_tree :: "'o oid_ops \<Rightarrow> repo_id \<Rightarrow> 'o \<Rightarrow> tables \<Rightarrow> bytes option" where
  "select_tree H rid x t =
     (case select_object H rid x t of
        Some (k, d) \<Rightarrow> if k = SQL_TREE then Some d else None
      | None \<Rightarrow> None)"

text \<open>
  The recursion of \<open>collect_tree_oids\<close>: what is left of it is a list of entries, a subtree to be
  visited or another object to be inserted, in the order the recursion reaches them.
\<close>

partial_function (option) sql_collect_tree_loop ::
  "'o pack_tools \<Rightarrow> 's sql_api \<Rightarrow> 'o oid_ops \<Rightarrow> repo_id \<Rightarrow> 'o list \<Rightarrow> (bool \<times> 'o) list \<Rightarrow> 's
     \<Rightarrow> ((error + 'o list) \<times> 's) option" where
  "sql_collect_tree_loop T Q H rid acc todo s =
     (case todo of
        [] \<Rightarrow> Some (Inr acc, s)
      | e # rest \<Rightarrow>
          if \<not> fst e then sql_collect_tree_loop T Q H rid (hs_insert (snd e) acc) rest s
          else if snd e \<in> set acc then sql_collect_tree_loop T Q H rid acc rest s
          else
            (case sql_query Q (select_tree H rid (snd e)) s of
               (Inl err, s') \<Rightarrow> Some (Inl err, s')
             | (Inr None, s') \<Rightarrow> sql_collect_tree_loop T Q H rid (hs_insert (snd e) acc) rest s'
             | (Inr (Some d), s') \<Rightarrow>
                 (case context_err (''parsing tree '' @ to_hex H (snd e)) (pt_tree T d) of
                    Inl err \<Rightarrow> Some (Inl err, s')
                  | Inr es \<Rightarrow>
                      sql_collect_tree_loop T Q H rid (hs_insert (snd e) acc)
                        (map (\<lambda>e. (te_is_tree e, te_oid e)) es @ rest) s')))"

definition sql_collect_tree_oids ::
  "'o pack_tools \<Rightarrow> 's sql_api \<Rightarrow> 'o oid_ops \<Rightarrow> repo_id \<Rightarrow> 'o \<Rightarrow> 'o list \<Rightarrow> 's
     \<Rightarrow> ((error + 'o list) \<times> 's) option" where
  "sql_collect_tree_oids T Q H rid x acc = sql_collect_tree_loop T Q H rid acc [(True, x)]"

fun sql_collect_commit_trees ::
  "object_parser \<Rightarrow> 'o pack_tools \<Rightarrow> 's sql_api \<Rightarrow> 'o oid_ops \<Rightarrow> repo_id \<Rightarrow> 'o list \<Rightarrow> 'o list \<Rightarrow> 's
     \<Rightarrow> ((error + 'o list) \<times> 's) option" where
  "sql_collect_commit_trees G T Q H rid [] acc s = Some (Inr acc, s)"
| "sql_collect_commit_trees G T Q H rid (c # cs) acc s =
     bindO (totalO (sql_commit_tree G Q H rid c)) (\<lambda>tree.
     bindO (case tree of
              None \<Rightarrow> totalO (retA acc)
            | Some y \<Rightarrow> sql_collect_tree_oids T Q H rid y acc) (\<lambda>acc'.
       sql_collect_commit_trees G T Q H rid cs acc')) s"

definition sql_walk ::
  "bytes \<Rightarrow> 's sql_api \<Rightarrow> 'o oid_ops \<Rightarrow> repo_id \<Rightarrow> 'o list \<Rightarrow> 'o list \<Rightarrow> 's
     \<Rightarrow> ((error + 'o list) \<times> 's) option" where
  "sql_walk msg Q H rid from excluding s =
     map_option (\<lambda>(r, t). (case r of Inl e \<Rightarrow> Inl (Bail (msg @ display_reachable e)) | Inr xs \<Rightarrow> Inr xs, t))
       (sql_reachable_excluding Q H rid from excluding u64_max s)"

definition sql_needed_objects ::
  "object_parser \<Rightarrow> 'o pack_tools \<Rightarrow> 's sql_api \<Rightarrow> 'o oid_ops \<Rightarrow> repo_id \<Rightarrow> 'o list \<Rightarrow> 'o list \<Rightarrow> 's
     \<Rightarrow> ((error + 'o list) \<times> 's) option" where
  "sql_needed_objects G T Q H rid want have =
     bindO (sql_walk ''reachable walk for build_pack: '' Q H rid want have) (\<lambda>want_commits.
     bindO (sql_collect_commit_trees G T Q H rid want_commits (fold hs_insert (want_commits @ want) [])) (\<lambda>needed.
       if have = [] then totalO (retA needed)
       else
         bindO (sql_walk ''have-side walk: '' Q H rid have []) (\<lambda>have_commits.
         bindO (sql_collect_commit_trees G T Q H rid have_commits (fold hs_insert have_commits [])) (\<lambda>have_oids.
           totalO (retA (filter (\<lambda>x. x \<notin> set have_oids) needed))))))"

definition kind_of_int :: "int \<Rightarrow> gix_kind option" where
  "kind_of_int k =
     (if k = SQL_BLOB then Some GBlob else if k = SQL_TREE then Some GTree
      else if k = SQL_COMMIT then Some GCommit else if k = SQL_TAG then Some GTag else None)"

definition sql_fetch_objects ::
  "'s sql_api \<Rightarrow> 'o oid_ops \<Rightarrow> repo_id \<Rightarrow> 'o list \<Rightarrow> ('s, error, ('o \<times> gix_kind \<times> bytes) list) act" where
  "sql_fetch_objects Q H rid xs =
     bindA (mapA (\<lambda>x. bindA (sql_query Q (select_object H rid x)) (\<lambda>row.
              retA (case row of
                      None \<Rightarrow> None
                    | Some (k, d) \<Rightarrow> map_option (\<lambda>g. (x, g, d)) (kind_of_int k)))) xs)
       (\<lambda>rs. retA (List.map_filter id rs))"

text \<open>The staging and writing of the pack, and the empty pack, are the code of the key-value backend again.\<close>

definition sql_assemble_pack :: "'o pack_tools \<Rightarrow> ('o \<times> gix_kind \<times> bytes) list \<Rightarrow> bytes res" where
  "sql_assemble_pack T fetched = assemble_pack T fetched"

definition sql_build_empty_pack :: "'o pack_tools \<Rightarrow> bytes" where
  "sql_build_empty_pack T = build_empty_pack T"

definition sql_build_pack ::
  "object_parser \<Rightarrow> 'o pack_tools \<Rightarrow> 's sql_api \<Rightarrow> 'o oid_ops \<Rightarrow> repo_id \<Rightarrow> 'o list \<Rightarrow> 'o list \<Rightarrow> pack_options
     \<Rightarrow> 's \<times> cache_dir \<Rightarrow> ((error + 'o pack_output) \<times> 's \<times> cache_dir) option" where
  "sql_build_pack G T Q H rid want have opts sd =
     (let key = cache_key (pt_sha256 T) H rid want have opts in
      case try_hit rid key (snd sd) of
        Some out \<Rightarrow> Some (Inr out, sd)
      | None \<Rightarrow>
          bindO (on_store (sql_needed_objects G T Q H rid want have)) (\<lambda>needed.
            if needed = [] then
              (\<lambda>sd. Some (Inr (output_of (sql_build_empty_pack T)),
                          (fst sd, cache_write rid key (sql_build_empty_pack T) (snd sd))))
            else
              bindO (on_store (totalO (sql_fetch_objects Q H rid needed))) (\<lambda>fetched sd.
                case sql_assemble_pack T fetched of
                  Inl e \<Rightarrow> Some (Inl e, sd)
                | Inr pack \<Rightarrow> Some (Inr (output_of pack), (fst sd, cache_write rid key pack (snd sd))))) sd)"

section \<open>Tree diff (sql/objects.rs)\<close>

partial_function (option) sql_fetch_trees ::
  "'o pack_tools \<Rightarrow> 's sql_api \<Rightarrow> 'o oid_ops \<Rightarrow> repo_id \<Rightarrow> ('o \<times> bytes) list \<Rightarrow> 'o list \<Rightarrow> 's
     \<Rightarrow> ((error + ('o \<times> bytes) list) \<times> 's) option" where
  "sql_fetch_trees T Q H rid store todo s =
     (case todo of
        [] \<Rightarrow> Some (Inr store, s)
      | x # rest \<Rightarrow>
          if x = pt_empty_tree T then sql_fetch_trees T Q H rid ((x, []) # store) rest s
          else if x \<in> fst ` set store then sql_fetch_trees T Q H rid store rest s
          else
            (case ctxA (''fetching tree '' @ to_hex H x) (sql_query Q (select_object H rid x)) s of
               (Inl e, s') \<Rightarrow> Some (Inl e, s')
             | (Inr None, s') \<Rightarrow> Some (Inl (Bail (''tree '' @ to_hex H x @ '' not found'')), s')
             | (Inr (Some row), s') \<Rightarrow>
                 if fst row \<noteq> SQL_TREE
                 then Some (Inl (Bail (''object '' @ to_hex H x @ '' is not a tree (kind='' @ show_int (fst row) @ '')'')), s')
                 else
                   (case context_err (''parsing tree '' @ to_hex H x) (pt_tree T (snd row)) of
                      Inl e \<Rightarrow> Some (Inl e, s')
                    | Inr es \<Rightarrow>
                        sql_fetch_trees T Q H rid ((x, snd row) # store)
                          (map te_oid (filter te_is_tree es) @ rest) s')))"

definition sql_tree_diff ::
  "'o pack_tools \<Rightarrow> 's sql_api \<Rightarrow> 'o oid_ops \<Rightarrow> repo_id \<Rightarrow> 'o option \<Rightarrow> 'o \<Rightarrow> 's
     \<Rightarrow> ((error + 'o ref_diff) \<times> 's) option" where
  "sql_tree_diff T Q H rid parent_tree child_tree =
     (let lhs = (case parent_tree of None \<Rightarrow> pt_empty_tree T | Some t \<Rightarrow> t); rhs = child_tree in
      bindO (sql_fetch_trees T Q H rid [] [lhs]) (\<lambda>store.
      bindO (sql_fetch_trees T Q H rid store [rhs]) (\<lambda>store.
        totalO (liftA (
          if map_of store lhs = None then Inl (Ctx (''reading parent tree '' @ to_hex H lhs) (Ext ''not found''))
          else if map_of store rhs = None then Inl (Ctx (''reading child tree '' @ to_hex H rhs) (Ext ''not found''))
          else bindR (context_err ''running tree diff'' (pt_diff T store lhs rhs)) (\<lambda>cs.
                 Inr (map diff_entry cs)))))))"

section \<open>The backend (sql/mod.rs)\<close>

record 'o sql_ingested =
  si_metadata :: "'o pack_metadata option"
  si_oids :: "'o list"
  si_repo :: repo_id

definition sql_ingest ::
  "object_parser \<Rightarrow> (bytes \<Rightarrow> 'o pack_bundle res) \<Rightarrow> 's sql_api \<Rightarrow> 'o oid_ops \<Rightarrow> repo_id \<Rightarrow> bytes
     \<Rightarrow> ('s, error, 'o sql_ingested option) act" where
  "sql_ingest G bundle_of Q H rid file =
     bindA (sql_ingest_pack G Q H rid (Inr file) (bundle_of file)) (\<lambda>r.
       retA (map_option (\<lambda>(meta, oids). \<lparr> si_metadata = Some meta, si_oids = oids, si_repo = rid \<rparr>) r))"

definition sql_inspect_ingested :: "'o sql_ingested \<Rightarrow> 's \<Rightarrow> ('o pack_metadata res \<times> 'o sql_ingested) \<times> 's" where
  "sql_inspect_ingested p s =
     ((case si_metadata p of
         Some m \<Rightarrow> (Inr m, p\<lparr> si_metadata := None \<rparr>)
       | None \<Rightarrow> (Inl (Bail ''inspect_ingested called more than once''), p)), s)"

definition sql_backend ::
  "object_parser \<Rightarrow> (bytes \<Rightarrow> 'o pack_bundle res) \<Rightarrow> 'o pack_tools \<Rightarrow> 's sql_api \<Rightarrow> 'o oid_ops
     \<Rightarrow> (bytes, repo_id, 'o sql_ingested, 'o, 's \<times> cache_dir) backend" where
  "sql_backend G bundle_of T Q H =
     \<lparr> be_open = (\<lambda>path. kv_act (sql_open Q path)),
       be_list_refs = (\<lambda>rid. kv_act (sql_list_refs Q H rid)),
       be_resolve_ref = (\<lambda>rid name. kv_act (sql_resolve_ref Q H rid name)),
       be_update_refs = (\<lambda>rid us. kv_act (sql_update_refs Q H rid us)),
       be_init_repo = (\<lambda>path. kv_act (sql_init_repo Q path)),
       be_has_object = (\<lambda>rid x. kv_act (sql_has_object Q H rid x)),
       be_has_objects = (\<lambda>rid xs. kv_act (sql_has_objects Q H rid xs)),
       be_compute_push_kind = (\<lambda>rid u. kv_opt (sql_compute_push_kind Q H rid (old_oid u) (new_oid u))),
       be_build_pack = (\<lambda>rid. sql_build_pack G T Q H rid),
       be_ingest_pack = (\<lambda>rid file. kv_act (sql_ingest G bundle_of Q H rid file)),
       be_inspect_ingested = sql_inspect_ingested,
       be_rollback_ingest = (\<lambda>_ s. s),
       be_reachable_excluding = (\<lambda>rid from excl cap. kv_opt (sql_reachable_excluding Q H rid from excl cap)),
       be_tree_diff = (\<lambda>rid a b. kv_opt (sql_tree_diff T Q H rid a b)),
       be_read_commit_info = (\<lambda>rid x. kv_act (sql_read_commit_info G Q H rid x)),
       be_read_blob = (\<lambda>rid x cap. kv_act (sql_read_blob Q H rid x cap)),
       be_read_object_raw = (\<lambda>rid x cap. kv_act (sql_read_object_raw Q H rid x cap)) \<rparr>"

end
