(* ===== verification/SQL_Refs.thy ===== *)
theory SQL_Refs
  imports SQL_Backend
begin

text \<open>
  The refs of the SQL backend: \<open>update_refs\<close> implements the compare-and-swap contract against the
  state its transaction commits on, and of all operations only \<open>update_refs\<close> writes refs.
\<close>

section \<open>The ref map of the tables\<close>

definition sql_refs :: "'o oid_ops \<Rightarrow> repo_id \<Rightarrow> tables \<Rightarrow> (bytes \<rightharpoonup> 'o)" where
  "sql_refs H rid t name =
     (case map_of (refs t) (rid, name) of
        None \<Rightarrow> None
      | Some b \<Rightarrow> (case from_bytes H b of Inl _ \<Rightarrow> None | Inr x \<Rightarrow> Some x))"

definition ref_statement :: "'o oid_ops \<Rightarrow> repo_id \<Rightarrow> 'o ref_update \<Rightarrow> statement" where
  "ref_statement H rid u =
     (if new_oid u = null_oid H then DeleteRef rid (refname u) (as_bytes H (old_oid u))
      else if old_oid u = null_oid H then InsertRef rid (refname u) (as_bytes H (new_oid u))
      else UpdateRef (as_bytes H (new_oid u)) rid (refname u) (as_bytes H (old_oid u)))"

definition took_effect :: "'o oid_ops \<Rightarrow> 'o ref_update \<Rightarrow> nat \<Rightarrow> bool" where
  "took_effect H u n \<longleftrightarrow> n \<noteq> 0 \<or> old_oid u = null_oid H \<and> new_oid u \<noteq> null_oid H"

definition real_update :: "'o oid_ops \<Rightarrow> 'o ref_update \<Rightarrow> bool" where
  "real_update H u \<longleftrightarrow> old_oid u \<noteq> null_oid H \<or> new_oid u \<noteq> null_oid H"

lemma sql_update_one_Inr:
  "sql_update_one Q H rid u s = (Inr x, t) \<longleftrightarrow>
     (\<exists>n. sql_exec Q (ref_statement H rid u) s = (Inr n, t) \<and> took_effect H u n)"
  by (auto simp: sql_update_one_def ref_statement_def took_effect_def bindA_Inr act_Inr split: if_splits)

lemma sql_update_one_frame:
  assumes "\<And>n. sql_exec Q (ref_statement H rid u) s = (n, t) \<Longrightarrow> R t" "sql_update_one Q H rid u s = (r, t)"
  shows "R t"
  using assms
  by (auto simp: sql_update_one_def ref_statement_def act_defs split: if_splits prod.splits sum.splits)

text \<open>A statement that took effect is the contract's step.\<close>

lemma ref_statement_cas:
  assumes H: "object_id H" and ap: "apply_statement (ref_statement H rid u) \<pi> = Inr (n, \<tau>)"
    and ok: "took_effect H u n" "real_update H u"
  shows "cas_ok H (sql_refs H rid \<pi>) u" "sql_refs H rid \<tau> = cas_apply H (sql_refs H rid \<pi>) u"
    "r \<noteq> rid \<Longrightarrow> sql_refs H r \<tau> = sql_refs H r \<pi>"
proof -
  note [simp] = object_id.from_as_bytes [OF H]
  show "cas_ok H (sql_refs H rid \<pi>) u"
    using ap ok
    by (auto simp: ref_statement_def apply_statement_def cas_ok_def sql_refs_def took_effect_def real_update_def
        split: if_splits option.splits)
  show "sql_refs H rid \<tau> = cas_apply H (sql_refs H rid \<pi>) u"
    using ap ok
    by (auto simp: ref_statement_def apply_statement_def cas_apply_def sql_refs_def took_effect_def
        real_update_def fun_eq_iff update_conv' delete_conv' split: if_splits option.splits)
  show "sql_refs H r \<tau> = sql_refs H r \<pi>" if "r \<noteq> rid"
    using ap that
    by (auto simp: ref_statement_def apply_statement_def sql_refs_def fun_eq_iff update_conv' delete_conv'
        split: if_splits option.splits)
qed

section \<open>Compare and swap\<close>

context sql_client
begin

text \<open>In the course of a batch: the statements that ran are those of the updates done.\<close>

definition batch_inv ::
  "'o oid_ops \<Rightarrow> repo_id \<Rightarrow> (tables \<times> statement list) list \<Rightarrow> 'o ref_update list \<Rightarrow> 's \<Rightarrow> bool" where
  "batch_inv H rid cs us s \<longleftrightarrow>
     commits s = cs \<and> ran s = map (ref_statement H rid) us \<and>
     (us \<noteq> [] \<longrightarrow> (\<exists>\<tau>. apply_all (ran s) (base s) = Some \<tau> \<and>
        cas_batch H (sql_refs H rid (base s)) us = Some (sql_refs H rid \<tau>) \<and>
        (\<forall>r. r \<noteq> rid \<longrightarrow> sql_refs H r \<tau> = sql_refs H r (base s))))"

lemma batch_inv_start:
  assumes "batch_inv H rid cs us s" "apply_all (ran s) b = Some \<pi>" "ran s \<noteq> [] \<Longrightarrow> b = base s"
  shows "cas_batch H (sql_refs H rid b) us = Some (sql_refs H rid \<pi>) \<and>
    (\<forall>r. r \<noteq> rid \<longrightarrow> sql_refs H r \<pi> = sql_refs H r b)"
  using assms by (cases "us = []") (auto simp: batch_inv_def)

lemma triple_sql_update_one:
  assumes H: "object_id H" and u: "real_update H u"
  shows "triple (batch_inv H rid cs us) (sql_update_one Q H rid u)
           (\<lambda>_. batch_inv H rid cs (us @ [u])) (\<lambda>_ s. commits s = cs)"
proof (rule tripleI)
  fix s x t
  assume s: "batch_inv H rid cs us s" and run: "sql_update_one Q H rid u s = (Inr x, t)"
  let ?st = "ref_statement H rid u"
  obtain n where n: "sql_exec Q ?st s = (Inr n, t)" "took_effect H u n"
    using run unfolding sql_update_one_Inr by blast
  obtain \<pi> \<tau> where p: "apply_all (ran s) (base t) = Some \<pi>" "apply_statement ?st \<pi> = Inr (n, \<tau>)"
    and t: "ran t = ran s @ [?st]" "ran s \<noteq> [] \<longrightarrow> base t = base s" "commits t = commits s"
    using exec_Inr [OF n(1)] by blast
  note cas = ref_statement_cas [OF H p(2) n(2) u]
  have before: "cas_batch H (sql_refs H rid (base t)) us = Some (sql_refs H rid \<pi>)"
    "\<forall>r. r \<noteq> rid \<longrightarrow> sql_refs H r \<pi> = sql_refs H r (base t)"
    using batch_inv_start [OF s p(1)] t(2) by auto
  have "apply_all (ran t) (base t) = Some \<tau>" using p t(1) by (simp add: apply_all_append)
  moreover have "cas_batch H (sql_refs H rid (base t)) (us @ [u]) = Some (sql_refs H rid \<tau>)"
    using before(1) cas(1,2) by (simp add: cas_batch_append)
  moreover have "\<forall>r. r \<noteq> rid \<longrightarrow> sql_refs H r \<tau> = sql_refs H r (base t)" using before(2) cas(3) by simp
  ultimately show "batch_inv H rid cs (us @ [u]) t" using s t by (simp add: batch_inv_def)
next
  fix s e t
  assume s: "batch_inv H rid cs us s" and run: "sql_update_one Q H rid u s = (Inl e, t)"
  show "commits t = cs"
  proof (rule sql_update_one_frame [OF _ run])
    fix n assume "sql_exec Q (ref_statement H rid u) s = (n, t)"
    then show "commits t = cs"
      using s exec_Inr [of _ s _ t] exec_Inl [of _ s _ t] by (cases n) (auto simp: batch_inv_def)
  qed
qed

lemma sql_exec_frame: "sql_exec Q st s = (r, t) \<Longrightarrow> commits t = commits s"
  using exec_Inr [of st s _ t] exec_Inl [of st s _ t] by (cases r) auto

lemma keeps_commits_exec [keeps_intros]: "keeps (\<lambda>s. commits s = cs) (sql_exec Q st)"
  by (rule keepsI) (simp add: sql_exec_frame)

lemma keeps_update_batch: "keeps (\<lambda>s. commits s = cs) (forA us (sql_update_one Q H rid))"
  unfolding sql_update_one_def by (intro keeps_intros)

lemma sql_update_refs_Inr:
  assumes H: "object_id H" and us: "us \<noteq> []" "list_all (real_update H) us"
    and run: "sql_update_refs Q H rid us s = (Inr u, t)"
  shows "\<exists>\<sigma>. commits t = commits s @ [(\<sigma>, map (ref_statement H rid) us)] \<and>
    cas_batch H (sql_refs H rid \<sigma>) us = Some (sql_refs H rid (committed t)) \<and>
    (\<forall>r. r \<noteq> rid \<longrightarrow> sql_refs H r (committed t) = sql_refs H r \<sigma>)"
proof -
  have batch: "triple (batch_inv H rid cs []) (forA us (sql_update_one Q H rid))
      (\<lambda>_. batch_inv H rid cs us) (\<lambda>_ s. commits s = cs)" for cs
    using us(2) by (intro triple_for triple_sql_update_one H) (auto simp: list_all_iff)
  let ?R = "\<lambda>\<sigma> sts. sts = map (ref_statement H rid) us \<and> (\<exists>\<tau>. apply_all sts \<sigma> = Some \<tau> \<and>
        cas_batch H (sql_refs H rid \<sigma>) us = Some (sql_refs H rid \<tau>) \<and>
        (\<forall>r. r \<noteq> rid \<longrightarrow> sql_refs H r \<tau> = sql_refs H r \<sigma>))"
  have "commits s1 = commits s \<and> ran s1 \<noteq> [] \<and> ?R (base s1) (ran s1)"
    if "ran s0 = []" "commits s0 = commits s" "forA us (sql_update_one Q H rid) s0 = (Inr u, s1)" for s0 s1
  proof -
    have "batch_inv H rid (commits s) [] s0" using that by (simp add: batch_inv_def)
    from triple_Inr [OF batch this that(3)] us(1) show ?thesis by (auto simp: batch_inv_def)
  qed
  then obtain \<sigma> sts where "commits t = commits s @ [(\<sigma>, sts)]" "apply_all sts \<sigma> = Some (committed t)" "?R \<sigma> sts"
    using sql_txn_Inr [where R = ?R, OF run [unfolded sql_update_refs_def if_not_P [OF us(1)]]] by blast
  then show ?thesis by auto
qed

lemma sql_update_refs_Inl:
  assumes "sql_update_refs Q H rid us s = (Inl e, t)"
  shows "commits t = commits s"
proof (cases "us = []")
  case False
  from sql_txn_Inl [OF assms [unfolded sql_update_refs_def if_not_P [OF False]]] show ?thesis
    using keepsD [OF keeps_update_batch] by blast
qed (use assms in \<open>simp add: sql_update_refs_def\<close>)

end

section \<open>Only update\_refs writes refs\<close>

fun ref_touching :: "statement \<Rightarrow> bool" where
  "ref_touching (DeleteRef _ _ _) = True"
| "ref_touching (InsertRef _ _ _) = True"
| "ref_touching (UpdateRef _ _ _ _) = True"
| "ref_touching _ = False"

text \<open>The commits of this process that contain a statement on the table \<open>refs\<close>, in order.\<close>

definition sql_ref_log :: "(tables \<times> statement list) list \<Rightarrow> (tables \<times> statement list) list" where
  "sql_ref_log cs = filter (\<lambda>c. list_ex ref_touching (snd c)) cs"

lemma sql_ref_log_append:
  "sql_ref_log (cs @ [(\<sigma>, sts)]) = (if list_ex ref_touching sts then sql_ref_log cs @ [(\<sigma>, sts)] else sql_ref_log cs)"
  by (simp add: sql_ref_log_def)

lemma keeps_bindO_total:
  "keeps P m \<Longrightarrow> (\<And>x. keeps_opt P (f x)) \<Longrightarrow> keeps_opt P (bindO (totalO m) f)"
  by (intro keeps_bindO keeps_totalO)

lemma keeps_opt_pure: "keeps_opt P (\<lambda>s. map_option (\<lambda>x. (f x, s)) v)"
  by (rule keeps_optI) auto

lemma keeps_opt_map: "keeps_opt P m \<Longrightarrow> keeps_opt P (\<lambda>s. map_option (\<lambda>(r, t). (g r, t)) (m s))"
  by (rule keeps_optI) (auto dest: keeps_optD)

lemma keeps_sql_collect_tree_loop:
  assumes "\<And>x. keeps P (sql_query Q (select_tree H rid x))"
  shows "keeps_opt P (sql_collect_tree_loop T Q H rid acc todo)"
proof (rule keeps_optI)
  fix s x t assume "P s" and run: "sql_collect_tree_loop T Q H rid acc todo s = Some (x, t)"
  from run assms \<open>P s\<close> show "P t"
  proof (induction T Q H rid acc todo s "(x, t)" arbitrary: x t
      rule: sql_collect_tree_loop.raw_induct [rotated, consumes 1, case_names step])
    case (step loop T Q H rid acc todo s)
    show ?case
    proof (cases todo)
      case (Cons e rest)
      obtain r s' where r: "sql_query Q (select_tree H rid (snd e)) s = (r, s')" by fastforce
      then have "P s'" using keepsD [OF step(3,4)] by blast
      with step Cons r show ?thesis by (auto split: sum.splits option.splits prod.splits if_splits)
    qed (use step in simp)
  qed
qed

lemma keeps_sql_fetch_trees:
  assumes "\<And>x. keeps P (sql_query Q (select_object H rid x))"
  shows "keeps_opt P (sql_fetch_trees T Q H rid store todo)"
proof (rule keeps_optI)
  fix s x t assume "P s" and run: "sql_fetch_trees T Q H rid store todo s = Some (x, t)"
  from run assms \<open>P s\<close> show "P t"
  proof (induction T Q H rid store todo s "(x, t)" arbitrary: x t
      rule: sql_fetch_trees.raw_induct [rotated, consumes 1, case_names step])
    case (step loop T Q H rid store todo s)
    show ?case
    proof (cases todo)
      case (Cons y rest)
      obtain r s' where r: "ctxA (''fetching tree '' @ to_hex H y) (sql_query Q (select_object H rid y)) s = (r, s')"
        by fastforce
      then have "P s'" using keepsD [OF keeps_ctx [OF step(3)] step(4)] by blast
      with step Cons r show ?thesis by (auto split: sum.splits option.splits prod.splits if_splits)
    qed (use step in simp)
  qed
qed

lemma keeps_sql_collect_commit_trees:
  assumes "\<And>(f :: tables \<Rightarrow> bytes option). keeps P (sql_query Q f)" "\<And>x. keeps P (sql_commit_tree G Q H rid x)"
  shows "keeps_opt P (sql_collect_commit_trees G T Q H rid cs acc)"
proof (induction cs arbitrary: acc)
  case Nil
  show ?case by (rule keeps_optI) simp
next
  case (Cons c cs)
  have "keeps_opt P (case tree of None \<Rightarrow> totalO (retA acc) | Some y \<Rightarrow> sql_collect_tree_oids T Q H rid y acc)" for tree
    by (cases tree) (auto simp: sql_collect_tree_oids_def
        intro: keeps_totalO keeps_intros keeps_sql_collect_tree_loop assms)
  then have "keeps_opt P (bindO (totalO (sql_commit_tree G Q H rid c)) (\<lambda>tree.
     bindO (case tree of None \<Rightarrow> totalO (retA acc) | Some y \<Rightarrow> sql_collect_tree_oids T Q H rid y acc) (\<lambda>acc'.
       sql_collect_commit_trees G T Q H rid cs acc')))"
    by (intro keeps_bindO_total keeps_bindO Cons.IH assms)
  then show ?case by (auto intro!: keeps_optI dest: keeps_optD)
qed

context sql_client
begin

abbreviation sql_log_is :: "(tables \<times> statement list) list \<Rightarrow> 's \<Rightarrow> bool" where
  "sql_log_is L s \<equiv> sql_ref_log (commits s) = L"

lemma keeps_see: "keeps (sql_log_is L) (sql_see Q)"
proof (rule keepsI)
  fix s r t assume "sql_log_is L s" "sql_see Q s = (r, t)"
  then show "sql_log_is L t" using see_Inr [of s _ t] see_Inl [of s _ t] by (cases r) auto
qed

lemma keeps_sql_query [keeps_intros]: "keeps (sql_log_is L) (sql_query Q f)"
  unfolding sql_query_def by (intro keeps_intros keeps_see)

lemma keeps_sql_reads:
  "keeps (sql_log_is L) (sql_open Q path)"
  "keeps (sql_log_is L) (sql_list_refs Q H rid)"
  "keeps (sql_log_is L) (sql_resolve_ref Q H rid name)"
  "keeps (sql_log_is L) (sql_has_object Q H rid x)"
  "keeps (sql_log_is L) (sql_has_objects Q H rid xs)"
  "keeps (sql_log_is L) (sql_read_blob Q H rid x n)"
  "keeps (sql_log_is L) (sql_read_object_raw Q H rid x n)"
  "keeps (sql_log_is L) (sql_read_commit_info G Q H rid x)"
  "keeps (sql_log_is L) (sql_commit_tree G Q H rid x)"
  "keeps (sql_log_is L) (sql_fetch_objects Q H rid xs)"
  "keeps (sql_log_is L) (sql_fetch_parents Q H rid x)"
  unfolding sql_open_def sql_list_refs_def sql_resolve_ref_def sql_has_object_def sql_has_objects_def
    sql_read_blob_def sql_read_object_raw_def sql_read_commit_info_def sql_commit_tree_def
    sql_fetch_objects_def sql_fetch_parents_def fetch_one_def Let_def
  by (intro keeps_intros)+

lemma keeps_sql_init_repo: "keeps (sql_log_is L) (sql_init_repo Q path)"
proof -
  have "keeps (sql_log_is L) (sql_execute Q (InsertRepo path))"
  proof (rule keepsI)
    fix s r t assume "sql_log_is L s" "sql_execute Q (InsertRepo path) s = (r, t)"
    then show "sql_log_is L t"
      using execute_Inr [of _ s _ t] execute_Inl [of _ s _ t] by (cases r) (force simp: sql_ref_log_append)+
  qed
  then show ?thesis unfolding sql_init_repo_def by (intro keeps_intros)
qed

lemma keeps_sql_walks:
  "keeps_opt (sql_log_is L) (sql_compute_push_kind Q H rid old new)"
  "keeps_opt (sql_log_is L) (sql_reachable_excluding Q H rid from excluding cap)"
  "keeps_opt (sql_log_is L) (sql_walk msg Q H rid from excluding)"
proof -
  have "keeps_opt (sql_log_is L) (sql_is_ancestor Q H rid old new)"
    unfolding sql_is_ancestor_def by (intro keeps_bindO_total keeps_see keeps_opt_pure)
  then show "keeps_opt (sql_log_is L) (sql_compute_push_kind Q H rid old new)"
    unfolding sql_compute_push_kind_def by (auto intro!: keeps_optI dest: keeps_optD split: if_splits)
  have "keeps_opt (sql_log_is L) (sql_collect_ancestors Q H rid acc c)" for acc c
    unfolding sql_collect_ancestors_def by (intro keeps_bindO_total keeps_map_err keeps_see keeps_opt_pure)
  then have reach: "keeps_opt (sql_log_is L) (sql_reachable_excluding Q H rid from excluding n)" for n
    unfolding sql_reachable_excluding_def by (intro keeps_walks keeps_sql_reads)
  then show "keeps_opt (sql_log_is L) (sql_reachable_excluding Q H rid from excluding cap)" .
  show "keeps_opt (sql_log_is L) (sql_walk msg Q H rid from excluding)"
    unfolding sql_walk_def [abs_def] by (rule keeps_opt_map [OF reach])
qed

end

context sql_client
begin

text \<open>A pack is stored by one transaction whose statements are inserts of objects and parents.\<close>

definition inserting :: "(tables \<times> statement list) list \<Rightarrow> 's \<Rightarrow> bool" where
  "inserting cs s \<longleftrightarrow> commits s = cs \<and> \<not> list_ex ref_touching (ran s)"

lemma triple_insert:
  "\<not> ref_touching st \<Longrightarrow>
   triple (inserting cs) (sql_exec Q st) (\<lambda>_ s. inserting cs s \<and> ran s \<noteq> []) (\<lambda>_ s. commits s = cs)"
  by (rule tripleI) (auto simp: inserting_def dest: exec_Inr exec_Inl)

lemma triple_insert_parents:
  "triple (\<lambda>s. inserting cs s \<and> ran s \<noteq> [])
     (mapA (\<lambda>(p, pos). ctxA msg (sql_exec Q (InsertParent rid c (f p) pos))) ps)
     (\<lambda>_ s. inserting cs s \<and> ran s \<noteq> []) (\<lambda>_ s. commits s = cs)"
proof (rule triple_mapA, clarify)
  show "triple (\<lambda>s. inserting cs s \<and> ran s \<noteq> []) (ctxA msg (sql_exec Q (InsertParent rid c (f p) pos)))
      (\<lambda>_ s. inserting cs s \<and> ran s \<noteq> []) (\<lambda>_ s. commits s = cs)" for p pos
    by (rule triple_ctx, rule triple_weaken [OF triple_insert]) auto
qed

lemma triple_put_object:
  "triple (inserting cs) (sql_put_object Q H rid e) (\<lambda>_ s. inserting cs s \<and> ran s \<noteq> []) (\<lambda>_ s. commits s = cs)"
  unfolding sql_put_object_def
  by (intro triple_bind [where R = "\<lambda>_ s. inserting cs s \<and> ran s \<noteq> []"] triple_ctx triple_insert
      triple_insert_parents triple_ret) auto

lemma triple_put_objects:
  "es \<noteq> [] \<Longrightarrow> triple (inserting cs) (mapA (sql_put_object Q H rid) es)
     (\<lambda>_ s. inserting cs s \<and> ran s \<noteq> []) (\<lambda>_ s. commits s = cs)"
proof (cases es)
  case (Cons e es')
  have "triple (\<lambda>s. inserting cs s \<and> ran s \<noteq> []) (mapA (sql_put_object Q H rid) es')
     (\<lambda>_ s. inserting cs s \<and> ran s \<noteq> []) (\<lambda>_ s. commits s = cs)"
    by (rule triple_mapA) (auto intro: triple_weaken [OF triple_put_object])
  then show ?thesis
    unfolding Cons mapA.simps
    by (intro triple_bind [where R = "\<lambda>_ s. inserting cs s \<and> ran s \<noteq> []"] triple_put_object triple_ret) auto
qed simp

lemma keeps_put_objects: "keeps (\<lambda>s. commits s = cs) (mapA (sql_put_object Q H rid) es)"
  unfolding sql_put_object_def by (intro keeps_intros)

lemma keeps_sql_ingest: "keeps (sql_log_is L) (sql_ingest_pack G Q H rid staged at)"
proof -
  have txn: "keeps (sql_log_is L) (sql_txn Q bm cm (mapA (sql_put_object Q H rid) es))" if es: "es \<noteq> []" for bm cm es
  proof (rule keepsI)
    fix s r t assume s: "sql_log_is L s" and run: "sql_txn Q bm cm (mapA (sql_put_object Q H rid) es) s = (r, t)"
    show "sql_log_is L t"
    proof (cases r)
      case (Inl e)
      with run sql_txn_Inl [of bm cm _ s e t] keepsD [OF keeps_put_objects] have "commits t = commits s" by metis
      with s show ?thesis by simp
    next
      case (Inr x)
      have "commits s1 = commits s \<and> ran s1 \<noteq> [] \<and> \<not> list_ex ref_touching (ran s1)"
        if "ran s0 = []" "commits s0 = commits s" "mapA (sql_put_object Q H rid) es s0 = (Inr x, s1)" for s0 s1
        using triple_Inr [OF triple_put_objects [OF es, of "commits s"] _ that(3)] that(1,2)
        by (simp add: inserting_def)
      then obtain \<sigma> sts where "commits t = commits s @ [(\<sigma>, sts)]" "\<not> list_ex ref_touching sts"
        using sql_txn_Inr [where R = "\<lambda>_ sts. \<not> list_ex ref_touching sts", OF run [unfolded Inr]] by blast
      with s show ?thesis by (simp add: sql_ref_log_append)
    qed
  qed
  show ?thesis
    unfolding sql_ingest_pack_def by (intro keeps_intros txn)
qed

lemma keeps_sql_needed_objects: "keeps_opt (sql_log_is L) (sql_needed_objects G T Q H rid want have)"
  unfolding sql_needed_objects_def
  by (intro keeps_bindO keeps_sql_walks keeps_sql_collect_commit_trees keeps_sql_query keeps_sql_reads keeps_opt_if
      keeps_totalO keeps_intros)

lemma keeps_sql_tree_diff: "keeps_opt (sql_log_is L) (sql_tree_diff T Q H rid a b)"
  unfolding sql_tree_diff_def Let_def
  by (intro keeps_bindO keeps_totalO keeps_sql_fetch_trees keeps_intros)

end

context sql_client
begin

lemma keeps_sql_build_pack: "keeps_opt (\<lambda>sd. sql_log_is L (fst sd)) (sql_build_pack G T Q H rid want have opts)"
  unfolding sql_build_pack_def [abs_def] Let_def
  by (rule keeps_cached_build [OF keeps_sql_needed_objects keeps_sql_reads(10)])

text \<open>Of the operations of the backend only \<open>update_refs\<close> adds to the log of ref writes.\<close>

lemma sql_backend_keeps: "backend_keeps (sql_backend G bundle_of T Q H) (\<lambda>sd. sql_log_is L (fst sd))"
proof unfold_locales
  note defs = sql_backend_def backend.simps
  show "keeps (\<lambda>sd. sql_log_is L (fst sd)) (be_ingest_pack (sql_backend G bundle_of T Q H) r bs)" for r bs
    unfolding defs sql_ingest_def by (intro keeps_kv_act keeps_sql_ingest keeps_intros)
  show "keeps_opt (\<lambda>sd. sql_log_is L (fst sd)) (be_build_pack (sql_backend G bundle_of T Q H) r ws hs opts)" for r ws hs opts
    unfolding defs by (rule keeps_sql_build_pack)
qed (auto simp: sql_backend_def sql_inspect_ingested_def intro!: keeps_kv_act keeps_kv_opt keeps_sql_reads
    keeps_sql_init_repo keeps_sql_walks keeps_sql_tree_diff)

end

interpretation lite_backend: backend_keeps "sql_backend G bundle_of T lite_api H"
  "\<lambda>sd. sql_ref_log (lite_commits (fst sd)) = L" for G bundle_of T H L
  by (rule lite.sql_backend_keeps)

section \<open>On a quiet database\<close>

text \<open>The rows of \<open>refs\<close> hold ids, and never the null id.\<close>

definition ref_rows_ok :: "'o oid_ops \<Rightarrow> tables \<Rightarrow> bool" where
  "ref_rows_ok H t \<longleftrightarrow> (\<forall>k b. map_of (refs t) k = Some b \<longrightarrow> (\<exists>x. b = as_bytes H x \<and> x \<noteq> null_oid H))"

lemma sql_refs_row:
  assumes "object_id H" "ref_rows_ok H t"
  shows "map_of (refs t) (rid, name) = map_option (as_bytes H) (sql_refs H rid t name)"
proof (cases "map_of (refs t) (rid, name)")
  case (Some b)
  with assms(2) obtain x where "b = as_bytes H x" unfolding ref_rows_ok_def by blast
  with Some show ?thesis by (simp add: sql_refs_def object_id.from_as_bytes [OF assms(1)])
qed (simp add: sql_refs_def)

lemma sql_refs_not_null:
  assumes "object_id H" "ref_rows_ok H t"
  shows "sql_refs H rid t name \<noteq> Some (null_oid H)"
proof
  assume n: "sql_refs H rid t name = Some (null_oid H)"
  then obtain x where "as_bytes H (null_oid H) = as_bytes H x" "x \<noteq> null_oid H"
    using sql_refs_row [OF assms, of rid name] assms(2) unfolding ref_rows_ok_def by (metis option.map(2))
  then show False by (simp add: object_id.as_bytes_inj [OF assms(1)])
qed

lemma ref_statement_decides:
  assumes H: "object_id H" and t: "ref_rows_ok H t" and u: "real_update H u"
  shows "if cas_ok H (sql_refs H rid t) u
    then \<exists>n t'. apply_statement (ref_statement H rid u) t = Inr (n, t') \<and> took_effect H u n \<and> ref_rows_ok H t'
    else (\<exists>e. apply_statement (ref_statement H rid u) t = Inl e) \<or>
         apply_statement (ref_statement H rid u) t = Inr (0, t) \<and> \<not> took_effect H u 0"
proof -
  note row = sql_refs_row [OF H t, of rid "refname u"] and not_null = sql_refs_not_null [OF H t, of rid "refname u"]
  note inj = object_id.as_bytes_inj [OF H]
  have put: "ref_rows_ok H (t\<lparr> refs := AList.update k (as_bytes H x) (refs t) \<rparr>)" if "x \<noteq> null_oid H" for k x
    using t that by (auto simp: ref_rows_ok_def update_conv' split: if_splits)
  have del: "ref_rows_ok H (t\<lparr> refs := AList.delete k (refs t) \<rparr>)" for k
    using t by (auto simp: ref_rows_ok_def delete_conv' split: if_splits)
  consider (del) "new_oid u = null_oid H" "old_oid u \<noteq> null_oid H" | (ins) "new_oid u \<noteq> null_oid H" "old_oid u = null_oid H"
    | (upd) "new_oid u \<noteq> null_oid H" "old_oid u \<noteq> null_oid H"
    using u unfolding real_update_def by blast
  then show ?thesis
  proof cases
    case del
    then show ?thesis using row \<open>\<And>k. ref_rows_ok H (t\<lparr> refs := AList.delete k (refs t) \<rparr>)\<close>
      by (cases "sql_refs H rid t (refname u)")
         (auto simp: ref_statement_def apply_statement_def cas_ok_def took_effect_def inj)
  next
    case ins
    then show ?thesis using row put
      by (cases "sql_refs H rid t (refname u)")
         (auto simp: ref_statement_def apply_statement_def cas_ok_def took_effect_def inj)
  next
    case upd
    then show ?thesis using row put
      by (cases "sql_refs H rid t (refname u)")
         (auto simp: ref_statement_def apply_statement_def cas_ok_def took_effect_def inj)
  qed
qed

lemma lite_exec_quiet:
  assumes "lite_events s = []" "apply_all (lite_ran s) (if lite_ran s = [] then lite_tables s else lite_base s) = Some \<pi>"
  shows "sql_exec lite_api st s = (case apply_statement st \<pi> of
      Inl e \<Rightarrow> (Inl e, s)
    | Inr (n, _) \<Rightarrow> (Inr n, s\<lparr> lite_base := (if lite_ran s = [] then lite_tables s else lite_base s),
                              lite_ran := lite_ran s @ [st] \<rparr>))"
  using assms by (simp add: lite_api_def lite_op_def lite_tick_def lite_exec_def Let_def)

lemma update_batch_quiet:
  assumes H: "object_id H"
  shows "lite_events s = [] \<Longrightarrow>
    apply_all (lite_ran s) (if lite_ran s = [] then lite_tables s else lite_base s) = Some \<pi> \<Longrightarrow>
    ref_rows_ok H \<pi> \<Longrightarrow> list_all (real_update H) us \<Longrightarrow>
    if cas_batch H (sql_refs H rid \<pi>) us = None then \<exists>e t. forA us (sql_update_one lite_api H rid) s = (Inl e, t)
    else \<exists>t. forA us (sql_update_one lite_api H rid) s = (Inr (), t) \<and> lite_events t = [] \<and>
           (us \<noteq> [] \<longrightarrow> apply_all (lite_ran t) (lite_base t) \<noteq> None)"
proof (induction us arbitrary: s \<pi>)
  case (Cons u us)
  let ?st = "ref_statement H rid u" and ?b = "if lite_ran s = [] then lite_tables s else lite_base s"
  note run = lite_exec_quiet [OF Cons.prems(1,2), of ?st]
  have u: "real_update H u" "list_all (real_update H) us" using Cons.prems(4) by auto
  show ?case
  proof (cases "cas_ok H (sql_refs H rid \<pi>) u")
    case False
    then consider e where "apply_statement ?st \<pi> = Inl e"
      | "apply_statement ?st \<pi> = Inr (0, \<pi>)" "\<not> took_effect H u 0"
      using ref_statement_decides [OF H Cons.prems(3) u(1), of rid] by auto
    then have no: "\<nexists>t. sql_update_one lite_api H rid u s = (Inr (), t)"
      unfolding sql_update_one_Inr by cases (auto simp: run)
    obtain r t where r: "sql_update_one lite_api H rid u s = (r, t)" by fastforce
    with no obtain e where "r = Inl e" by (cases r) auto
    with r False show ?thesis by (simp add: bindA_def)
  next
    case True
    then obtain n \<pi>' where st: "apply_statement ?st \<pi> = Inr (n, \<pi>')" "took_effect H u n" "ref_rows_ok H \<pi>'"
      using ref_statement_decides [OF H Cons.prems(3) u(1), of rid] by auto
    define s' where "s' = s\<lparr> lite_base := ?b, lite_ran := lite_ran s @ [?st] \<rparr>"
    have one: "sql_update_one lite_api H rid u s = (Inr (), s')"
      unfolding sql_update_one_Inr s'_def using st run by auto
    have all: "apply_all (lite_ran s') (if lite_ran s' = [] then lite_tables s' else lite_base s') = Some \<pi>'"
      "apply_all (lite_ran s') (lite_base s') = Some \<pi>'" "lite_events s' = []"
      using Cons.prems(1,2) st(1) by (auto simp: s'_def apply_all_append)
    note ih = Cons.IH [OF all(3,1) st(3) u(2)]
    have refs: "sql_refs H rid \<pi>' = cas_apply H (sql_refs H rid \<pi>) u"
      by (rule ref_statement_cas(2) [OF H st(1,2) u(1)])
    have step: "forA (u # us) (sql_update_one lite_api H rid) s = forA us (sql_update_one lite_api H rid) s'"
      unfolding forA_simps by (simp only: bindA_def one prod.case sum.case)
    show ?thesis
      using ih True all(2) unfolding step cas_batch.simps refs by (cases "us = []") (auto simp: all(3))
  qed
qed simp

section \<open>Properties\<close>

text \<open>
  C17. The SQL backend updates refs by compare and swap, all or nothing, whatever the other users of
  the database do and whichever statements fail.  When \<open>update_refs\<close> reports success, this process
  has committed one transaction (none for an empty batch), and the refs it found and the refs it left
  are related as the contract demands, with the refs of other repositories untouched; when it reports
  an error, it has committed nothing.  Unlike in the key-value backend a batch may name a ref twice.
\<close>

theorem sql_update_refs_cas:
  assumes H: "object_id H" and client: "sql_client Q now since sts commits"
    and us: "list_all (real_update H) us" and run: "sql_update_refs Q H rid us s = (r, t)"
  shows "case r of
      Inl e \<Rightarrow> commits t = commits s
    | Inr u \<Rightarrow> if us = [] then t = s
        else \<exists>\<sigma>. commits t = commits s @ [(\<sigma>, map (ref_statement H rid) us)] \<and>
          cas_batch H (sql_refs H rid \<sigma>) us = Some (sql_refs H rid (now t)) \<and>
          (\<forall>i. i \<noteq> rid \<longrightarrow> sql_refs H i (now t) = sql_refs H i \<sigma>)"
proof (cases r)
  case (Inl e)
  then show ?thesis using sql_client.sql_update_refs_Inl [OF client] run by simp
next
  case (Inr u)
  show ?thesis
  proof (cases "us = []")
    case True
    with run Inr show ?thesis by (simp add: sql_update_refs_def)
  next
    case False
    with run Inr show ?thesis using sql_client.sql_update_refs_Inr [OF client H False us] by simp
  qed
qed

definition demo_tables :: tables where
  "demo_tables = ensure_schema\<lparr> repositories := [(''r'', (1, None))],
     refs := [((1, ''refs/heads/main''), as_bytes sha1_ops 9)] \<rparr>"

definition demo_lite :: sqlite where
  "demo_lite = \<lparr> lite_tables = demo_tables, lite_base = ensure_schema, lite_ran = [], lite_commits = [], lite_events = [] \<rparr>"

definition demo_move :: "sha1 ref_update" where
  "demo_move = \<lparr> old_oid = 9, new_oid = 7, refname = ''refs/heads/main'' \<rparr>"

lemma sha1_null: "null_oid sha1_ops = 0"
  by (simp add: sha1_ops_def)

lemma demo_move_real: "list_all (real_update sha1_ops) [demo_move]"
  by (simp add: real_update_def demo_move_def sha1_null)

lemma demo_tables_ok: "ref_rows_ok sha1_ops demo_tables"
  by (auto simp: ref_rows_ok_def demo_tables_def sha1_null intro: exI [of _ 9])

lemma demo_refs: "sql_refs sha1_ops 1 demo_tables = [''refs/heads/main'' \<mapsto> 9]"
  by (auto simp: sql_refs_def demo_tables_def sha1.from_as_bytes fun_eq_iff)

lemma sql_update_refs_quiet:
  assumes H: "object_id H" and s: "lite_events s = []" "ref_rows_ok H (lite_tables s)" and us: "list_all (real_update H) us"
  shows "(\<exists>t. sql_update_refs lite_api H rid us s = (Inr (), t)) \<longleftrightarrow>
    cas_batch H (sql_refs H rid (lite_tables s)) us \<noteq> None"
proof (cases "us = []")
  case False
  let ?s = "s\<lparr> lite_ran := [] \<rparr>" and ?body = "forA us (sql_update_one lite_api H rid)"
  have b: "sql_begin lite_api s = (Inr (), ?s)" using s(1) by (simp add: lite_api_def lite_op_def lite_tick_def)
  have body: "if cas_batch H (sql_refs H rid (lite_tables s)) us = None then \<exists>e t. ?body ?s = (Inl e, t)
    else \<exists>t. ?body ?s = (Inr (), t) \<and> lite_events t = [] \<and> (us \<noteq> [] \<longrightarrow> apply_all (lite_ran t) (lite_base t) \<noteq> None)"
    using update_batch_quiet [OF H, of ?s "lite_tables s" us rid] s us by simp
  have commit: "\<exists>t'. sql_commit lite_api t = (Inr (), t')" if "lite_events t = []" "apply_all (lite_ran t) (lite_base t) \<noteq> None" for t
    using that by (auto simp: lite_api_def lite_op_def lite_tick_def lite_commit_def)
  show ?thesis
  proof (cases "cas_batch H (sql_refs H rid (lite_tables s)) us = None")
    case True
    with body obtain e t where "?body ?s = (Inl e, t)" by auto
    with b True False show ?thesis by (simp add: sql_update_refs_def sql_txn_def act_defs)
  next
    case ok: False
    with body obtain t where t: "?body ?s = (Inr (), t)" "lite_events t = []" "apply_all (lite_ran t) (lite_base t) \<noteq> None"
      using False by auto
    then obtain t' where "sql_commit lite_api t = (Inr (), t')" using commit by blast
    with b t(1) ok False show ?thesis by (simp add: sql_update_refs_def sql_txn_def act_defs)
  qed
qed (simp add: sql_update_refs_def)

theorem sql_update_refs_cas_witness:
  "\<exists>t \<sigma>. sql_update_refs lite_api sha1_ops 1 [demo_move] demo_lite = (Inr (), t) \<and>
     lite_commits t = [(\<sigma>, [UpdateRef (as_bytes sha1_ops 7) 1 ''refs/heads/main'' (as_bytes sha1_ops 9)])] \<and>
     cas_batch sha1_ops (sql_refs sha1_ops 1 \<sigma>) [demo_move] = Some (sql_refs sha1_ops 1 (lite_tables t))"
proof -
  have "\<exists>t. sql_update_refs lite_api sha1_ops 1 [demo_move] demo_lite = (Inr (), t)"
    using sql_update_refs_quiet [OF sha1.object_id_axioms _ _ demo_move_real, of demo_lite 1] demo_tables_ok
    by (simp add: demo_lite_def demo_refs cas_ok_def demo_move_def sha1_null)
  then obtain t where run: "sql_update_refs lite_api sha1_ops 1 [demo_move] demo_lite = (Inr (), t)" by blast
  have st: "ref_statement sha1_ops 1 demo_move = UpdateRef (as_bytes sha1_ops 7) 1 ''refs/heads/main'' (as_bytes sha1_ops 9)"
    by (simp add: ref_statement_def demo_move_def sha1_null)
  have "lite_commits demo_lite = []" by (simp add: demo_lite_def)
  with sql_update_refs_cas [OF sha1.object_id_axioms lite.sql_client_axioms demo_move_real run] run
  show ?thesis by (auto simp: st simp del: cas_batch.simps)
qed

text \<open>
  The SQL backend refuses only what the contract refuses.  On a database that no other connection
  uses and no call to which fails, with ids in the ref rows, \<open>update_refs\<close> succeeds exactly when the
  compare-and-swap contract accepts the batch.
\<close>

theorem sql_update_refs_decides:
  assumes "object_id H" "lite_events s = []" "ref_rows_ok H (lite_tables s)" "list_all (real_update H) us"
  shows "(\<exists>t. sql_update_refs lite_api H rid us s = (Inr (), t)) \<longleftrightarrow>
    cas_batch H (sql_refs H rid (lite_tables s)) us \<noteq> None"
  using assms by (rule sql_update_refs_quiet)

theorem sql_update_refs_decides_witness:
  "\<nexists>t. sql_update_refs lite_api sha1_ops 1 [demo_move, demo_move] demo_lite = (Inr (), t)"
  using sql_update_refs_decides [OF sha1.object_id_axioms, of demo_lite "[demo_move, demo_move]" 1] demo_tables_ok
    demo_move_real
  by (simp add: demo_lite_def demo_refs cas_ok_def cas_apply_def demo_move_def sha1_null)

end
