(* ===== verification/SQL_Graph.thy ===== *)
theory SQL_Graph
  imports SQL_Backend Comparison "HOL-Library.Multiset"
begin

text \<open>
  The recursive queries of \<open>backend/sql/graph.rs\<close> and the walk built on them.  A query with \<open>UNION ALL\<close>
  follows every path, so it ends when the stored history has no cycle (ids are hashes of what they
  name, so a real history has none); the multiset of queued rows then decreases.
\<close>

section \<open>Recursive queries\<close>

definition up_rel :: "('a \<Rightarrow> 'a list) \<Rightarrow> ('a \<times> 'a) set" where
  "up_rel up = {(p, c). p \<in> set (up c)}"

lemma queue_smaller: "(mset (rest @ up x), mset (x # rest)) \<in> mult (up_rel up)"
  using one_step_implies_mult [of "{#x#}" "mset (up x)" "up_rel up" "mset rest"]
  by (auto simp: up_rel_def)

lemma ancestors_unfold: "ancestors up x = insert x (\<Union>p \<in> set (up x). ancestors up p)"
proof
  show "ancestors up x \<subseteq> insert x (\<Union>p \<in> set (up x). ancestors up p)"
    unfolding ancestors_def parent_rel_def by (auto elim: converse_rtranclE)
  show "insert x (\<Union>p \<in> set (up x). ancestors up p) \<subseteq> ancestors up x"
    unfolding ancestors_def parent_rel_def by (auto intro: converse_rtrancl_into_rtrancl)
qed

lemma cte_rows_spec:
  assumes wf: "wf (up_rel up)"
  shows "\<exists>rows. cte_rows up out q = Some (out @ rows) \<and> set rows = (\<Union>x \<in> set q. ancestors up x)"
proof (induction "mset q" arbitrary: q out rule: wf_induct_rule [OF wf_mult [OF wf]])
  case (1 q out)
  show ?case
  proof (cases q)
    case (Cons x rest)
    have "(mset (rest @ up x), mset q) \<in> mult (up_rel up)" using queue_smaller Cons by simp
    from 1 [OF this, of "out @ [x]"] obtain rows where "cte_rows up (out @ [x]) (rest @ up x) = Some ((out @ [x]) @ rows)"
      "set rows = (\<Union>y \<in> set (rest @ up x). ancestors up y)" by blast
    moreover have "ancestors up x = insert x (\<Union>p \<in> set (up x). ancestors up p)" by (rule ancestors_unfold)
    ultimately show ?thesis
      unfolding Cons by (subst cte_rows.simps) (auto intro!: exI [of _ "x # rows"])
  qed (simp add: cte_rows.simps)
qed

lemma cte_exists_spec:
  assumes wf: "wf (up_rel up)"
  shows "cte_exists up a q = Some (a \<in> (\<Union>x \<in> set q. ancestors up x))"
proof (induction "mset q" arbitrary: q rule: wf_induct_rule [OF wf_mult [OF wf]])
  case (1 q)
  show ?case
  proof (cases q)
    case (Cons x rest)
    have "(mset (rest @ up x), mset q) \<in> mult (up_rel up)" using queue_smaller Cons by simp
    note 1 [OF this]
    moreover have "ancestors up x = insert x (\<Union>p \<in> set (up x). ancestors up p)" by (rule ancestors_unfold)
    ultimately show ?thesis unfolding Cons by (subst cte_exists.simps) auto
  qed (simp add: cte_exists.simps)
qed

text \<open>Without the acyclicity the query need not come back.\<close>

lemma cte_rows_cycle: "cte_rows (\<lambda>_. [c]) out [c] = None"
proof -
  have False if "cte_rows up out q = Some r" "up = (\<lambda>_. [c])" "q = [c]" for up q r
    using that by (induction up out q r rule: cte_rows.raw_induct [rotated, consumes 1, case_names step]) simp
  then show ?thesis by (cases "cte_rows (\<lambda>_. [c]) out [c]") auto
qed

section \<open>The graph of the tables\<close>

definition sql_parents :: "'o oid_ops \<Rightarrow> repo_id \<Rightarrow> tables \<Rightarrow> 'o \<Rightarrow> 'o list" where
  "sql_parents H rid t c =
     (case mapR (parse_oid H) (map snd (sort_key fst (parent_rows rid (as_bytes H c) t))) of
        Inr ps \<Rightarrow> ps
      | Inl _ \<Rightarrow> [])"

text \<open>The parents in the table are ids, as \<open>ingest_pack\<close> writes them, and no commit is its own ancestor.\<close>

definition parent_rows_ok :: "'o oid_ops \<Rightarrow> tables \<Rightarrow> bool" where
  "parent_rows_ok H t \<longleftrightarrow> list_all (\<lambda>r. snd r \<in> range (as_bytes H)) (commit_parents t)"

definition history :: "repo_id \<Rightarrow> tables \<Rightarrow> (bytes \<times> bytes) set" where
  "history rid t = up_rel (joined rid t)"

lemma history_wf: "acyclic (history rid t) \<Longrightarrow> wf (up_rel (joined rid t))"
proof -
  have "history rid t \<subseteq> (\<lambda>((_, c, _), p). (p, c)) ` set (commit_parents t)"
    by (force simp: history_def up_rel_def joined_def parent_rows_def)
  then have "finite (history rid t)" by (rule finite_subset) simp
  then show "acyclic (history rid t) \<Longrightarrow> wf (up_rel (joined rid t))"
    unfolding history_def by (rule finite_acyclic_wf)
qed

lemma parse_oids:
  assumes "object_id H" "set rows \<subseteq> range (as_bytes H)"
  obtains xs where "mapR (parse_oid H) rows = Inr xs" "map (as_bytes H) xs = rows"
proof -
  from assms(2) have "rows \<in> range (map (as_bytes H))"
    by (metis image_eqI list.set_map lists_eq_set mem_Collect_eq lists_image UNIV_I lists_UNIV)
  then obtain xs where xs: "rows = map (as_bytes H) xs" by blast
  have "mapR (parse_oid H) rows = Inr xs"
    by (simp add: xs mapR_Inr_iff list_all2_conv_all_nth parse_oid_def object_id.from_as_bytes [OF assms(1)])
  with xs that show thesis by blast
qed

lemma sql_parents_rows:
  assumes H: "object_id H" and t: "parent_rows_ok H t"
  shows "map (as_bytes H) (sql_parents H rid t c) = map snd (sort_key fst (parent_rows rid (as_bytes H c) t))"
proof -
  have "set (map snd (sort_key fst (parent_rows rid (as_bytes H c) t))) \<subseteq> range (as_bytes H)"
    using t by (force simp: parent_rows_ok_def list_all_iff parent_rows_def)
  then show ?thesis by (rule parse_oids [OF H]) (simp add: sql_parents_def)
qed

lemma joined_parents:
  assumes "object_id H" "parent_rows_ok H t"
  shows "set (joined rid t (as_bytes H c)) = as_bytes H ` set (sql_parents H rid t c)"
  using arg_cong [OF sql_parents_rows [OF assms, of rid c], of set] by (simp add: joined_def)

text \<open>Ancestry in the table is ancestry of the commits.\<close>

lemma ancestors_bytes:
  assumes H: "object_id H" and t: "parent_rows_ok H t"
  shows "ancestors (joined rid t) (as_bytes H x) = as_bytes H ` ancestors (sql_parents H rid t) x"
proof
  have "closed (joined rid t) (as_bytes H ` ancestors (sql_parents H rid t) x)"
    unfolding closed_def by (auto simp: joined_parents [OF H t] intro: ancestors_parent)
  then show "ancestors (joined rid t) (as_bytes H x) \<subseteq> as_bytes H ` ancestors (sql_parents H rid t) x"
    by (rule ancestors_least) simp
  have "closed (sql_parents H rid t) {y. as_bytes H y \<in> ancestors (joined rid t) (as_bytes H x)}"
    unfolding closed_def using ancestors_parent [of _ "joined rid t"] joined_parents [OF H t] by blast
  then have "ancestors (sql_parents H rid t) x \<subseteq> {y. as_bytes H y \<in> ancestors (joined rid t) (as_bytes H x)}"
    by (rule ancestors_least) simp
  then show "as_bytes H ` ancestors (sql_parents H rid t) x \<subseteq> ancestors (joined rid t) (as_bytes H x)" by blast
qed

lemma finite_sql_parents:
  assumes H: "object_id H" and t: "parent_rows_ok H t"
  shows "finite (ancestors (sql_parents H rid t) x)"
proof (rule finite_ancestors)
  let ?S = "(\<lambda>r. fst (snd (fst r))) ` set (commit_parents t)"
  have "as_bytes H ` {c. sql_parents H rid t c \<noteq> []} \<subseteq> ?S"
  proof clarify
    fix c assume "sql_parents H rid t c \<noteq> []"
    then obtain b where "b \<in> set (joined rid t (as_bytes H c))" by (cases "sql_parents H rid t c") (auto simp: joined_parents [OF H t])
    then show "as_bytes H c \<in> ?S" by (force simp: joined_def parent_rows_def)
  qed
  then have "finite (as_bytes H ` {c. sql_parents H rid t c \<noteq> []})" by (rule finite_subset) simp
  moreover have "inj_on (as_bytes H) A" for A by (rule inj_onI) (simp add: object_id.as_bytes_inj [OF H])
  ultimately show "finite {c. sql_parents H rid t c \<noteq> []}" by (rule finite_imageD)
qed

section \<open>The walks on a steady database\<close>

definition lite_steady :: "tables \<Rightarrow> sqlite \<Rightarrow> bool" where
  "lite_steady t s \<longleftrightarrow> lite_tables s = t \<and> list_all (\<lambda>e. e = Proceed \<or> e = SqlFault) (lite_events s)"

lemma steady_see: "triple (lite_steady t) (sql_see lite_api) (\<lambda>v s. v = t \<and> lite_steady t s) (\<lambda>_. lite_steady t)"
  by (rule tripleI)
     (auto simp: lite_api_def lite_op_def lite_tick_def lite_steady_def Let_def split: list.splits sql_event.splits)

lemma steady_query:
  "triple (lite_steady t) (sql_query lite_api f) (\<lambda>v s. v = f t \<and> lite_steady t s) (\<lambda>_. lite_steady t)"
  unfolding sql_query_def by (rule triple_bind [OF steady_see]) (rule triple_ret, simp)

lemma sql_fetches:
  assumes H: "object_id H" and t: "parent_rows_ok H t"
  shows "fetches (lite_steady t) (sql_parents H rid t) (sql_fetch_parents lite_api H rid)"
proof -
  let ?rows = "\<lambda>c. map snd (sort_key fst (parent_rows rid (as_bytes H c) t))"
  have "mapR (parse_oid H) (?rows c) = Inr (sql_parents H rid t c)" for c
    using sql_parents_rows [OF H t, of rid c]
    by (simp only: flip: sql_parents_rows [OF H t]) (simp add: mapR_Inr_iff list_all2_conv_all_nth parse_oid_def object_id.from_as_bytes [OF H])
  then have rows: "triple (\<lambda>s. rows = ?rows c \<and> lite_steady t s) (map_errA OtherError (liftA (mapR (parse_oid H) rows)))
      (\<lambda>ps s. ps = sql_parents H rid t c \<and> lite_steady t s) (\<lambda>e s. lite_steady t s \<and> (\<exists>m. e = OtherError m))" for rows c
    by (intro triple_map_err triple_lift) auto
  show ?thesis
    unfolding fetches_def sql_fetch_parents_def
    by (intro allI triple_bind [OF _ rows] triple_map_err triple_weaken [OF steady_query]) auto
qed

lemma sql_collects:
  assumes H: "object_id H" and t: "parent_rows_ok H t" and ac: "acyclic (history rid t)"
  shows "collects cap (lite_steady t) (sql_parents H rid t) (sql_collect_ancestors lite_api H rid)"
  unfolding collects_def
proof (intro allI impI)
  fix A x s assume s: "lite_steady t s"
  obtain r s' where see: "sql_see lite_api s = (r, s')" by fastforce
  then have s': "lite_steady t s'" and r: "\<And>v. r = Inr v \<Longrightarrow> v = t"
    using triple_Inr [OF steady_see s] triple_Inl [OF steady_see s] by (cases r; auto)+
  obtain rows where rows: "cte_rows (joined rid t) [] [as_bytes H x] = Some rows"
    "set rows = as_bytes H ` ancestors (sql_parents H rid t) x"
    using cte_rows_spec [OF history_wf [OF ac], of "[]" "[as_bytes H x]"] ancestors_bytes [OF H t] by auto
  then have sub: "set rows \<subseteq> range (as_bytes H)" by auto
  obtain xs where xs: "mapR (parse_oid H) rows = Inr xs" "map (as_bytes H) xs = rows"
    by (rule parse_oids [OF H sub])
  have "as_bytes H ` set xs = as_bytes H ` ancestors (sql_parents H rid t) x"
    using xs(2) rows(2) by (metis set_map)
  then have set: "set xs = ancestors (sql_parents H rid t) x"
    by (metis inj_image_eq_iff injI object_id.as_bytes_inj [OF H])
  show "\<exists>r s'. sql_collect_ancestors lite_api H rid A x s = Some (r, s') \<and> lite_steady t s' \<and>
      (\<forall>out. r = Inr out \<longrightarrow> out = A \<union> ancestors (sql_parents H rid t) x) \<and>
      (\<forall>c. r = Inl (CapExceeded c) \<longrightarrow> c = cap \<and> cap < card (A \<union> ancestors (sql_parents H rid t) x))"
    using see s' r rows(1) xs(1) set
    by (cases r) (auto simp: sql_collect_ancestors_def bindO_def totalO_def map_errA_def)
qed

lemma sql_is_ancestor_steady:
  assumes H: "object_id H" and t: "parent_rows_ok H t" and ac: "acyclic (history rid t)" and s: "lite_steady t s"
  obtains (ok) s' where "lite_steady t s'"
      "sql_is_ancestor lite_api H rid a d s = Some (Inr (a \<in> ancestors (sql_parents H rid t) d), s')"
  | (err) e s' where "lite_steady t s'" "sql_is_ancestor lite_api H rid a d s = Some (Inl e, s')"
proof -
  obtain r s' where see: "sql_see lite_api s = (r, s')" by fastforce
  then have s': "lite_steady t s'" and r: "\<And>v. r = Inr v \<Longrightarrow> v = t"
    using triple_Inr [OF steady_see s] triple_Inl [OF steady_see s] by (cases r; auto)+
  have "as_bytes H a \<in> ancestors (joined rid t) (as_bytes H d) \<longleftrightarrow> a \<in> ancestors (sql_parents H rid t) d"
    unfolding ancestors_bytes [OF H t] by (auto simp: object_id.as_bytes_inj [OF H])
  then have "cte_exists (joined rid t) (as_bytes H a) [as_bytes H d] = Some (a \<in> ancestors (sql_parents H rid t) d)"
    using cte_exists_spec [OF history_wf [OF ac], of "as_bytes H a" "[as_bytes H d]"] by simp
  with see s' r ok err show thesis
    by (cases r) (auto simp: sql_is_ancestor_def bindO_def totalO_def)
qed

lemma sql_reachable_steady:
  assumes H: "object_id H" and t: "parent_rows_ok H t" and ac: "acyclic (history rid t)" and s: "lite_steady t s"
  shows "\<exists>r s'. sql_reachable_excluding lite_api H rid from excluding cap s = Some (r, s') \<and> lite_steady t s' \<and>
    (case r of
       Inr out \<Rightarrow> distinct out \<and> length out \<le> cap \<and> set out = new_side (sql_parents H rid t) from excluding
     | Inl (CapExceeded c) \<Rightarrow> c = cap \<and>
         (cap < card (new_side (sql_parents H rid t) from excluding) \<or>
          cap < card (\<Union>x \<in> set excluding. ancestors (sql_parents H rid t) x))
     | Inl (OtherError m) \<Rightarrow> True)"
  unfolding sql_reachable_excluding_def
  using reachable_excluding_spec [OF sql_fetches [OF H t] sql_collects [OF H t ac] s] finite_sql_parents [OF H t]
  by blast

lemma sql_read_commit_steady:
  "keeps (lite_steady t) (sql_read_commit_info G lite_api H rid x)"
proof -
  have "keeps (lite_steady t) (sql_query lite_api f)" for f :: "tables \<Rightarrow> 'x"
    unfolding keeps_def by (rule triple_weaken [OF steady_query]) auto
  then show ?thesis unfolding sql_read_commit_info_def by (intro keeps_intros)
qed

lemma sql_read_commit_info_oid: "sql_read_commit_info G Q H rid x s = (Inr c, t) \<Longrightarrow> ci_oid c = x"
proof -
  assume "sql_read_commit_info G Q H rid x s = (Inr c, t)"
  then obtain row s' where "(case row of
       Some (kind, d) \<Rightarrow>
         if kind \<noteq> SQL_COMMIT
         then failA (Bail (''object '' @ to_hex H x @ '' is not a commit (kind='' @ show_int kind @ '')''))
         else liftA (parse_commit_info G H d x)
     | None \<Rightarrow> failA (Bail (''commit '' @ to_hex H x @ '' not in object store''))) s' = (Inr c, t)"
    unfolding sql_read_commit_info_def bindA_Inr by blast
  then show ?thesis
    by (cases row) (auto dest: parse_commit_info_oid split: prod.split_asm if_split_asm)
qed

text \<open>So an authoriser sees the right commits over the SQL backend too.\<close>

lemma sql_graph_backend:
  assumes "object_id H" "parent_rows_ok H t" "acyclic (history rid t)"
  shows "graph_backend (sql_backend G bundle_of T lite_api H) rid (\<lambda>sd. lite_steady t (fst sd)) (sql_parents H rid t)"
proof
  fix s :: "sqlite \<times> cache_dir" and "from" excl cap res u
  assume "lite_steady t (fst s)"
    "be_reachable_excluding (sql_backend G bundle_of T lite_api H) rid from excl cap s = Some (res, u)"
  then show "lite_steady t (fst u) \<and> (\<forall>out. res = Inr out \<longrightarrow> distinct out \<and>
      set out = new_side (sql_parents H rid t) from excl)"
    using sql_reachable_steady [OF assms, of "fst s" "from" excl cap] by (auto simp: sql_backend_def kv_opt_def)
next
  fix s :: "sqlite \<times> cache_dir" and x info u
  assume "lite_steady t (fst s)" "be_read_commit_info (sql_backend G bundle_of T lite_api H) rid x s = (info, u)"
  then show "lite_steady t (fst u) \<and> (\<forall>c. info = Inr c \<longrightarrow> ci_oid c = x)"
    by (auto simp: sql_backend_def kv_act_def split: prod.splits dest: sql_read_commit_info_oid
        keepsD [OF sql_read_commit_steady])
qed

section \<open>Properties\<close>

text \<open>
  C18. The commit graph of the SQL backend.  On a stored history without cycles, while nobody else
  writes and whatever queries fail, the recursive queries and the walk come to an end.  A push of an
  existing ref to an existing commit is a fast-forward only when the old commit is an ancestor of the
  new one, and is called forced only when it is not or a query failed; \<open>reachable_excluding\<close> returns the
  commits reachable from the start and not from the excluded tips, each once and at most \<open>cap\<close>.
\<close>

theorem sql_graph_correct:
  assumes H: "object_id H" and t: "parent_rows_ok H t" and ac: "acyclic (history rid t)" and s: "lite_steady t s"
  shows "\<exists>kind s1 r s2.
    sql_compute_push_kind lite_api H rid old new s = Some (kind, s1) \<and>
    (kind = Create \<longleftrightarrow> is_null H old) \<and> (kind = Delete \<longleftrightarrow> \<not> is_null H old \<and> is_null H new) \<and>
    (kind = FastForward \<longrightarrow> old \<in> ancestors (sql_parents H rid t) new) \<and>
    (kind = ForcePush \<longrightarrow> old \<notin> ancestors (sql_parents H rid t) new \<or>
       (\<exists>e. sql_is_ancestor lite_api H rid old new s = Some (Inl e, s1))) \<and>
    sql_reachable_excluding lite_api H rid from excluding cap s = Some (r, s2) \<and>
    (case r of
       Inr out \<Rightarrow> distinct out \<and> length out \<le> cap \<and> set out = new_side (sql_parents H rid t) from excluding
     | Inl (CapExceeded c) \<Rightarrow> c = cap \<and>
         (cap < card (new_side (sql_parents H rid t) from excluding) \<or>
          cap < card (\<Union>x \<in> set excluding. ancestors (sql_parents H rid t) x))
     | Inl (OtherError m) \<Rightarrow> True)"
proof -
  have push: "\<exists>kind s1. sql_compute_push_kind lite_api H rid old new s = Some (kind, s1) \<and>
    (kind = Create \<longleftrightarrow> is_null H old) \<and> (kind = Delete \<longleftrightarrow> \<not> is_null H old \<and> is_null H new) \<and>
    (kind = FastForward \<longrightarrow> old \<in> ancestors (sql_parents H rid t) new) \<and>
    (kind = ForcePush \<longrightarrow> old \<notin> ancestors (sql_parents H rid t) new \<or>
       (\<exists>e. sql_is_ancestor lite_api H rid old new s = Some (Inl e, s1)))"
    by (cases rule: sql_is_ancestor_steady [OF H t ac s, of old new]) (auto simp: sql_compute_push_kind_def)
  then show ?thesis using sql_reachable_steady [OF H t ac s, of "from" excluding cap] by blast
qed

definition chain_tables :: tables where
  "chain_tables = ensure_schema\<lparr> commit_parents :=
     [((1, as_bytes sha1_ops 3, 0), as_bytes sha1_ops 2), ((1, as_bytes sha1_ops 2, 0), as_bytes sha1_ops 1)] \<rparr>"

definition chain_lite :: sqlite where
  "chain_lite = \<lparr> lite_tables = chain_tables, lite_base = ensure_schema, lite_ran = [], lite_commits = [], lite_events = [] \<rparr>"

lemma chain_history: "history 1 chain_tables =
    {(as_bytes sha1_ops 2, as_bytes sha1_ops 3), (as_bytes sha1_ops 1, as_bytes sha1_ops 2)}"
  by (auto simp: history_def up_rel_def joined_def parent_rows_def chain_tables_def)

lemma chain_acyclic: "acyclic (history 1 chain_tables)"
proof (rule acyclicI_order)
  let ?f = "\<lambda>b. if b = as_bytes sha1_ops 3 then 0 else if b = as_bytes sha1_ops 2 then 1 else (2 :: nat)"
  show "?f b < ?f a" if "(a, b) \<in> history 1 chain_tables" for a b
    using that unfolding chain_history by (auto simp: sha1.as_bytes_inj)
qed

theorem sql_graph_correct_witness:
  "\<exists>kind s1 r s2.
    sql_compute_push_kind lite_api sha1_ops 1 1 3 chain_lite = Some (kind, s1) \<and>
    (kind = FastForward \<longrightarrow> (1 :: sha1) \<in> ancestors (sql_parents sha1_ops 1 chain_tables) 3) \<and>
    sql_reachable_excluding lite_api sha1_ops 1 [3] [1] 10 chain_lite = Some (r, s2) \<and>
    (\<forall>out. r = Inr out \<longrightarrow> set out = new_side (sql_parents sha1_ops 1 chain_tables) [3] [1])"
proof -
  have "parent_rows_ok sha1_ops chain_tables" by (simp add: parent_rows_ok_def chain_tables_def)
  moreover have "lite_steady chain_tables chain_lite" by (simp add: lite_steady_def chain_lite_def)
  ultimately obtain kind s1 r s2 where
    "sql_compute_push_kind lite_api sha1_ops 1 1 3 chain_lite = Some (kind, s1)"
    "kind = FastForward \<longrightarrow> (1 :: sha1) \<in> ancestors (sql_parents sha1_ops 1 chain_tables) 3"
    "sql_reachable_excluding lite_api sha1_ops 1 [3] [1] 10 chain_lite = Some (r, s2)"
    "case r of Inr out \<Rightarrow> distinct out \<and> length out \<le> 10 \<and> set out = new_side (sql_parents sha1_ops 1 chain_tables) [3] [1]
     | Inl (CapExceeded c) \<Rightarrow> c = 10 \<and>
         (10 < card (new_side (sql_parents sha1_ops 1 chain_tables) [3] [1]) \<or>
          10 < card (\<Union>x \<in> set [1]. ancestors (sql_parents sha1_ops 1 chain_tables) x))
     | Inl (OtherError m) \<Rightarrow> True"
    using sql_graph_correct [OF sha1.object_id_axioms _ chain_acyclic, of chain_lite 1 3 "[3]" "[1]" 10] by blast
  then show ?thesis by auto
qed

end
