(* ===== verification/SQL_Properties.thy ===== *)
theory SQL_Properties
  imports SQL_Refs SQL_Graph Push_Properties
begin

text \<open>The request handlers on the SQL backend: the laws they need hold for it as for the key-value one.\<close>

lemma lite_keeps:
  "backend_keeps (sql_backend G bundle_of T lite_api H) (\<lambda>sd. sql_ref_log (lite_commits (fst sd)) = L)"
  by (rule lite_backend.backend_keeps_axioms)

text \<open>Asked for the new commits of every ref of a push, the authoriser sees each of them once.\<close>

lemma sql_new_commits_cover_push:
  assumes "object_id H" "parent_rows_ok H t" "acyclic (history rid t)" "lite_steady t s"
    and X: "cx_repo X = rid" "distinct (map pr_refname (cx_refs X))"
    and run: "mapA (new_commits (sql_backend G bundle_of T lite_api H) H X) (cx_refs X)
      ((s, d), empty_caches (length (cx_refs X))) = (Inr (map Inr css), u)"
  shows "distinct (map ci_oid (concat css)) \<and>
    set (map ci_oid (concat css)) = new_side (sql_parents H rid t) (tips H (cx_refs X)) (cx_existing X)"
proof -
  have "tips H [] = []" by (simp add: tips_def)
  then show ?thesis
    using graph_backend.new_commits_all [OF sql_graph_backend [OF assms(1-3)] X, of "[]" "cx_refs X", OF _ _ _ _ run]
      assms(4)
    by (simp add: empty_caches_def)
qed

section \<open>Properties\<close>

text \<open>
  No ref changes without authorisation on the SQL backend.  When a receive-pack session has ended,
  in success, in error or in a panic, either this process committed no statement on the table of refs,
  or the preliminary check accepted exactly the updates the client sent and the authoriser said
  yes to a comparison of exactly these updates.
\<close>

theorem sql_push_needs_authorisation:
  assumes run: "serve_receive_pack A (sql_backend G bundle_of T lite_api H) W H empty_tree E limits reader
      ((s, d), w) = (r, ((t, d'), w'))"
  shows "sql_ref_log (lite_commits t) = sql_ref_log (lite_commits s) \<or>
    (\<exists>us rest. read_receive_request H limits reader = Inr (us, rest) \<and>
       authorised A (sql_backend G bundle_of T lite_api H) H empty_tree us)"
  using keepsD [OF backend_keeps.keeps_serve_receive_pack [OF lite_keeps] _ run] by fastforce

theorem sql_push_needs_authorisation_witness:
  "sql_ref_log (lite_commits (fst (fst (snd (serve_receive_pack rejecting_access
     (sql_backend demo_parser (\<lambda>_. Inr demo_bundle) demo_tools lite_api sha1_ops) pipe_writer sha1_ops 4 temp_ok
     default_limits (push_request sha1_ops [] [demo_update] []) ((demo_lite, empty_dir), new_pipe 100)))))) = []"
proof -
  let ?run = "serve_receive_pack rejecting_access
     (sql_backend demo_parser (\<lambda>_. Inr demo_bundle) demo_tools lite_api sha1_ops) pipe_writer sha1_ops 4 temp_ok
     default_limits (push_request sha1_ops [] [demo_update] []) ((demo_lite, empty_dir), new_pipe 100)"
  obtain r t d' w' where run: "?run = (r, ((t, d'), w'))" by (metis surj_pair)
  have "sql_ref_log (lite_commits demo_lite) = []" by (simp add: sql_ref_log_def demo_lite_def)
  then show ?thesis
    using sql_push_needs_authorisation [OF run] run by (simp add: rejecting_not_authorised)
qed

end
