(* ===== verification/LFS_Server.thy ===== *)
theory LFS_Server
  imports LFS_Protocol Backend_API "HOL-Library.AList"
begin

text \<open>
  The Git LFS server (\<open>lfs/mod.rs\<close>, \<open>lfs/batch.rs\<close>, \<open>lfs/transfer.rs\<close>): the \<open>LfsStore\<close> trait as a record of
  operations, the store for repositories without LFS, the batch API and the transfer endpoints.  The JSON
  codec is serde's and the record \<open>json_codec\<close>.  A stored object is delivered as its bytes, an upload
  arrives as the results of the successive reads of its body.
\<close>

section \<open>LfsStore\<close>

datatype lfs_write_error =
    HashMismatch bytes bytes
  | SizeMismatch nat nat
  | WriteIo error

text \<open>Points in time are nanoseconds.\<close>

datatype transfer_action =
    Proxy
  | Redirect bytes "(bytes \<times> bytes) list" "nat option"

type_synonym upload_body = "bytes res list"

record ('id, 'r, 's) lfs_store =
  ls_open :: "'id \<Rightarrow> ('s, error, 'r) act"
  ls_stat :: "'r \<Rightarrow> lfs_oid \<Rightarrow> ('s, error, nat option) act"
  ls_download_action :: "'r \<Rightarrow> lfs_oid \<Rightarrow> nat \<Rightarrow> ('s, error, transfer_action) act"
  ls_upload_action :: "'r \<Rightarrow> lfs_oid \<Rightarrow> nat \<Rightarrow> ('s, error, transfer_action) act"
  ls_read :: "'r \<Rightarrow> lfs_oid \<Rightarrow> ('s, error, bytes) act"
  ls_write :: "'r \<Rightarrow> lfs_oid \<Rightarrow> nat \<Rightarrow> upload_body \<Rightarrow> ('s, lfs_write_error, unit) act"

definition no_lfs :: "('id, unit, 's) lfs_store" where
  "no_lfs =
     \<lparr> ls_open = (\<lambda>_. retA ()),
       ls_stat = (\<lambda>_ _. retA None),
       ls_download_action = (\<lambda>_ _ _. failA (Bail ''LFS not supported'')),
       ls_upload_action = (\<lambda>_ _ _. failA (Bail ''LFS not supported'')),
       ls_read = (\<lambda>_ _. failA (Bail ''LFS not supported'')),
       ls_write = (\<lambda>_ _ _ _. failA (WriteIo (Bail ''LFS not supported''))) \<rparr>"

section \<open>The batch API\<close>

record json_codec =
  js_batch_request :: "bytes \<Rightarrow> batch_request res"
  js_batch_response :: "batch_response \<Rightarrow> bytes res"
  js_message :: "bytes \<Rightarrow> bytes"
  js_verify_body :: "bytes \<Rightarrow> (lfs_oid \<times> nat) res"

text \<open>
  \<open>expires_at.duration_since(now)\<close> is an error for a time in the past; \<open>now\<close> reads the clock.  Of
  several headers with the same name the last one is kept.
\<close>

definition transfer_action_to_detail :: "nat \<Rightarrow> transfer_action \<Rightarrow> lfs_oid \<Rightarrow> bytes \<Rightarrow> batch_action_detail" where
  "transfer_action_to_detail now action x base_url =
     (case action of
        Proxy \<Rightarrow> \<lparr> ad_href = base_url @ ''/objects/'' @ lfs_to_hex x, ad_header = [], ad_expires_in = None \<rparr>
      | Redirect href header expires_at \<Rightarrow>
          \<lparr> ad_href = href, ad_header = foldl (\<lambda>m (k, v). AList.update k v m) [] header,
            ad_expires_in = (case expires_at of
                None \<Rightarrow> None
              | Some t \<Rightarrow> if now \<le> t then Some ((t - now) div 1000000000) else None) \<rparr>)"

definition object_error :: "batch_request_object \<Rightarrow> nat \<Rightarrow> bytes \<Rightarrow> batch_response_object" where
  "object_error ob code msg =
     \<lparr> bo_oid = bro_oid ob, bo_size = bro_size ob, bo_actions = None,
       bo_error = Some \<lparr> err_code = code, err_message = msg \<rparr> \<rparr>"

definition object_actions :: "batch_request_object \<Rightarrow> batch_object_actions option \<Rightarrow> batch_response_object" where
  "object_actions ob actions =
     \<lparr> bo_oid = bro_oid ob, bo_size = bro_size ob, bo_actions = actions, bo_error = None \<rparr>"

definition batch_object ::
  "('id, 'r, 's) lfs_store \<Rightarrow> ('s \<Rightarrow> nat) \<Rightarrow> bytes \<Rightarrow> 'r \<Rightarrow> operation \<Rightarrow> batch_request_object
     \<Rightarrow> ('s, stop, batch_response_object) act" where
  "batch_object L now base_url repo op ob =
     bindA (attempt (ls_stat L repo (bro_oid ob))) (\<lambda>stat.
     case stat of
       Inl e \<Rightarrow> retA (object_error ob 500 (''stat error: '' @ outer_message e))
     | Inr found \<Rightarrow>
         (case op of
            Download \<Rightarrow>
              (case found of
                 None \<Rightarrow> retA (object_error ob 404 ''object not found'')
               | Some len \<Rightarrow>
                   bindA (attempt (ls_download_action L repo (bro_oid ob) len)) (\<lambda>r.
                   case r of
                     Inl e \<Rightarrow> retA (object_error ob 500 (''download_action error: '' @ outer_message e))
                   | Inr action \<Rightarrow> (\<lambda>s.
                       (Inr (object_actions ob (Some
                          \<lparr> act_download = Some (transfer_action_to_detail (now s) action (bro_oid ob) base_url),
                            act_upload = None, act_verify = None \<rparr>)), s))))
          | Upload \<Rightarrow>
              (case found of
                 Some _ \<Rightarrow> retA (object_actions ob None)
               | None \<Rightarrow>
                   bindA (attempt (ls_upload_action L repo (bro_oid ob) (bro_size ob))) (\<lambda>r.
                   case r of
                     Inl e \<Rightarrow> retA (object_error ob 500 (''upload_action error: '' @ outer_message e))
                   | Inr action \<Rightarrow> (\<lambda>s.
                       (Inr (object_actions ob (Some
                          \<lparr> act_download = None,
                            act_upload = Some (transfer_action_to_detail (now s) action (bro_oid ob) base_url),
                            act_verify = Some \<lparr> ad_href = base_url @ ''/objects/verify'', ad_header = [],
                                                ad_expires_in = None \<rparr> \<rparr>)), s))))))"

definition handle_batch ::
  "json_codec \<Rightarrow> ('id, 'c, 'o) repo_access \<Rightarrow> ('id, 'r, 's) lfs_store \<Rightarrow> ('s \<Rightarrow> nat) \<Rightarrow> 'id \<Rightarrow> bytes \<Rightarrow> bytes
     \<Rightarrow> ('s, stop, nat \<times> bytes) act" where
  "handle_batch J A L now repo_id base_url body =
     (case js_batch_request J body of
        Inl e \<Rightarrow> retA (400, js_message J (''invalid request: '' @ outer_message e))
      | Inr req \<Rightarrow>
          (case acc_authorize_lfs A (br_operation req) (br_ref req) of
             Inl reason \<Rightarrow> retA (403, js_message J reason)
           | Inr _ \<Rightarrow>
               bindA (attempt (ls_open L repo_id)) (\<lambda>r.
               case r of
                 Inl e \<Rightarrow> retA (500, js_message J (''failed to open LFS store: '' @ outer_message e))
               | Inr repo \<Rightarrow>
                   bindA (mapA (batch_object L now base_url repo (br_operation req)) (br_objects req)) (\<lambda>obs.
                   case js_batch_response J \<lparr> bresp_transfer = ''basic'', bresp_objects = obs \<rparr> of
                     Inr json \<Rightarrow> retA (200, json)
                   | Inl e \<Rightarrow> retA (500, js_message J (''serialization error: '' @ outer_message e))))))"

section \<open>Transfer endpoints\<close>

definition handle_download ::
  "('id, 'r, 's) lfs_store \<Rightarrow> 'id \<Rightarrow> bytes \<Rightarrow> ('s, stop, nat \<times> bytes option) act" where
  "handle_download L repo_id oid_hex =
     (case lfs_from_str (sha256_tag @ oid_hex) of
        Inl _ \<Rightarrow> retA (400, None)
      | Inr x \<Rightarrow>
          bindA (attempt (ls_open L repo_id)) (\<lambda>r.
          case r of
            Inl _ \<Rightarrow> retA (500, None)
          | Inr repo \<Rightarrow>
              bindA (attempt (ls_stat L repo x)) (\<lambda>stat.
              case stat of
                Inr None \<Rightarrow> retA (404, None)
              | Inl _ \<Rightarrow> retA (500, None)
              | Inr (Some _) \<Rightarrow>
                  bindA (attempt (ls_read L repo x)) (\<lambda>r.
                  case r of
                    Inr bs \<Rightarrow> retA (200, Some bs)
                  | Inl _ \<Rightarrow> retA (500, None)))))"

definition handle_upload ::
  "('id, 'c, 'o) repo_access \<Rightarrow> ('id, 'r, 's) lfs_store \<Rightarrow> 'id \<Rightarrow> bytes \<Rightarrow> nat \<Rightarrow> upload_body
     \<Rightarrow> ('s, stop, nat) act" where
  "handle_upload A L repo_id oid_hex len body =
     (case acc_authorize_lfs A Upload None of
        Inl _ \<Rightarrow> retA 403
      | Inr _ \<Rightarrow>
          (case lfs_from_str (sha256_tag @ oid_hex) of
             Inl _ \<Rightarrow> retA 400
           | Inr x \<Rightarrow>
               bindA (attempt (ls_open L repo_id)) (\<lambda>r.
               case r of
                 Inl _ \<Rightarrow> retA 500
               | Inr repo \<Rightarrow>
                   bindA (attempt (ls_write L repo x len body)) (\<lambda>r.
                   case r of
                     Inr _ \<Rightarrow> retA 200
                   | Inl (HashMismatch _ _) \<Rightarrow> retA 422
                   | Inl (SizeMismatch _ _) \<Rightarrow> retA 422
                   | Inl (WriteIo _) \<Rightarrow> retA 500))))"

definition handle_verify :: "('id, 'r, 's) lfs_store \<Rightarrow> 'id \<Rightarrow> lfs_oid \<Rightarrow> nat \<Rightarrow> ('s, stop, nat) act" where
  "handle_verify L repo_id x expected_size =
     bindA (attempt (ls_open L repo_id)) (\<lambda>r.
     case r of
       Inl _ \<Rightarrow> retA 500
     | Inr repo \<Rightarrow>
         bindA (attempt (ls_stat L repo x)) (\<lambda>stat.
         case stat of
           Inr None \<Rightarrow> retA 404
         | Inr (Some actual) \<Rightarrow> retA (if actual = expected_size then 200 else 422)
         | Inl _ \<Rightarrow> retA 500))"

section \<open>A store that checks what it stores\<close>

text \<open>
  What the trait asks of a store: \<open>held\<close> is what it has under an id.  Reading changes nothing, and a write
  stores only bytes with the right hash and loses nothing.
\<close>

definition intact :: "(bytes \<Rightarrow> bytes) \<Rightarrow> ('r \<Rightarrow> lfs_oid \<Rightarrow> bytes option) \<Rightarrow> bool" where
  "intact sha h \<longleftrightarrow> (\<forall>r x bs. lfs_oid_ok x \<longrightarrow> h r x = Some bs \<longrightarrow> sha bs = x)"

definition nothing_lost :: "('r \<Rightarrow> lfs_oid \<Rightarrow> bytes option) \<Rightarrow> ('r \<Rightarrow> lfs_oid \<Rightarrow> bytes option) \<Rightarrow> bool" where
  "nothing_lost h h' \<longleftrightarrow> (\<forall>r x. lfs_oid_ok x \<longrightarrow> h r x \<noteq> None \<longrightarrow> h' r x \<noteq> None)"

lemma nothing_lost_refl [simp]: "nothing_lost h h"
  by (simp add: nothing_lost_def)

locale checked_store =
  fixes L :: "('id, 'r, 's) lfs_store" and sha :: "bytes \<Rightarrow> bytes" and held :: "'s \<Rightarrow> 'r \<Rightarrow> lfs_oid \<Rightarrow> bytes option"
  assumes open_law: "ls_open L i s = (q, t) \<Longrightarrow> held t = held s"
    and stat_law: "ls_stat L r x s = (n, t) \<Longrightarrow>
      held t = held s \<and> (\<forall>v. n = Inr v \<longrightarrow> v = map_option length (held s r x))"
    and action_law: "ls_download_action L r x len s = (a, t) \<Longrightarrow> held t = held s"
      "ls_upload_action L r x len s = (a, t) \<Longrightarrow> held t = held s"
    and read_law: "ls_read L r x s = (b, t) \<Longrightarrow> held t = held s \<and> (\<forall>bs. b = Inr bs \<longrightarrow> held s r x = Some bs)"
    and write_law: "lfs_oid_ok x \<Longrightarrow> intact sha (held s) \<Longrightarrow> ls_write L r x len body s = (w, t) \<Longrightarrow>
      intact sha (held t) \<and> nothing_lost (held s) (held t) \<and> (\<forall>u. w = Inr u \<longrightarrow> held t r x \<noteq> None)"
begin

lemma keeps_held [keeps_intros]:
  "keeps (\<lambda>s. held s = h) (ls_open L i)" "keeps (\<lambda>s. held s = h) (ls_stat L r x)"
  "keeps (\<lambda>s. held s = h) (ls_download_action L r x len)" "keeps (\<lambda>s. held s = h) (ls_upload_action L r x len)"
  "keeps (\<lambda>s. held s = h) (ls_read L r x)"
  by (rule keepsI; drule open_law stat_law action_law(1) action_law(2) read_law; simp)+

lemma keeps_now [keeps_intros]: "keeps P (\<lambda>s. (Inr (f s), s))"
  by (rule keepsI) auto

lemma keeps_handlers:
  "keeps (\<lambda>s. held s = h) (handle_batch J A L now i base_url bs)"
  "keeps (\<lambda>s. held s = h) (handle_download L i hex)"
  "keeps (\<lambda>s. held s = h) (handle_verify L i x len)"
proof -
  have "keeps (\<lambda>s. held s = h) (batch_object L now base_url repo op ob)" for repo op ob
    unfolding batch_object_def by (cases op) (simp_all, (intro keeps_intros)+)
  then show "keeps (\<lambda>s. held s = h) (handle_batch J A L now i base_url bs)"
    unfolding handle_batch_def by (intro keeps_intros)
  show "keeps (\<lambda>s. held s = h) (handle_download L i hex)" "keeps (\<lambda>s. held s = h) (handle_verify L i x len)"
    unfolding handle_download_def handle_verify_def by (intro keeps_intros)+
qed

lemma attempt_run: "attempt m s = (case m s of (r, t) \<Rightarrow> (Inr r, t))"
  by (simp add: attempt_def)

lemma upload_sound:
  assumes s: "intact sha (held s)" and run: "handle_upload A L i hex len body s = (r, t)"
  shows "\<exists>status. r = Inr status \<and> intact sha (held t) \<and> nothing_lost (held s) (held t) \<and>
    (status = 200 \<longrightarrow> acc_authorize_lfs A Upload None = Inr () \<and>
       (\<exists>x repo s1. lfs_from_str (sha256_tag @ hex) = Inr x \<and> ls_open L i s = (Inr repo, s1) \<and> held t repo x \<noteq> None)) \<and>
    (status \<in> {400, 403} \<longrightarrow> t = s)"
proof (cases "acc_authorize_lfs A Upload None")
  case (Inl msg)
  with run s show ?thesis by (auto simp: handle_upload_def)
next
  case auth: (Inr u)
  show ?thesis
  proof (cases "lfs_from_str (sha256_tag @ hex)")
    case (Inl e)
    with run auth s show ?thesis by (auto simp: handle_upload_def)
  next
    case x: (Inr x)
    obtain q s1 where q: "ls_open L i s = (q, s1)" by fastforce
    then have s1: "held s1 = held s" by (rule open_law)
    show ?thesis
    proof (cases q)
      case (Inl e)
      with run auth x q s s1 show ?thesis by (auto simp: handle_upload_def bindA_def attempt_run)
    next
      case (Inr repo)
      obtain w t' where w: "ls_write L repo x len body s1 = (w, t')" by fastforce
      have "lfs_oid_ok x" using x by (rule lfs_from_str_ok)
      note law = write_law [OF this s [folded s1] w, unfolded s1]
      have "t = t' \<and> (\<exists>status. r = Inr status \<and> status \<notin> {400, 403} \<and> (status = 200 \<longrightarrow> w = Inr ()))"
        using run auth x q Inr w
        by (cases w) (auto simp: handle_upload_def bindA_def attempt_run split: lfs_write_error.splits)
      with law auth x q Inr show ?thesis by auto
    qed
  qed
qed

lemma download_sound:
  assumes s: "intact sha (held s)" and run: "handle_download L i hex s = (Inr (status, b), t)"
  shows "held t = held s \<and> (\<forall>bs. b = Some bs \<longrightarrow> lfs_from_str (sha256_tag @ hex) = Inr (sha bs))"
proof -
  have t: "held t = held s" using keepsD [OF keeps_handlers(2) refl run] .
  have "lfs_from_str (sha256_tag @ hex) = Inr (sha bs)" if "b = Some bs" for bs
  proof -
    from run that obtain x q s1 n s2 s3 where x: "lfs_from_str (sha256_tag @ hex) = Inr x"
      and o: "ls_open L i s = (Inr q, s1)" and n: "ls_stat L q x s1 = (n, s2)" and b: "ls_read L q x s2 = (Inr bs, s3)"
      by (auto simp: handle_download_def bindA_def attempt_run split: sum.splits prod.splits option.splits)
    then have "held s q x = Some bs" using open_law [OF o] stat_law [OF n] read_law [OF b] by simp
    then show ?thesis using s lfs_from_str_ok [OF x] x unfolding intact_def by auto
  qed
  with t show ?thesis by blast
qed

end

end
