(* ===== verification/Disk.thy ===== *)
theory Disk
  imports Effects "HOL-Library.AList"
begin

text \<open>
  The file system calls the program makes.  The disk is a list of files with their contents and a
  schedule of faults: every call may fail, and a failing write leaves a part of its data behind.
  Directories exist as far as files have them in their paths.
\<close>

section \<open>The disk\<close>

datatype fs_event = FsOk | FsFail nat

record disk =
  dk_files :: "(bytes \<times> bytes) list"
  dk_events :: "fs_event list"

definition disk_tick :: "disk \<Rightarrow> nat option \<times> disk" where
  "disk_tick s =
     (case dk_events s of
        [] \<Rightarrow> (None, s)
      | FsOk # es \<Rightarrow> (None, s\<lparr> dk_events := es \<rparr>)
      | FsFail n # es \<Rightarrow> (Some n, s\<lparr> dk_events := es \<rparr>))"

text \<open>A call that on a fault returns an error and does \<open>g n\<close> to the files.\<close>

definition disk_op ::
  "(nat \<Rightarrow> (bytes \<times> bytes) list \<Rightarrow> (bytes \<times> bytes) list)
     \<Rightarrow> ((bytes \<times> bytes) list \<Rightarrow> (error + 'a) \<times> (bytes \<times> bytes) list) \<Rightarrow> (disk, error, 'a) act" where
  "disk_op g f s =
     (case disk_tick s of
        (Some n, s') \<Rightarrow> (Inl (Ext ''I/O error''), s'\<lparr> dk_files := g n (dk_files s') \<rparr>)
      | (None, s') \<Rightarrow> (case f (dk_files s') of (r, fs) \<Rightarrow> (r, s'\<lparr> dk_files := fs \<rparr>)))"

definition fs_metadata :: "bytes \<Rightarrow> (disk, error, nat option) act" where
  "fs_metadata p = disk_op (\<lambda>_ fs. fs) (\<lambda>fs. (Inr (map_option length (map_of fs p)), fs))"

definition fs_read :: "bytes \<Rightarrow> (disk, error, bytes) act" where
  "fs_read p = disk_op (\<lambda>_ fs. fs) (\<lambda>fs.
     (case map_of fs p of None \<Rightarrow> Inl (Ext ''No such file or directory'') | Some bs \<Rightarrow> Inr bs, fs))"

definition fs_create_dir_all :: "bytes \<Rightarrow> (disk, error, unit) act" where
  "fs_create_dir_all dir = disk_op (\<lambda>_ fs. fs) (\<lambda>fs. (Inr (), fs))"

definition fs_new_temp :: "(bytes list \<Rightarrow> bytes \<Rightarrow> bytes res) \<Rightarrow> bytes \<Rightarrow> (disk, error, bytes) act" where
  "fs_new_temp temp_in dir = disk_op (\<lambda>_ fs. fs) (\<lambda>fs.
     case temp_in (map fst fs) dir of Inl e \<Rightarrow> (Inl e, fs) | Inr p \<Rightarrow> (Inr p, AList.update p [] fs))"

text \<open>A temporary file that cannot be kept is deleted.\<close>

definition fs_keep :: "bytes \<Rightarrow> (disk, error, unit) act" where
  "fs_keep p = disk_op (\<lambda>_ fs. AList.delete p fs) (\<lambda>fs. (Inr (), fs))"

definition fs_append :: "bytes \<Rightarrow> bytes \<Rightarrow> (bytes \<times> bytes) list \<Rightarrow> (bytes \<times> bytes) list" where
  "fs_append p bs fs = AList.update p ((case map_of fs p of None \<Rightarrow> [] | Some c \<Rightarrow> c) @ bs) fs"

definition fs_write_all :: "bytes \<Rightarrow> bytes \<Rightarrow> (disk, error, unit) act" where
  "fs_write_all p bs = disk_op (\<lambda>n. fs_append p (take n bs)) (\<lambda>fs. (Inr (), fs_append p bs fs))"

definition fs_flush :: "(disk, error, unit) act" where
  "fs_flush = disk_op (\<lambda>_ fs. fs) (\<lambda>fs. (Inr (), fs))"

definition fs_remove_file :: "bytes \<Rightarrow> (disk, error, unit) act" where
  "fs_remove_file p = disk_op (\<lambda>_ fs. fs) (\<lambda>fs. (Inr (), AList.delete p fs))"

definition fs_rename :: "bytes \<Rightarrow> bytes \<Rightarrow> (disk, error, unit) act" where
  "fs_rename p q = disk_op (\<lambda>_ fs. fs) (\<lambda>fs.
     case map_of fs p of
       None \<Rightarrow> (Inl (Ext ''No such file or directory''), fs)
     | Some c \<Rightarrow> (Inr (), AList.update q c (AList.delete p fs)))"

text \<open>\<open>Path::join\<close> with a relative component.\<close>

definition path_join :: "bytes \<Rightarrow> bytes \<Rightarrow> bytes" where
  "path_join p q = (if p = [] \<or> last p = CHR ''/'' then p @ q else p @ ''/'' @ q)"

definition ignored :: "(disk, error, 'a) act \<Rightarrow> (disk, 'e, unit) act" where
  "ignored m s = (case m s of (_, t) \<Rightarrow> (Inr (), t))"

text \<open>\<open>metadata(p).await.is_ok()\<close>\<close>

definition fs_exists :: "bytes \<Rightarrow> (disk, 'e, bool) act" where
  "fs_exists p s = (case fs_metadata p s of (r, t) \<Rightarrow> (Inr (case r of Inr (Some _) \<Rightarrow> True | _ \<Rightarrow> False), t))"

text \<open>\<open>read_dir\<close> with the full paths of the entries; a directory that does not exist has none.\<close>

definition dir_entries :: "bytes \<Rightarrow> (bytes \<times> bytes) list \<Rightarrow> bytes list" where
  "dir_entries dir fs =
     filter (\<lambda>p. case strip_prefix (path_join dir []) p of
               Some name \<Rightarrow> name \<noteq> [] \<and> CHR ''/'' \<notin> set name | None \<Rightarrow> False) (map fst fs)"

definition fs_read_dir :: "bytes \<Rightarrow> (disk, error, bytes list) act" where
  "fs_read_dir dir = disk_op (\<lambda>_ fs. fs) (\<lambda>fs. (Inr (dir_entries dir fs), fs))"

text \<open>
  \<open>Path::extension\<close> and \<open>Path::with_extension\<close> of a path that ends in a file name: the part after the
  last dot of the name, unless the name has no other dot and starts with it.
\<close>

definition file_stem_ext :: "bytes \<Rightarrow> bytes \<times> bytes option" where
  "file_stem_ext path =
     (let (dir, name) = (case rsplit_once ''/'' path of Some (d, n) \<Rightarrow> (d @ ''/'', n) | None \<Rightarrow> ([], path)) in
      case rsplit_once ''.'' name of
        Some (stem, ext) \<Rightarrow> if stem = [] then (path, None) else (dir @ stem, Some ext)
      | None \<Rightarrow> (path, None))"

definition extension :: "bytes \<Rightarrow> bytes option" where
  "extension path = snd (file_stem_ext path)"

definition with_extension :: "bytes \<Rightarrow> bytes \<Rightarrow> bytes" where
  "with_extension path ext = fst (file_stem_ext path) @ ''.'' @ ext"

section \<open>What the calls do\<close>

lemma path_join_prefix: "\<exists>p. path_join d q = p @ q"
  by (auto simp: path_join_def)

abbreviation content_at :: "disk \<Rightarrow> bytes \<Rightarrow> bytes option" where
  "content_at s p \<equiv> map_of (dk_files s) p"

definition same_but :: "bytes \<Rightarrow> disk \<Rightarrow> disk \<Rightarrow> bool" where
  "same_but tmp s t \<longleftrightarrow> (\<forall>p. p \<noteq> tmp \<longrightarrow> content_at t p = content_at s p)"

lemma same_but_refl [simp]: "same_but tmp s s"
  by (simp add: same_but_def)

lemma disk_op_cases:
  assumes "disk_op g f s = (r, t)"
  obtains (fault) n e where "r = Inl e" "dk_files t = g n (dk_files s)"
  | (ran) "r = fst (f (dk_files s))" "dk_files t = snd (f (dk_files s))"
  using assms by (auto simp: disk_op_def disk_tick_def split: list.splits fs_event.splits prod.splits)

lemma fs_files:
  "fs_metadata p s = (r, t) \<Longrightarrow> dk_files t = dk_files s"
  "fs_read p s = (r', t) \<Longrightarrow> dk_files t = dk_files s"
  "fs_create_dir_all dir s = (r'', t) \<Longrightarrow> dk_files t = dk_files s"
  "fs_flush s = (r'', t) \<Longrightarrow> dk_files t = dk_files s"
  "fs_read_dir dir s = (q, t) \<Longrightarrow> dk_files t = dk_files s"
  unfolding fs_metadata_def fs_read_def fs_create_dir_all_def fs_flush_def fs_read_dir_def
  by (erule disk_op_cases; simp)+

lemma fs_touch_tmp:
  "fs_keep tmp s = (r, t) \<Longrightarrow> same_but tmp s t"
  "fs_write_all tmp bs s = (r, t) \<Longrightarrow> same_but tmp s t"
  "fs_remove_file tmp s = (r, t) \<Longrightarrow> same_but tmp s t"
  unfolding fs_keep_def fs_write_all_def fs_remove_file_def
  by (erule disk_op_cases; simp add: same_but_def fs_append_def update_conv' delete_conv')+

lemma fs_tmp_content:
  "fs_keep tmp s = (Inr u, t) \<Longrightarrow> content_at t tmp = content_at s tmp"
  "fs_write_all tmp bs s = (Inr u, t) \<Longrightarrow> content_at s tmp = Some c \<Longrightarrow> content_at t tmp = Some (c @ bs)"
  unfolding fs_keep_def fs_write_all_def
  by (erule disk_op_cases; simp add: fs_append_def update_conv')+

lemma same_but_trans: "same_but tmp s t \<Longrightarrow> same_but tmp t u \<Longrightarrow> same_but tmp s u"
  by (simp add: same_but_def)

lemma fs_new_temp_run:
  assumes "fs_new_temp temp_in dir s = (r, t)"
  shows "case r of
      Inl e \<Rightarrow> dk_files t = dk_files s
    | Inr tmp \<Rightarrow> (\<exists>ps. temp_in ps dir = Inr tmp) \<and> same_but tmp s t \<and> content_at t tmp = Some []"
  using assms unfolding fs_new_temp_def
  by (rule disk_op_cases) (auto simp: same_but_def update_conv' split: sum.splits)

lemma fs_rename_run:
  assumes "fs_rename p q s = (r, t)"
  shows "case r of
      Inl e \<Rightarrow> dk_files t = dk_files s
    | Inr u \<Rightarrow> \<exists>c. content_at s p = Some c \<and> content_at t q = Some c \<and>
        (\<forall>k. k \<noteq> p \<longrightarrow> k \<noteq> q \<longrightarrow> content_at t k = content_at s k)"
  using assms unfolding fs_rename_def
  by (rule disk_op_cases) (auto simp: update_conv' delete_conv' split: option.splits)

lemma fs_exists_run:
  assumes "fs_exists p s = (r, t)"
  shows "dk_files t = dk_files s \<and> (\<exists>b. r = Inr b \<and> (b \<longrightarrow> content_at s p \<noteq> None))"
proof -
  obtain q where q: "fs_metadata p s = (q, t)" and r: "r = Inr (case q of Inr (Some _) \<Rightarrow> True | _ \<Rightarrow> False)"
    using assms by (cases "fs_metadata p s") (simp add: fs_exists_def)
  have "content_at s p \<noteq> None" if "q = Inr (Some n)" for n
    using q [unfolded that fs_metadata_def] by (rule disk_op_cases) (auto simp: eq_commute [of "Some n"])
  then show ?thesis using fs_files(1) [OF q] r by (auto split: sum.splits option.splits)
qed

end
