(* ===== verification/LFS_Fs.thy ===== *)
theory LFS_Fs
  imports LFS_Server Disk
begin

text \<open>
  The file system LFS store (\<open>lfs/fs.rs\<close>) on the disk of theory \<open>Disk\<close>.
  \<open>NamedTempFile\<close> belongs to another crate; the name it picks, or its error, is an argument, about which
  the code relies on what \<open>temp_names\<close> says.  SHA-256 is an argument too.
\<close>

section \<open>The store\<close>

definition object_dir :: "bytes \<Rightarrow> lfs_oid \<Rightarrow> bytes" where
  "object_dir root x =
     (let h = lfs_to_hex x in path_join (path_join root (take 2 h)) (take 2 (drop 2 h)))"

definition object_path :: "bytes \<Rightarrow> lfs_oid \<Rightarrow> bytes" where
  "object_path root x =
     (let h = lfs_to_hex x in path_join (path_join (path_join root (take 2 h)) (take 2 (drop 2 h))) h)"

definition fs_lfs_open :: "bytes \<Rightarrow> (disk, error, bytes) act" where
  "fs_lfs_open i = retA (path_join (path_join i ''lfs'') ''objects'')"

definition fs_lfs_stat :: "bytes \<Rightarrow> lfs_oid \<Rightarrow> (disk, error, nat option) act" where
  "fs_lfs_stat root x = fs_metadata (object_path root x)"

definition io :: "(disk, error, 'a) act \<Rightarrow> (disk, lfs_write_error, 'a) act" where
  "io m = map_errA WriteIo m"

text \<open>The read loop: what was read is hashed, counted and appended to the file.\<close>

fun copy_loop :: "bytes \<Rightarrow> bytes \<Rightarrow> nat \<Rightarrow> upload_body \<Rightarrow> (disk, lfs_write_error, bytes \<times> nat) act" where
  "copy_loop tmp hashed written [] = retA (hashed, written)"
| "copy_loop tmp hashed written (Inl e # src) = failA (WriteIo e)"
| "copy_loop tmp hashed written (Inr c # src) =
     (if c = [] then retA (hashed, written)
      else bindA (io (fs_write_all tmp c)) (\<lambda>_. copy_loop tmp (hashed @ c) (written + length c) src))"

text \<open>From the read loop on: what arrived is checked, and only then becomes visible.\<close>

definition fs_lfs_receive ::
  "(bytes \<Rightarrow> bytes) \<Rightarrow> bytes \<Rightarrow> bytes \<Rightarrow> lfs_oid \<Rightarrow> nat \<Rightarrow> upload_body \<Rightarrow> (disk, lfs_write_error, unit) act" where
  "fs_lfs_receive sha tmp dest x len src =
     bindA (copy_loop tmp [] 0 src) (\<lambda>(hashed, written).
     bindA (io fs_flush) (\<lambda>_.
       if written \<noteq> len then bindA (ignored (fs_remove_file tmp)) (\<lambda>_. failA (SizeMismatch len written))
       else if sha hashed \<noteq> x
       then bindA (ignored (fs_remove_file tmp)) (\<lambda>_. failA (HashMismatch (lfs_to_hex x) (lfs_to_hex (sha hashed))))
       else io (fs_rename tmp dest)))"

definition fs_lfs_write ::
  "(bytes \<Rightarrow> bytes) \<Rightarrow> (bytes list \<Rightarrow> bytes \<Rightarrow> bytes res) \<Rightarrow> bytes \<Rightarrow> lfs_oid \<Rightarrow> nat \<Rightarrow> upload_body
     \<Rightarrow> (disk, lfs_write_error, unit) act" where
  "fs_lfs_write sha temp_in root x len src =
     (let dest = object_path root x; dir = object_dir root x in
      bindA (fs_exists dest) (\<lambda>present.
      if present then retA ()
      else
        bindA (io (fs_create_dir_all dir)) (\<lambda>_.
        bindA (io (fs_new_temp temp_in dir)) (\<lambda>tmp.
        bindA (io (fs_keep tmp)) (\<lambda>_.
          fs_lfs_receive sha tmp dest x len src)))))"

definition fs_lfs ::
  "(bytes \<Rightarrow> bytes) \<Rightarrow> (bytes list \<Rightarrow> bytes \<Rightarrow> bytes res) \<Rightarrow> (bytes, bytes, disk) lfs_store" where
  "fs_lfs sha temp_in =
     \<lparr> ls_open = fs_lfs_open,
       ls_stat = fs_lfs_stat,
       ls_download_action = (\<lambda>_ _ _. retA Proxy),
       ls_upload_action = (\<lambda>_ _ _. retA Proxy),
       ls_read = (\<lambda>root x. fs_read (object_path root x)),
       ls_write = fs_lfs_write sha temp_in \<rparr>"

section \<open>Paths\<close>

text \<open>\<open>NamedTempFile::new_in\<close>: a fresh file in the directory, named \<open>.tmp\<close> and six characters.\<close>

definition temp_names :: "(bytes list \<Rightarrow> bytes \<Rightarrow> bytes res) \<Rightarrow> bool" where
  "temp_names temp_in \<longleftrightarrow>
     (\<forall>ps dir p. temp_in ps dir = Inr p \<longrightarrow>
        p \<notin> set ps \<and> (\<exists>suf. length suf = 6 \<and> p = path_join dir (''.tmp'' @ suf)))"

lemma object_path_suffix: "\<exists>p. object_path root x = p @ lfs_to_hex x"
  unfolding object_path_def Let_def by (rule path_join_prefix)

lemma lfs_to_hex_inj: "lfs_to_hex x = lfs_to_hex y \<Longrightarrow> x = y"
proof -
  assume "lfs_to_hex x = lfs_to_hex y"
  then have "hex_pairs (lfs_to_hex x) = hex_pairs (lfs_to_hex y)" by (rule arg_cong)
  then show "x = y" by (simp only: hex_pairs_to_hex sum.inject)
qed

lemma object_path_oid:
  assumes "object_path root x = object_path root' y" "lfs_oid_ok x" "lfs_oid_ok y"
  shows "x = y"
proof -
  obtain p where "object_path root x = p @ lfs_to_hex x" using object_path_suffix by blast
  moreover obtain q where "object_path root' y = q @ lfs_to_hex y" using object_path_suffix by blast
  moreover have "length (lfs_to_hex x) = length (lfs_to_hex y)" using assms(2,3) by (simp add: lfs_oid_ok_def)
  ultimately have "lfs_to_hex x = lfs_to_hex y" using assms(1) by simp
  then show ?thesis by (rule lfs_to_hex_inj)
qed

lemma temp_not_object:
  assumes "temp_names temp_in" "temp_in ps dir = Inr tmp" "lfs_oid_ok y"
  shows "object_path root y \<noteq> tmp"
proof
  assume eq: "object_path root y = tmp"
  obtain suf where suf: "length suf = 6" "tmp = path_join dir (''.tmp'' @ suf)"
    using assms(1,2) unfolding temp_names_def by blast
  obtain p where p: "path_join dir (''.tmp'' @ suf) = p @ ''.tmp'' @ suf" using path_join_prefix by blast
  obtain q where q: "object_path root y = q @ lfs_to_hex y" using object_path_suffix by blast
  have "p @ ''.tmp'' @ suf = q @ lfs_to_hex y" using eq suf(2) p q by simp
  then consider r where "''.tmp'' @ suf = r @ lfs_to_hex y" | r where "lfs_to_hex y = r @ ''.tmp'' @ suf"
    unfolding append_eq_append_conv2 by metis
  then have "\<exists>r. lfs_to_hex y = r @ ''.tmp'' @ suf"
  proof cases
    case (1 r)
    from arg_cong [OF this, of length] have False using suf(1) assms(3) by (simp add: lfs_oid_ok_def)
    then show ?thesis ..
  qed blast
  then have "CHR ''.'' \<in> set (lfs_to_hex y)" by auto
  then have "hex_lower CHR ''.''" by (rule lfs_to_hex_graphic)
  then show False by (simp add: hex_lower_def in_range_def)
qed

section \<open>Writing\<close>

lemma copy_loop_files:
  "copy_loop tmp hashed written src s = (r, t) \<Longrightarrow> content_at s tmp = Some hashed \<Longrightarrow> written = length hashed \<Longrightarrow>
   same_but tmp s t \<and> (\<forall>h n. r = Inr (h, n) \<longrightarrow> content_at t tmp = Some h \<and> n = length h)"
proof (induction tmp hashed written src arbitrary: s rule: copy_loop.induct)
  case (3 tmp hashed written c src)
  show ?case
  proof (cases "c = []")
    case False
    obtain q s1 where q: "fs_write_all tmp c s = (q, s1)" by fastforce
    have s1: "same_but tmp s s1" by (rule fs_touch_tmp(2) [OF q])
    show ?thesis
    proof (cases q)
      case (Inl e)
      with 3(2) False q s1 show ?thesis by (auto simp: bindA_def io_def map_errA_def)
    next
      case (Inr u)
      with 3(2) False q have rest: "copy_loop tmp (hashed @ c) (written + length c) src s1 = (r, t)"
        by (simp add: bindA_def io_def map_errA_def)
      have "content_at s1 tmp = Some (hashed @ c)" using fs_tmp_content(2) q Inr 3(3) by blast
      from 3(1) [OF False rest this] 3(4) same_but_trans [OF s1] show ?thesis by simp
    qed
  qed (use 3 in auto)
qed auto

section \<open>The store checks what it stores\<close>

definition fs_held :: "disk \<Rightarrow> bytes \<Rightarrow> lfs_oid \<Rightarrow> bytes option" where
  "fs_held s root x = content_at s (object_path root x)"

text \<open>What a write leaves: the old files and perhaps a temporary one, or the object with the right hash.\<close>

definition write_result :: "(bytes \<Rightarrow> bytes) \<Rightarrow> bytes \<Rightarrow> lfs_oid \<Rightarrow> disk \<Rightarrow> bool \<Rightarrow> disk \<Rightarrow> bool" where
  "write_result sha root x s stored t \<longleftrightarrow>
     (\<exists>c. sha c = x \<and> content_at t (object_path root x) = Some c \<and>
        (\<forall>r y. lfs_oid_ok y \<longrightarrow> object_path r y \<noteq> object_path root x \<longrightarrow> fs_held t r y = fs_held s r y)) \<or>
     \<not> stored \<and> (\<forall>r y. lfs_oid_ok y \<longrightarrow> fs_held t r y = fs_held s r y)"

lemma write_result_laws:
  assumes "write_result sha root x s stored t" "lfs_oid_ok x" "intact sha (fs_held s)"
  shows "intact sha (fs_held t) \<and> nothing_lost (fs_held s) (fs_held t) \<and> (stored \<longrightarrow> fs_held t root x \<noteq> None)"
proof -
  have "sha bs = y" if y: "lfs_oid_ok y" and h: "fs_held t r y = Some bs" for r y bs
  proof (cases "object_path r y = object_path root x")
    case True
    then have "y = x" using object_path_oid assms(2) y by metis
    with assms(1,3) h y True show ?thesis unfolding write_result_def intact_def fs_held_def by auto
  next
    case False
    with assms(1) y have "fs_held t r y = fs_held s r y" unfolding write_result_def by blast
    with assms(3) h y show ?thesis unfolding intact_def by metis
  qed
  moreover have "fs_held t r y \<noteq> None" if "lfs_oid_ok y" "fs_held s r y \<noteq> None" for r y
    using assms(1) that unfolding write_result_def fs_held_def
    by (cases "object_path r y = object_path root x") (auto, metis)
  ultimately show ?thesis using assms(1) unfolding intact_def nothing_lost_def write_result_def by (auto simp: fs_held_def)
qed

lemma same_but_held:
  assumes "temp_names temp_in" "temp_in ps dir = Inr tmp" "same_but tmp s t" "lfs_oid_ok y"
  shows "fs_held t r y = fs_held s r y"
  using assms(3) temp_not_object [OF assms(1,2,4)] by (simp add: same_but_def fs_held_def)

lemma fs_files_held: "dk_files t = dk_files s \<Longrightarrow> fs_held t = fs_held s"
  by (simp add: fs_held_def fun_eq_iff)

lemma receive_run:
  assumes tmp: "content_at s tmp = Some []" and ne: "tmp \<noteq> dest"
    and run: "fs_lfs_receive sha tmp dest x len src s = (w, t)"
  shows "w \<noteq> Inr () \<and> same_but tmp s t \<or>
    (\<exists>c. sha c = x \<and> content_at t dest = Some c \<and> (\<forall>k. k \<noteq> tmp \<longrightarrow> k \<noteq> dest \<longrightarrow> content_at t k = content_at s k))"
proof -
  obtain q s1 where q: "copy_loop tmp [] 0 src s = (q, s1)" by fastforce
  note copied = copy_loop_files [OF q tmp]
  show ?thesis
  proof (cases q)
    case (Inl e)
    with run q copied show ?thesis by (auto simp: fs_lfs_receive_def bindA_def)
  next
    case (Inr hn)
    obtain h n where hn: "hn = (h, n)" by fastforce
    obtain q2 s2 where q2: "fs_flush s1 = (q2, s2)" by fastforce
    obtain q3 s3 where q3: "fs_remove_file tmp s2 = (q3, s3)" by fastforce
    obtain q4 s4 where q4: "fs_rename tmp dest s2 = (q4, s4)" by fastforce
    have s2: "dk_files s2 = dk_files s1" using fs_files(4) [OF q2] .
    then have same: "same_but tmp s s2" "same_but tmp s s3"
      using copied fs_touch_tmp(3) [OF q3] by (auto simp: same_but_def)
    have "content_at s2 tmp = Some h" using copied Inr hn s2 by simp
    with fs_rename_run [OF q4] same(1) have moved:
      "case q4 of Inl e \<Rightarrow> same_but tmp s s4
       | Inr u \<Rightarrow> content_at s4 dest = Some h \<and> (\<forall>k. k \<noteq> tmp \<longrightarrow> k \<noteq> dest \<longrightarrow> content_at s4 k = content_at s k)"
      by (cases q4) (auto simp: same_but_def)
    consider (flush) e where "q2 = Inl e" | (bad) u where "q2 = Inr u" "n \<noteq> len \<or> sha h \<noteq> x"
      | (good) u where "q2 = Inr u" "n = len" "sha h = x" by (cases q2) auto
    then show ?thesis
    proof cases
      case flush
      with run q Inr hn q2 same show ?thesis by (auto simp: fs_lfs_receive_def bindA_def io_def map_errA_def)
    next
      case bad
      with run q Inr hn q2 q3 same show ?thesis
        by (auto simp: fs_lfs_receive_def bindA_def io_def map_errA_def ignored_def split: if_splits)
    next
      case good
      with run q Inr hn q2 q4 moved show ?thesis
        by (cases q4) (auto simp: fs_lfs_receive_def bindA_def io_def map_errA_def)
    qed
  qed
qed

lemma fs_lfs_write_result:
  assumes names: "temp_names temp_in" and x: "lfs_oid_ok x" and s: "intact sha (fs_held s)"
    and run: "fs_lfs_write sha temp_in root x len src s = (w, t)"
  shows "write_result sha root x s (w = Inr ()) t"
proof -
  let ?dest = "object_path root x" and ?dir = "object_dir root x"
  obtain r0 :: "lfs_write_error + bool" and s0 where r0: "fs_exists ?dest s = (r0, s0)" by fastforce
  obtain q1 s1 where q1: "fs_create_dir_all ?dir s0 = (q1, s1)" by fastforce
  obtain q2 s2 where q2: "fs_new_temp temp_in ?dir s1 = (q2, s2)" by fastforce
  note defs = fs_lfs_write_def Let_def bindA_def io_def map_errA_def
  obtain there where there: "r0 = Inr there" "there \<longrightarrow> content_at s ?dest \<noteq> None" "dk_files s0 = dk_files s"
    using fs_exists_run [OF r0] by auto
  have s1: "dk_files s1 = dk_files s" using fs_files(3) [OF q1] there(3) by simp
  consider (present) "there" | (early1) e where "\<not> there" "q1 = Inl e"
    | (early2) u e where "\<not> there" "q1 = Inr u" "q2 = Inl e" | (go) u tmp where "\<not> there" "q1 = Inr u" "q2 = Inr tmp"
    by (cases q1; cases q2) auto
  then show ?thesis
  proof cases
    case present
    then obtain c where "content_at s ?dest = Some c" using there by blast
    moreover from this have "sha c = x" using s x unfolding intact_def fs_held_def by blast
    moreover have "t = s0" using run r0 there present by (simp add: defs)
    ultimately show ?thesis using there(3) by (auto simp: write_result_def fs_held_def)
  next
    case early1
    then have "t = s1" "w \<noteq> Inr ()" using run r0 there(1) q1 by (auto simp: defs)
    then show ?thesis using fs_files_held [OF s1] by (simp add: write_result_def)
  next
    case early2
    then have "dk_files t = dk_files s" "w \<noteq> Inr ()"
      using run r0 there(1) q1 q2 s1 fs_new_temp_run [OF q2] by (auto simp: defs)
    then show ?thesis using fs_files_held [of t s] by (simp add: write_result_def)
  next
    case (go u tmp)
    obtain ps where tmp: "temp_in ps ?dir = Inr tmp" "same_but tmp s1 s2" "content_at s2 tmp = Some []"
      using fs_new_temp_run [OF q2] go by auto
    obtain q3 s3 where q3: "fs_keep tmp s2 = (q3, s3)" by fastforce
    have s3: "same_but tmp s s3"
      using same_but_trans [OF tmp(2) fs_touch_tmp(1) [OF q3]] s1 by (simp add: same_but_def)
    note apart = temp_not_object [OF names tmp(1)]
    have "w \<noteq> Inr () \<and> same_but tmp s t \<or> (\<exists>c. sha c = x \<and> content_at t ?dest = Some c \<and>
        (\<forall>k. k \<noteq> tmp \<longrightarrow> k \<noteq> ?dest \<longrightarrow> content_at t k = content_at s k))"
    proof (cases q3)
      case (Inl e)
      then show ?thesis using run r0 there q1 q2 go q3 s3 by (auto simp: defs)
    next
      case (Inr u3)
      then have "content_at s3 tmp = Some []" using fs_tmp_content(1) q3 tmp(3) by metis
      moreover have "tmp \<noteq> ?dest" using apart [OF x] by metis
      moreover have rec: "fs_lfs_receive sha tmp ?dest x len src s3 = (w, t)"
        using run r0 there q1 q2 go q3 Inr by (simp add: defs)
      ultimately have "w \<noteq> Inr () \<and> same_but tmp s3 t \<or> (\<exists>c. sha c = x \<and> content_at t ?dest = Some c \<and>
          (\<forall>k. k \<noteq> tmp \<longrightarrow> k \<noteq> ?dest \<longrightarrow> content_at t k = content_at s3 k))" by (rule receive_run)
      then show ?thesis using s3 by (simp add: same_but_def)
    qed
    then show ?thesis using apart unfolding write_result_def same_but_def fs_held_def by metis
  qed
qed

lemma fs_checked_store:
  assumes "temp_names temp_in"
  shows "checked_store (fs_lfs sha temp_in) sha fs_held"
proof (unfold_locales, goal_cases)
  case (1 i s q t)
  then show ?case by (simp add: fs_lfs_def fs_lfs_open_def)
next
  case (2 r x s n t)
  then have run: "fs_metadata (object_path r x) s = (n, t)" by (simp add: fs_lfs_def fs_lfs_stat_def)
  have "v = map_option length (content_at s (object_path r x))" if "n = Inr v" for v
    using run [unfolded that fs_metadata_def] by (rule disk_op_cases) auto
  with fs_files_held [OF fs_files(1) [OF run]] show ?case by (simp add: fs_held_def)
next
  case (3 r x len s a t)
  then show ?case by (simp add: fs_lfs_def)
next
  case (4 r x len s a t)
  then show ?case by (simp add: fs_lfs_def)
next
  case (5 r x s b t)
  then have run: "fs_read (object_path r x) s = (b, t)" by (simp add: fs_lfs_def)
  have "content_at s (object_path r x) = Some bs" if "b = Inr bs" for bs
    using run [unfolded that fs_read_def] by (rule disk_op_cases) (auto split: option.splits)
  with fs_files_held [OF fs_files(2) [OF run]] show ?case by (simp add: fs_held_def)
next
  case (6 x s r len body w t)
  then have "write_result sha r x s (w = Inr ()) t"
    using fs_lfs_write_result [OF assms] by (simp add: fs_lfs_def)
  from write_result_laws [OF this 6(1,2)] show ?case by auto
qed

text \<open>A source of names with one candidate per directory.\<close>

definition one_temp :: "bytes list \<Rightarrow> bytes \<Rightarrow> bytes res" where
  "one_temp ps dir =
     (let p = path_join dir ''.tmpAAAAAA'' in
      if p \<in> set ps then Inl (Ext ''too many temporary files exist'') else Inr p)"

lemma one_temp_names: "temp_names one_temp"
  unfolding temp_names_def one_temp_def Let_def by (auto split: if_splits intro!: exI [of _ "''AAAAAA''"])

interpretation fs_store: checked_store "fs_lfs sha one_temp" sha fs_held for sha
  by (rule fs_checked_store [OF one_temp_names])

section \<open>Without faults\<close>

lemma quiet_disk:
  "dk_events s = [] \<Longrightarrow> disk_op g f s = (fst (f (dk_files s)), s\<lparr> dk_files := snd (f (dk_files s)) \<rparr>)"
  by (simp add: disk_op_def disk_tick_def split: prod.splits)

lemma quiet_copy:
  "dk_events s = [] \<Longrightarrow> [] \<notin> set cs \<Longrightarrow> content_at s tmp = Some hashed \<Longrightarrow>
   \<exists>t. copy_loop tmp hashed n (map Inr cs) s = (Inr (hashed @ concat cs, n + length (concat cs)), t) \<and>
     dk_events t = [] \<and> content_at t tmp = Some (hashed @ concat cs)"
proof (induction cs arbitrary: s hashed n)
  case (Cons c cs)
  let ?s = "s\<lparr> dk_files := fs_append tmp c (dk_files s) \<rparr>"
  have "content_at ?s tmp = Some (hashed @ c)" using Cons.prems(3) by (simp add: fs_append_def update_conv')
  from Cons.IH [OF _ _ this, of "n + length c"] Cons.prems show ?case
    by (auto simp: io_def map_errA_def bindA_def fs_write_all_def quiet_disk)
qed simp

lemma quiet_write:
  assumes s: "dk_events s = []" "content_at s (object_path root x) = None"
    and tmp: "temp_in (map fst (dk_files s)) (object_dir root x) = Inr tmp" "tmp \<noteq> object_path root x"
    and body: "[] \<notin> set cs" "concat cs = bs" "sha bs = x"
  shows "\<exists>t. fs_lfs_write sha temp_in root x (length bs) (map Inr cs) s = (Inr (), t) \<and> dk_events t = [] \<and>
    content_at t (object_path root x) = Some bs"
proof -
  note ops = Let_def bindA_def io_def map_errA_def quiet_disk fs_exists_def fs_metadata_def fs_create_dir_all_def
    fs_new_temp_def fs_keep_def fs_flush_def fs_rename_def
  let ?s = "s\<lparr> dk_files := AList.update tmp [] (dk_files s) \<rparr>"
  have "content_at ?s tmp = Some []" by (simp add: update_conv')
  from quiet_copy [OF _ body(1) this, of 0] s(1)
  obtain t where t: "copy_loop tmp [] 0 (map Inr cs) ?s = (Inr (bs, length bs), t)" "dk_events t = []" "content_at t tmp = Some bs"
    using body(2) by auto
  have "fs_lfs_write sha temp_in root x (length bs) (map Inr cs) s =
      fs_lfs_receive sha tmp (object_path root x) x (length bs) (map Inr cs) ?s"
    using s tmp(1) by (simp add: fs_lfs_write_def ops)
  then show ?thesis using t body(3) tmp(2) by (simp add: fs_lfs_receive_def ops update_conv')
qed

section \<open>Properties\<close>

text \<open>
  C8. An LFS object is what its name says.  If every object file on disk has the hash it is named
  after, it is so after any upload, whatever the client sends and at whatever step the disk fails:
  bytes of the wrong size or hash never become visible, and no object that was there is lost.  The
  answer 200 is given only to an authorised upload after which the object is there, and a request
  refused with 400 or 403 does not touch the disk.
\<close>

theorem lfs_upload_integrity:
  assumes names: "temp_names temp_in" and s: "intact sha (fs_held s)"
    and run: "handle_upload A (fs_lfs sha temp_in) i hex len body s = (r, t)"
  shows "\<exists>status. r = Inr status \<and> intact sha (fs_held t) \<and> nothing_lost (fs_held s) (fs_held t) \<and>
    (status = 200 \<longrightarrow> acc_authorize_lfs A Upload None = Inr () \<and>
       (\<exists>x bs. lfs_from_str (sha256_tag @ hex) = Inr x \<and> sha bs = x \<and>
          content_at t (object_path (path_join (path_join i ''lfs'') ''objects'') x) = Some bs)) \<and>
    (status \<in> {400, 403} \<longrightarrow> t = s)"
proof -
  let ?root = "path_join (path_join i ''lfs'') ''objects''"
  have root: "ls_open (fs_lfs sha temp_in) i s = (Inr ?root, s)" by (simp add: fs_lfs_def fs_lfs_open_def)
  obtain status where r: "r = Inr status" and t: "intact sha (fs_held t)" "nothing_lost (fs_held s) (fs_held t)"
    and ok: "status = 200 \<longrightarrow> acc_authorize_lfs A Upload None = Inr () \<and>
       (\<exists>x repo s1. lfs_from_str (sha256_tag @ hex) = Inr x \<and> ls_open (fs_lfs sha temp_in) i s = (Inr repo, s1) \<and>
          fs_held t repo x \<noteq> None)" "status \<in> {400, 403} \<longrightarrow> t = s"
    using checked_store.upload_sound [OF fs_checked_store [OF names] s run] by blast
  have "\<exists>x bs. lfs_from_str (sha256_tag @ hex) = Inr x \<and> sha bs = x \<and> content_at t (object_path ?root x) = Some bs"
    if st: "status = 200"
  proof -
    obtain x where x: "lfs_from_str (sha256_tag @ hex) = Inr x" "fs_held t ?root x \<noteq> None"
      using ok(1) st root by auto
    then obtain bs where bs: "fs_held t ?root x = Some bs" by blast
    with t(1) lfs_from_str_ok [OF x(1)] have "sha bs = x" unfolding intact_def by blast
    with x(1) bs show ?thesis by (auto simp: fs_held_def)
  qed
  with r t ok show ?thesis by auto
qed

definition pad32 :: "bytes \<Rightarrow> bytes" where
  "pad32 bs = take 32 (bs @ replicate 32 NUL)"

definition empty_disk :: disk where
  "empty_disk = \<lparr> dk_files = [], dk_events = [] \<rparr>"

definition lfs_access :: "(bytes, unit, sha1) repo_access" where
  "lfs_access = default_access ''r.git'' ()"

theorem lfs_upload_integrity_witness:
  "intact pad32 (fs_held (snd (handle_upload lfs_access (fs_lfs pad32 one_temp) ''r.git'' (lfs_to_hex (pad32 ''abc'')) 3
     [Inr ''xyz''] (empty_disk\<lparr> dk_events := [FsOk, FsFail 0] \<rparr>))))"
proof -
  let ?s = "empty_disk\<lparr> dk_events := [FsOk, FsFail 0] \<rparr>"
  obtain r t where run: "handle_upload lfs_access (fs_lfs pad32 one_temp) ''r.git'' (lfs_to_hex (pad32 ''abc'')) 3
     [Inr ''xyz''] ?s = (r, t)" by fastforce
  have "intact pad32 (fs_held ?s)" by (simp add: intact_def fs_held_def empty_disk_def)
  from lfs_upload_integrity [OF one_temp_names this run] run show ?thesis by auto
qed

text \<open>
  C11. What was uploaded can be downloaded.  On a disk that works, an authorised upload of a new object
  whose bytes have the announced length and hash is answered with 200, in however many pieces they
  arrive; afterwards a download returns exactly these bytes, \<open>verify\<close> confirms their size, and the batch
  API offers the object for download and asks for no further upload.
\<close>

theorem lfs_upload_download:
  assumes names: "temp_names temp_in" and s: "dk_events s = []" and x: "lfs_oid_ok x" "sha (concat cs) = x" "[] \<notin> set cs"
    and root: "root = path_join (path_join i ''lfs'') ''objects''" "content_at s (object_path root x) = None"
    and tmp: "temp_in (map fst (dk_files s)) (object_dir root x) = Inr tmp"
    and auth: "acc_authorize_lfs A Upload None = Inr ()"
  shows "\<exists>t. handle_upload A (fs_lfs sha temp_in) i (lfs_to_hex x) (length (concat cs)) (map Inr cs) s = (Inr 200, t) \<and>
    handle_download (fs_lfs sha temp_in) i (lfs_to_hex x) t = (Inr (200, Some (concat cs)), t) \<and>
    handle_verify (fs_lfs sha temp_in) i x (length (concat cs)) t = (Inr 200, t) \<and>
    batch_object (fs_lfs sha temp_in) now url root Download \<lparr> bro_oid = x, bro_size = n \<rparr> t =
      (Inr \<lparr> bo_oid = x, bo_size = n, bo_actions = Some
         \<lparr> act_download = Some \<lparr> ad_href = url @ ''/objects/'' @ lfs_to_hex x, ad_header = [], ad_expires_in = None \<rparr>,
           act_upload = None, act_verify = None \<rparr>, bo_error = None \<rparr>, t) \<and>
    batch_object (fs_lfs sha temp_in) now url root Upload \<lparr> bro_oid = x, bro_size = n \<rparr> t =
      (Inr \<lparr> bo_oid = x, bo_size = n, bo_actions = None, bo_error = None \<rparr>, t)"
proof -
  note ops = fs_lfs_def fs_lfs_open_def fs_lfs_stat_def fs_metadata_def fs_read_def bindA_def attempt_def quiet_disk
  have parse: "lfs_from_str (sha256_tag @ lfs_to_hex x) = Inr x"
    using lfs_from_str_display [OF x(1)] by (simp add: lfs_display_def)
  have "tmp \<noteq> object_path root x" using temp_not_object [OF names tmp x(1)] by metis
  from quiet_write [where temp_in = temp_in and sha = sha, OF s root(2) tmp this x(3) refl x(2)]
  obtain t where t: "fs_lfs_write sha temp_in root x (length (concat cs)) (map Inr cs) s = (Inr (), t)"
    "dk_events t = []" "content_at t (object_path root x) = Some (concat cs)" by blast
  have "handle_upload A (fs_lfs sha temp_in) i (lfs_to_hex x) (length (concat cs)) (map Inr cs) s = (Inr 200, t)"
    using t(1) auth parse root(1) by (simp add: handle_upload_def ops)
  moreover have "handle_download (fs_lfs sha temp_in) i (lfs_to_hex x) t = (Inr (200, Some (concat cs)), t)"
    using t(2,3) parse root(1) by (simp add: handle_download_def ops)
  moreover have "handle_verify (fs_lfs sha temp_in) i x (length (concat cs)) t = (Inr 200, t)"
    using t(2,3) root(1) by (simp add: handle_verify_def ops)
  ultimately show ?thesis
    using t(2,3) by (auto simp: batch_object_def object_actions_def transfer_action_to_detail_def ops)
qed

theorem lfs_upload_download_witness:
  "\<exists>t. handle_upload lfs_access (fs_lfs pad32 one_temp) ''r.git'' (lfs_to_hex (pad32 ''abc'')) 3 [Inr ''ab'', Inr ''c'']
      empty_disk = (Inr 200, t) \<and>
    handle_download (fs_lfs pad32 one_temp) ''r.git'' (lfs_to_hex (pad32 ''abc'')) t = (Inr (200, Some ''abc''), t)"
proof -
  have "lfs_oid_ok (pad32 ''abc'')" by (simp add: lfs_oid_ok_def pad32_def)
  moreover have "one_temp [] (object_dir (path_join (path_join ''r.git'' ''lfs'') ''objects'') (pad32 ''abc'')) =
      Inr (path_join (object_dir (path_join (path_join ''r.git'' ''lfs'') ''objects'') (pad32 ''abc'')) ''.tmpAAAAAA'')"
    by (simp add: one_temp_def Let_def)
  ultimately obtain t where
    "handle_upload lfs_access (fs_lfs pad32 one_temp) ''r.git'' (lfs_to_hex (pad32 ''abc'')) (length (concat [''ab'', ''c'']))
       (map Inr [''ab'', ''c'']) empty_disk = (Inr 200, t)"
    "handle_download (fs_lfs pad32 one_temp) ''r.git'' (lfs_to_hex (pad32 ''abc'')) t = (Inr (200, Some (concat [''ab'', ''c''])), t)"
    using lfs_upload_download [OF one_temp_names, of empty_disk "pad32 ''abc''" pad32 "[''ab'', ''c'']" _ "''r.git''" _ lfs_access
      "\<lambda>_. 0" "[]" 0, OF _ _ _ _ refl] by (auto simp: empty_disk_def lfs_access_def default_access_def)
  then show ?thesis by (simp add: numeral_3_eq_3)
qed

end
