(* ===== verification/HTTP_Server.thy ===== *)
theory HTTP_Server
  imports LFS_Fs Fetch_Properties
begin

text \<open>
  The HTTP front end (\<open>servers/axum.rs\<close>): how a request is routed to the git handlers or to the LFS
  server, and what becomes of their answers.  The state is the git backend's and the LFS store's.  Header
  names are lower case; the body is the results of reading it.  Headers that axum adds by itself
  are left out.  To the git handlers a body that breaks off is a body that ends there.
\<close>

section \<open>Requests and responses\<close>

record http_request =
  rq_method :: bytes
  rq_headers :: "(bytes \<times> bytes) list"
  rq_query :: "bytes option"
  rq_body :: upload_body

datatype ('s, 'w) http_body = Stream "('s, 'w) task" | Bytes bytes

record ('s, 'w) http_response =
  hr_status :: nat
  hr_headers :: "(bytes \<times> bytes) list"
  hr_body :: "('s, 'w) http_body"

text \<open>\<open>StatusCode::from_u16(n).unwrap_or(INTERNAL_SERVER_ERROR)\<close>\<close>

definition http_status :: "nat \<Rightarrow> nat" where
  "http_status n = (if 100 \<le> n \<and> n < 1000 then n else 500)"

definition http_text :: "nat \<Rightarrow> bytes \<Rightarrow> ('s, 'w) http_response" where
  "http_text status msg = \<lparr> hr_status = status, hr_headers = [], hr_body = Bytes msg \<rparr>"

definition into_response :: "('s, 'w) git_response \<Rightarrow> ('s, 'w) http_response" where
  "into_response g =
     \<lparr> hr_status = http_status (status_code g),
       hr_headers = (''cache-control'', ''no-cache'') #
         (case resp_content_type g of Some ct \<Rightarrow> [(''content-type'', ct)] | None \<Rightarrow> []),
       hr_body = (case resp_reader g of
           Some task \<Rightarrow> Stream task
         | None \<Rightarrow> Bytes (case resp_body g of Some b \<Rightarrow> b | None \<Rightarrow> [])) \<rparr>"

text \<open>\<open>HeaderValue::to_str\<close>: visible ASCII and tabs only.\<close>

definition header_str :: "http_request \<Rightarrow> bytes \<Rightarrow> bytes option" where
  "header_str req name =
     (case map_of (rq_headers req) name of
        None \<Rightarrow> None
      | Some v \<Rightarrow> if list_all (\<lambda>c. in_range 32 126 c \<or> c = CHR 0x09) v then Some v else None)"

definition header_or :: "http_request \<Rightarrow> bytes \<Rightarrow> bytes \<Rightarrow> bytes" where
  "header_or req name def = (case header_str req name of Some v \<Rightarrow> v | None \<Rightarrow> def)"

definition ascii_upper :: "bytes \<Rightarrow> bytes" where
  "ascii_upper = map (\<lambda>c. if in_range 97 122 c then char_of (of_char c - 32 :: nat) else c)"

text \<open>\<open>axum::body::to_bytes\<close> with its limit.\<close>

definition to_bytes :: "upload_body \<Rightarrow> nat \<Rightarrow> bytes res" where
  "to_bytes body limit =
     bindR (mapR id body) (\<lambda>cs. if length (concat cs) \<le> limit then Inr (concat cs) else Inl (Ext ''length limit exceeded''))"

fun git_body :: "upload_body \<Rightarrow> bytes" where
  "git_body (Inr c # body) = c @ git_body body"
| "git_body _ = []"

section \<open>LFS requests\<close>

definition BODY_LIMIT :: nat where "BODY_LIMIT = 1024 * 1024"

definition serve_lfs ::
  "json_codec \<Rightarrow> ('id, 'c, 'o) repo_access \<Rightarrow> ('id, 'r, 'l) lfs_store \<Rightarrow> ('l \<Rightarrow> nat) \<Rightarrow> bytes \<Rightarrow> http_request
     \<Rightarrow> ('l, stop, ('s, 'w) http_response) act" where
  "serve_lfs J A L now path req =
     (case rsplit_once ''.git/'' path of
        None \<Rightarrow> retA (http_text 400 (''Path doesn'' @ [CHR 0x27] @ ''t look like a git URL''))
      | Some (repo_prefix, service_path) \<Rightarrow>
          (case strip_prefix ''info/lfs/'' service_path of
             None \<Rightarrow> retA (http_text 404 ''Not an LFS path'')
           | Some lfs_path \<Rightarrow>
               (let host = header_or req ''host'' ''localhost'';
                    proto = header_or req ''x-forwarded-proto'' ''http'';
                    base_url = proto @ ''://'' @ host @ ''/'' @ repo_prefix @ ''.git/info/lfs'';
                    method = ascii_upper (rq_method req);
                    i = acc_repo_id A in
                if method = ''POST'' \<and> lfs_path = ''objects/batch'' then
                  (case to_bytes (rq_body req) BODY_LIMIT of
                     Inl _ \<Rightarrow> retA (http_text 400 ''failed to read body'')
                   | Inr body \<Rightarrow>
                       bindA (handle_batch J A L now i base_url body) (\<lambda>(status, json).
                         retA \<lparr> hr_status = http_status status,
                                hr_headers = [(''content-type'', ''application/vnd.git-lfs+json'')],
                                hr_body = Bytes json \<rparr>))
                else if method = ''GET'' \<and> starts_with lfs_path ''objects/'' then
                  bindA (handle_download L i (drop 8 lfs_path)) (\<lambda>(status, r).
                    retA \<lparr> hr_status = http_status status, hr_headers = [],
                           hr_body = Bytes (case r of Some bs \<Rightarrow> bs | None \<Rightarrow> []) \<rparr>)
                else if method = ''PUT'' \<and> starts_with lfs_path ''objects/'' then
                  (let len = (case header_str req ''content-length'' of
                                None \<Rightarrow> 0
                              | Some v \<Rightarrow> (case parse_unsigned 10 u64_max v of Some n \<Rightarrow> n | None \<Rightarrow> 0)) in
                   bindA (handle_upload A L i (drop 8 lfs_path) len (rq_body req)) (\<lambda>status.
                     retA (http_text (http_status status) [])))
                else if method = ''POST'' \<and> lfs_path = ''objects/verify'' then
                  (case to_bytes (rq_body req) BODY_LIMIT of
                     Inl _ \<Rightarrow> retA (http_text 400 ''failed to read body'')
                   | Inr body \<Rightarrow>
                       (case js_verify_body J body of
                          Inl _ \<Rightarrow> retA (http_text 400 ''invalid verify body'')
                        | Inr (x, n) \<Rightarrow>
                            bindA (handle_verify L i x n) (\<lambda>status. retA (http_text (http_status status) []))))
                else retA (http_text 501 []))))"

section \<open>Git requests and routing\<close>

definition serve_with_backend ::
  "('id, 'c, 'o) repo_access \<Rightarrow> ('id, 'r, 'p, 'o, 's) backend \<Rightarrow> 'w pkt_writer \<Rightarrow> 'o oid_ops \<Rightarrow> 'o \<Rightarrow> temp_env
     \<Rightarrow> (bytes \<Rightarrow> parser) \<Rightarrow> bytes \<Rightarrow> protocol_limits \<Rightarrow> http_request \<Rightarrow> ('s, stop, ('s, 'w) http_response) act" where
  "serve_with_backend A B W H empty_tree E packets path limits req =
     (let git_protocol = header_or req ''git-protocol'' ''version=1'';
          content_type = header_or req ''content-type'' [];
          query = (case rq_query req of Some q \<Rightarrow> q | None \<Rightarrow> []) in
      case rsplit_once ''.git/'' path of
        None \<Rightarrow> retA (http_text 400 (''Path doesn'' @ [CHR 0x27] @ ''t look like a git URL''))
      | Some (_, service_path) \<Rightarrow>
          bindA (if git_protocol = ''version=2''
                 then serve_git_protocol_2 A B W H empty_tree E packets service_path query content_type limits (git_body (rq_body req))
                 else serve_git_protocol_1 A B W H empty_tree E packets service_path query content_type limits (git_body (rq_body req)))
            (\<lambda>g. retA (into_response g)))"

definition serve_with_backends ::
  "json_codec \<Rightarrow> ('id, 'c, 'o) repo_access \<Rightarrow> ('id, 'r, 'p, 'o, 's) backend \<Rightarrow> ('id, 'q, 'l) lfs_store \<Rightarrow> ('l \<Rightarrow> nat)
     \<Rightarrow> 'w pkt_writer \<Rightarrow> 'o oid_ops \<Rightarrow> 'o \<Rightarrow> temp_env \<Rightarrow> (bytes \<Rightarrow> parser) \<Rightarrow> bytes \<Rightarrow> protocol_limits \<Rightarrow> http_request
     \<Rightarrow> ('s \<times> 'l, stop, ('s, 'w) http_response) act" where
  "serve_with_backends J A B L now W H empty_tree E packets path limits req =
     (case rsplit_once ''.git/'' path of
        None \<Rightarrow> retA (http_text 400 (''Path doesn'' @ [CHR 0x27] @ ''t look like a git URL''))
      | Some (_, service_path) \<Rightarrow>
          if starts_with service_path ''info/lfs/'' then on_writer (serve_lfs J A L now path req)
          else on_state (serve_with_backend A B W H empty_tree E packets path limits req))"

section \<open>Routing\<close>

definition safe_http :: "('s \<Rightarrow> bool) \<Rightarrow> ('s, 'w) http_response \<Rightarrow> bool" where
  "safe_http P resp \<longleftrightarrow> (\<forall>task. hr_body resp = Stream task \<longrightarrow> keeps (\<lambda>sw. P (fst sw)) task)"

lemma safe_into_response: "safe_response P g \<Longrightarrow> safe_http P (into_response g)"
  by (auto simp: safe_response_def safe_http_def into_response_def split: option.splits)

definition no_stream :: "('s, 'w) http_response \<Rightarrow> bool" where
  "no_stream resp \<longleftrightarrow> (\<forall>task. hr_body resp \<noteq> Stream task)"

context checked_store
begin

definition lfs_effect :: "('id, 'c, 'o) repo_access \<Rightarrow> http_request \<Rightarrow> 's \<Rightarrow> 's \<Rightarrow> bool" where
  "lfs_effect A req s t \<longleftrightarrow> intact sha (held t) \<and> nothing_lost (held s) (held t) \<and>
     (held t = held s \<or> ascii_upper (rq_method req) = ''PUT'' \<and> acc_authorize_lfs A Upload None = Inr ())"

lemma upload_effect:
  assumes "intact sha (held s)" "handle_upload A L i hex len body s = (r, t)" "ascii_upper (rq_method req) = ''PUT''"
  shows "lfs_effect A req s t"
proof (cases "acc_authorize_lfs A Upload None")
  case (Inl msg)
  with assms have "t = s" by (simp add: handle_upload_def)
  with assms(1) show ?thesis by (simp add: lfs_effect_def)
next
  case (Inr u)
  with upload_sound [OF assms(1,2)] assms(3) show ?thesis by (auto simp: lfs_effect_def)
qed

text \<open>What each way through \<open>serve_lfs\<close> does, started in \<open>s\<close>.\<close>

definition lfs_safe ::
  "('id, 'c, 'o) repo_access \<Rightarrow> http_request \<Rightarrow> 's \<Rightarrow> ('s, stop, ('g, 'w) http_response) act \<Rightarrow> bool" where
  "lfs_safe A req s m \<longleftrightarrow>
     (\<forall>r t. m s = (r, t) \<longrightarrow> lfs_effect A req s t \<and> (\<forall>resp. r = Inr resp \<longrightarrow> no_stream resp))"

lemma lfs_safe_ret: "intact sha (held s) \<Longrightarrow> no_stream resp \<Longrightarrow> lfs_safe A req s (retA resp)"
  by (simp add: lfs_safe_def lfs_effect_def)

lemma lfs_safe_reads:
  assumes s: "intact sha (held s)" and m: "keeps (\<lambda>u. held u = held s) m" and f: "\<And>x. no_stream (f x)"
  shows "lfs_safe A req s (bindA m (\<lambda>x. retA (f x)))"
  unfolding lfs_safe_def
proof (intro allI impI)
  fix r t assume run: "bindA m (\<lambda>x. retA (f x)) s = (r, t)"
  obtain q u where q: "m s = (q, u)" by fastforce
  then have "t = u" "\<forall>resp. r = Inr resp \<longrightarrow> (\<exists>x. resp = f x)" using run by (cases q; auto simp: bindA_def)+
  moreover have "held u = held s" using keepsD [OF m refl q] .
  ultimately show "lfs_effect A req s t \<and> (\<forall>resp. r = Inr resp \<longrightarrow> no_stream resp)"
    using f s by (auto simp: lfs_effect_def)
qed

lemma lfs_safe_upload:
  assumes s: "intact sha (held s)" and put: "ascii_upper (rq_method req) = ''PUT''" and f: "\<And>x. no_stream (f x)"
  shows "lfs_safe A req s (bindA (handle_upload A L i hex len body) (\<lambda>status. retA (f status)))"
  unfolding lfs_safe_def
proof (intro allI impI)
  fix r t assume run: "bindA (handle_upload A L i hex len body) (\<lambda>status. retA (f status)) s = (r, t)"
  obtain q u where q: "handle_upload A L i hex len body s = (q, u)" by fastforce
  then have "t = u" "\<forall>resp. r = Inr resp \<longrightarrow> no_stream resp" using run f by (cases q; auto simp: bindA_def)+
  with upload_effect [OF s q put] show "lfs_effect A req s t \<and> (\<forall>resp. r = Inr resp \<longrightarrow> no_stream resp)" by blast
qed

lemma lfs_safe_if: "(b \<Longrightarrow> lfs_safe A req s m) \<Longrightarrow> (\<not> b \<Longrightarrow> lfs_safe A req s m') \<Longrightarrow> lfs_safe A req s (if b then m else m')"
  by simp

lemma no_stream_text: "no_stream (http_text c b)" "no_stream \<lparr> hr_status = c, hr_headers = hs, hr_body = Bytes b \<rparr>"
  by (simp_all add: no_stream_def http_text_def)

lemma serve_lfs_safe:
  assumes s: "intact sha (held s)"
  shows "lfs_safe A req s (serve_lfs J A L now path req)"
proof -
  note ret = lfs_safe_ret [OF s no_stream_text(1)]
  have batch: "lfs_safe A req s (bindA (handle_batch J A L now i url body) (\<lambda>(status, json).
      retA \<lparr> hr_status = g status, hr_headers = hs, hr_body = Bytes json \<rparr>))" for i url body g hs
    unfolding case_prod_unfold by (rule lfs_safe_reads [OF s keeps_handlers(1) no_stream_text(2)])
  have get: "lfs_safe A req s (bindA (handle_download L i hex) (\<lambda>(status, r).
      retA \<lparr> hr_status = g status, hr_headers = hs, hr_body = Bytes (h r) \<rparr>))" for i hex g hs h
    unfolding case_prod_unfold by (rule lfs_safe_reads [OF s keeps_handlers(2) no_stream_text(2)])
  have verify: "lfs_safe A req s (bindA (handle_verify L i x n) (\<lambda>status. retA (http_text (g status) [])))" for i x n g
    by (rule lfs_safe_reads [OF s keeps_handlers(3) no_stream_text(1)])
  note put = lfs_safe_upload [OF s _ no_stream_text(1)]
  show ?thesis
  proof (cases "rsplit_once ''.git/'' path")
    case None
    then show ?thesis by (simp add: serve_lfs_def ret)
  next
    case (Some pq)
    then show ?thesis
      by (cases pq; cases "strip_prefix ''info/lfs/'' (snd pq)"; cases "to_bytes (rq_body req) BODY_LIMIT";
          cases "js_verify_body J (projr (to_bytes (rq_body req) BODY_LIMIT))")
         (auto simp: serve_lfs_def Let_def intro!: lfs_safe_if ret batch get put verify)
  qed
qed

end

lemma serve_git_effect:
  assumes run: "serve_with_backend A (kv_backend G bundle_of T cluster_api H) W H empty_tree E packets path limits req (s, d) =
      (Inr resp, (t, d'))" and path: "rsplit_once ''.git/'' path = Some (repo, service)"
  shows "ref_log (commits_of t) = ref_log (commits_of s) \<and>
    ((\<forall>L. safe_http (\<lambda>sd. ref_log (commits_of (fst sd)) = L) resp) \<or>
     service = ''git-receive-pack'' \<and> (\<exists>us rest. read_receive_request H limits (git_body (rq_body req)) = Inr (us, rest) \<and>
       (us = [] \<or> authorised A (kv_backend G bundle_of T cluster_api H) H empty_tree us)))"
proof -
  let ?B = "kv_backend G bundle_of T cluster_api H" and ?body = "git_body (rq_body req)"
  let ?q = "case rq_query req of Some q \<Rightarrow> q | None \<Rightarrow> []" and ?ct = "header_or req ''content-type'' []"
  let ?m1 = "serve_git_protocol_1 A ?B W H empty_tree E packets service ?q ?ct limits ?body"
  let ?m2 = "serve_git_protocol_2 A ?B W H empty_tree E packets service ?q ?ct limits ?body"
  obtain g where g: "?m1 (s, d) = (Inr g, (t, d')) \<or> ?m2 (s, d) = (Inr g, (t, d'))" and resp: "resp = into_response g"
    using run path by (auto simp: serve_with_backend_def Let_def bindA_Inr split: if_splits)
  have log: "ref_log (commits_of t) = ref_log (commits_of s)"
    using g keepsD [OF backend_keeps.keeps_http(1) [OF cluster_keeps]] keepsD [OF backend_keeps.keeps_http(2) [OF cluster_keeps]]
    by fastforce
  have "(\<forall>L. safe_response (\<lambda>sd. ref_log (commits_of (fst sd)) = L) g) \<or>
     service = ''git-receive-pack'' \<and> (\<exists>us rest. read_receive_request H limits ?body = Inr (us, rest) \<and>
       (us = [] \<or> authorised A ?B H empty_tree us))"
  proof (cases "service = ''git-receive-pack''")
    case False
    from g have "safe_response (\<lambda>sd. ref_log (commits_of (fst sd)) = L) g" for L
    proof
      assume "?m1 (s, d) = (Inr g, (t, d'))"
      then show ?thesis by (rule returnsD [OF backend_keeps.safe_http(1) [OF cluster_keeps False]])
    next
      assume "?m2 (s, d) = (Inr g, (t, d'))"
      then show ?thesis by (rule returnsD [OF backend_keeps.safe_http(2) [OF cluster_keeps False]])
    qed
    then show ?thesis by blast
  next
    case True
    then have m: "?m1 = ?m2" by (simp add: serve_git_protocol_1_def serve_git_protocol_2_def Let_def)
    show ?thesis
    proof (cases "?ct = ''application/x-git-receive-pack-request''")
      case False
      with g True have "resp_reader g = None"
        by (auto simp: serve_git_protocol_1_def serve_git_protocol_2_def Let_def plain_response_def)
      then show ?thesis by (simp add: safe_response_def)
    next
      case ct: True
      then have "recv_pack_post A ?B W H empty_tree E (acc_repo_id A) limits ?body (s, d) = (Inr g, (t, d'))"
        using g True by (auto simp: serve_git_protocol_1_def serve_git_protocol_2_def Let_def)
      from returnsD [OF backend_keeps.safe_recv_pack_post [OF cluster_keeps] this] True show ?thesis by blast
    qed
  qed
  with log resp safe_into_response show ?thesis by blast
qed

section \<open>Properties\<close>

text \<open>
  C9. What a request to the HTTP front end can do, on the key-value backend and the file system LFS
  store.  Handling a request never writes a ref itself.  A path without \<open>.git/\<close> is answered with 400 and
  touches nothing.  A request to \<open>info/lfs/\<close> leaves the git store alone, streams nothing that could
  change it, keeps every LFS object intact and changes the LFS store only for an authorised \<open>PUT\<close>.
  Any other request leaves the LFS store alone, and the task that streams its answer writes no ref unless
  it is a request to \<open>git-receive-pack\<close> whose updates were authorised (or that has none).
\<close>

theorem http_front_routes:
  assumes names: "temp_names temp_in" and l: "intact sha (fs_held l)"
    and run: "serve_with_backends J A (kv_backend G bundle_of T cluster_api H) (fs_lfs sha temp_in) now W H empty_tree E packets
      path limits req ((s, d), l) = (Inr resp, ((t, d'), l'))"
  shows "ref_log (commits_of t) = ref_log (commits_of s) \<and>
    (case rsplit_once ''.git/'' path of
       None \<Rightarrow> hr_status resp = 400 \<and> ((t, d'), l') = ((s, d), l)
     | Some (repo, service) \<Rightarrow>
         if starts_with service ''info/lfs/'' then
           (t, d') = (s, d) \<and> no_stream resp \<and> intact sha (fs_held l') \<and> nothing_lost (fs_held l) (fs_held l') \<and>
           (fs_held l' = fs_held l \<or> ascii_upper (rq_method req) = ''PUT'' \<and> acc_authorize_lfs A Upload None = Inr ())
         else l' = l \<and>
           ((\<forall>L. safe_http (\<lambda>sd. ref_log (commits_of (fst sd)) = L) resp) \<or>
            service = ''git-receive-pack'' \<and>
            (\<exists>us rest. read_receive_request H limits (git_body (rq_body req)) = Inr (us, rest) \<and>
               (us = [] \<or> authorised A (kv_backend G bundle_of T cluster_api H) H empty_tree us))))"
proof (cases "rsplit_once ''.git/'' path")
  case None
  with run show ?thesis by (auto simp: serve_with_backends_def http_text_def)
next
  case (Some rs)
  obtain repo service where rs: "rs = (repo, service)" by fastforce
  show ?thesis
  proof (cases "starts_with service ''info/lfs/''")
    case True
    then have lfs: "serve_lfs J A (fs_lfs sha temp_in) now path req l = (Inr resp, l')" and td: "(t, d') = (s, d)"
      using run Some rs by (auto simp: serve_with_backends_def on_writer_def split: prod.splits)
    have "checked_store.lfs_effect sha fs_held A req l l' \<and> no_stream resp"
      using checked_store.serve_lfs_safe [OF fs_checked_store [OF names] l] lfs
      unfolding checked_store.lfs_safe_def [OF fs_checked_store [OF names]] by blast
    with td Some rs True show ?thesis
      unfolding checked_store.lfs_effect_def [OF fs_checked_store [OF names]] by auto
  next
    case False
    then have "serve_with_backend A (kv_backend G bundle_of T cluster_api H) W H empty_tree E packets path limits req (s, d) =
        (Inr resp, (t, d'))" and "l' = l"
      using run Some rs by (auto simp: serve_with_backends_def on_state_def split: prod.splits)
    with serve_git_effect [OF this(1) Some [unfolded rs]] Some rs False show ?thesis by simp
  qed
qed

definition download_request :: http_request where
  "download_request = \<lparr> rq_method = ''GET'', rq_headers = [(''host'', ''h'')], rq_query = None, rq_body = [] \<rparr>"

definition no_json :: json_codec where
  "no_json = \<lparr> js_batch_request = (\<lambda>_. Inl (Ext [])), js_batch_response = (\<lambda>_. Inr []), js_message = id,
     js_verify_body = (\<lambda>_. Inl (Ext [])) \<rparr>"

abbreviation download_run :: "(stop + (cluster \<times> cache_dir, pipe) http_response) \<times> (cluster \<times> cache_dir) \<times> disk" where
  "download_run \<equiv> serve_with_backends no_json demo_access demo_backend (fs_lfs pad32 one_temp) (\<lambda>_. 0) pipe_writer sha1_ops 4
     temp_ok (\<lambda>_. []) ''r.git/info/lfs/objects/zz'' default_limits download_request ((empty_cluster, empty_dir), empty_disk)"

lemma download_path: "rsplit_once ''.git/'' ''r.git/info/lfs/objects/zz'' = Some (''r'', ''info/lfs/objects/zz'')"
  by code_simp

lemma download_run_answer: "download_run = (Inr (http_text 400 []), ((empty_cluster, empty_dir), empty_disk))"
proof -
  have "lfs_from_str (sha256_tag @ ''zz'') = Inl (Bail ''LfsOid hex part must be 64 chars, got 2'')" by code_simp
  moreover have "ascii_upper ''GET'' = ''GET''" by code_simp
  ultimately show ?thesis
    by (simp add: download_path serve_with_backends_def serve_lfs_def download_request_def handle_download_def Let_def
        on_writer_def bindA_def starts_with_def http_text_def http_status_def)
qed

theorem http_front_routes_witness:
  "\<exists>resp l'. download_run = (Inr resp, ((empty_cluster, empty_dir), l')) \<and> intact pad32 (fs_held l') \<and> no_stream resp"
proof -
  have "intact pad32 (fs_held empty_disk)" by (simp add: intact_def fs_held_def empty_disk_def)
  from http_front_routes [OF one_temp_names this download_run_answer [unfolded demo_backend_def]]
  have "no_stream (http_text 400 [] :: (cluster \<times> cache_dir, pipe) http_response)"
    and "intact pad32 (fs_held empty_disk)"
    by (simp_all add: download_path starts_with_def)
  with download_run_answer show ?thesis by blast
qed

end
