(* ===== verification/Str_Ops.thy ===== *)
theory Str_Ops
  imports Mizzle_Prelude
begin

text \<open>
  Operations of Rust's \<open>str\<close> that the SSH front end and the git executable's backend use: white space and
  the lossy conversion from bytes.
\<close>

section \<open>White space\<close>

text \<open>\<open>str::trim\<close>: the Unicode white space characters, encoded.\<close>

definition white_space :: "bytes list" where
  "white_space =
     [[CHR 0x09], [CHR 0x0A], [CHR 0x0B], [CHR 0x0C], [CHR 0x0D], [CHR 0x20], [CHR 0xC2, CHR 0x85], [CHR 0xC2, CHR 0xA0],
      [CHR 0xE1, CHR 0x9A, CHR 0x80], [CHR 0xE2, CHR 0x80, CHR 0x80], [CHR 0xE2, CHR 0x80, CHR 0x81],
      [CHR 0xE2, CHR 0x80, CHR 0x82], [CHR 0xE2, CHR 0x80, CHR 0x83], [CHR 0xE2, CHR 0x80, CHR 0x84],
      [CHR 0xE2, CHR 0x80, CHR 0x85], [CHR 0xE2, CHR 0x80, CHR 0x86], [CHR 0xE2, CHR 0x80, CHR 0x87],
      [CHR 0xE2, CHR 0x80, CHR 0x88], [CHR 0xE2, CHR 0x80, CHR 0x89], [CHR 0xE2, CHR 0x80, CHR 0x8A],
      [CHR 0xE2, CHR 0x80, CHR 0xA8], [CHR 0xE2, CHR 0x80, CHR 0xA9], [CHR 0xE2, CHR 0x80, CHR 0xAF],
      [CHR 0xE2, CHR 0x81, CHR 0x9F], [CHR 0xE3, CHR 0x80, CHR 0x80]]"

function strip_any :: "bytes list \<Rightarrow> bytes \<Rightarrow> bytes" where
  "strip_any ws s =
     (case find (\<lambda>w. w \<noteq> [] \<and> starts_with s w) ws of
        None \<Rightarrow> s
      | Some w \<Rightarrow> strip_any ws (drop (length w) s))"
  by pat_completeness auto

termination
  by (relation "measure (length \<circ> snd)") (auto simp: find_Some_iff starts_with_iff prefix_def)

declare strip_any.simps [simp del]

definition trim :: "bytes \<Rightarrow> bytes" where
  "trim s = rev (strip_any (map rev white_space) (rev (strip_any white_space s)))"

text \<open>\<open>str::split_whitespace\<close>: \<open>word\<close> holds the characters read of the current word, last first.\<close>

function split_words :: "bytes \<Rightarrow> bytes \<Rightarrow> bytes list" where
  "split_words word s =
     (case find (\<lambda>w. w \<noteq> [] \<and> starts_with s w) white_space of
        Some w \<Rightarrow> (if word = [] then [] else [rev word]) @ split_words [] (drop (length w) s)
      | None \<Rightarrow> (case s of [] \<Rightarrow> if word = [] then [] else [rev word] | c # cs \<Rightarrow> split_words (c # word) cs))"
  by pat_completeness auto

termination
  by (relation "measure (length \<circ> snd)") (auto simp: find_Some_iff starts_with_iff prefix_def)

declare split_words.simps [simp del]

definition split_whitespace :: "bytes \<Rightarrow> bytes list" where
  "split_whitespace s = split_words [] s"

definition contains :: "bytes \<Rightarrow> bytes \<Rightarrow> bool" where
  "contains pat s \<longleftrightarrow> split_once pat s \<noteq> None"

section \<open>Lossy conversion\<close>

text \<open>
  \<open>String::from_utf8_lossy\<close>: one step reads a well-formed character, or the longest start of one that
  cannot go on, which becomes U+FFFD.
\<close>

definition next_is :: "(byte \<Rightarrow> bool) \<Rightarrow> bytes \<Rightarrow> nat \<Rightarrow> bool" where
  "next_is ok s i \<longleftrightarrow> i < length s \<and> ok (s ! i)"

definition utf8_step :: "bytes \<Rightarrow> bool \<times> nat" where
  "utf8_step s =
     (let a = hd s in
      if in_range 0 127 a then (True, 1)
      else if in_range 194 223 a then (if next_is cont_byte s 1 then (True, 2) else (False, 1))
      else if in_range 224 239 a then
        (if \<not> next_is (if in_range 224 224 a then in_range 160 191 else if in_range 237 237 a then in_range 128 159 else cont_byte) s 1 then (False, 1)
         else if \<not> next_is cont_byte s 2 then (False, 2)
         else (True, 3))
      else if in_range 240 244 a then
        (if \<not> next_is (if in_range 240 240 a then in_range 144 191 else if in_range 244 244 a then in_range 128 143 else cont_byte) s 1 then (False, 1)
         else if \<not> next_is cont_byte s 2 then (False, 2)
         else if \<not> next_is cont_byte s 3 then (False, 3)
         else (True, 4))
      else (False, 1))"

lemma utf8_step_pos: "utf8_step s = (ok, n) \<Longrightarrow> 0 < n"
  by (auto simp: utf8_step_def Let_def split: if_splits)

function utf8_lossy :: "bytes \<Rightarrow> bytes" where
  "utf8_lossy [] = []"
| "utf8_lossy (c # cs) =
     (case utf8_step (c # cs) of
        (True, n) \<Rightarrow> take n (c # cs) @ utf8_lossy (drop n (c # cs))
      | (False, n) \<Rightarrow> [CHR 0xEF, CHR 0xBF, CHR 0xBD] @ utf8_lossy (drop n (c # cs)))"
  by pat_completeness auto

termination
  by (relation "measure length") (auto dest!: utf8_step_pos [OF sym])

declare utf8_lossy.simps(2) [simp del]

text \<open>Text that is already well formed is kept.\<close>

lemma utf8_lossy_ascii_Cons: "in_range 0 127 c \<Longrightarrow> utf8_lossy (c # cs) = c # utf8_lossy cs"
  by (simp add: utf8_lossy.simps utf8_step_def)

lemma utf8_step_valid:
  assumes "utf8_valid (c # cs)"
  obtains n where "\<And>b. utf8_step (c # cs @ b) = (True, n)" "n \<le> Suc (length cs)" "utf8_valid (drop n (c # cs))"
proof (cases "in_range 0 127 c")
  case True
  with assms show ?thesis by (intro that [of 1]) (simp_all add: utf8_step_def)
next
  case one: False
  then obtain b r2 where r2: "cs = b # r2" using assms by (cases cs) auto
  show ?thesis
  proof (cases "in_range 194 223 c")
    case True
    with one r2 assms show ?thesis by (intro that [of 2]) (simp_all add: utf8_step_def next_is_def)
  next
    case two: False
    then obtain d r3 where r3: "r2 = d # r3" using assms one r2 by (cases r2) auto
    show ?thesis
    proof (cases "in_range 224 239 c")
      case True
      with one two r2 r3 assms show ?thesis
        by (intro that [of 3]) (simp_all add: utf8_step_def next_is_def)
    next
      case three: False
      then obtain f r4 where "r3 = f # r4" using assms one two r2 r3 by (cases r3) auto
      with one two three r2 r3 assms show ?thesis
        by (intro that [of 4]) (simp_all add: utf8_step_def next_is_def)
    qed
  qed
qed

lemma utf8_lossy_append: "utf8_valid s \<Longrightarrow> utf8_lossy (s @ t) = s @ utf8_lossy t"
proof (induction "length s" arbitrary: s rule: less_induct)
  case less
  show ?case
  proof (cases s)
    case (Cons c cs)
    from less.prems obtain n where n: "utf8_step (c # cs @ t) = (True, n)" "n \<le> Suc (length cs)" "utf8_valid (drop n s)"
      unfolding Cons by (rule utf8_step_valid) blast
    have "length (drop n s) < length s" using utf8_step_pos [OF n(1)] Cons by simp
    from less.hyps [OF this n(3)] have "utf8_lossy (drop n s @ t) = drop n s @ utf8_lossy t" .
    moreover have "utf8_lossy (s @ t) = take n (s @ t) @ utf8_lossy (drop n (s @ t))"
      using n(1) Cons by (simp add: utf8_lossy.simps)
    moreover have "n - length s = 0" using n(2) Cons by simp
    ultimately show ?thesis by (metis append.assoc append_Nil2 append_take_drop_id drop_0 drop_append take_append take_eq_Nil)
  qed simp
qed

lemma utf8_lossy_valid: "utf8_valid s \<Longrightarrow> utf8_lossy s = s"
  using utf8_lossy_append [of s "[]"] by simp

text \<open>Text that begins and ends with characters that are no part of white space is not trimmed.\<close>

definition solid :: "byte \<Rightarrow> bool" where
  "solid c \<longleftrightarrow> list_all (\<lambda>w. hd w \<noteq> c \<and> last w \<noteq> c) white_space"

definition white_byte :: "byte \<Rightarrow> bool" where
  "white_byte c = (let n = of_char c :: nat in 128 \<le> n \<or> 9 \<le> n \<and> n \<le> 13 \<or> n = 32)"

lemma white_space_bytes: "list_all (\<lambda>w. white_byte (hd w) \<and> white_byte (last w)) white_space"
  by code_simp

lemma solidI: "\<not> white_byte c \<Longrightarrow> solid c"
  using white_space_bytes by (auto simp: solid_def list_all_iff)

lemma white_space_ne: "w \<in> set white_space \<Longrightarrow> w \<noteq> []"
  by (auto simp: white_space_def)

lemma find_solid: "s = [] \<or> solid (hd s) \<Longrightarrow> find (\<lambda>w. w \<noteq> [] \<and> starts_with s w) white_space = None"
  by (auto simp: find_None_iff starts_with_iff prefix_def solid_def list_all_iff)

lemma strip_any_solid:
  assumes "s = [] \<or> solid (hd s)"
  shows "strip_any white_space s = s" "strip_any (map rev white_space) s = s"
proof -
  note find_solid [OF assms]
  moreover have "find (\<lambda>w. w \<noteq> [] \<and> starts_with s w) (map rev white_space) = None"
    using assms white_space_ne by (fastforce simp: find_None_iff starts_with_iff prefix_def solid_def list_all_iff hd_append hd_rev)
  ultimately show "strip_any white_space s = s" "strip_any (map rev white_space) s = s"
    by (subst strip_any.simps, simp)+
qed

lemma find_space:
  assumes "c = SP \<or> c = NL"
  shows "find (\<lambda>w. w \<noteq> [] \<and> starts_with (c # s) w) white_space = Some [c]"
    "find (\<lambda>w. w \<noteq> [] \<and> starts_with (c # s) w) (map rev white_space) = Some [c]"
  using assms by (elim disjE; simp add: white_space_def starts_with_def SP_def NL_def)+

lemma strip_any_space:
  assumes "c = SP \<or> c = NL"
  shows "strip_any white_space (c # s) = strip_any white_space s"
    "strip_any (map rev white_space) (c # s) = strip_any (map rev white_space) s"
  by (subst strip_any.simps, simp add: find_space [OF assms])+

lemma trim_solid: "s = [] \<or> solid (hd s) \<and> solid (last s) \<Longrightarrow> trim s = s"
  by (auto simp: trim_def strip_any_solid hd_rev)

text \<open>White space at the end goes.\<close>

lemma trim_end:
  assumes "s \<noteq> []" "solid (hd s)" "solid (last s)" "set e \<subseteq> {SP, NL}"
  shows "trim (s @ e) = s"
proof -
  have "strip_any (map rev white_space) (rev e @ rev s) = rev s"
    using assms(4)
  proof (induction e rule: rev_induct)
    case Nil
    then show ?case using assms by (simp add: strip_any_solid hd_rev)
  qed (auto simp: strip_any_space)
  with assms show ?thesis by (simp add: trim_def strip_any_solid)
qed

section \<open>Trimmed lines\<close>

definition unlines :: "bytes list \<Rightarrow> bytes" where
  "unlines ls = concat (map (\<lambda>l. l @ [NL]) ls)"

definition clean_line :: "bytes \<Rightarrow> bool" where
  "clean_line l \<longleftrightarrow> l \<noteq> [] \<and> NL \<notin> set l \<and> last l \<noteq> CR"

lemma str_lines_last: "l \<noteq> [] \<Longrightarrow> NL \<notin> set l \<Longrightarrow> str_lines l = [l]"
proof -
  assume l: "l \<noteq> []" "NL \<notin> set l"
  then have "split_inclusive l = [l]" by (induction l) (auto, metis list.simps(5) split_inclusive.simps(1) list.simps(4))
  moreover have "strip_suffix [NL] l = None" using l(2) by (metis in_set_conv_decomp not_Some_eq strip_suffix_Some_iff)
  ultimately show ?thesis by (simp add: str_lines_def line_content_def)
qed

lemma str_lines_unlines_append: "list_all clean_line ls \<Longrightarrow> str_lines (unlines ls @ rest) = ls @ str_lines rest"
  by (induction ls) (simp_all add: unlines_def clean_line_def str_lines_line)

text \<open>Trimming takes the newline and the spaces off the last line of an output.\<close>

lemma str_lines_trim:
  assumes ls: "list_all clean_line ls" and f: "clean_line f" "solid (last f)" "set e \<subseteq> {SP}" and h: "solid (hd (hd (ls @ [f])))"
  shows "str_lines (trim (unlines (ls @ [f @ e]))) = ls @ [f]"
proof -
  let ?s = "unlines ls @ f"
  have "unlines (ls @ [f @ e]) = ?s @ (e @ [NL])" by (simp add: unlines_def)
  moreover have "solid (hd ?s)" using ls h f(1) by (cases ls) (auto simp: unlines_def clean_line_def)
  ultimately have "trim (unlines (ls @ [f @ e])) = ?s"
    using f trim_end [of ?s "e @ [NL]"] by (auto simp: clean_line_def)
  moreover have "str_lines f = [f]" using f by (simp add: str_lines_last clean_line_def)
  ultimately show ?thesis using ls by (simp add: str_lines_unlines_append)
qed

lemma str_lines_trim_all:
  assumes "list_all (\<lambda>l. clean_line l \<and> solid (hd l) \<and> solid (last l)) ls"
  shows "str_lines (trim (unlines ls)) = ls"
proof (cases ls rule: rev_cases)
  case Nil
  then show ?thesis by (simp add: unlines_def trim_solid)
next
  case (snoc xs f)
  have "list_all clean_line xs" "solid (hd (hd (xs @ [f])))"
    using assms snoc by (auto simp: list_all_iff hd_append)
  then show ?thesis using assms snoc str_lines_trim [of xs f "[]"] by simp
qed

section \<open>Words\<close>

abbreviation solid_word :: "bytes \<Rightarrow> bool" where
  "solid_word w \<equiv> w \<noteq> [] \<and> list_all solid w"

lemma split_words_word: "list_all solid w \<Longrightarrow> split_words acc (w @ s) = split_words (rev w @ acc) s"
  by (induction w arbitrary: acc) (simp_all add: split_words.simps [of _ "_ # _"] find_solid)

lemma split_words_space: "split_words acc (SP # s) = (if acc = [] then [] else [rev acc]) @ split_words [] s"
  by (simp add: split_words.simps [of _ "SP # s"] find_space)

lemma split_whitespace_word: "solid_word w \<Longrightarrow> split_whitespace (w @ SP # s) = w # split_whitespace s"
  by (simp add: split_whitespace_def split_words_word split_words_space)

lemma split_whitespace_last: "solid_word w \<Longrightarrow> split_whitespace w = [w]"
  using split_words_word [of w "[]" "[]"] by (simp add: split_whitespace_def split_words.simps [of _ "[]"] find_solid)

end
