(* ===== verification/SSH_Server.thy ===== *)
theory SSH_Server
  imports Fetch_Properties Str_Ops
begin

text \<open>
  The SSH front end (\<open>servers/ssh.rs\<close>): the command parser and the connection handler, whose callbacks
  the SSH library calls in whatever order the client provokes.  \<open>SshAuth\<close> is a parameter that may keep
  a state of its own; the backend is a parameter too (the source fixes it to \<open>FsGitoxide\<close>).  A spawned
  task is a job of the session until it has run.
\<close>

section \<open>The exec command\<close>

definition trim_matches :: "byte \<Rightarrow> bytes \<Rightarrow> bytes" where
  "trim_matches c s = rev (dropWhile ((=) c) (rev (dropWhile ((=) c) s)))"

datatype git_command = UploadPack | ReceivePack

definition parse_git_command :: "bytes \<Rightarrow> (git_command \<times> bytes) res" where
  "parse_git_command command =
     (let command = trim command in
      case split_once '' '' command of
        None \<Rightarrow> Inl (Bail (''invalid git command: '' @ command))
      | Some (cmd, rest) \<Rightarrow>
          bindR (if cmd = ''git-upload-pack'' then Inr UploadPack
                 else if cmd = ''git-receive-pack'' then Inr ReceivePack
                 else Inl (Bail (''unsupported git command: '' @ cmd))) (\<lambda>git_cmd.
          let repo_path = trim_matches (CHR 0x22) (trim_matches (CHR 0x27) rest);
              repo_path = (case strip_prefix ''/'' repo_path of Some p \<Rightarrow> p | None \<Rightarrow> repo_path) in
          Inr (git_cmd, repo_path)))"

section \<open>The connection handler\<close>

text \<open>
  The task of the exec timeout waits, or has disconnected the client; \<open>exec_timeout\<close> keeps its handle
  in either case.
\<close>

datatype timer = Pending | Fired

record 'k ssh_handler =
  sh_user :: "bytes option"
  sh_public_key :: "'k option"
  sh_exec_timeout :: "timer option"
  sh_git_protocol_version :: nat
  sh_channels :: "nat set"

definition new_client :: "'k ssh_handler" where
  "new_client = \<lparr> sh_user = None, sh_public_key = None, sh_exec_timeout = None, sh_git_protocol_version = 1, sh_channels = {} \<rparr>"

text \<open>What is handed to the session to be sent; whether it arrives is ignored.\<close>

datatype ssh_msg = ExtendedData nat nat bytes | ExitStatus nat nat | Eof nat | CloseChannel nat | Disconnect bytes

record 'a ssh_job =
  jb_channel :: nat
  jb_command :: git_command
  jb_access :: 'a
  jb_version :: nat

record ('k, 'u, 'a) ssh_auth =
  au_authorize :: "bytes \<Rightarrow> 'k \<Rightarrow> bytes \<Rightarrow> 'u \<Rightarrow> 'a option \<times> 'u"
  show_channel :: "nat \<Rightarrow> bytes"

definition auth_publickey :: "bytes \<Rightarrow> 'k \<Rightarrow> 'k ssh_handler \<Rightarrow> 'k ssh_handler" where
  "auth_publickey user key h = h\<lparr> sh_user := Some user, sh_public_key := Some key \<rparr>"

definition channel_open_session :: "nat \<Rightarrow> 'k ssh_handler \<Rightarrow> 'k ssh_handler" where
  "channel_open_session ch h =
     (let h = h\<lparr> sh_channels := insert ch (sh_channels h) \<rparr> in
      case sh_exec_timeout h of None \<Rightarrow> h\<lparr> sh_exec_timeout := Some Pending \<rparr> | Some _ \<Rightarrow> h)"

definition contains :: "bytes \<Rightarrow> bytes \<Rightarrow> bool" where
  "contains s pat = (split_once pat s \<noteq> None)"

definition env_request :: "bytes \<Rightarrow> bytes \<Rightarrow> 'k ssh_handler \<Rightarrow> 'k ssh_handler" where
  "env_request name val h =
     (if name = ''GIT_PROTOCOL'' \<and> contains val ''version=2'' then h\<lparr> sh_git_protocol_version := 2 \<rparr> else h)"

definition finish_messages :: "nat \<Rightarrow> nat \<Rightarrow> ssh_msg list" where
  "finish_messages ch code = [ExitStatus ch code, Eof ch, CloseChannel ch]"

definition denied_message :: "bytes \<Rightarrow> bytes \<Rightarrow> bytes" where
  "denied_message user repo_path =
     ''ERROR: permission denied for '' @ [CHR 0x27] @ user @ [CHR 0x27] @ '' on '' @ [CHR 0x27] @ repo_path @ [CHR 0x27, NL]"

definition exec_request ::
  "('k, 'u, 'a) ssh_auth \<Rightarrow> nat \<Rightarrow> bytes \<Rightarrow> ('k ssh_handler \<times> 'u, error, ssh_msg list \<times> 'a ssh_job option) act" where
  "exec_request S ch data =
     bindA (modifyA (\<lambda>(h, u). (h\<lparr> sh_exec_timeout := None \<rparr>, u))) (\<lambda>_.
     bindA (liftA (from_utf8 data)) (\<lambda>command.
     bindA (liftA (parse_git_command command)) (\<lambda>(cmd, repo_path). \<lambda>(h, u).
       case sh_user h of
         None \<Rightarrow> (Inl (Bail ''no authenticated user''), (h, u))
       | Some user \<Rightarrow>
           (case sh_public_key h of
              None \<Rightarrow> (Inl (Bail ''no public key stored''), (h, u))
            | Some key \<Rightarrow>
                (case au_authorize S user key repo_path u of
                   (None, u) \<Rightarrow>
                     (Inr (ExtendedData ch 1 (denied_message user repo_path) # finish_messages ch 1, None), (h, u))
                 | (Some access, u) \<Rightarrow>
                     if ch \<notin> sh_channels h then (Inl (Bail (''unknown channel '' @ show_channel S ch)), (h, u))
                     else (Inr ([], Some \<lparr> jb_channel = ch, jb_command = cmd, jb_access = access,
                                           jb_version = sh_git_protocol_version h \<rparr>),
                           (h\<lparr> sh_channels := sh_channels h - {ch} \<rparr>, u)))))))"

text \<open>The task of the exec timeout, when its sleep is over.\<close>

definition exec_deadline :: "'k ssh_handler \<Rightarrow> ssh_msg list \<times> 'k ssh_handler" where
  "exec_deadline h =
     (if sh_exec_timeout h = Some Pending
      then ([Disconnect ''no git command received within deadline''], h\<lparr> sh_exec_timeout := Some Fired \<rparr>)
      else ([], h))"

text \<open>The spawned task: a panic ends it without an exit status.\<close>

definition run_job ::
  "('id, 'r, 'p, 'o, 's) backend \<Rightarrow> 'w pkt_writer \<Rightarrow> 'o oid_ops \<Rightarrow> 'o \<Rightarrow> temp_env \<Rightarrow> (bytes \<Rightarrow> parser) \<Rightarrow> protocol_limits
     \<Rightarrow> ('id, 'c, 'o) repo_access ssh_job \<Rightarrow> bytes \<Rightarrow> ('s \<times> 'w, stop, ssh_msg list) act" where
  "run_job B W H empty_tree E packets limits job input =
     bindA (case jb_command job of
              UploadPack \<Rightarrow> serve_upload_pack (jb_access job) B W H (jb_version job) limits (packets input)
            | ReceivePack \<Rightarrow> serve_receive_pack (jb_access job) B W H empty_tree E limits input) (\<lambda>result.
     retA (finish_messages (jb_channel job) (case result of Inr () \<Rightarrow> 0 | Inl _ \<Rightarrow> 1)))"

section \<open>A session\<close>

datatype ('k, 'w) ssh_event =
    AuthPublickey bytes 'k
  | ChannelOpen nat
  | EnvRequest bytes bytes
  | ExecRequest nat bytes
  | Deadline
  | JobRuns nat bytes 'w

record ('k, 'u, 'a, 's) ssh_session =
  ss_handler :: "'k ssh_handler"
  ss_auth :: 'u
  ss_jobs :: "'a ssh_job list"
  ss_store :: 's
  ss_sent :: "ssh_msg list"

text \<open>
  What one event does.  Nothing is assumed of the order of the events; in particular a handler's error,
  on which the library ends the session, need not be the last event.
\<close>

fun ssh_handle ::
  "('k, 'u, ('id, 'c, 'o) repo_access) ssh_auth \<Rightarrow> ('id, 'r, 'p, 'o, 's) backend \<Rightarrow> 'w pkt_writer \<Rightarrow> 'o oid_ops \<Rightarrow> 'o
     \<Rightarrow> temp_env \<Rightarrow> (bytes \<Rightarrow> parser) \<Rightarrow> protocol_limits \<Rightarrow> ('k, 'w) ssh_event
     \<Rightarrow> ('k, 'u, ('id, 'c, 'o) repo_access, 's) ssh_session \<Rightarrow> ('k, 'u, ('id, 'c, 'o) repo_access, 's) ssh_session" where
  "ssh_handle S B W H T E packets limits (AuthPublickey user key) z = z\<lparr> ss_handler := auth_publickey user key (ss_handler z) \<rparr>"
| "ssh_handle S B W H T E packets limits (ChannelOpen ch) z = z\<lparr> ss_handler := channel_open_session ch (ss_handler z) \<rparr>"
| "ssh_handle S B W H T E packets limits (EnvRequest name val) z = z\<lparr> ss_handler := env_request name val (ss_handler z) \<rparr>"
| "ssh_handle S B W H T E packets limits (ExecRequest ch data) z =
     (case exec_request S ch data (ss_handler z, ss_auth z) of
        (Inl e, (h, u)) \<Rightarrow> z\<lparr> ss_handler := h, ss_auth := u \<rparr>
      | (Inr (msgs, job), (h, u)) \<Rightarrow>
          z\<lparr> ss_handler := h, ss_auth := u, ss_sent := ss_sent z @ msgs,
             ss_jobs := ss_jobs z @ (case job of Some j \<Rightarrow> [j] | None \<Rightarrow> []) \<rparr>)"
| "ssh_handle S B W H T E packets limits Deadline z =
     (case exec_deadline (ss_handler z) of (msgs, h) \<Rightarrow> z\<lparr> ss_handler := h, ss_sent := ss_sent z @ msgs \<rparr>)"
| "ssh_handle S B W H T E packets limits (JobRuns n input w) z =
     (if n < length (ss_jobs z) then
        (case run_job B W H T E packets limits (ss_jobs z ! n) input (ss_store z, w) of
           (r, (s, w')) \<Rightarrow>
             z\<lparr> ss_jobs := take n (ss_jobs z) @ drop (Suc n) (ss_jobs z), ss_store := s,
                ss_sent := ss_sent z @ (case r of Inr msgs \<Rightarrow> msgs | Inl _ \<Rightarrow> []) \<rparr>)
      else z)"

definition new_session :: "'u \<Rightarrow> 's \<Rightarrow> ('k, 'u, 'a, 's) ssh_session" where
  "new_session u s = \<lparr> ss_handler = new_client, ss_auth = u, ss_jobs = [], ss_store = s, ss_sent = [] \<rparr>"

inductive ssh_session_run ::
  "('k, 'u, ('id, 'c, 'o) repo_access) ssh_auth \<Rightarrow> ('id, 'r, 'p, 'o, 's) backend \<Rightarrow> 'w pkt_writer \<Rightarrow> 'o oid_ops \<Rightarrow> 'o
     \<Rightarrow> temp_env \<Rightarrow> (bytes \<Rightarrow> parser) \<Rightarrow> protocol_limits \<Rightarrow> 's \<Rightarrow> ('k, 'w) ssh_event list
     \<Rightarrow> ('k, 'u, ('id, 'c, 'o) repo_access, 's) ssh_session \<Rightarrow> bool"
  for S B W H T E packets limits s where
  start: "ssh_session_run S B W H T E packets limits s [] (new_session u s)"
| event: "ssh_session_run S B W H T E packets limits s evs z \<Longrightarrow>
    ssh_session_run S B W H T E packets limits s (evs @ [ev]) (ssh_handle S B W H T E packets limits ev z)"

section \<open>What a session may do\<close>

definition last_auth :: "('k, 'w) ssh_event list \<Rightarrow> (bytes \<times> 'k) option" where
  "last_auth evs = fold (\<lambda>ev a. case ev of AuthPublickey user key \<Rightarrow> Some (user, key) | _ \<Rightarrow> a) evs None"

lemma last_auth_snoc:
  "last_auth [] = None"
  "last_auth (evs @ [ev]) = (case ev of AuthPublickey user key \<Rightarrow> Some (user, key) | _ \<Rightarrow> last_auth evs)"
  by (simp_all add: last_auth_def split: ssh_event.split)

text \<open>
  A job the client was granted: it asked for the command on a channel it had opened, and for the user and
  the key it had last authenticated with, the authoriser returned the access the job runs with.
\<close>

definition granted :: "('k, 'u, 'a) ssh_auth \<Rightarrow> ('k, 'w) ssh_event list \<Rightarrow> 'a ssh_job \<Rightarrow> bool" where
  "granted S evs job \<longleftrightarrow>
     (\<exists>before data after user key path u u'.
        evs = before @ ExecRequest (jb_channel job) data # after \<and>
        ChannelOpen (jb_channel job) \<in> set before \<and> last_auth before = Some (user, key) \<and>
        utf8_valid data \<and> parse_git_command data = Inr (jb_command job, path) \<and>
        au_authorize S user key path u = (Some (jb_access job), u'))"

lemma granted_mono: "granted S evs job \<Longrightarrow> granted S (evs @ evs') job"
  unfolding granted_def by (metis append.assoc append_Cons)

lemma exec_request_frame:
  assumes "exec_request S ch data (h, u) = (r, (h', u'))"
  shows "sh_user h' = sh_user h \<and> sh_public_key h' = sh_public_key h \<and> sh_channels h' \<subseteq> sh_channels h \<and>
    sh_exec_timeout h' = None"
  using assms
  by (auto simp: exec_request_def bindA_def modifyA_def liftA_def split: sum.splits prod.splits option.splits if_splits)

lemma exec_request_job:
  assumes "exec_request S ch data (h, u) = (Inr (msgs, Some job), (h', u'))"
  obtains user key path where "sh_user h = Some user" "sh_public_key h = Some key" "jb_channel job = ch"
    "ch \<in> sh_channels h" "utf8_valid data" "parse_git_command data = Inr (jb_command job, path)"
    "au_authorize S user key path u = (Some (jb_access job), u')"
  using assms that
  by (auto simp: exec_request_def bindA_def modifyA_def liftA_def res_simps split: sum.splits prod.splits option.splits if_splits)

text \<open>The handler knows the last authentication and only channels the client opened.\<close>

definition handler_inv :: "('k, 'w) ssh_event list \<Rightarrow> 'k ssh_handler \<Rightarrow> bool" where
  "handler_inv evs h \<longleftrightarrow>
     sh_user h = map_option fst (last_auth evs) \<and> sh_public_key h = map_option snd (last_auth evs) \<and>
     (\<forall>ch \<in> sh_channels h. ChannelOpen ch \<in> set evs) \<and>
     (sh_exec_timeout h \<noteq> None \<longrightarrow> (\<exists>ch. ChannelOpen ch \<in> set evs))"

definition session_inv ::
  "('k, 'u, 'a) ssh_auth \<Rightarrow> ('k, 'w) ssh_event list \<Rightarrow> ('k, 'u, 'a, 's) ssh_session \<Rightarrow> bool" where
  "session_inv S evs z \<longleftrightarrow> handler_inv evs (ss_handler z) \<and> (\<forall>job \<in> set (ss_jobs z). granted S evs job)"

lemma handler_inv_simple:
  assumes "handler_inv evs h"
  shows "handler_inv (evs @ [AuthPublickey user key]) (auth_publickey user key h)"
    "handler_inv (evs @ [ChannelOpen ch]) (channel_open_session ch h)"
    "handler_inv (evs @ [EnvRequest name val]) (env_request name val h)"
    "handler_inv (evs @ [Deadline]) (snd (exec_deadline h))"
    "handler_inv (evs @ [JobRuns n input w]) h"
    "exec_request S ch data (h, u) = (r, (h', u')) \<Longrightarrow> handler_inv (evs @ [ExecRequest ch data]) h'"
proof -
  show "exec_request S ch data (h, u) = (r, (h', u')) \<Longrightarrow> handler_inv (evs @ [ExecRequest ch data]) h'"
    using assms by (auto simp: handler_inv_def last_auth_snoc dest!: exec_request_frame)
qed (use assms in \<open>auto simp: handler_inv_def last_auth_snoc auth_publickey_def channel_open_session_def env_request_def
    exec_deadline_def Let_def split: option.split\<close>)

lemma exec_request_granted:
  assumes "handler_inv evs h" "exec_request S ch data (h, u) = (Inr (msgs, Some job), (h', u'))"
  shows "granted S (evs @ [ExecRequest ch data]) job"
proof -
  obtain user key path where j: "sh_user h = Some user" "sh_public_key h = Some key" "jb_channel job = ch"
    "ch \<in> sh_channels h" "utf8_valid data" "parse_git_command data = Inr (jb_command job, path)"
    "au_authorize S user key path u = (Some (jb_access job), u')"
    using exec_request_job [OF assms(2)] by metis
  then have "last_auth evs = Some (user, key)" "ChannelOpen ch \<in> set evs"
    using assms(1) by (cases "last_auth evs"; auto simp: handler_inv_def)+
  with j show ?thesis unfolding granted_def by blast
qed

lemma session_inv_step:
  assumes inv: "session_inv S evs z"
  shows "session_inv S (evs @ [ev]) (ssh_handle S B W H T E packets limits ev z)"
proof (cases ev)
  case (ExecRequest ch data)
  obtain r h u where run: "exec_request S ch data (ss_handler z, ss_auth z) = (r, (h, u))" by (metis surj_pair)
  have h: "handler_inv (evs @ [ev]) h"
    using handler_inv_simple(6) [OF conjunct1 [OF inv [unfolded session_inv_def]] run] ExecRequest by simp
  show ?thesis
  proof (cases r)
    case (Inl e)
    with h inv run ExecRequest show ?thesis by (auto simp: session_inv_def granted_mono)
  next
    case (Inr p)
    obtain msgs job where p: "p = (msgs, job)" by fastforce
    have "\<forall>j. job = Some j \<longrightarrow> granted S (evs @ [ev]) j"
      using exec_request_granted inv run Inr p ExecRequest unfolding session_inv_def by metis
    with h inv run Inr p ExecRequest show ?thesis
      by (auto simp: session_inv_def granted_mono split: option.splits)
  qed
next
  case (JobRuns n input w)
  with inv show ?thesis
    by (auto simp: session_inv_def granted_mono handler_inv_simple split: prod.splits dest: in_set_takeD in_set_dropD)
next
  case Deadline
  with inv handler_inv_simple(4) [of evs "ss_handler z"] show ?thesis
    by (auto simp: session_inv_def granted_mono split: prod.splits)
qed (use inv in \<open>auto simp: session_inv_def granted_mono handler_inv_simple\<close>)

lemma session_inv: "ssh_session_run S B W H T E packets limits s evs z \<Longrightarrow> session_inv S evs z"
proof (induction rule: ssh_session_run.induct)
  case (start u)
  show ?case by (simp add: session_inv_def handler_inv_def new_session_def new_client_def last_auth_snoc)
next
  case (event evs z ev)
  from event.IH show ?case by (rule session_inv_step)
qed

section \<open>Refs change only as authorised\<close>

context backend_keeps
begin

lemma run_job_effect:
  assumes P: "P s" and run: "run_job B W H T E packets limits job input (s, w) = (r, (t, w'))"
  shows "P t \<or> jb_command job = ReceivePack \<and>
    (\<exists>us rest. read_receive_request H limits input = Inr (us, rest) \<and> authorised (jb_access job) B H T us)"
proof (rule ccontr)
  assume "\<not> ?thesis"
  then have no: "\<not> P t" "jb_command job = ReceivePack \<Longrightarrow> read_receive_request H limits input = Inr (us, rest) \<Longrightarrow>
    \<not> authorised (jb_access job) B H T us" for us rest by auto
  have "keeps (\<lambda>sw. P (fst sw)) (run_job B W H T E packets limits job input)"
    unfolding run_job_def
    by (cases "jb_command job") (auto intro!: keeps_intros keeps_serve_upload_pack keeps_serve_receive_pack dest: no(2))
  from keepsD [OF this _ run] P no(1) show False by simp
qed

end

definition ssh_push_authorised ::
  "('k, 'u, ('id, 'c, 'o) repo_access) ssh_auth \<Rightarrow> ('id, 'r, 'p, 'o, 's) backend \<Rightarrow> 'o oid_ops \<Rightarrow> 'o \<Rightarrow> protocol_limits
     \<Rightarrow> ('k, 'w) ssh_event list \<Rightarrow> bool" where
  "ssh_push_authorised S B H T limits evs \<longleftrightarrow>
     (\<exists>job n input w us rest. granted S evs job \<and> jb_command job = ReceivePack \<and> JobRuns n input w \<in> set evs \<and>
        read_receive_request H limits input = Inr (us, rest) \<and> authorised (jb_access job) B H T us)"

lemma ssh_push_authorised_mono: "ssh_push_authorised S B H T limits evs \<Longrightarrow> ssh_push_authorised S B H T limits (evs @ evs')"
  unfolding ssh_push_authorised_def by (metis granted_mono UnI1 set_append)

text \<open>
  C10. No ref changes over SSH without authorisation.  The callbacks of a connection may come in any order
  and its commands may run at any time.  For a backend none of whose operations but \<open>update_refs\<close> changes
  the refs, the refs are as they were at the start of the connection, or a \<open>git-receive-pack\<close> ran that was
  granted: the client had opened the channel and asked for the repository there, the authoriser had returned
  the access for the user and the key it last authenticated with, and under this access exactly the updates
  it sent were authorised.
\<close>

theorem ssh_push_needs_authorisation:
  assumes keeps: "backend_keeps B (\<lambda>s. refs_of s = refs_of s0)"
    and run: "ssh_session_run S B W H T E packets limits s0 evs z"
  shows "refs_of (ss_store z) = refs_of s0 \<or> ssh_push_authorised S B H T limits evs"
  using run
proof (induction rule: ssh_session_run.induct)
  case (start u)
  show ?case by (simp add: new_session_def)
next
  case (event evs z ev)
  show ?case
  proof (cases "ssh_push_authorised S B H T limits evs")
    case True
    then show ?thesis by (simp add: ssh_push_authorised_mono)
  next
    case False
    with event.IH have refs: "refs_of (ss_store z) = refs_of s0" by blast
    show ?thesis
    proof (cases "\<exists>n input w. ev = JobRuns n input w \<and> n < length (ss_jobs z)")
      case True
      then obtain n input w where ev: "ev = JobRuns n input w" and n: "n < length (ss_jobs z)" by blast
      obtain r t w' where job: "run_job B W H T E packets limits (ss_jobs z ! n) input (ss_store z, w) = (r, (t, w'))"
        by (metis surj_pair)
      have "granted S (evs @ [ev]) (ss_jobs z ! n)"
        using session_inv [OF event.hyps] n by (simp add: session_inv_def granted_mono)
      with backend_keeps.run_job_effect [OF keeps refs job] ev n job show ?thesis
        unfolding ssh_push_authorised_def by fastforce
    next
      case False
      then have "ss_store (ssh_handle S B W H T E packets limits ev z) = ss_store z"
        by (cases ev) (auto split: prod.splits sum.splits)
      with refs show ?thesis by simp
    qed
  qed
qed

definition lenient_ssh :: "(unit, unit, (bytes, unit, sha1) repo_access) ssh_auth" where
  "lenient_ssh = \<lparr> au_authorize = (\<lambda>_ _ _ u. (Some rejecting_access, u)), show_channel = show_nat \<rparr>"

definition push_events :: "(unit, pipe) ssh_event list" where
  "push_events =
     [AuthPublickey ''git'' (), ChannelOpen 0, ExecRequest 0 (''git-receive-pack '' @ [CHR 0x27] @ ''/a.git'' @ [CHR 0x27]),
      JobRuns 0 (push_request sha1_ops [] [demo_update] []) (new_pipe 100)]"

lemma ssh_session_run_fold:
  "ssh_session_run S B W H T E packets limits s evs (fold (ssh_handle S B W H T E packets limits) evs (new_session u s))"
  by (induction evs rule: rev_induct) (auto intro: ssh_session_run.intros)

theorem ssh_push_needs_authorisation_witness:
  "ref_log (commits_of (fst (ss_store (fold (ssh_handle lenient_ssh demo_backend pipe_writer sha1_ops 4 temp_ok (\<lambda>_. [])
     default_limits) push_events (new_session () (empty_cluster, empty_dir)))))) = []"
proof -
  have "\<not> ssh_push_authorised lenient_ssh demo_backend sha1_ops 4 default_limits push_events"
    by (auto simp: ssh_push_authorised_def granted_def lenient_ssh_def dest: sym simp: rejecting_not_authorised)
  moreover have "ref_log (commits_of empty_cluster) = []"
    by (simp add: ref_log_def commits_of_def empty_cluster_def)
  moreover have "backend_keeps demo_backend (\<lambda>sd. ref_log (commits_of (fst sd)) = ref_log (commits_of (fst (empty_cluster, empty_dir))))"
    unfolding demo_backend_def by (rule cluster_keeps)
  note ssh_push_needs_authorisation [where refs_of = "\<lambda>sd. ref_log (commits_of (fst sd))", OF this ssh_session_run_fold,
      of lenient_ssh pipe_writer sha1_ops 4 temp_ok "\<lambda>_. []" default_limits push_events "()"]
  ultimately show ?thesis by simp
qed

section \<open>The deadline\<close>

text \<open>
  The timeout starts with the first channel, not with the authentication: a client that authenticates
  and opens no channel is never disconnected.
\<close>

lemma ssh_no_channel_no_deadline:
  assumes "ssh_session_run S B W H T E packets limits s evs z" "\<forall>ch. ChannelOpen ch \<notin> set evs"
  shows "exec_deadline (ss_handler z) = ([], ss_handler z)"
  using session_inv [OF assms(1)] assms(2) by (auto simp: session_inv_def handler_inv_def exec_deadline_def)

text \<open>With a channel open and no command received, the deadline disconnects the client.\<close>

lemma ssh_idle_channel_disconnected:
  assumes "ssh_session_run S B W H T E packets limits s evs z" "ChannelOpen ch \<in> set evs"
    "\<forall>c d. ExecRequest c d \<notin> set evs" "Deadline \<notin> set evs"
  shows "ss_sent (ssh_handle S B W H T E packets limits Deadline z) =
    ss_sent z @ [Disconnect ''no git command received within deadline'']"
proof -
  have "sh_exec_timeout (ss_handler z) = (if \<exists>ch. ChannelOpen ch \<in> set evs then Some Pending else None)"
    using assms(1,3,4)
  proof (induction rule: ssh_session_run.induct)
    case (start u)
    show ?case by (simp add: new_session_def new_client_def)
  next
    case (event evs z ev)
    then show ?case
      by (cases ev) (auto simp: auth_publickey_def channel_open_session_def env_request_def Let_def split: prod.splits option.splits)
  qed
  with assms(2) show ?thesis by (auto simp: exec_deadline_def)
qed

section \<open>Reading the command\<close>

lemma split_once_char: "c \<notin> set a \<Longrightarrow> split_once [c] (a @ c # b) = Some (a, b)"
  by (induction a) (simp_all add: split_once.simps [of "[c]"])

lemma dropWhile_head: "s = [] \<or> hd s \<noteq> c \<Longrightarrow> dropWhile ((=) c) s = s"
  by (cases s) auto

lemma trim_matches_quoted:
  assumes "c \<notin> set s"
  shows "trim_matches c (c # s @ [c]) = s"
proof -
  have hd: "x = [] \<or> hd x \<noteq> c" if "c \<notin> set x" for x using that by (cases x) auto
  have "dropWhile ((=) c) (s @ [c]) = (if s = [] then [] else s @ [c])"
    using assms by (cases s) auto
  moreover have "dropWhile ((=) c) (rev s) = rev s"
    using assms by (intro dropWhile_head hd) simp
  ultimately show ?thesis by (auto simp: trim_matches_def)
qed

lemma trim_matches_id: "s = [] \<or> hd s \<noteq> c \<and> last s \<noteq> c \<Longrightarrow> trim_matches c s = s"
  by (auto simp: trim_matches_def dropWhile_head hd_rev)

fun command_name :: "git_command \<Rightarrow> bytes" where
  "command_name UploadPack = ''git-upload-pack''"
| "command_name ReceivePack = ''git-receive-pack''"

lemma trim_command: "trim (command_name c @ s @ [CHR 0x27]) = command_name c @ s @ [CHR 0x27]"
  by (cases c) (simp_all add: trim_def white_space_def strip_any.simps starts_with_def)

text \<open>
  The command of a git client is understood.  A client names the repository in single quotes, with or
  without a leading slash.  For a path without a single quote that neither starts with a slash nor
  starts or ends with a double quote, the server reads back the command and the path.
\<close>

theorem ssh_command_roundtrip:
  assumes "CHR 0x27 \<notin> set p" "p \<noteq> []" "hd p \<noteq> CHR 0x2F" "hd p \<noteq> CHR 0x22" "last p \<noteq> CHR 0x22"
    and "s = p \<or> s = CHR 0x2F # p"
  shows "parse_git_command (command_name c @ '' '' @ [CHR 0x27] @ s @ [CHR 0x27]) = Inr (c, p)"
proof -
  have "split_once '' '' (command_name c @ '' '' @ [CHR 0x27] @ s @ [CHR 0x27]) =
      Some (command_name c, [CHR 0x27] @ s @ [CHR 0x27])"
    using split_once_char [of "CHR 0x20" "command_name c" "[CHR 0x27] @ s @ [CHR 0x27]"] by (cases c) auto
  moreover have "trim_matches (CHR 0x27) ([CHR 0x27] @ s @ [CHR 0x27]) = s"
    using trim_matches_quoted [of "CHR 0x27" s] assms(1,6) by auto
  moreover have "trim_matches (CHR 0x22) s = s"
    using assms(2-6) by (intro trim_matches_id) auto
  moreover have "(case strip_prefix ''/'' s of Some q \<Rightarrow> q | None \<Rightarrow> s) = p"
    using assms(2,3,6) by (cases p) auto
  ultimately show ?thesis
    using trim_command [of c "'' '' @ [CHR 0x27] @ s"] by (cases c) (auto simp: parse_git_command_def Let_def split: option.splits)
qed

theorem ssh_command_roundtrip_witness:
  "parse_git_command (''git-upload-pack '' @ [CHR 0x27] @ ''/team/my repo.git'' @ [CHR 0x27]) =
     Inr (UploadPack, ''team/my repo.git'')"
  using ssh_command_roundtrip [of "''team/my repo.git''" "''/team/my repo.git''" UploadPack] by simp

text \<open>Shell quoting inside the quotes is not undone: a client writes \<open>it's.git\<close> in three pieces.\<close>

lemma ssh_quote_kept:
  "parse_git_command (''git-upload-pack '' @ [CHR 0x27] @ ''/it'' @ [CHR 0x27, CHR 0x5C, CHR 0x27, CHR 0x27] @ ''s.git'' @ [CHR 0x27]) =
     Inr (UploadPack, ''it'' @ [CHR 0x27, CHR 0x5C, CHR 0x27, CHR 0x27] @ ''s.git'')"
  by code_simp

end
