(* ===== verification/Dense_Bitmap.thy ===== *)
theory Dense_Bitmap
  imports Mizzle_Prelude "HOL-Library.Word"
begin

unbundle bit_operations_syntax

text \<open>
  The dense bitmaps of \<open>bitmap.rs\<close>: a vector of 64-bit words, bit \<open>i\<close> in word \<open>i div 64\<close> at position
  \<open>i mod 64\<close>.  Every operation is related to the set of positions the bitmap stands for.
\<close>

section \<open>Words\<close>

type_synonym u64 = "64 word"

definition count_ones :: "u64 \<Rightarrow> nat" where
  "count_ones w = length (filter (bit w) [0..<64])"

definition trailing_zeros :: "u64 \<Rightarrow> nat" where
  "trailing_zeros w = (case find (bit w) [0..<64] of Some i \<Rightarrow> i | None \<Rightarrow> 64)"

lemma count_ones_card: "count_ones w = card {i. i < 64 \<and> bit w i}"
proof -
  have "distinct (filter (bit w) [0..<64])" by simp
  then show ?thesis unfolding count_ones_def by (subst distinct_card [symmetric]) (auto intro: arg_cong [where f = card])
qed

lemma bit_word_unat: "bit w i \<longleftrightarrow> odd (unat w div 2 ^ i)" for w :: u64
proof -
  have "bit w i \<longleftrightarrow> bit (unat w) i" by (simp add: bit_unsigned_iff)
  then show ?thesis by (simp add: bit_iff_odd)
qed

lemma bit_u64_bound: "bit w i \<Longrightarrow> i < 64" for w :: u64
  using bit_imp_le_length [of w i] by simp

text \<open>\<open>trailing_zeros\<close> is the lowest set bit of a word that is not 0.\<close>

lemma trailing_zeros_props:
  assumes "w \<noteq> 0"
  shows "bit w (trailing_zeros w)" "\<And>j. j < trailing_zeros w \<Longrightarrow> \<not> bit w j"
proof -
  obtain i where "bit w i" using assms by (metis bit_eqI bit_0_eq bot_apply bot_bool_def)
  then have "find (bit w) [0..<64] \<noteq> None" using bit_u64_bound [of w i] by (auto simp: find_None_iff)
  then obtain t where t: "find (bit w) [0..<64] = Some t" by blast
  then have "trailing_zeros w = t" by (simp add: trailing_zeros_def)
  with t show "bit w (trailing_zeros w)" "\<And>j. j < trailing_zeros w \<Longrightarrow> \<not> bit w j"
    by (auto simp: find_Some_iff)
qed

lemma div_pred: "m mod d \<noteq> 0 \<Longrightarrow> (m - 1) div d = m div d" for m d :: nat
proof -
  assume "m mod d \<noteq> 0"
  then have "m - 1 = m div d * d + (m mod d - 1)" "m mod d - 1 < d \<or> d = 0"
    by (metis Nat.add_diff_assoc One_nat_def Suc_leI div_mult_mod_eq neq0_conv) (metis less_imp_diff_less mod_less_divisor neq0_conv)
  then show ?thesis by (metis add.right_neutral div_by_0 div_less div_mult_self3 neq0_conv)
qed

text \<open>\<open>w & (w - 1)\<close> clears the lowest set bit.\<close>

lemma clear_lowest:
  assumes "w \<noteq> 0"
  shows "bit (w AND (w - 1)) i \<longleftrightarrow> bit w i \<and> i \<noteq> trailing_zeros w"
proof -
  define t where "t = trailing_zeros w"
  define m where "m = unat w"
  have lowest: "bit w t" "\<And>j. j < t \<Longrightarrow> \<not> bit w j" using trailing_zeros_props [OF assms] by (auto simp: t_def)
  have m: "unat (w - 1) = m - 1" using assms by (simp add: m_def unat_minus_one)
  have low: "m mod 2 ^ t = 0"
  proof -
    have "take_bit t m = 0"
      by (rule bit_eqI) (use lowest(2) in \<open>auto simp: bit_take_bit_iff m_def bit_unsigned_iff\<close>)
    then show ?thesis by (simp add: take_bit_eq_mod)
  qed
  have odd: "odd (m div 2 ^ t)" using lowest(1) by (simp add: bit_word_unat m_def)
  consider "i < t" | "i = t" | "t < i" by linarith
  then show ?thesis
  proof cases
    case 1
    then show ?thesis using lowest(2) [of i] by (simp add: bit_and_iff)
  next
    case 2
    obtain q where q: "m = 2 ^ t * q" using low by auto
    with odd have "odd q" by simp
    then obtain q' where "q = Suc q'" by (cases q) auto
    then have "m - 1 = q' * 2 ^ t + (2 ^ t - 1)" using q by (simp add: algebra_simps)
    moreover have below: "(q' * 2 ^ t + r) div 2 ^ t = q'" if "r < 2 ^ t" for r :: nat using that by simp
    have "(q' * 2 ^ t + (2 ^ t - 1)) div 2 ^ t = q'" by (rule below) simp
    ultimately have "(m - 1) div 2 ^ t = q'" by (simp only:)
    with \<open>odd q\<close> \<open>q = Suc q'\<close> m have "\<not> bit (w - 1) t" by (simp add: bit_word_unat)
    with 2 show ?thesis by (simp add: bit_and_iff t_def)
  next
    case 3
    have "m mod 2 ^ i \<noteq> 0"
    proof
      assume "m mod 2 ^ i = 0"
      then obtain q where "m = 2 ^ i * q" by auto
      moreover have "(2::nat) ^ i = 2 ^ t * 2 ^ (i - t)" using 3 by (simp add: power_add [symmetric])
      ultimately have "m div 2 ^ t = 2 ^ (i - t) * q" by simp
      with odd 3 show False by simp
    qed
    from div_pred [OF this] m have "bit (w - 1) i \<longleftrightarrow> bit w i" by (simp add: bit_word_unat m_def)
    with 3 show ?thesis by (auto simp: bit_and_iff t_def)
  qed
qed

lemma clear_lowest_fewer: "w \<noteq> 0 \<Longrightarrow> count_ones (w AND (w - 1)) < count_ones w"
  unfolding count_ones_card
  using trailing_zeros_props(1) [of w] bit_u64_bound [of w "trailing_zeros w"]
  by (intro psubset_card_mono) (auto simp: clear_lowest)

text \<open>The inner loop of \<open>for_each_set_bit\<close>: the bits of one word, lowest first.\<close>

function word_bits :: "u64 \<Rightarrow> nat list" where
  "word_bits w = (if w \<noteq> 0 then trailing_zeros w # word_bits (w AND (w - 1)) else [])"
  by pat_completeness auto

termination
  by (relation "measure count_ones") (simp_all add: clear_lowest_fewer)

declare word_bits.simps [simp del]

lemma upt_split: "t < n \<Longrightarrow> [0..<n] = [0..<t] @ t # [Suc t..<n]"
  using upt_add_eq_append [of 0 t "n - t"] by (simp add: upt_conv_Cons)

lemma word_bits_eq: "word_bits w = filter (bit w) [0..<64]"
proof (induction w rule: word_bits.induct)
  case (1 w)
  show ?case
  proof (cases "w = 0")
    case True
    then show ?thesis by (simp add: word_bits.simps)
  next
    case False
    define t where "t = trailing_zeros w"
    have t: "bit w t" "\<And>j. j < t \<Longrightarrow> \<not> bit w j" "t < 64"
      using trailing_zeros_props [OF False] bit_u64_bound by (auto simp: t_def)
    have split: "[0..<64] = [0..<t] @ t # [Suc t..<64]"
      by (rule upt_split) (rule t(3))
    have "filter (bit w) [0..<t] = []" "filter (bit (w AND (w - 1))) [0..<t] = []"
      using t(2) by (auto simp: filter_empty_conv bit_and_iff)
    moreover have "filter (bit (w AND (w - 1))) [Suc t..<64] = filter (bit w) [Suc t..<64]"
      by (intro filter_cong) (auto simp: clear_lowest [OF False] t_def)
    moreover have "\<not> bit (w AND (w - 1)) t" by (simp add: clear_lowest [OF False] t_def)
    ultimately show ?thesis
      using 1 False t(1) unfolding split by (subst word_bits.simps) (simp add: t_def split)
  qed
qed

section \<open>Bitmaps\<close>

record dense_bitmap =
  words :: "u64 list"
  num_bits :: nat

definition div_ceil :: "nat \<Rightarrow> nat \<Rightarrow> nat" where
  "div_ceil a b = (a + b - 1) div b"

definition new_bitmap :: "nat \<Rightarrow> dense_bitmap" where
  "new_bitmap n = \<lparr> words = replicate (div_ceil n 64) 0, num_bits = n \<rparr>"

definition set_bit_at :: "dense_bitmap \<Rightarrow> nat \<Rightarrow> dense_bitmap" where
  "set_bit_at d b =
     (if b div 64 < length (words d)
      then d\<lparr> words := (words d)[b div 64 := words d ! (b div 64) OR push_bit (b mod 64) 1] \<rparr>
      else d)"

text \<open>\<open>from_ewah\<close>, given the number of bits and the bits that are set, in the order they are visited.\<close>

definition from_bits :: "nat \<Rightarrow> nat list \<Rightarrow> nat \<Rightarrow> dense_bitmap" where
  "from_bits ewah_num_bits bits hint = foldl set_bit_at (new_bitmap (max ewah_num_bits hint)) bits"

definition extend_to :: "nat \<Rightarrow> dense_bitmap \<Rightarrow> dense_bitmap" where
  "extend_to n d =
     (if n > num_bits d
      then d\<lparr> num_bits := n,
             words := take (div_ceil n 64) (words d) @ replicate (div_ceil n 64 - length (words d)) 0 \<rparr>
      else d)"

text \<open>\<open>for (a, b) in self.words.iter_mut().zip(other.words.iter())\<close>: words past the end of \<open>other\<close> stay.\<close>

fun zip_words :: "(u64 \<Rightarrow> u64 \<Rightarrow> u64) \<Rightarrow> u64 list \<Rightarrow> u64 list \<Rightarrow> u64 list" where
  "zip_words f (a # as) (b # bs) = f a b # zip_words f as bs"
| "zip_words f as _ = as"

definition or_with :: "dense_bitmap \<Rightarrow> dense_bitmap \<Rightarrow> dense_bitmap" where
  "or_with d e = (let d = extend_to (num_bits e) d in d\<lparr> words := zip_words (OR) (words d) (words e) \<rparr>)"

definition xor_with :: "dense_bitmap \<Rightarrow> dense_bitmap \<Rightarrow> dense_bitmap" where
  "xor_with d e = (let d = extend_to (num_bits e) d in d\<lparr> words := zip_words (XOR) (words d) (words e) \<rparr>)"

definition andnot_with :: "dense_bitmap \<Rightarrow> dense_bitmap \<Rightarrow> dense_bitmap" where
  "andnot_with d e = d\<lparr> words := zip_words (\<lambda>a b. a AND NOT b) (words d) (words e) \<rparr>"

definition popcount :: "dense_bitmap \<Rightarrow> nat" where
  "popcount d = sum_list (map count_ones (words d))"

definition popcount_in_range :: "dense_bitmap \<Rightarrow> nat \<Rightarrow> nat" where
  "popcount_in_range d end' =
     (let full_words = end' div 64; rem = end' mod 64;
          total = sum_list (map count_ones (take full_words (words d))) in
      if rem > 0 \<and> full_words < length (words d)
      then total + count_ones (words d ! full_words AND (push_bit rem 1 - 1))
      else total)"

text \<open>
  \<open>for_each_set_bit\<close> with a callback that updates a state and may stop the iteration.
\<close>

fun visit_bits :: "nat \<Rightarrow> ('a \<Rightarrow> nat \<Rightarrow> 'a option) \<Rightarrow> 'a \<Rightarrow> nat list \<Rightarrow> 'a \<times> bool" where
  "visit_bits n f a [] = (a, True)"
| "visit_bits n f a (g # gs) =
     (if g < n then (case f a g of None \<Rightarrow> (a, False) | Some a' \<Rightarrow> visit_bits n f a' gs) else visit_bits n f a gs)"

fun visit_words :: "nat \<Rightarrow> ('a \<Rightarrow> nat \<Rightarrow> 'a option) \<Rightarrow> 'a \<Rightarrow> nat \<Rightarrow> u64 list \<Rightarrow> 'a" where
  "visit_words n f a k [] = a"
| "visit_words n f a k (w # ws) =
     (case visit_bits n f a (map (\<lambda>b. k * 64 + b) (word_bits w)) of
        (a, False) \<Rightarrow> a
      | (a, True) \<Rightarrow> visit_words n f a (Suc k) ws)"

definition for_each_set_bit :: "dense_bitmap \<Rightarrow> ('a \<Rightarrow> nat \<Rightarrow> 'a option) \<Rightarrow> 'a \<Rightarrow> 'a" where
  "for_each_set_bit d f a = visit_words (num_bits d) f a 0 (words d)"

section \<open>Bitmaps as sets of positions\<close>

definition bits_of :: "dense_bitmap \<Rightarrow> nat set" where
  "bits_of d = {i. i div 64 < length (words d) \<and> bit (words d ! (i div 64)) (i mod 64)}"

definition dense_wf :: "dense_bitmap \<Rightarrow> bool" where
  "dense_wf d \<longleftrightarrow> length (words d) = div_ceil (num_bits d) 64"

lemma div_ceil_mono: "a \<le> b \<Longrightarrow> div_ceil a 64 \<le> div_ceil b 64"
  by (simp add: div_ceil_def div_le_mono)

lemma div_ceil_covers: "i < n \<Longrightarrow> i div 64 < div_ceil n 64"
  by (simp add: div_ceil_def)

lemma length_zip_words [simp]: "length (zip_words f as bs) = length as"
  by (induction f as bs rule: zip_words.induct) auto

lemma nth_zip_words:
  "k < length as \<Longrightarrow> zip_words f as bs ! k = (if k < length bs then f (as ! k) (bs ! k) else as ! k)"
proof (induction f as bs arbitrary: k rule: zip_words.induct)
  case (1 f a as b bs)
  then show ?case by (cases k) auto
qed auto

lemma new_bitmap_props: "dense_wf (new_bitmap n)" "bits_of (new_bitmap n) = {}" "num_bits (new_bitmap n) = n"
  by (auto simp: dense_wf_def new_bitmap_def bits_of_def)

lemma extend_to_props:
  assumes "dense_wf d"
  shows "dense_wf (extend_to n d)" "bits_of (extend_to n d) = bits_of d" "num_bits (extend_to n d) = max n (num_bits d)"
    "length (words (extend_to n d)) = div_ceil (max n (num_bits d)) 64"
proof -
  have *: "length (words d) \<le> div_ceil n 64" if "num_bits d < n"
    using assms that div_ceil_mono [of "num_bits d" n] by (simp add: dense_wf_def)
  then show "dense_wf (extend_to n d)" "num_bits (extend_to n d) = max n (num_bits d)"
    "length (words (extend_to n d)) = div_ceil (max n (num_bits d)) 64"
    using assms by (auto simp: extend_to_def dense_wf_def max_def)
  show "bits_of (extend_to n d) = bits_of d"
  proof (cases "num_bits d < n")
    case True
    then have "words (extend_to n d) = words d @ replicate (div_ceil n 64 - length (words d)) 0"
      using * by (simp add: extend_to_def)
    moreover have "(words d @ replicate k 0) ! j = (if j < length (words d) then words d ! j else 0)"
      if "j < length (words d) + k" for j k using that by (simp add: nth_append)
    ultimately show ?thesis by (auto simp: bits_of_def split: if_splits)
  qed (simp add: extend_to_def)
qed

lemma or_with_props:
  assumes "dense_wf d" "dense_wf e"
  shows "dense_wf (or_with d e)" "bits_of (or_with d e) = bits_of d \<union> bits_of e"
    "num_bits (or_with d e) = max (num_bits e) (num_bits d)"
proof -
  note ex = extend_to_props [OF assms(1), of "num_bits e"]
  have le: "length (words e) \<le> length (words (extend_to (num_bits e) d))"
    unfolding ex(4) using assms(2) by (simp add: dense_wf_def div_ceil_mono)
  have "bits_of (or_with d e) = bits_of (extend_to (num_bits e) d) \<union> bits_of e"
    using le by (auto simp: bits_of_def or_with_def Let_def nth_zip_words bit_or_iff split: if_splits)
  then show "bits_of (or_with d e) = bits_of d \<union> bits_of e" by (simp add: ex(2))
  show "dense_wf (or_with d e)" "num_bits (or_with d e) = max (num_bits e) (num_bits d)"
    using ex by (auto simp: or_with_def dense_wf_def Let_def)
qed

lemma xor_with_props:
  assumes "dense_wf d" "dense_wf e"
  shows "dense_wf (xor_with d e)" "bits_of (xor_with d e) = (bits_of d - bits_of e) \<union> (bits_of e - bits_of d)"
    "num_bits (xor_with d e) = max (num_bits e) (num_bits d)"
proof -
  note ex = extend_to_props [OF assms(1), of "num_bits e"]
  let ?x = "extend_to (num_bits e) d"
  have le: "length (words e) \<le> length (words ?x)"
    unfolding ex(4) using assms(2) by (simp add: dense_wf_def div_ceil_mono)
  have "bits_of (xor_with d e) = (bits_of ?x - bits_of e) \<union> (bits_of e - bits_of ?x)"
    using le by (auto simp: bits_of_def xor_with_def Let_def nth_zip_words bit_xor_iff split: if_splits)
  then show "bits_of (xor_with d e) = (bits_of d - bits_of e) \<union> (bits_of e - bits_of d)" by (simp add: ex(2))
  show "dense_wf (xor_with d e)" "num_bits (xor_with d e) = max (num_bits e) (num_bits d)"
    using ex by (auto simp: xor_with_def dense_wf_def Let_def)
qed

lemma andnot_with_props:
  assumes "dense_wf d"
  shows "dense_wf (andnot_with d e)" "bits_of (andnot_with d e) = bits_of d - bits_of e" "num_bits (andnot_with d e) = num_bits d"
proof -
  have "bit (a AND NOT b) (i mod 64) \<longleftrightarrow> bit a (i mod 64) \<and> \<not> bit b (i mod 64)" for a b :: u64 and i
    by (simp add: bit_and_iff bit_not_iff)
  then show "bits_of (andnot_with d e) = bits_of d - bits_of e"
    by (auto simp: bits_of_def andnot_with_def nth_zip_words split: if_splits)
qed (use assms in \<open>auto simp: andnot_with_def dense_wf_def\<close>)

lemma set_bit_at_props:
  assumes "dense_wf d"
  shows "dense_wf (set_bit_at d b)" "num_bits (set_bit_at d b) = num_bits d"
    "bits_of (set_bit_at d b) = bits_of d \<union> {i. i = b \<and> b div 64 < length (words d)}"
proof -
  have bit: "bit ((2 :: u64) ^ (b mod 64)) (i mod 64) \<longleftrightarrow> i mod 64 = b mod 64" for i
    by (auto simp: bit_exp_iff)
  have same: "i = b" if "i div 64 = b div 64" "i mod 64 = b mod 64" for i
    using that by (metis div_mult_mod_eq)
  show "bits_of (set_bit_at d b) = bits_of d \<union> {i. i = b \<and> b div 64 < length (words d)}"
    using same by (auto simp: bits_of_def set_bit_at_def nth_list_update bit_or_iff bit split: if_splits)
qed (use assms in \<open>auto simp: set_bit_at_def dense_wf_def\<close>)

lemma from_bits_props:
  shows "dense_wf (from_bits k bits n)" "num_bits (from_bits k bits n) = max k n"
    "bits_of (from_bits k bits n) = {i \<in> set bits. i div 64 < div_ceil (max k n) 64}"
proof -
  have "dense_wf d \<Longrightarrow> dense_wf (foldl set_bit_at d bits) \<and> num_bits (foldl set_bit_at d bits) = num_bits d \<and>
      bits_of (foldl set_bit_at d bits) = bits_of d \<union> {i \<in> set bits. i div 64 < div_ceil (num_bits d) 64}" for d
  proof (induction bits arbitrary: d)
    case (Cons b bits)
    then show ?case using set_bit_at_props [OF Cons.prems, of b] by (auto simp: dense_wf_def)
  qed simp
  from this [OF new_bitmap_props(1), of "max k n"] show "dense_wf (from_bits k bits n)" "num_bits (from_bits k bits n) = max k n"
    "bits_of (from_bits k bits n) = {i \<in> set bits. i div 64 < div_ceil (max k n) 64}"
    by (auto simp: from_bits_def new_bitmap_props)
qed

section \<open>Counting and visiting\<close>

definition word_set :: "u64 list \<Rightarrow> nat set" where
  "word_set ws = {i. i div 64 < length ws \<and> bit (ws ! (i div 64)) (i mod 64)}"

lemma bits_of_word_set: "bits_of d = word_set (words d)"
  by (simp add: bits_of_def word_set_def)

lemma word_set_snoc: "word_set (ws @ [w]) = word_set ws \<union> (\<lambda>j. length ws * 64 + j) ` {j. j < 64 \<and> bit w j}"
proof -
  have "i \<in> (\<lambda>j. length ws * 64 + j) ` {j. j < 64 \<and> bit w j} \<longleftrightarrow> i div 64 = length ws \<and> bit w (i mod 64)" for i
    by (auto simp: image_iff) (metis div_mult_mod_eq mod_less_divisor zero_less_numeral)
  then show ?thesis by (auto simp: word_set_def nth_append less_Suc_eq)
qed

lemma finite_word_set: "finite (word_set ws)"
  by (induction ws rule: rev_induct) (simp_all add: word_set_snoc, simp add: word_set_def)

lemma sum_count_ones: "sum_list (map count_ones ws) = card (word_set ws)"
proof (induction ws rule: rev_induct)
  case (snoc w ws)
  let ?new = "(\<lambda>j. length ws * 64 + j) ` {j. j < 64 \<and> bit w j}"
  have "word_set ws \<inter> ?new = {}" by (auto simp: word_set_def)
  moreover have "card ?new = count_ones w"
    unfolding count_ones_card by (rule card_image) (simp add: inj_on_def)
  ultimately have "card (word_set ws \<union> ?new) = card (word_set ws) + count_ones w"
    by (simp add: card_Un_disjoint finite_word_set)
  with snoc show ?case by (simp add: word_set_snoc)
qed (simp add: word_set_def)

lemma popcount_card: "popcount d = card (bits_of d)"
  by (simp add: popcount_def sum_count_ones bits_of_word_set)

lemma word_set_take: "word_set (take f ws) = word_set ws \<inter> {i. i div 64 < f}"
  by (auto simp: word_set_def)

lemma below_split: "i < n \<longleftrightarrow> i div 64 < n div 64 \<or> i div 64 = n div 64 \<and> i mod 64 < n mod 64" for i n :: nat
proof -
  have "64 * a + b < 64 * c + d \<longleftrightarrow> a < c \<or> a = c \<and> b < d" if "b < 64" "d < 64" for a b c d :: nat
    using that by (cases a c rule: linorder_cases) auto
  from this [of "i mod 64" "n mod 64" "i div 64" "n div 64"] show ?thesis by simp
qed

lemma popcount_in_range_card: "popcount_in_range d n = card (bits_of d \<inter> {..<n})"
proof -
  let ?f = "n div 64" and ?rem = "n mod 64" and ?ws = "words d"
  show ?thesis
  proof (cases "?rem > 0 \<and> ?f < length ?ws")
    case True
    have mask: "bit (2 ^ ?rem - 1 :: u64) j \<longleftrightarrow> j < ?rem" if "j < 64" for j
      using that by (simp add: bit_mask_iff flip: mask_eq_exp_minus_1)
    have len: "length (take ?f ?ws) = ?f" using True by simp
    have "popcount_in_range d n = card (word_set (take ?f ?ws @ [?ws ! ?f AND (push_bit ?rem 1 - 1)]))"
      using True by (simp add: popcount_in_range_def Let_def flip: sum_count_ones)
    also have "word_set (take ?f ?ws @ [?ws ! ?f AND (push_bit ?rem 1 - 1)]) = bits_of d \<inter> {..<n}"
    proof -
      have "i \<in> (\<lambda>j. ?f * 64 + j) ` {j. j < 64 \<and> bit (?ws ! ?f AND (push_bit ?rem 1 - 1)) j} \<longleftrightarrow>
          i div 64 = ?f \<and> i mod 64 < ?rem \<and> bit (?ws ! ?f) (i mod 64)" for i
        by (auto simp: image_iff bit_and_iff mask) (metis div_mult_mod_eq mask mod_less_divisor zero_less_numeral)
      then have image: "(\<lambda>j. ?f * 64 + j) ` {j. j < 64 \<and> bit (?ws ! ?f AND (push_bit ?rem 1 - 1)) j} =
          {i. i div 64 = ?f \<and> i mod 64 < ?rem \<and> bit (?ws ! ?f) (i mod 64)}" by blast
      from True show ?thesis
        unfolding word_set_snoc len image word_set_take bits_of_word_set
        by (auto simp: word_set_def below_split [of _ n])
    qed
    finally show ?thesis .
  next
    case False
    then have "popcount_in_range d n = card (word_set (take ?f ?ws))"
      by (auto simp: popcount_in_range_def Let_def sum_count_ones)
    also have "word_set (take ?f ?ws) = bits_of d \<inter> {..<n}"
      using False unfolding word_set_take bits_of_word_set by (auto simp: word_set_def below_split [of _ n])
    finally show ?thesis .
  qed
qed

fun bit_list :: "nat \<Rightarrow> u64 list \<Rightarrow> nat list" where
  "bit_list k [] = []"
| "bit_list k (w # ws) = map (\<lambda>b. k * 64 + b) (word_bits w) @ bit_list (Suc k) ws"

lemma visit_bits_append:
  "visit_bits n f a (xs @ ys) = (case visit_bits n f a xs of (a, True) \<Rightarrow> visit_bits n f a ys | r \<Rightarrow> r)"
  by (induction xs arbitrary: a) (auto split: option.split)

lemma visit_words_list: "visit_words n f a k ws = fst (visit_bits n f a (bit_list k ws))"
  by (induction ws arbitrary: a k) (auto simp: visit_bits_append split: prod.splits bool.splits)

lemma set_bit_list: "set (bit_list k ws) = (\<lambda>i. k * 64 + i) ` word_set ws"
proof (induction ws arbitrary: k)
  case (Cons w ws)
  have split: "i \<in> word_set (w # ws) \<longleftrightarrow> i < 64 \<and> bit w i \<or> 64 \<le> i \<and> i - 64 \<in> word_set ws" for i
    by (cases "i < 64") (auto simp: word_set_def le_div_geq le_mod_geq)
  have "word_set (w # ws) = {i. i < 64 \<and> bit w i} \<union> (\<lambda>i. 64 + i) ` word_set ws"
    by (auto simp: split image_iff) (metis le_add_diff_inverse)+
  then show ?case
    by (auto simp: Cons word_bits_eq image_Un image_image algebra_simps)
qed (simp add: word_set_def)

lemma for_each_set_bit_list: "for_each_set_bit d f a = fst (visit_bits (num_bits d) f a (bit_list 0 (words d)))"
  by (simp add: for_each_set_bit_def visit_words_list)

lemma set_bit_list_bits: "set (bit_list 0 (words d)) = bits_of d"
  by (simp add: set_bit_list bits_of_word_set)

text \<open>A callback that never stops collects what it is given.\<close>

lemma visit_bits_collect:
  assumes "\<And>g. g \<in> set gs \<Longrightarrow> g < n \<Longrightarrow> h g \<noteq> None"
  shows "\<exists>xs. visit_bits n (\<lambda>out g. map_option (\<lambda>x. hs_insert x out) (h g)) out gs = (xs, True) \<and>
    set xs = set out \<union> {x. \<exists>g \<in> set gs. g < n \<and> h g = Some x}"
  using assms
proof (induction gs arbitrary: out)
  case Nil
  then show ?case by simp
next
  case (Cons g gs)
  show ?case
  proof (cases "g < n")
    case True
    then obtain x where x: "h g = Some x" using Cons.prems by auto
    with Cons.IH [of "hs_insert x out"] Cons.prems True show ?thesis by auto
  next
    case False
    with Cons.IH [of out] Cons.prems show ?thesis by auto
  qed
qed

end
