(* ===== verification/Pack_Bitmap.thy ===== *)
theory Pack_Bitmap
  imports Dense_Bitmap Disk Backend_API
begin

text \<open>
  The reader of a pack's reachability bitmap (\<open>bitmap.rs\<close>) and the search for a pack that can be sent as
  it is (\<open>pack_reuse.rs\<close>).  Decoding of compressed bitmaps is gix's and comes in a record of functions.
\<close>

section \<open>The files\<close>

record 'e ewah_ops =
  ew_decode :: "bytes \<Rightarrow> bytes + 'e \<times> bytes"
  ew_num_bits :: "'e \<Rightarrow> nat"
  ew_set_bits :: "'e \<Rightarrow> nat list"

record 'e bitmap_entry =
  en_idx_pos :: nat
  en_xor_offset :: nat
  en_ewah :: 'e

definition SHA1_LEN :: nat where "SHA1_LEN = 20"
definition BITMAP_HEADER_LEN :: nat where "BITMAP_HEADER_LEN = 4 + 2 + 2 + 4 + SHA1_LEN"
definition FLAG_LOOKUP_TABLE :: nat where "FLAG_LOOKUP_TABLE = 16"

abbreviation slice :: "bytes \<Rightarrow> nat \<Rightarrow> nat \<Rightarrow> bytes" where
  "slice bs i j \<equiv> take (j - i) (drop i bs)"

fun chunks_exact4 :: "bytes \<Rightarrow> bytes list" where
  "chunks_exact4 (a # b # c # d # bs) = [a, b, c, d] # chunks_exact4 bs"
| "chunks_exact4 _ = []"

definition parse_rev :: "bytes \<Rightarrow> nat \<Rightarrow> nat list res" where
  "parse_rev bs count =
     (if length bs < 12 + SHA1_LEN then Inl (Bail (''.rev file too short: '' @ show_nat (length bs) @ '' bytes''))
      else if slice bs 0 4 \<noteq> ''RIDX'' then Inl (Bail ''.rev missing RIDX magic'')
      else
        let version = be_val (slice bs 4 8) in
        if version \<noteq> 1 then Inl (Bail (''.rev version '' @ show_nat version @ '' unsupported''))
        else
          let hash_algo = be_val (slice bs 8 12) in
          if hash_algo \<noteq> 1 then Inl (Bail (''.rev hash algo '' @ show_nat hash_algo @ '' unsupported (sha1 only)''))
          else
            let body_len = count * 4 in
            if length bs < 12 + body_len + SHA1_LEN
            then Inl (Bail (''.rev body too short: '' @ show_nat (length bs) @ '' bytes for '' @ show_nat count @ '' objects''))
            else Inr (map be_val (chunks_exact4 (slice bs 12 (12 + body_len)))))"

fun skip_ewah :: "'e ewah_ops \<Rightarrow> nat \<Rightarrow> bytes \<Rightarrow> bytes res" where
  "skip_ewah Z 0 cursor = Inr cursor"
| "skip_ewah Z (Suc k) cursor =
     (case ew_decode Z cursor of
        Inl e \<Rightarrow> Inl (Bail (''EWAH type-bitmap: '' @ e))
      | Inr (_, rest) \<Rightarrow> skip_ewah Z k rest)"

fun read_entries :: "'e ewah_ops \<Rightarrow> nat \<Rightarrow> bytes \<Rightarrow> 'e bitmap_entry list res" where
  "read_entries Z 0 cursor = Inr []"
| "read_entries Z (Suc k) cursor =
     (if length cursor < 6 then Inl (Bail ''truncated entry header'')
      else
        (case ew_decode Z (drop 6 cursor) of
           Inl e \<Rightarrow> Inl (Bail (''EWAH entry bitmap: '' @ e))
         | Inr (ewah, rest) \<Rightarrow>
             bindR (read_entries Z k rest) (\<lambda>es.
             Inr (\<lparr> en_idx_pos = be_val (slice cursor 0 4), en_xor_offset = of_char (cursor ! 4), en_ewah = ewah \<rparr> # es))))"

definition parse_bitmap :: "'e ewah_ops \<Rightarrow> bytes \<Rightarrow> ('e bitmap_entry list \<times> nat) option res" where
  "parse_bitmap Z bs =
     (if length bs < BITMAP_HEADER_LEN + SHA1_LEN then Inl (Bail ''.bitmap too short'')
      else if slice bs 0 4 \<noteq> ''BITM'' then Inl (Bail ''.bitmap missing BITM magic'')
      else
        let version = be_val (slice bs 4 6) in
        if version \<noteq> 1 then Inl (Bail (''.bitmap version '' @ show_nat version @ '' unsupported''))
        else
          let flags = be_val (slice bs 6 8) in
          if flags AND FLAG_LOOKUP_TABLE \<noteq> 0 then Inr None
          else
            let entry_count = be_val (slice bs 8 12) in
            bindR (skip_ewah Z 4 (drop BITMAP_HEADER_LEN bs)) (\<lambda>cursor.
            bindR (read_entries Z entry_count cursor) (\<lambda>entries. Inr (Some (entries, flags)))))"

section \<open>The loaded bitmap\<close>

record ('o, 'e) pack_bitmap =
  offset_pos_to_idx_pos :: "nat list"
  offset_pos_to_oid :: "'o option list"
  oid_to_entry :: "'o \<rightharpoonup> nat"
  entries :: "'e bitmap_entry list"
  bm_object_count :: nat

definition load_bitmap :: "'e ewah_ops \<Rightarrow> bytes \<Rightarrow> nat \<Rightarrow> (disk, error, ('o, 'e) pack_bitmap option) act" where
  "load_bitmap Z idx_path count =
     (let bitmap_path = with_extension idx_path ''bitmap''; rev_path = with_extension idx_path ''rev'' in
      bindA (fs_exists bitmap_path) (\<lambda>b.
      bindA (if b then fs_exists rev_path else retA False) (\<lambda>r.
      if \<not> r then retA None
      else
        bindA (ctxA ''reading .bitmap'' (fs_read bitmap_path)) (\<lambda>bitmap_bytes.
        bindA (ctxA ''reading .rev'' (fs_read rev_path)) (\<lambda>rev_bytes.
        bindA (liftA (parse_rev rev_bytes count)) (\<lambda>pos.
        bindA (liftA (parse_bitmap Z bitmap_bytes)) (\<lambda>parsed.
        case parsed of
          None \<Rightarrow> retA None
        | Some (es, _) \<Rightarrow>
            retA (Some \<lparr> offset_pos_to_idx_pos = pos, offset_pos_to_oid = replicate (length pos) None,
                         oid_to_entry = Map.empty, entries = es, bm_object_count = count \<rparr>))))))))"

text \<open>
  The callback reads the pack's index.  It panics on a position past the end of the index.
\<close>

fun index_entries :: "(nat \<Rightarrow> stop + 'o option) \<Rightarrow> nat \<Rightarrow> 'e bitmap_entry list \<Rightarrow> ('o \<rightharpoonup> nat) \<Rightarrow> stop + ('o \<rightharpoonup> nat)" where
  "index_entries oid_at k [] m = Inr m"
| "index_entries oid_at k (e # es) m =
     bindR (oid_at (en_idx_pos e)) (\<lambda>x.
     index_entries oid_at (Suc k) es (case x of Some oid \<Rightarrow> m(oid \<mapsto> k) | None \<Rightarrow> m))"

definition build_oid_index ::
  "(nat \<Rightarrow> stop + 'o option) \<Rightarrow> ('o, 'e) pack_bitmap \<Rightarrow> stop + ('o, 'e) pack_bitmap" where
  "build_oid_index oid_at b =
     bindR (index_entries oid_at 0 (entries b) (oid_to_entry b)) (\<lambda>m.
     bindR (mapR oid_at (offset_pos_to_idx_pos b)) (\<lambda>oids.
     Inr (b\<lparr> oid_to_entry := m, offset_pos_to_oid := oids \<rparr>)))"

definition from_ewah :: "'e ewah_ops \<Rightarrow> 'e \<Rightarrow> nat \<Rightarrow> dense_bitmap" where
  "from_ewah Z e hint = from_bits (ew_num_bits Z e) (ew_set_bits Z e) hint"

function decode_entry ::
  "'e ewah_ops \<Rightarrow> ('o, 'e) pack_bitmap \<Rightarrow> nat \<Rightarrow> (nat \<rightharpoonup> dense_bitmap) \<Rightarrow> stop + dense_bitmap \<times> (nat \<rightharpoonup> dense_bitmap)" where
  "decode_entry Z b i cache =
     (case cache i of
        Some cached \<Rightarrow> Inr (cached, cache)
      | None \<Rightarrow>
          if i \<ge> length (entries b) then Inl (Panic ''index out of bounds'')
          else
            let e = entries b ! i; bitmap = from_ewah Z (en_ewah e) (bm_object_count b) in
            if en_xor_offset e \<noteq> 0 then
              if i < en_xor_offset e then Inl (Panic ''xor_offset points past start of entries'')
              else
                bindR (decode_entry Z b (i - en_xor_offset e) cache) (\<lambda>(base, cache).
                let bitmap = xor_with bitmap base in Inr (bitmap, cache(i \<mapsto> bitmap)))
            else Inr (bitmap, cache(i \<mapsto> bitmap)))"
  by pat_completeness auto

termination
  by (relation "measure (\<lambda>(Z, b, i, cache). i)") auto

declare decode_entry.simps [simp del]

fun union_entries ::
  "'e ewah_ops \<Rightarrow> ('o, 'e) pack_bitmap \<Rightarrow> nat list \<Rightarrow> (nat \<rightharpoonup> dense_bitmap) \<Rightarrow> dense_bitmap \<Rightarrow> stop + dense_bitmap" where
  "union_entries Z b [] cache u = Inr u"
| "union_entries Z b (i # is) cache u =
     bindR (decode_entry Z b i cache) (\<lambda>(bitmap, cache). union_entries Z b is cache (or_with u bitmap))"

definition union_bitmap :: "'e ewah_ops \<Rightarrow> ('o, 'e) pack_bitmap \<Rightarrow> 'o list \<Rightarrow> stop + dense_bitmap option" where
  "union_bitmap Z b oids =
     (case those (map (oid_to_entry b) oids) of
        None \<Rightarrow> Inr None
      | Some is \<Rightarrow> bindR (union_entries Z b is Map.empty (new_bitmap (bm_object_count b))) (\<lambda>u. Inr (Some u)))"

definition have_reachable :: "'e ewah_ops \<Rightarrow> ('o, 'e) pack_bitmap \<Rightarrow> 'o list \<Rightarrow> stop + 'o list option" where
  "have_reachable Z b haves =
     bindR (union_bitmap Z b haves) (\<lambda>u. Inr
       (case u of
          None \<Rightarrow> None
        | Some u \<Rightarrow> Some (for_each_set_bit u (\<lambda>out pos.
            if pos < length (offset_pos_to_oid b)
            then map_option (\<lambda>x. hs_insert x out) (offset_pos_to_oid b ! pos) else None) [])))"

definition covers_exactly :: "'e ewah_ops \<Rightarrow> ('o, 'e) pack_bitmap \<Rightarrow> 'o list \<Rightarrow> 'o list \<Rightarrow> stop + bool option" where
  "covers_exactly Z b want have' =
     (if want = [] then Inr (Some False)
      else
        bindR (union_bitmap Z b want) (\<lambda>covered.
        case covered of
          None \<Rightarrow> Inr None
        | Some covered \<Rightarrow>
            bindR (if have' = [] then Inr (Some covered)
                   else bindR (union_bitmap Z b have') (\<lambda>h. Inr (map_option (andnot_with covered) h))) (\<lambda>covered.
            Inr (map_option (\<lambda>c. popcount_in_range c (bm_object_count b) = bm_object_count b) covered))))"

section \<open>Pack reuse\<close>

record ('i, 'o) index_ops =
  ix_open :: "bytes \<Rightarrow> (disk, error, 'i) act"
  ix_num_objects :: "'i \<Rightarrow> nat"
  ix_oid_at :: "'i \<Rightarrow> nat \<Rightarrow> stop + 'o option"

definition pack_is_exactly_reusable ::
  "('i, 'o) index_ops \<Rightarrow> 'e ewah_ops \<Rightarrow> bytes \<Rightarrow> 'o list \<Rightarrow> 'o list \<Rightarrow> (disk, stop, bool res) act" where
  "pack_is_exactly_reusable X Z idx_path want have' =
     bindA (attempt (ix_open X idx_path)) (\<lambda>r.
     case r of
       Inl _ \<Rightarrow> retA (Inr False)
     | Inr idx \<Rightarrow>
         bindA (attempt (load_bitmap Z idx_path (ix_num_objects X idx))) (\<lambda>loaded.
         case loaded of
           Inl e \<Rightarrow> retA (Inl e)
         | Inr None \<Rightarrow> retA (Inr False)
         | Inr (Some b) \<Rightarrow>
             bindA (liftA (build_oid_index (ix_oid_at X idx) b)) (\<lambda>b.
             bindA (liftA (covers_exactly Z b want have')) (\<lambda>c.
             retA (Inr (c = Some True))))))"

fun scan_packs ::
  "('i, 'o) index_ops \<Rightarrow> 'e ewah_ops \<Rightarrow> 'o list \<Rightarrow> 'o list \<Rightarrow> bytes list \<Rightarrow> (disk, stop, bytes option res) act" where
  "scan_packs X Z want have' [] = retA (Inr None)"
| "scan_packs X Z want have' (p # ps) =
     (if extension p \<noteq> Some ''idx'' then scan_packs X Z want have' ps
      else
        bindA (pack_is_exactly_reusable X Z p want have') (\<lambda>r.
        case r of
          Inl e \<Rightarrow> retA (Inl e)
        | Inr True \<Rightarrow> retA (Inr (Some (with_extension p ''pack'')))
        | Inr False \<Rightarrow> scan_packs X Z want have' ps))"

definition find_reusable_pack ::
  "('i, 'o) index_ops \<Rightarrow> 'e ewah_ops \<Rightarrow> bytes \<Rightarrow> 'o list \<Rightarrow> 'o list \<Rightarrow> (disk, stop, bytes option res) act" where
  "find_reusable_pack X Z pack_dir want have' =
     (if want = [] then retA (Inr None)
      else
        bindA (attempt (ctxA ''reading pack directory'' (fs_read_dir pack_dir))) (\<lambda>r.
        case r of
          Inl e \<Rightarrow> retA (Inl e)
        | Inr ps \<Rightarrow> scan_packs X Z want have' ps))"

end
