(* ===== verification/Bitmap_Properties.thy ===== *)
theory Bitmap_Properties
  imports Pack_Bitmap
begin

text \<open>
  What the bitmap reader computes.  A sound bitmap file says of each of its commits which objects of the
  pack the commit reaches; then the answers of \<open>have_reachable\<close> and \<open>covers_exactly\<close> are about the
  objects reached, and a pack that \<open>find_reusable_pack\<close> returns is exactly what the client asked for.
\<close>

section \<open>Decoding\<close>

text \<open>The positions an entry stands for: its own bits, xor those of the entry it refers to.\<close>

abbreviation raw_bits :: "'e ewah_ops \<Rightarrow> ('o, 'e) pack_bitmap \<Rightarrow> nat \<Rightarrow> nat set" where
  "raw_bits Z b i \<equiv> bits_of (from_ewah Z (en_ewah (entries b ! i)) (bm_object_count b))"

function entry_bits :: "'e ewah_ops \<Rightarrow> ('o, 'e) pack_bitmap \<Rightarrow> nat \<Rightarrow> nat set" where
  "entry_bits Z b i =
     (let base = (if en_xor_offset (entries b ! i) \<noteq> 0 \<and> en_xor_offset (entries b ! i) \<le> i
                  then entry_bits Z b (i - en_xor_offset (entries b ! i)) else {}) in
      (raw_bits Z b i - base) \<union> (base - raw_bits Z b i))"
  by pat_completeness auto

termination
  by (relation "measure (\<lambda>(Z, b, i). i)") auto

declare entry_bits.simps [simp del]

definition chains_ok :: "('o, 'e) pack_bitmap \<Rightarrow> bool" where
  "chains_ok b \<longleftrightarrow> (\<forall>i < length (entries b). en_xor_offset (entries b ! i) \<le> i)"

definition cache_ok :: "'e ewah_ops \<Rightarrow> ('o, 'e) pack_bitmap \<Rightarrow> (nat \<rightharpoonup> dense_bitmap) \<Rightarrow> bool" where
  "cache_ok Z b cache \<longleftrightarrow> (\<forall>i d. cache i = Some d \<longrightarrow> dense_wf d \<and> bits_of d = entry_bits Z b i)"

lemma cache_ok_insert: "cache_ok Z b cache \<Longrightarrow> dense_wf d \<Longrightarrow> bits_of d = entry_bits Z b i \<Longrightarrow> cache_ok Z b (cache(i \<mapsto> d))"
  by (simp add: cache_ok_def)

lemma from_ewah_wf: "dense_wf (from_ewah Z e n)"
  by (simp add: from_ewah_def from_bits_props)

lemma decode_entry_correct:
  assumes "chains_ok b" "cache_ok Z b cache" "i < length (entries b)"
  shows "\<exists>d cache'. decode_entry Z b i cache = Inr (d, cache') \<and> dense_wf d \<and> bits_of d = entry_bits Z b i \<and> cache_ok Z b cache'"
  using assms(2,3)
proof (induction i arbitrary: cache rule: less_induct)
  case (less i)
  let ?e = "entries b ! i"
  show ?case
  proof (cases "cache i")
    case (Some d)
    with less.prems(1) show ?thesis by (auto simp: decode_entry.simps [of Z b i] cache_ok_def)
  next
    case None
    show ?thesis
    proof (cases "en_xor_offset ?e = 0")
      case True
      then have "entry_bits Z b i = raw_bits Z b i" by (simp add: entry_bits.simps [of Z b i])
      with None True less.prems show ?thesis
        by (auto simp: decode_entry.simps [of Z b i] Let_def from_ewah_wf intro!: cache_ok_insert)
    next
      case False
      have le: "en_xor_offset ?e \<le> i" using assms(1) less.prems(2) by (simp add: chains_ok_def)
      then have below: "i - en_xor_offset ?e < i" "i - en_xor_offset ?e < length (entries b)" using False less.prems(2) by auto
      obtain d cache' where base: "decode_entry Z b (i - en_xor_offset ?e) cache = Inr (d, cache')"
        "dense_wf d" "bits_of d = entry_bits Z b (i - en_xor_offset ?e)" "cache_ok Z b cache'"
        using less.IH [OF below(1) less.prems(1) below(2)] by blast
      let ?x = "xor_with (from_ewah Z (en_ewah ?e) (bm_object_count b)) d"
      have x: "dense_wf ?x" "bits_of ?x = entry_bits Z b i"
        using xor_with_props [OF from_ewah_wf base(2)] False le base(3)
        by (simp_all add: entry_bits.simps [of Z b i] Let_def)
      show ?thesis
        using None False le less.prems(2) base(1) x cache_ok_insert [OF base(4) x]
        by (simp add: decode_entry.simps [of Z b i] Let_def)
    qed
  qed
qed

text \<open>A chain that leaves the file stops the request with a panic.\<close>

lemma decode_entry_panics:
  "cache i = None \<Longrightarrow> i < length (entries b) \<Longrightarrow> i < en_xor_offset (entries b ! i) \<Longrightarrow>
   decode_entry Z b i cache = Inl (Panic ''xor_offset points past start of entries'')"
  by (simp add: decode_entry.simps [of Z b i])

lemma union_entries_correct:
  assumes "chains_ok b" "cache_ok Z b cache" "dense_wf u" "\<forall>i \<in> set is. i < length (entries b)"
  shows "\<exists>v. union_entries Z b is cache u = Inr v \<and> dense_wf v \<and> num_bits u \<le> num_bits v \<and>
    bits_of v = bits_of u \<union> (\<Union>i \<in> set is. entry_bits Z b i)"
  using assms(2-4)
proof (induction "is" arbitrary: cache u)
  case (Cons i "is")
  then obtain d cache' where d: "decode_entry Z b i cache = Inr (d, cache')" "dense_wf d" "bits_of d = entry_bits Z b i"
    "cache_ok Z b cache'" using decode_entry_correct [OF assms(1) Cons.prems(1), of i] by auto
  with Cons.IH [OF d(4), of "or_with u d"] Cons.prems or_with_props [OF Cons.prems(2) d(2)] show ?case by auto
qed simp

definition indexed :: "('o, 'e) pack_bitmap \<Rightarrow> bool" where
  "indexed b \<longleftrightarrow> (\<forall>x i. oid_to_entry b x = Some i \<longrightarrow> i < length (entries b))"

lemma those_map: "those (map f xs) = (if \<forall>x \<in> set xs. f x \<noteq> None then Some (map (the \<circ> f) xs) else None)"
  by (induction xs) (auto split: option.splits)

text \<open>The union of the bitmaps of some commits, if all of them have one.\<close>

lemma union_bitmap_correct:
  assumes "chains_ok b" "indexed b"
  shows "if set oids \<subseteq> dom (oid_to_entry b)
    then \<exists>u. union_bitmap Z b oids = Inr (Some u) \<and> dense_wf u \<and> bm_object_count b \<le> num_bits u \<and>
      bits_of u = (\<Union>x \<in> set oids. entry_bits Z b (the (oid_to_entry b x)))
    else union_bitmap Z b oids = Inr None"
proof (cases "set oids \<subseteq> dom (oid_to_entry b)")
  case True
  then have those: "those (map (oid_to_entry b) oids) = Some (map (the \<circ> oid_to_entry b) oids)"
    by (auto simp: those_map dom_def)
  have "\<forall>i \<in> set (map (the \<circ> oid_to_entry b) oids). i < length (entries b)"
    using True assms(2) unfolding indexed_def by fastforce
  from union_entries_correct [OF assms(1) _ new_bitmap_props(1) this, of Z Map.empty "bm_object_count b"] those True show ?thesis
    by (auto simp: union_bitmap_def cache_ok_def new_bitmap_props)
next
  case False
  then have "those (map (oid_to_entry b) oids) = None" by (auto simp: those_map dom_def)
  with False show ?thesis by (simp add: union_bitmap_def)
qed

section \<open>Sound bitmaps\<close>

text \<open>
  What git promises of a pack with its index and bitmap: the index lists distinct objects, the reverse
  index is a permutation of their positions, every bitmap refers to itself or to an earlier entry, and
  says of each object of the pack whether the commit reaches it; the pack has everything its commits reach.
\<close>

abbreviation pos_oid :: "(nat \<Rightarrow> 'o) \<Rightarrow> ('o, 'e) pack_bitmap \<Rightarrow> nat \<Rightarrow> 'o" where
  "pos_oid oid b p \<equiv> oid (offset_pos_to_idx_pos b ! p)"

definition bitmap_sound :: "'e ewah_ops \<Rightarrow> (nat \<Rightarrow> 'o) \<Rightarrow> ('o \<Rightarrow> 'o set) \<Rightarrow> ('o, 'e) pack_bitmap \<Rightarrow> bool" where
  "bitmap_sound Z oid reaches b \<longleftrightarrow>
     inj_on oid {..<bm_object_count b} \<and>
     length (offset_pos_to_idx_pos b) = bm_object_count b \<and> set (offset_pos_to_idx_pos b) = {..<bm_object_count b} \<and>
     chains_ok b \<and>
     (\<forall>i < length (entries b).
        let c = oid (en_idx_pos (entries b ! i)) in
        en_idx_pos (entries b ! i) < bm_object_count b \<and> reaches c \<subseteq> oid ` {..<bm_object_count b} \<and>
        entry_bits Z b i = {p. p < bm_object_count b \<and> pos_oid oid b p \<in> reaches c})"

definition index_law :: "(nat \<Rightarrow> stop + 'o option) \<Rightarrow> nat \<Rightarrow> (nat \<Rightarrow> 'o) \<Rightarrow> bool" where
  "index_law oid_at n oid \<longleftrightarrow> (\<forall>k < n. oid_at k = Inr (Some (oid k)))"

definition bitmap_commits :: "(nat \<Rightarrow> 'o) \<Rightarrow> ('o, 'e) pack_bitmap \<Rightarrow> 'o set" where
  "bitmap_commits oid b = (\<lambda>e. oid (en_idx_pos e)) ` set (entries b)"

lemma index_entries_correct:
  assumes "\<forall>e \<in> set es. oid_at (en_idx_pos e) = Inr (Some (oid (en_idx_pos e)))"
  shows "\<exists>m'. index_entries oid_at k es m = Inr m' \<and>
    dom m' = dom m \<union> (\<lambda>e. oid (en_idx_pos e)) ` set es \<and>
    (\<forall>x i. m' x = Some i \<longrightarrow> m x = Some i \<or> (k \<le> i \<and> i < k + length es \<and> oid (en_idx_pos (es ! (i - k))) = x))"
  using assms
proof (induction es arbitrary: k m)
  case (Cons e es)
  let ?m = "m(oid (en_idx_pos e) \<mapsto> k)"
  obtain m' where m': "index_entries oid_at (Suc k) es ?m = Inr m'"
    "dom m' = dom ?m \<union> (\<lambda>e. oid (en_idx_pos e)) ` set es"
    "\<And>x i. m' x = Some i \<Longrightarrow> ?m x = Some i \<or> (Suc k \<le> i \<and> i < Suc k + length es \<and> oid (en_idx_pos (es ! (i - Suc k))) = x)"
    using Cons.IH [of "Suc k" ?m] Cons.prems unfolding list.set by blast
  have "m x = Some i \<or> (k \<le> i \<and> i < k + length (e # es) \<and> oid (en_idx_pos ((e # es) ! (i - k))) = x)"
    if "m' x = Some i" for x i
    using m'(3) [OF that] by (auto simp: nth_Cons' split: if_splits)
  with m'(1,2) Cons.prems show ?case by auto
qed simp

lemma entry_bits_indexed: "entry_bits Z (b\<lparr> oid_to_entry := m, offset_pos_to_oid := os \<rparr>) i = entry_bits Z b i"
proof (induction i rule: less_induct)
  case (less i)
  then show ?case by (subst (1 2) entry_bits.simps) (simp add: Let_def)
qed

text \<open>The state \<open>build_oid_index\<close> leaves.\<close>

definition built :: "'e ewah_ops \<Rightarrow> (nat \<Rightarrow> 'o) \<Rightarrow> ('o \<Rightarrow> 'o set) \<Rightarrow> ('o, 'e) pack_bitmap \<Rightarrow> ('o, 'e) pack_bitmap \<Rightarrow> bool" where
  "built Z oid reaches b b' \<longleftrightarrow>
     chains_ok b' \<and> indexed b' \<and> dom (oid_to_entry b') = bitmap_commits oid b \<and> bm_object_count b' = bm_object_count b \<and>
     offset_pos_to_oid b' = map (Some \<circ> oid) (offset_pos_to_idx_pos b) \<and>
     (\<forall>x \<in> bitmap_commits oid b. reaches x \<subseteq> oid ` {..<bm_object_count b} \<and>
        entry_bits Z b' (the (oid_to_entry b' x)) = {p. p < bm_object_count b \<and> pos_oid oid b p \<in> reaches x})"

lemma build_oid_index_correct:
  assumes "bitmap_sound Z oid reaches b" "index_law oid_at (bm_object_count b) oid" "oid_to_entry b = Map.empty"
  shows "\<exists>b'. build_oid_index oid_at b = Inr b' \<and> built Z oid reaches b b'"
proof -
  have sound: "en_idx_pos (entries b ! i) < bm_object_count b"
    "reaches (oid (en_idx_pos (entries b ! i))) \<subseteq> oid ` {..<bm_object_count b}"
    "entry_bits Z b i = {p. p < bm_object_count b \<and> pos_oid oid b p \<in> reaches (oid (en_idx_pos (entries b ! i)))}"
    if "i < length (entries b)" for i
    using assms(1) that by (auto simp: bitmap_sound_def Let_def)
  have es: "\<forall>e \<in> set (entries b). oid_at (en_idx_pos e) = Inr (Some (oid (en_idx_pos e)))"
    using sound(1) assms(2) by (metis in_set_conv_nth index_law_def)
  obtain m where m: "index_entries oid_at 0 (entries b) Map.empty = Inr m" "dom m = bitmap_commits oid b"
    and m0: "\<forall>x i. m x = Some i \<longrightarrow> Map.empty x = Some i \<or> (0 \<le> i \<and> i < 0 + length (entries b) \<and> oid (en_idx_pos (entries b ! (i - 0))) = x)"
    using index_entries_correct [OF es, of 0 Map.empty] unfolding bitmap_commits_def dom_empty Un_empty_left by metis
  have m': "i < length (entries b)" "oid (en_idx_pos (entries b ! i)) = x" if "m x = Some i" for x i
    using m0 [rule_format, OF that] by simp_all
  have pos: "mapR oid_at (offset_pos_to_idx_pos b) = Inr (map (Some \<circ> oid) (offset_pos_to_idx_pos b))"
    using assms(1,2) by (intro mapR_Inr_I) (auto simp: bitmap_sound_def index_law_def)
  let ?b = "b\<lparr> oid_to_entry := m, offset_pos_to_oid := map (Some \<circ> oid) (offset_pos_to_idx_pos b) \<rparr>"
  have "reaches x \<subseteq> oid ` {..<bm_object_count b} \<and>
      entry_bits Z ?b (the (m x)) = {p. p < bm_object_count b \<and> pos_oid oid b p \<in> reaches x}"
    if "x \<in> bitmap_commits oid b" for x
  proof -
    have "x \<in> dom m" unfolding m(2) by (rule that)
    then obtain i where i: "m x = Some i" by auto
    from sound(2,3) [OF m'(1) [OF i]] show ?thesis unfolding m'(2) [OF i] i entry_bits_indexed option.sel by blast
  qed
  moreover have "build_oid_index oid_at b = Inr ?b" using m(1) pos assms(3) by (simp add: build_oid_index_def)
  moreover have "chains_ok ?b" "indexed ?b" using assms(1) m' by (auto simp: bitmap_sound_def chains_ok_def indexed_def)
  ultimately have "build_oid_index oid_at b = Inr ?b \<and> built Z oid reaches b ?b" using m(2) unfolding built_def by simp
  then show ?thesis ..
qed

section \<open>What the answers mean\<close>

text \<open>The bits of a union are the positions of the objects reached.\<close>

lemma union_bitmap_sound:
  assumes "built Z oid reaches b b'"
  shows "if set xs \<subseteq> bitmap_commits oid b
    then \<exists>u. union_bitmap Z b' xs = Inr (Some u) \<and> dense_wf u \<and> bm_object_count b \<le> num_bits u \<and>
      bits_of u = {p. p < bm_object_count b \<and> pos_oid oid b p \<in> (\<Union>x \<in> set xs. reaches x)}
    else union_bitmap Z b' xs = Inr None"
proof -
  have b: "chains_ok b'" "indexed b'" "dom (oid_to_entry b') = bitmap_commits oid b"
      "bm_object_count b' = bm_object_count b"
    and bits: "\<forall>x \<in> bitmap_commits oid b.
       entry_bits Z b' (the (oid_to_entry b' x)) = {p. p < bm_object_count b \<and> pos_oid oid b p \<in> reaches x}"
    using assms unfolding built_def by blast+
  show ?thesis
  proof (cases "set xs \<subseteq> bitmap_commits oid b")
    case True
    with bits have "(\<Union>x \<in> set xs. entry_bits Z b' (the (oid_to_entry b' x))) =
        (\<Union>x \<in> set xs. {p. p < bm_object_count b \<and> pos_oid oid b p \<in> reaches x})"
      by (intro SUP_cong) auto
    also have "\<dots> = {p. p < bm_object_count b \<and> pos_oid oid b p \<in> (\<Union>x \<in> set xs. reaches x)}" by auto
    finally show ?thesis using union_bitmap_correct [OF b(1,2), of xs Z] True b(3,4) by simp
  next
    case False
    with union_bitmap_correct [OF b(1,2), of xs Z] b(3) show ?thesis by simp
  qed
qed

lemma positions_cover:
  assumes "bitmap_sound Z oid reaches b"
  shows "pos_oid oid b ` {..<bm_object_count b} = oid ` {..<bm_object_count b}"
proof -
  have "(\<lambda>p. offset_pos_to_idx_pos b ! p) ` {..<bm_object_count b} = {..<bm_object_count b}"
    using assms unfolding bitmap_sound_def by (metis set_conv_nth image_Collect lessThan_def)
  then show ?thesis by (metis image_image)
qed

lemma have_reachable_sound:
  assumes sound: "bitmap_sound Z oid reaches b" and b: "built Z oid reaches b b'"
  shows "if set haves \<subseteq> bitmap_commits oid b
    then \<exists>hs. have_reachable Z b' haves = Inr (Some hs) \<and> set hs = (\<Union>x \<in> set haves. reaches x)
    else have_reachable Z b' haves = Inr None"
proof (cases "set haves \<subseteq> bitmap_commits oid b")
  case True
  let ?R = "\<Union>x \<in> set haves. reaches x" and ?n = "bm_object_count b"
  obtain u where u: "union_bitmap Z b' haves = Inr (Some u)" "?n \<le> num_bits u"
    "bits_of u = {p. p < ?n \<and> pos_oid oid b p \<in> ?R}"
    using union_bitmap_sound [OF b, of haves] True by auto
  define h where "h pos = (if pos < length (offset_pos_to_oid b') then offset_pos_to_oid b' ! pos else None)" for pos
  have h: "h p = Some (pos_oid oid b p)" if "p < ?n" for p
    using b sound that by (simp add: h_def built_def bitmap_sound_def)
  have "(\<lambda>out pos. map_option (\<lambda>x. hs_insert x out) (h pos)) =
      (\<lambda>out pos. if pos < length (offset_pos_to_oid b')
            then map_option (\<lambda>x. hs_insert x out) (offset_pos_to_oid b' ! pos) else None)"
    by (auto simp: h_def fun_eq_iff)
  moreover obtain hs where "for_each_set_bit u (\<lambda>out pos. map_option (\<lambda>x. hs_insert x out) (h pos)) [] = hs"
    "set hs = {x. \<exists>g \<in> bits_of u. g < num_bits u \<and> h g = Some x}"
    unfolding for_each_set_bit_list using u(3) h visit_bits_collect [of "bit_list 0 (words u)" "num_bits u" h "[]"]
    by (auto simp: set_bit_list_bits)
  moreover have "{x. \<exists>g \<in> bits_of u. g < num_bits u \<and> h g = Some x} = pos_oid oid b ` {..<?n} \<inter> ?R"
    using u(2,3) h by (auto simp: image_iff)
  moreover have "\<dots> = ?R"
    unfolding positions_cover [OF sound] using b True by (auto simp: built_def)
  ultimately show ?thesis using True u(1) by (simp add: have_reachable_def)
next
  case False
  then show ?thesis using union_bitmap_sound [OF b, of haves] by (simp add: have_reachable_def)
qed

text \<open>Counting the bits of a set of objects decides whether it is the whole pack.\<close>

lemma full_count:
  assumes sound: "bitmap_sound Z oid reaches b" and R: "R \<subseteq> oid ` {..<bm_object_count b}"
    and bits: "bits_of c = {p. p < bm_object_count b \<and> pos_oid oid b p \<in> R}"
  shows "popcount_in_range c (bm_object_count b) = bm_object_count b \<longleftrightarrow> R = oid ` {..<bm_object_count b}"
proof -
  let ?n = "bm_object_count b"
  have "popcount_in_range c ?n = ?n \<longleftrightarrow> bits_of c \<inter> {..<?n} = {..<?n}"
    unfolding popcount_in_range_card
    by (metis Int_lower2 card_lessThan card_subset_eq finite_lessThan)
  also have "\<dots> \<longleftrightarrow> pos_oid oid b ` {..<?n} \<subseteq> R" unfolding bits by auto
  also have "\<dots> \<longleftrightarrow> R = oid ` {..<?n}" unfolding positions_cover [OF sound] using R by blast
  finally show ?thesis .
qed

lemma covers_exactly_sound:
  assumes sound: "bitmap_sound Z oid reaches b" and b: "built Z oid reaches b b'"
  shows "covers_exactly Z b' want haves = Inr
    (if want = [] then Some False
     else if set want \<union> set haves \<subseteq> bitmap_commits oid b
     then Some ((\<Union>x \<in> set want. reaches x) - (\<Union>x \<in> set haves. reaches x) = oid ` {..<bm_object_count b}) else None)"
proof -
  let ?n = "bm_object_count b" and ?W = "\<Union>x \<in> set want. reaches x" and ?H = "\<Union>x \<in> set haves. reaches x"
  have n: "bm_object_count b' = ?n" using b by (simp add: built_def)
  consider (empty) "want = []" | (unknown) "want \<noteq> []" "\<not> set want \<subseteq> bitmap_commits oid b"
    | (unknown_have) "want \<noteq> []" "set want \<subseteq> bitmap_commits oid b" "\<not> set haves \<subseteq> bitmap_commits oid b"
    | (known) "want \<noteq> []" "set want \<subseteq> bitmap_commits oid b" "set haves \<subseteq> bitmap_commits oid b" by blast
  then show ?thesis
  proof cases
    case empty
    then show ?thesis by (simp add: covers_exactly_def)
  next
    case unknown
    then show ?thesis using union_bitmap_sound [OF b, of want] by (simp add: covers_exactly_def)
  next
    case unknown_have
    then have "haves \<noteq> []" by auto
    then show ?thesis
      using unknown_have union_bitmap_sound [OF b, of want] union_bitmap_sound [OF b, of haves]
      by (auto simp: covers_exactly_def)
  next
    case known
    obtain u where u: "union_bitmap Z b' want = Inr (Some u)" "dense_wf u" "bits_of u = {p. p < ?n \<and> pos_oid oid b p \<in> ?W}"
      using union_bitmap_sound [OF b, of want] known by auto
    obtain v where v: "union_bitmap Z b' haves = Inr (Some v)" "bits_of v = {p. p < ?n \<and> pos_oid oid b p \<in> ?H}"
      using union_bitmap_sound [OF b, of haves] known by auto
    define c where "c = (if haves = [] then u else andnot_with u v)"
    have "bits_of c = {p. p < ?n \<and> pos_oid oid b p \<in> ?W - ?H}"
      using u(2,3) v(2) by (auto simp: c_def andnot_with_props)
    moreover have "?W - ?H \<subseteq> oid ` {..<?n}" using b known(2) by (auto simp: built_def)
    ultimately have "popcount_in_range c ?n = ?n \<longleftrightarrow> ?W - ?H = oid ` {..<?n}" by (intro full_count [OF sound])
    moreover have "covers_exactly Z b' want haves = Inr (Some (popcount_in_range c ?n = ?n))"
      using known(1) u(1) v(1) n by (simp add: covers_exactly_def c_def)
    ultimately show ?thesis using known by simp
  qed
qed

text \<open>
  C15. What the bitmap of a pack answers.  For a bitmap that is sound for the pack, whichever of its
  bitmaps are stored as differences to others: the tables can be built; \<open>have_reachable\<close> returns exactly the
  objects the given commits reach, if all of them have a bitmap, and otherwise nothing; and
  \<open>covers_exactly\<close> says yes exactly when the objects of the pack are what the wanted commits reach and the
  client's commits do not.
\<close>

theorem bitmap_answers:
  assumes "bitmap_sound Z oid reaches b" "index_law oid_at (bm_object_count b) oid" "oid_to_entry b = Map.empty"
  shows "\<exists>b'. build_oid_index oid_at b = Inr b' \<and>
    (if set haves \<subseteq> bitmap_commits oid b
     then \<exists>hs. have_reachable Z b' haves = Inr (Some hs) \<and> set hs = (\<Union>x \<in> set haves. reaches x)
     else have_reachable Z b' haves = Inr None) \<and>
    covers_exactly Z b' want haves = Inr
      (if want = [] then Some False
       else if set want \<union> set haves \<subseteq> bitmap_commits oid b
       then Some ((\<Union>x \<in> set want. reaches x) - (\<Union>x \<in> set haves. reaches x) = oid ` {..<bm_object_count b}) else None)"
proof -
  from build_oid_index_correct [OF assms] obtain b' where "build_oid_index oid_at b = Inr b'" "built Z oid reaches b b'" by blast
  with have_reachable_sound [OF assms(1)] covers_exactly_sound [OF assms(1)] show ?thesis by blast
qed

text \<open>A small bitmap, whose compressed bitmaps are single bytes.\<close>

definition tiny_ewah :: "char ewah_ops" where
  "tiny_ewah =
     \<lparr> ew_decode = (\<lambda>bs. case bs of [] \<Rightarrow> Inl ''empty'' | c # cs \<Rightarrow> Inr (c, cs)),
       ew_num_bits = (\<lambda>_. 3), ew_set_bits = (\<lambda>c. filter (\<lambda>i. odd ((of_char c :: nat) div 2 ^ i)) [0..<8]) \<rparr>"

definition tiny_bitmap :: "(nat, char) pack_bitmap" where
  "tiny_bitmap =
     \<lparr> offset_pos_to_idx_pos = [2, 0, 1], offset_pos_to_oid = replicate 3 None, oid_to_entry = Map.empty,
       entries = [\<lparr> en_idx_pos = 0, en_xor_offset = 0, en_ewah = CHR 0x02 \<rparr>, \<lparr> en_idx_pos = 1, en_xor_offset = 1, en_ewah = CHR 0x05 \<rparr>],
       bm_object_count = 3 \<rparr>"

lemma tiny_set_bits: "ew_set_bits tiny_ewah (CHR 0x02) = [1]" "ew_set_bits tiny_ewah (CHR 0x05) = [0, 2]"
  by code_simp+

definition tiny_reaches :: "nat \<Rightarrow> nat set" where
  "tiny_reaches c = (if c = 10 then {10} else {10, 11, 12})"

definition tiny_index :: "nat \<Rightarrow> stop + nat option" where
  "tiny_index k = (if k < 3 then Inr (Some (k + 10)) else Inl (Panic ''index out of bounds''))"

lemma tiny_objects: "(\<lambda>k. k + 10) ` {..<bm_object_count tiny_bitmap} = {10, 11, 12}"
proof -
  have "{..<bm_object_count tiny_bitmap} = {0, 1, 2}" by (auto simp: tiny_bitmap_def)
  then show ?thesis by auto
qed

lemma tiny_sound: "bitmap_sound tiny_ewah (\<lambda>k. k + 10) tiny_reaches tiny_bitmap"
proof -
  have raw: "raw_bits tiny_ewah tiny_bitmap 0 = {1}" "raw_bits tiny_ewah tiny_bitmap 1 = {0, 2}"
    unfolding from_ewah_def from_bits_props
    by (auto simp: tiny_bitmap_def tiny_set_bits [simplified One_nat_def] div_ceil_def)
  have e0: "entry_bits tiny_ewah tiny_bitmap 0 = {1}"
    using raw(1) by (simp add: entry_bits.simps [of _ _ 0] Let_def) (simp add: tiny_bitmap_def)
  have e1: "entry_bits tiny_ewah tiny_bitmap 1 = {0, 1, 2}"
    using raw(2) e0 by (subst entry_bits.simps) (auto simp: tiny_bitmap_def Let_def)
  have pos: "pos_oid (\<lambda>k. k + 10) tiny_bitmap p \<in> {10} \<longleftrightarrow> p = 1" "pos_oid (\<lambda>k. k + 10) tiny_bitmap p \<in> {10, 11, 12}" if "p < 3" for p
    using that by (auto simp: tiny_bitmap_def numeral_3_eq_3 less_Suc_eq)
  have bits: "{p. p < bm_object_count tiny_bitmap \<and> pos_oid (\<lambda>k. k + 10) tiny_bitmap p \<in> tiny_reaches 10} = {1}"
    "{p. p < bm_object_count tiny_bitmap \<and> pos_oid (\<lambda>k. k + 10) tiny_bitmap p \<in> tiny_reaches 11} = {0, 1, 2}"
    using pos by (auto simp: tiny_bitmap_def tiny_reaches_def)
  have "let c = en_idx_pos (entries tiny_bitmap ! i) + 10 in
      en_idx_pos (entries tiny_bitmap ! i) < bm_object_count tiny_bitmap \<and>
      tiny_reaches c \<subseteq> (\<lambda>k. k + 10) ` {..<bm_object_count tiny_bitmap} \<and>
      entry_bits tiny_ewah tiny_bitmap i =
        {p. p < bm_object_count tiny_bitmap \<and> pos_oid (\<lambda>k. k + 10) tiny_bitmap p \<in> tiny_reaches c}" if "i < 2" for i
  proof -
    have idx: "en_idx_pos (entries tiny_bitmap ! 0) = 0" "en_idx_pos (entries tiny_bitmap ! 1) = 1"
      "bm_object_count tiny_bitmap = 3" by (simp_all add: tiny_bitmap_def)
    have sub: "tiny_reaches c \<subseteq> (\<lambda>k. k + 10) ` {..<bm_object_count tiny_bitmap}" for c
      unfolding tiny_objects by (auto simp: tiny_reaches_def)
    from that consider "i = 0" | "i = 1" by linarith
    then show ?thesis
    proof cases
      case 1
      show ?thesis unfolding 1 Let_def idx(1) e0 add_0 bits(1) using sub idx(3) by simp
    next
      case 2
      show ?thesis unfolding 2 Let_def idx(2) e1 using bits(2) sub [of 11] idx(3) by simp
    qed
  qed
  moreover have "inj_on (\<lambda>k. k + 10) {..<bm_object_count tiny_bitmap}" "chains_ok tiny_bitmap"
    by (auto simp: inj_on_def chains_ok_def tiny_bitmap_def less_2_cases_iff less_Suc_eq)
  moreover have "set (offset_pos_to_idx_pos tiny_bitmap) = {..<bm_object_count tiny_bitmap}"
    "length (offset_pos_to_idx_pos tiny_bitmap) = bm_object_count tiny_bitmap" "length (entries tiny_bitmap) = 2"
    by (auto simp: tiny_bitmap_def)
  ultimately show ?thesis unfolding bitmap_sound_def by simp
qed

theorem bitmap_answers_witness:
  "\<exists>b' hs. build_oid_index tiny_index tiny_bitmap = Inr b' \<and> have_reachable tiny_ewah b' [10] = Inr (Some hs) \<and> set hs = {10} \<and>
     covers_exactly tiny_ewah b' [11] [10] = Inr (Some False)"
proof -
  have "index_law tiny_index (bm_object_count tiny_bitmap) (\<lambda>k. k + 10)" "oid_to_entry tiny_bitmap = Map.empty"
    by (simp_all add: index_law_def tiny_index_def tiny_bitmap_def)
  moreover have "bitmap_commits (\<lambda>k. k + 10) tiny_bitmap = {10, 11}" by (simp add: bitmap_commits_def tiny_bitmap_def)
  ultimately show ?thesis
    using bitmap_answers [OF tiny_sound, of tiny_index "[10]" "[11]"] unfolding tiny_objects
    by (auto simp: tiny_reaches_def insert_eq_iff)
qed

end
