(* ===== verification/Pack_Reuse_Properties.thy ===== *)
theory Pack_Reuse_Properties
  imports Bitmap_Properties
begin

text \<open>
  From the files to the answer: what a loaded bitmap is like whatever the files contain, that well-formed
  files are read back, and what it means that \<open>find_reusable_pack\<close> names a pack.
\<close>

section \<open>Reading the files\<close>

lemma fs_read_run: "fs_read p s = (Inr bs, t) \<Longrightarrow> content_at s p = Some bs \<and> dk_files t = dk_files s"
  unfolding fs_read_def by (erule disk_op_cases) (auto split: option.splits)

lemma fs_exists_files: "fs_exists p s = (r, t) \<Longrightarrow> dk_files t = dk_files s"
  using fs_exists_run by blast

text \<open>Where the parts of a loaded bitmap come from.\<close>

definition loaded_from :: "'e ewah_ops \<Rightarrow> (bytes \<times> bytes) list \<Rightarrow> bytes \<Rightarrow> nat \<Rightarrow> ('o, 'e) pack_bitmap \<Rightarrow> bool" where
  "loaded_from Z fs p n b \<longleftrightarrow>
     (\<exists>bb rb flags. map_of fs (with_extension p ''bitmap'') = Some bb \<and> map_of fs (with_extension p ''rev'') = Some rb \<and>
        parse_rev rb n = Inr (offset_pos_to_idx_pos b) \<and> parse_bitmap Z bb = Inr (Some (entries b, flags)) \<and>
        offset_pos_to_oid b = replicate (length (offset_pos_to_idx_pos b)) None \<and> oid_to_entry b = Map.empty \<and>
        bm_object_count b = n)"

lemma keeps_reads [keeps_intros]:
  "keeps (\<lambda>s. dk_files s = F) (fs_read p)" "keeps (\<lambda>s. dk_files s = F) (fs_exists p)"
  "keeps (\<lambda>s. dk_files s = F) (fs_read_dir p)"
  by (auto intro!: keepsI dest: fs_files(2) fs_files(5) fs_exists_files)

lemma keeps_load_bitmap [keeps_intros]: "keeps (\<lambda>s. dk_files s = F) (load_bitmap Z p n)"
  unfolding load_bitmap_def Let_def by (intro keeps_intros)

lemma load_bitmap_Some:
  assumes "load_bitmap Z p n s = (Inr (Some b), t)"
  shows "loaded_from Z (dk_files s) p n b"
proof -
  let ?bp = "with_extension p ''bitmap''" and ?rp = "with_extension p ''rev''"
  obtain b1 s1 b2 s2 bb s3 rb s4 es flags where
    e: "fs_exists ?bp s = (Inr b1 :: error + bool, s1)" "(if b1 then fs_exists ?rp else retA False) s1 = (Inr b2 :: error + bool, s2)"
      "fs_read ?bp s2 = (Inr bb, s3)" "fs_read ?rp s3 = (Inr rb, s4)"
    and b: "parse_rev rb n = Inr (offset_pos_to_idx_pos b)" "parse_bitmap Z bb = Inr (Some (entries b, flags))"
      "offset_pos_to_oid b = replicate (length (offset_pos_to_idx_pos b)) None" "oid_to_entry b = Map.empty" "bm_object_count b = n"
    using assms by (auto simp: load_bitmap_def Let_def bindA_Inr act_Inr split: option.splits if_splits)
  have "dk_files s2 = dk_files s"
    using fs_exists_files [OF e(1)] e(2) fs_exists_files [of ?rp s1] by (auto split: if_splits)
  with fs_read_run [OF e(3)] fs_read_run [OF e(4)] b show ?thesis by (auto simp: loaded_from_def)
qed

section \<open>Parsing\<close>

lemma length_chunks_exact4: "length (chunks_exact4 bs) = length bs div 4"
  by (induction bs rule: chunks_exact4.induct) auto

lemma chunks_exact4_lengths: "c \<in> set (chunks_exact4 bs) \<Longrightarrow> length c = 4"
  by (induction bs rule: chunks_exact4.induct) auto

lemma parse_rev_typed:
  assumes "parse_rev bs n = Inr pos"
  shows "length pos = n \<and> (\<forall>p \<in> set pos. p < 2 ^ 32)"
proof -
  let ?body = "slice bs 12 (12 + n * 4)"
  have pos: "pos = map be_val (chunks_exact4 ?body)" and len: "12 + n * 4 + SHA1_LEN \<le> length bs"
    using assms by (auto simp: parse_rev_def Let_def split: if_splits)
  have "length pos = n" using len unfolding pos by (simp add: length_chunks_exact4)
  moreover have "be_val c < 2 ^ 32" if "c \<in> set (chunks_exact4 ?body)" for c
    using be_val_less [of c] chunks_exact4_lengths [OF that] by simp
  ultimately show ?thesis unfolding pos by auto
qed

lemma read_entries_typed:
  "read_entries Z k cursor = Inr es \<Longrightarrow> length es = k \<and> (\<forall>e \<in> set es. en_idx_pos e < 2 ^ 32 \<and> en_xor_offset e < 256)"
proof (induction Z k cursor arbitrary: es rule: read_entries.induct)
  case (2 Z k cursor)
  from 2(2) obtain ewah rest es' where r: "6 \<le> length cursor" "ew_decode Z (drop 6 cursor) = Inr (ewah, rest)"
    "read_entries Z k rest = Inr es'"
    "es = \<lparr> en_idx_pos = be_val (slice cursor 0 4), en_xor_offset = of_char (cursor ! 4), en_ewah = ewah \<rparr> # es'"
    by (auto simp: res_simps split: if_splits sum.splits)
  have "be_val (slice cursor 0 4) < 2 ^ 32" using be_val_less [of "slice cursor 0 4"] r(1) by simp
  with 2(1) [OF _ r(2) refl r(3)] r(1,4) show ?case by simp
qed auto

lemma index_entries_bounds:
  "index_entries oid_at k es m = Inr m' \<Longrightarrow> m' x = Some i \<Longrightarrow> m x = Some i \<or> k \<le> i \<and> i < k + length es"
proof (induction es arbitrary: k m)
  case (Cons e es)
  from Cons.prems(1) obtain y where y: "oid_at (en_idx_pos e) = Inr y"
    "index_entries oid_at (Suc k) es (case y of Some oid \<Rightarrow> m(oid \<mapsto> k) | None \<Rightarrow> m) = Inr m'"
    by (auto simp: res_simps)
  from Cons.IH [OF y(2) Cons.prems(2)] show ?case by (cases y) (auto split: if_splits)
qed simp

lemma decode_entry_stops:
  assumes "\<forall>j. cache j \<noteq> None \<longrightarrow> j < length (entries b)" "i < length (entries b)"
  shows "case decode_entry Z b i cache of
      Inl e \<Rightarrow> e = Panic ''xor_offset points past start of entries''
    | Inr (d, cache') \<Rightarrow> \<forall>j. cache' j \<noteq> None \<longrightarrow> j < length (entries b)"
  using assms
proof (induction Z b i cache rule: decode_entry.induct)
  case (1 Z b i cache)
  let ?e = "entries b ! i"
  show ?case
  proof (cases "cache i = None \<and> en_xor_offset ?e \<noteq> 0 \<and> en_xor_offset ?e \<le> i")
    case True
    have "case decode_entry Z b (i - en_xor_offset ?e) cache of
      Inl e \<Rightarrow> e = Panic ''xor_offset points past start of entries''
    | Inr (d, cache') \<Rightarrow> \<forall>j. cache' j \<noteq> None \<longrightarrow> j < length (entries b)"
      using True 1(3) by (intro 1(1)) (auto simp: 1(2))
    with True 1(3) show ?thesis
      by (subst decode_entry.simps) (auto simp: Let_def split: sum.splits prod.splits)
  next
    case False
    with 1(2,3) show ?thesis
      by (subst decode_entry.simps) (auto simp: Let_def split: option.splits)
  qed
qed

lemma union_entries_stops:
  assumes "union_entries Z b is cache u = Inl e" "\<forall>j. cache j \<noteq> None \<longrightarrow> j < length (entries b)"
    "\<forall>i \<in> set is. i < length (entries b)"
  shows "e = Panic ''xor_offset points past start of entries''"
  using assms
proof (induction "is" arbitrary: cache u)
  case (Cons i "is")
  have stops: "case decode_entry Z b i cache of
      Inl e \<Rightarrow> e = Panic ''xor_offset points past start of entries''
    | Inr (d, cache') \<Rightarrow> \<forall>j. cache' j \<noteq> None \<longrightarrow> j < length (entries b)"
    using Cons.prems(2,3) by (intro decode_entry_stops) auto
  show ?case
  proof (cases "decode_entry Z b i cache")
    case (Inl e')
    with Cons.prems(1) stops show ?thesis by simp
  next
    case (Inr dc)
    obtain d cache' where dc: "dc = (d, cache')" by fastforce
    have "union_entries Z b is cache' (or_with u d) = Inl e" using Cons.prems(1) Inr dc by simp
    from Cons.IH [OF this] Cons.prems(3) stops Inr dc show ?thesis by simp
  qed
qed simp

lemma union_bitmap_stops:
  assumes "indexed b" "union_bitmap Z b xs = Inl e"
  shows "e = Panic ''xor_offset points past start of entries'' \<and> \<not> chains_ok b"
proof -
  obtain "is" where is': "those (map (oid_to_entry b) xs) = Some is"
    and err: "union_entries Z b is Map.empty (new_bitmap (bm_object_count b)) = Inl e"
    using assms(2) by (auto simp: union_bitmap_def bindR_eq_Inl split: option.splits)
  have "\<forall>i \<in> set is. i < length (entries b)"
    using is' assms(1) by (auto simp: those_map indexed_def split: if_splits)
  from union_entries_stops [OF err _ this] have "e = Panic ''xor_offset points past start of entries''" by simp
  moreover have "\<not> chains_ok b"
  proof
    assume "chains_ok b"
    from union_bitmap_correct [OF this assms(1), of xs Z] assms(2) show False by (auto split: if_splits)
  qed
  ultimately show ?thesis ..
qed


section \<open>Well-formed files\<close>

definition rev_file :: "nat list \<Rightarrow> bytes \<Rightarrow> bytes" where
  "rev_file pos trailer = ''RIDX'' @ be_bytes 4 1 @ be_bytes 4 1 @ concat (map (be_bytes 4) pos) @ trailer"

definition entry_record :: "('e \<Rightarrow> bytes) \<Rightarrow> 'e bitmap_entry \<Rightarrow> bytes" where
  "entry_record enc e = be_bytes 4 (en_idx_pos e) @ [char_of (en_xor_offset e), NUL] @ enc (en_ewah e)"

definition bitmap_file :: "('e \<Rightarrow> bytes) \<Rightarrow> nat \<Rightarrow> bytes \<Rightarrow> 'e list \<Rightarrow> 'e bitmap_entry list \<Rightarrow> bytes \<Rightarrow> bytes" where
  "bitmap_file enc flags checksum types es trailer =
     ''BITM'' @ be_bytes 2 1 @ be_bytes 2 flags @ be_bytes 4 (length es) @ checksum @
     concat (map enc types) @ concat (map (entry_record enc) es) @ trailer"

definition entry_ok :: "'e bitmap_entry \<Rightarrow> bool" where
  "entry_ok e \<longleftrightarrow> en_idx_pos e < 2 ^ 32 \<and> en_xor_offset e < 256"

lemma chunks_exact4_be: "chunks_exact4 (concat (map (be_bytes 4) ns)) = map (be_bytes 4) ns"
proof (induction ns)
  case (Cons n ns)
  have "chunks_exact4 (c @ rest) = c # chunks_exact4 rest" if "length c = 4" for c rest
    using that by (auto simp: length_Suc_conv numeral_eq_Suc)
  with Cons show ?case by simp
qed simp

lemma parse_rev_file:
  assumes "\<forall>p \<in> set pos. p < 2 ^ 32" "20 \<le> length trailer"
  shows "parse_rev (rev_file pos trailer) (length pos) = Inr pos"
proof -
  let ?body = "concat (map (be_bytes 4) pos)"
  have len: "length ?body = 4 * length pos" by (simp add: length_concat comp_def sum_list_triv)
  have body: "take (length pos * 4) (drop 12 (rev_file pos trailer)) = ?body"
    by (simp add: rev_file_def len)
  have "slice (rev_file pos trailer) 0 4 = ''RIDX''" "slice (rev_file pos trailer) 4 8 = be_bytes 4 1"
    "slice (rev_file pos trailer) 8 12 = be_bytes 4 1" by (simp_all add: rev_file_def)
  moreover have "length (rev_file pos trailer) = 12 + length pos * 4 + length trailer" by (simp add: rev_file_def len)
  moreover have "map be_val (chunks_exact4 ?body) = pos"
    using assms(1) by (simp add: chunks_exact4_be be_val_be_bytes comp_def map_idI)
  ultimately show ?thesis using assms(2) by (simp add: parse_rev_def body be_val_be_bytes SHA1_LEN_def Let_def)
qed

lemma skip_ewah_types:
  assumes "\<And>e rest. ew_decode Z (enc e @ rest) = Inr (e, rest)"
  shows "skip_ewah Z (length types) (concat (map enc types) @ rest) = Inr rest"
  by (induction types) (simp_all add: assms)

lemma read_entries_records:
  assumes "\<And>e rest. ew_decode Z (enc e @ rest) = Inr (e, rest)" "\<forall>e \<in> set es. entry_ok e"
  shows "read_entries Z (length es) (concat (map (entry_record enc) es) @ rest) = Inr es"
  using assms(2)
proof (induction es)
  case (Cons e es)
  let ?cursor = "entry_record enc e @ concat (map (entry_record enc) es) @ rest"
  have "be_val (slice ?cursor 0 4) = en_idx_pos e" "of_char (?cursor ! 4) = en_xor_offset e"
    "drop 6 ?cursor = enc (en_ewah e) @ concat (map (entry_record enc) es) @ rest"
    using Cons.prems by (simp_all add: entry_record_def entry_ok_def be_val_be_bytes nth_append)
  moreover have "6 \<le> length ?cursor" by (simp add: entry_record_def)
  ultimately show ?case using Cons by (simp add: assms(1))
qed simp

lemma parse_bitmap_file:
  assumes "\<And>e rest. ew_decode Z (enc e @ rest) = Inr (e, rest)"
    and "\<forall>e \<in> set es. entry_ok e" "length es < 2 ^ 32" "length types = 4" "length checksum = 20" "flags < 16" "20 \<le> length trailer"
  shows "parse_bitmap Z (bitmap_file enc flags checksum types es trailer) = Inr (Some (es, flags))"
proof -
  let ?f = "bitmap_file enc flags checksum types es trailer"
  have "slice ?f 0 4 = ''BITM''" "slice ?f 4 6 = be_bytes 2 1" "slice ?f 6 8 = be_bytes 2 flags"
    "slice ?f 8 12 = be_bytes 4 (length es)" by (simp_all add: bitmap_file_def)
  then have head: "slice ?f 0 4 = ''BITM''" "be_val (slice ?f 4 6) = 1" "be_val (slice ?f 6 8) = flags"
    "be_val (slice ?f 8 12) = length es" using assms(3,6) by (simp_all add: be_val_be_bytes)
  have body: "drop 32 ?f = concat (map enc types) @ concat (map (entry_record enc) es) @ trailer"
    using assms(5) by (simp add: bitmap_file_def)
  have "flags AND 16 = 0"
  proof (rule bit_eqI)
    fix n
    have "bit (16 :: nat) n \<longleftrightarrow> n = 4" using bit_exp_iff [of 4 n, where 'a = nat] by simp
    moreover have "\<not> bit flags 4" using assms(6) by (simp add: bit_iff_odd)
    ultimately show "bit (flags AND 16) n = bit 0 n" by (auto simp: bit_and_iff)
  qed
  moreover have "52 \<le> length ?f" using assms(5,7) by (simp add: bitmap_file_def)
  ultimately show ?thesis
    using head skip_ewah_types [OF assms(1), of types] read_entries_records [OF assms(1,2)] assms(4)
    by (simp add: parse_bitmap_def BITMAP_HEADER_LEN_def SHA1_LEN_def FLAG_LOOKUP_TABLE_def body Let_def)
qed

text \<open>
  The files git writes are read back.  A reverse index and a bitmap file without a lookup table, put
  together from positions, type bitmaps and entries that fit their fields, are parsed to exactly these
  positions and entries, whatever checksums and further data they carry.
\<close>

theorem bitmap_files_roundtrip:
  assumes "\<And>e rest. ew_decode Z (enc e @ rest) = Inr (e, rest)"
    and "\<forall>p \<in> set pos. p < 2 ^ 32" "\<forall>e \<in> set es. entry_ok e" "length es < 2 ^ 32" "length types = 4" "length checksum = 20"
    and "flags < 16" "20 \<le> length trailer" "20 \<le> length trailer'"
  shows "parse_rev (rev_file pos trailer) (length pos) = Inr pos \<and>
    parse_bitmap Z (bitmap_file enc flags checksum types es trailer') = Inr (Some (es, flags))"
  using parse_rev_file [OF assms(2,8)] parse_bitmap_file [OF assms(1,3-7,9)] by blast

lemma tiny_law: "ew_decode tiny_ewah ([c] @ rest) = Inr (c, rest)"
  by (simp add: tiny_ewah_def)

theorem bitmap_files_roundtrip_witness:
  "parse_rev (rev_file [2, 0, 1] (replicate 20 NUL)) 3 = Inr [2, 0, 1] \<and>
   parse_bitmap tiny_ewah (bitmap_file (\<lambda>c. [c]) 5 (replicate 20 NUL) (replicate 4 NUL) (entries tiny_bitmap) (replicate 20 NUL)) =
     Inr (Some (entries tiny_bitmap, 5))"
proof -
  have "\<forall>e \<in> set (entries tiny_bitmap). entry_ok e" "length (entries tiny_bitmap) < 2 ^ 32"
    by (simp_all add: tiny_bitmap_def entry_ok_def)
  then show ?thesis
    using bitmap_files_roundtrip [OF tiny_law, of "[2, 0, 1]" "entries tiny_bitmap" "replicate 4 NUL" "replicate 20 NUL" 5
        "replicate 20 NUL" "replicate 20 NUL"] by (simp add: numeral_3_eq_3)
qed

section \<open>Reusing a pack\<close>

definition index_objects :: "('i, 'o) index_ops \<Rightarrow> 'i \<Rightarrow> 'o set" where
  "index_objects X idx = {x. \<exists>k < ix_num_objects X idx. ix_oid_at X idx k = Inr (Some x)}"

text \<open>
  What is relied on of the pack directory: opening an index changes no file, an index gives the id of each of
  its objects, and a bitmap that lies beside an index is sound for it.
\<close>

definition opens_only :: "('i, 'o) index_ops \<Rightarrow> bool" where
  "opens_only X \<longleftrightarrow> (\<forall>p s r t. ix_open X p s = (r, t) \<longrightarrow> dk_files t = dk_files s)"

definition sidecars_sound :: "('i, 'o) index_ops \<Rightarrow> 'e ewah_ops \<Rightarrow> ('o \<Rightarrow> 'o set) \<Rightarrow> (bytes \<times> bytes) list \<Rightarrow> bool" where
  "sidecars_sound X Z reaches fs \<longleftrightarrow>
     (\<forall>p s idx t b. ix_open X p s = (Inr idx, t) \<longrightarrow> dk_files s = fs \<longrightarrow> loaded_from Z fs p (ix_num_objects X idx) b \<longrightarrow>
        (\<exists>oid. index_law (ix_oid_at X idx) (ix_num_objects X idx) oid \<and> bitmap_sound Z oid reaches b))"

lemma index_objects_image:
  "index_law (ix_oid_at X idx) (ix_num_objects X idx) oid \<Longrightarrow> index_objects X idx = oid ` {..<ix_num_objects X idx}"
  by (auto simp: index_law_def index_objects_def)

lemma attempt_Inr: "attempt m s = (Inr r, t) \<longleftrightarrow> m s = (r, t)"
  by (auto simp: attempt_def split: prod.split)

lemma pack_reusable_run:
  assumes "opens_only X" "sidecars_sound X Z reaches (dk_files s)" "pack_is_exactly_reusable X Z p want haves s = (r, t)"
  shows "dk_files t = dk_files s \<and> (r = Inr (Inr True) \<longrightarrow>
    (\<exists>idx u. ix_open X p s = (Inr idx, u) \<and> index_objects X idx = (\<Union>x \<in> set want. reaches x) - (\<Union>x \<in> set haves. reaches x)))"
proof -
  have open': "keeps (\<lambda>u. dk_files u = F) (ix_open X p)" for F
    using assms(1) by (auto intro!: keepsI simp: opens_only_def)
  have "keeps (\<lambda>u. dk_files u = dk_files s) (pack_is_exactly_reusable X Z p want haves)"
    unfolding pack_is_exactly_reusable_def by (intro keeps_intros open')
  then have files: "dk_files t = dk_files s" by (rule keepsD) (use assms(3) in auto)
  show ?thesis
  proof (intro conjI impI files)
    assume "r = Inr (Inr True)"
    note run = assms(3) [unfolded this pack_is_exactly_reusable_def bindA_Inr attempt_Inr]
    then obtain r1 u where r1: "ix_open X p s = (r1, u)" and rest1: "(case r1 of Inl _ \<Rightarrow> retA (Inr False)
        | Inr idx \<Rightarrow> bindA (attempt (load_bitmap Z p (ix_num_objects X idx))) (\<lambda>loaded. case loaded of
            Inl e \<Rightarrow> retA (Inl e) | Inr None \<Rightarrow> retA (Inr False)
          | Inr (Some b) \<Rightarrow> bindA (liftA (build_oid_index (ix_oid_at X idx) b)) (\<lambda>b.
              bindA (liftA (covers_exactly Z b want haves)) (\<lambda>c. retA (Inr (c = Some True)))))) u = (Inr (Inr True), t)"
      by blast
    then obtain idx where idx: "r1 = Inr idx" by (cases r1) auto
    from rest1 [unfolded idx sum.case bindA_Inr attempt_Inr] obtain r2 u' where
      r2: "load_bitmap Z p (ix_num_objects X idx) u = (r2, u')" and rest2: "(case r2 of
            Inl e \<Rightarrow> retA (Inl e) | Inr None \<Rightarrow> retA (Inr False)
          | Inr (Some b) \<Rightarrow> bindA (liftA (build_oid_index (ix_oid_at X idx) b)) (\<lambda>b.
              bindA (liftA (covers_exactly Z b want haves)) (\<lambda>c. retA (Inr (c = Some True))))) u' = (Inr (Inr True), t)" by blast
    from rest2 obtain b b' where "r2 = Inr (Some b)" "build_oid_index (ix_oid_at X idx) b = Inr b'"
      "covers_exactly Z b' want haves = Inr (Some True)"
      by (auto simp: bindA_Inr split: sum.split_asm option.split_asm)
    with r1 idx r2 have run: "ix_open X p s = (Inr idx, u)" "load_bitmap Z p (ix_num_objects X idx) u = (Inr (Some b), u')"
      "build_oid_index (ix_oid_at X idx) b = Inr b'" "covers_exactly Z b' want haves = Inr (Some True)" by simp_all
    have u: "dk_files u = dk_files s" using assms(1) run(1) unfolding opens_only_def by blast
    from load_bitmap_Some [OF run(2)] u have b: "loaded_from Z (dk_files s) p (ix_num_objects X idx) b" by simp
    then obtain oid where oid: "index_law (ix_oid_at X idx) (ix_num_objects X idx) oid" "bitmap_sound Z oid reaches b"
      using assms(2) run(1) unfolding sidecars_sound_def by blast
    have n: "bm_object_count b = ix_num_objects X idx" "oid_to_entry b = Map.empty" using b by (auto simp: loaded_from_def)
    from build_oid_index_correct [OF oid(2) _ n(2), of "ix_oid_at X idx"] oid(1) n(1) run(3)
    have "built Z oid reaches b b'" by auto
    from covers_exactly_sound [OF oid(2) this, of want haves] run(4) n(1)
    have "(\<Union>x \<in> set want. reaches x) - (\<Union>x \<in> set haves. reaches x) = oid ` {..<ix_num_objects X idx}"
      by (auto split: if_splits)
    with index_objects_image [OF oid(1)] run(1) show "\<exists>idx u. ix_open X p s = (Inr idx, u) \<and>
        index_objects X idx = (\<Union>x \<in> set want. reaches x) - (\<Union>x \<in> set haves. reaches x)" by auto
  qed
qed

lemma scan_packs_run:
  assumes "opens_only X" "sidecars_sound X Z reaches (dk_files s)" "scan_packs X Z want haves ps s = (Inr (Inr (Some pack)), t)"
  shows "\<exists>p \<in> set ps. \<exists>idx u v. extension p = Some ''idx'' \<and> pack = with_extension p ''pack'' \<and>
    ix_open X p u = (Inr idx, v) \<and> dk_files u = dk_files s \<and>
    index_objects X idx = (\<Union>x \<in> set want. reaches x) - (\<Union>x \<in> set haves. reaches x)"
  using assms(2,3)
proof (induction ps arbitrary: s)
  case (Cons p ps)
  show ?case
  proof (cases "extension p = Some ''idx''")
    case False
    with Cons.prems(2) have "scan_packs X Z want haves ps s = (Inr (Inr (Some pack)), t)" by simp
    from Cons.IH [OF Cons.prems(1) this] show ?thesis by auto
  next
    case True
    obtain r u where r: "pack_is_exactly_reusable X Z p want haves s = (r, u)" by fastforce
    note run = pack_reusable_run [OF assms(1) Cons.prems(1) r]
    from Cons.prems(2) True r consider (hit) "r = Inr (Inr True)" "pack = with_extension p ''pack''"
      | (next') "r = Inr (Inr False)" "scan_packs X Z want haves ps u = (Inr (Inr (Some pack)), t)"
      by (auto simp: bindA_def split: sum.splits bool.splits)
    then show ?thesis
    proof cases
      case hit
      with run True show ?thesis by auto
    next
      case next'
      have "sidecars_sound X Z reaches (dk_files u)" using run Cons.prems(1) by simp
      from Cons.IH [OF this next'(2)] run show ?thesis by auto
    qed
  qed
qed simp

lemma find_reusable_run:
  assumes "opens_only X" "sidecars_sound X Z reaches (dk_files s)"
    "find_reusable_pack X Z dir want haves s = (Inr (Inr (Some pack)), t)"
  shows "\<exists>p \<in> set (dir_entries dir (dk_files s)). \<exists>idx u v.
    extension p = Some ''idx'' \<and> pack = with_extension p ''pack'' \<and> ix_open X p u = (Inr idx, v) \<and> dk_files u = dk_files s \<and>
    index_objects X idx = (\<Union>x \<in> set want. reaches x) - (\<Union>x \<in> set haves. reaches x)"
proof -
  from assms(3) obtain ps u where ps: "fs_read_dir dir s = (Inr ps, u)" "scan_packs X Z want haves ps u = (Inr (Inr (Some pack)), t)"
  proof -
    from assms(3) obtain r1 u where "ctxA ''reading pack directory'' (fs_read_dir dir) s = (r1, u)"
      "(case r1 of Inl e \<Rightarrow> retA (Inl e) | Inr ps \<Rightarrow> scan_packs X Z want haves ps) u = (Inr (Inr (Some pack)), t)"
      by (auto simp: find_reusable_pack_def bindA_Inr attempt_Inr simp del: split_paired_Ex split: if_splits)
    then show thesis using that by (cases r1) (auto simp: act_Inr)
  qed
  have "dk_files u = dk_files s" "ps = dir_entries dir (dk_files s)"
    using ps(1) unfolding fs_read_dir_def by (auto elim!: disk_op_cases)
  with scan_packs_run [OF assms(1) _ ps(2)] assms(2) show ?thesis by simp
qed

text \<open>
  C14. A pack is sent as it is only when it is exactly what was asked for.  If every bitmap in the
  directory is sound for the index it lies beside, then a pack that \<open>find_reusable_pack\<close> names belongs
  to an index of the directory whose objects are those the wanted commits reach and the client's do not.
\<close>

theorem reused_pack_exact:
  assumes "opens_only X" "sidecars_sound X Z reaches (dk_files s)"
    "find_reusable_pack X Z dir want haves s = (Inr (Inr (Some pack)), t)"
  shows "\<exists>p \<in> set (dir_entries dir (dk_files s)). \<exists>idx u v.
    extension p = Some ''idx'' \<and> pack = with_extension p ''pack'' \<and> ix_open X p u = (Inr idx, v) \<and> dk_files u = dk_files s \<and>
    index_objects X idx = (\<Union>x \<in> set want. reaches x) - (\<Union>x \<in> set haves. reaches x)"
  by (rule find_reusable_run [OF assms])

definition tiny_bitmap_bytes :: bytes where
  "tiny_bitmap_bytes =
     bitmap_file (\<lambda>c. [c]) 5 (replicate 20 NUL) (replicate 4 NUL) (entries tiny_bitmap) (replicate 20 NUL)"

definition tiny_disk :: disk where
  "tiny_disk =
     \<lparr> dk_files = [(''/p/a.idx'', []), (''/p/a.bitmap'', tiny_bitmap_bytes), (''/p/a.rev'', rev_file [2, 0, 1] (replicate 20 NUL))],
       dk_events = [] \<rparr>"

definition tiny_ops :: "(unit, nat) index_ops" where
  "tiny_ops = \<lparr> ix_open = (\<lambda>_. retA ()), ix_num_objects = (\<lambda>_. 3), ix_oid_at = (\<lambda>_. tiny_index) \<rparr>"

lemma tiny_parse:
  "parse_rev (rev_file [2, 0, 1] (replicate 20 NUL)) 3 = Inr [2, 0, 1]"
  "parse_bitmap tiny_ewah tiny_bitmap_bytes = Inr (Some (entries tiny_bitmap, 5))"
proof -
  show "parse_rev (rev_file [2, 0, 1] (replicate 20 NUL)) 3 = Inr [2, 0, 1]"
    using parse_rev_file [of "[2, 0, 1]" "replicate 20 NUL"] by (simp add: numeral_3_eq_3)
  show "parse_bitmap tiny_ewah tiny_bitmap_bytes = Inr (Some (entries tiny_bitmap, 5))"
    unfolding tiny_bitmap_bytes_def by (rule parse_bitmap_file [OF tiny_law]) (simp_all add: tiny_bitmap_def entry_ok_def)
qed

lemma tiny_paths:
  "with_extension ''/p/a.idx'' ''bitmap'' = ''/p/a.bitmap''" "with_extension ''/p/a.idx'' ''rev'' = ''/p/a.rev''"
  "with_extension ''/p/a.idx'' ''pack'' = ''/p/a.pack''" "extension ''/p/a.idx'' = Some ''idx''"
  by code_simp+

lemma tiny_dir: "dir_entries ''/p'' (dk_files tiny_disk) = [''/p/a.idx'', ''/p/a.bitmap'', ''/p/a.rev'']"
  by (simp add: dir_entries_def tiny_disk_def path_join_def)

lemma quiet_disk_op: "dk_events s = [] \<Longrightarrow> disk_op g f s = (fst (f (dk_files s)), s\<lparr> dk_files := snd (f (dk_files s)) \<rparr>)"
  by (simp add: disk_op_def disk_tick_def split: prod.split)

lemma tiny_load: "load_bitmap tiny_ewah ''/p/a.idx'' 3 tiny_disk = (Inr (Some tiny_bitmap), tiny_disk)"
proof -
  have "dk_events tiny_disk = []" "tiny_disk\<lparr> dk_files := dk_files tiny_disk \<rparr> = tiny_disk"
    "map_of (dk_files tiny_disk) ''/p/a.bitmap'' = Some tiny_bitmap_bytes"
    "map_of (dk_files tiny_disk) ''/p/a.rev'' = Some (rev_file [2, 0, 1] (replicate 20 NUL))"
    by (simp_all add: tiny_disk_def)
  then show ?thesis
    using tiny_parse
    by (simp add: load_bitmap_def Let_def bindA_def fs_exists_def fs_metadata_def fs_read_def quiet_disk_op ctxA_def map_errA_def
        tiny_paths) (simp add: tiny_bitmap_def numeral_3_eq_3)
qed


lemma tiny_sidecars: "sidecars_sound tiny_ops tiny_ewah tiny_reaches (dk_files tiny_disk)"
proof -
  have "b = tiny_bitmap" if b: "loaded_from tiny_ewah (dk_files tiny_disk) p 3 b" for p and b :: "(nat, char) pack_bitmap"
  proof -
    have ext: "last (with_extension p ''bitmap'') = CHR ''p''" "last (with_extension p ''rev'') = CHR ''v''"
      by (simp_all add: with_extension_def)
    from b obtain bb rb flags where files: "map_of (dk_files tiny_disk) (with_extension p ''bitmap'') = Some bb"
      "map_of (dk_files tiny_disk) (with_extension p ''rev'') = Some rb"
      and parse: "parse_rev rb 3 = Inr (offset_pos_to_idx_pos b)" "parse_bitmap tiny_ewah bb = Inr (Some (entries b, flags))"
      "offset_pos_to_oid b = replicate (length (offset_pos_to_idx_pos b)) None" "oid_to_entry b = Map.empty"
      "bm_object_count b = 3" by (auto simp: loaded_from_def)
    have "bb = tiny_bitmap_bytes" "rb = rev_file [2, 0, 1] (replicate 20 NUL)"
      using files ext by (auto simp: tiny_disk_def split: if_splits)
    with parse tiny_parse show ?thesis by (cases b) (auto simp: tiny_bitmap_def numeral_3_eq_3)
  qed
  moreover have "index_law tiny_index 3 (\<lambda>k. k + 10)" by (simp add: index_law_def tiny_index_def)
  ultimately show ?thesis using tiny_sound unfolding sidecars_sound_def by (auto simp: tiny_ops_def)
qed

lemma tiny_found: "find_reusable_pack tiny_ops tiny_ewah ''/p'' [11] [] tiny_disk = (Inr (Inr (Some ''/p/a.pack'')), tiny_disk)"
proof -
  have law: "index_law tiny_index (bm_object_count tiny_bitmap) (\<lambda>k. k + 10)" "oid_to_entry tiny_bitmap = Map.empty"
    by (simp_all add: index_law_def tiny_index_def tiny_bitmap_def)
  obtain b' where b': "build_oid_index tiny_index tiny_bitmap = Inr b'" "built tiny_ewah (\<lambda>k. k + 10) tiny_reaches tiny_bitmap b'"
    using build_oid_index_correct [OF tiny_sound law] by blast
  have "bitmap_commits (\<lambda>k. k + 10) tiny_bitmap = {10, 11}" by (simp add: bitmap_commits_def tiny_bitmap_def)
  with covers_exactly_sound [OF tiny_sound b'(2), of "[11]" "[]"]
  have covers: "covers_exactly tiny_ewah b' [11] [] = Inr (Some True)" unfolding tiny_objects by (simp add: tiny_reaches_def)
  have quiet: "dk_events tiny_disk = []" "tiny_disk\<lparr> dk_files := dk_files tiny_disk \<rparr> = tiny_disk" by (simp_all add: tiny_disk_def)
  show ?thesis
    using b'(1) covers tiny_load
    by (simp add: find_reusable_pack_def bindA_def attempt_def ctxA_def map_errA_def fs_read_dir_def quiet_disk_op quiet tiny_paths tiny_dir
        pack_is_exactly_reusable_def tiny_ops_def)
qed

theorem reused_pack_exact_witness:
  "find_reusable_pack tiny_ops tiny_ewah ''/p'' [11] [] tiny_disk = (Inr (Inr (Some ''/p/a.pack'')), tiny_disk) \<and>
   index_objects tiny_ops () = tiny_reaches 11"
proof -
  have "opens_only tiny_ops" by (simp add: opens_only_def tiny_ops_def)
  from reused_pack_exact [OF this tiny_sidecars tiny_found] tiny_found show ?thesis by auto
qed

end
