(* ===== verification/Pack_Objects.thy ===== *)
theory Pack_Objects
  imports KV_Pack "HOL-Library.Multiset"
begin

text \<open>
  Which objects a fetch needs, for backends that have gix's object database (\<open>pack.rs\<close>).  The database, the
  commit walk and the breadth-first tree walk are gix's; the visitors the tree walk calls are the
  program's.  A \<open>HashSet\<close> is the list of its members in the order they were inserted, as in \<open>KV_Pack\<close>.
\<close>

section \<open>What gix provides\<close>

text \<open>
  \<open>db_walk\<close> and \<open>db_walk_hiding\<close> are \<open>commit::Simple\<close>, without and with \<open>hide\<close>.  A visitor is called with
  the id of an entry and the state it keeps, and says whether to descend.
\<close>

type_synonym 'o visit = "'o \<Rightarrow> 'o list \<Rightarrow> bool \<times> 'o list"

record 'o object_db =
  db_find :: "'o \<Rightarrow> (gix_kind \<times> bytes) option res"
  db_tree_id :: "bytes \<Rightarrow> 'o res"
  db_parent_ids :: "bytes \<Rightarrow> 'o list"
  db_entries :: "bytes \<Rightarrow> (bool \<times> 'o) list"
  db_walk :: "'o list \<Rightarrow> 'o res list"
  db_walk_hiding :: "'o list \<Rightarrow> 'o list \<Rightarrow> 'o res list res"
  db_breadthfirst :: "bytes \<Rightarrow> 'o visit \<Rightarrow> 'o visit \<Rightarrow> 'o list \<Rightarrow> 'o list res"

record 'o pack_objects =
  po_objects :: "'o list"
  po_have_set :: "'o list"
  po_shallow :: "'o list"

section \<open>The visitors\<close>

definition have_visit_tree :: "'o visit" where
  "have_visit_tree x have_set = (x \<notin> set have_set, hs_insert x have_set)"

definition have_visit_nontree :: "'o visit" where
  "have_visit_nontree x have_set = (True, hs_insert x have_set)"

definition want_visit_tree :: "'o list \<Rightarrow> 'o visit" where
  "want_visit_tree have_set x result =
     (if x \<in> set have_set \<or> x \<in> set result then (False, result) else (True, hs_insert x result))"

definition want_visit_nontree :: "'o list \<Rightarrow> bool \<Rightarrow> 'o visit" where
  "want_visit_nontree have_set skip_blobs x result =
     (if skip_blobs then (False, result)
      else (True, if x \<in> set have_set then result else hs_insert x result))"

section \<open>Collecting\<close>

definition map_errR :: "('e \<Rightarrow> 'f) \<Rightarrow> ('e + 'a) \<Rightarrow> 'f + 'a" where
  "map_errR f r = (case r of Inl e \<Rightarrow> Inl (f e) | Inr x \<Rightarrow> Inr x)"

text \<open>\<open>try_find(..).map_err(..)?.ok_or_else(..)?\<close>\<close>

definition find_or ::
  "'o object_db \<Rightarrow> 'o oid_ops \<Rightarrow> bytes \<Rightarrow> 'o \<Rightarrow> (gix_kind \<times> bytes) res" where
  "find_or D H what x =
     (case db_find D x of
        Inl e \<Rightarrow> Inl (Bail (''find '' @ what @ '' '' @ to_hex H x @ '': '' @ outer_message e))
      | Inr None \<Rightarrow> Inl (Bail (what @ '' '' @ to_hex H x @ '' not found''))
      | Inr (Some ob) \<Rightarrow> Inr ob)"

definition tree_of_commit :: "'o object_db \<Rightarrow> 'o oid_ops \<Rightarrow> bytes \<Rightarrow> bytes \<Rightarrow> 'o \<Rightarrow> 'o res" where
  "tree_of_commit D H what msg c =
     bindR (find_or D H what c) (\<lambda>(_, data).
       map_errR (\<lambda>e. Bail (msg @ outer_message e)) (db_tree_id D data))"

fun have_trees :: "'o object_db \<Rightarrow> 'o oid_ops \<Rightarrow> 'o list \<Rightarrow> 'o list \<Rightarrow> 'o list res" where
  "have_trees D H have_set [] = Inr have_set"
| "have_trees D H have_set (c # cs) =
     (let have_set = hs_insert c have_set in
      bindR (tree_of_commit D H ''have commit'' ''read tree id from have commit: '' c) (\<lambda>tree_id.
      if tree_id \<in> set have_set then have_trees D H have_set cs
      else
        (let have_set = hs_insert tree_id have_set in
         bindR (find_or D H ''have tree'' tree_id) (\<lambda>(_, data).
         bindR (map_errR (\<lambda>e. Bail (''have tree walk: '' @ outer_message e))
                  (db_breadthfirst D data have_visit_tree have_visit_nontree have_set)) (\<lambda>have_set.
         have_trees D H have_set cs)))))"

definition build_have_set :: "'o object_db \<Rightarrow> 'o oid_ops \<Rightarrow> 'o list \<Rightarrow> 'o list res" where
  "build_have_set D H haves =
     bindR (map_errR (\<lambda>e. Bail (''have commit traversal: '' @ outer_message e)) (mapR id (db_walk D haves))) (\<lambda>have_commits.
     have_trees D H [] have_commits)"

text \<open>The loop of \<open>depth_limited_commits\<close>: commits wait with their depth, counted from 1.\<close>

fun enqueue :: "'o list \<Rightarrow> nat \<Rightarrow> 'o list \<Rightarrow> ('o \<times> nat) list \<Rightarrow> ('o \<times> nat) list \<times> 'o list" where
  "enqueue [] d visited queue = (queue, visited)"
| "enqueue (p # ps) d visited queue =
     (if p \<in> set visited then enqueue ps d visited queue
      else enqueue ps d (visited @ [p]) (queue @ [(p, d)]))"

fun fresh :: "'o set \<Rightarrow> 'o list \<Rightarrow> 'o list" where
  "fresh V [] = []"
| "fresh V (p # ps) = (if p \<in> V then fresh V ps else p # fresh (insert p V) ps)"

lemma enqueue_fresh:
  "enqueue ps d visited queue = (queue @ map (\<lambda>c. (c, d)) (fresh (set visited) ps), visited @ fresh (set visited) ps)"
  by (induction ps d visited queue rule: enqueue.induct) auto

text \<open>Each commit taken from the queue is replaced by finitely many of greater depth.\<close>

definition queue_rank :: "nat \<Rightarrow> ('o \<times> nat) list \<Rightarrow> nat multiset" where
  "queue_rank depth queue = mset (map (\<lambda>(c, d). depth - d) queue)"

lemma queue_rank_less:
  assumes "\<And>x. x \<in> set new \<Longrightarrow> depth - snd x < depth - d"
  shows "(queue_rank depth (queue @ new), queue_rank depth ((c, d) # queue)) \<in> mult less_than"
proof -
  have "(queue_rank depth queue + queue_rank depth new, queue_rank depth queue + {#depth - d#}) \<in> mult less_than"
    using assms by (intro one_step_implies_mult) (fastforce simp: queue_rank_def)+
  then show ?thesis by (simp add: queue_rank_def)
qed

function depth_loop ::
  "'o object_db \<Rightarrow> 'o oid_ops \<Rightarrow> 'o list \<Rightarrow> nat \<Rightarrow> ('o \<times> nat) list \<Rightarrow> 'o list \<Rightarrow> 'o list \<Rightarrow> 'o list
     \<Rightarrow> ('o list \<times> 'o list) res" where
  "depth_loop D H have_set depth [] visited result shallow = Inr (result, shallow)"
| "depth_loop D H have_set depth ((c, current) # queue) visited result shallow =
     (if c \<in> set have_set then depth_loop D H have_set depth queue visited result shallow
      else
        (case find_or D H ''commit'' c of
           Inl e \<Rightarrow> Inl e
         | Inr (_, data) \<Rightarrow>
             let result = result @ [c]; parents = db_parent_ids D data in
             if current \<ge> depth
             then depth_loop D H have_set depth queue visited result (if parents \<noteq> [] then shallow @ [c] else shallow)
             else
               (case enqueue parents (current + 1) visited queue of
                  (queue, visited) \<Rightarrow> depth_loop D H have_set depth queue visited result shallow)))"
  by pat_completeness auto

termination
proof (relation "inv_image (mult less_than) (\<lambda>(D, H, have_set, depth, queue, visited, result, shallow). queue_rank depth queue)", goal_cases)
  case 1
  show ?case by (simp add: wf_mult)
next
  case (2 D H have_set depth c current queue visited result shallow)
  show ?case using queue_rank_less [of "[]" depth current queue c] by simp
next
  case (3 D H have_set depth c current queue visited result shallow)
  show ?case using queue_rank_less [of "[]" depth current queue c] by simp
next
  case (4 D H have_set depth c current queue visited result shallow)
  then show ?case by (auto simp: enqueue_fresh intro!: queue_rank_less)
qed

definition depth_limited_commits ::
  "'o object_db \<Rightarrow> 'o oid_ops \<Rightarrow> 'o list \<Rightarrow> 'o list \<Rightarrow> nat \<Rightarrow> ('o list \<times> 'o list) res" where
  "depth_limited_commits D H want haves depth =
     (case enqueue want 1 [] [] of (queue, visited) \<Rightarrow> depth_loop D H haves depth queue visited [] [])"

fun split_wants :: "'o object_db \<Rightarrow> 'o list \<Rightarrow> 'o list \<Rightarrow> 'o list \<Rightarrow> 'o list \<times> 'o list" where
  "split_wants D [] commit_wants direct = (commit_wants, direct)"
| "split_wants D (x # xs) commit_wants direct =
     (case db_find D x of
        Inr (Some (kind, _)) \<Rightarrow>
          if kind = GCommit then split_wants D xs (commit_wants @ [x]) direct
          else split_wants D xs commit_wants (hs_insert x direct)
      | _ \<Rightarrow> split_wants D xs (commit_wants @ [x]) direct)"

fun want_trees ::
  "'o object_db \<Rightarrow> 'o oid_ops \<Rightarrow> 'o list \<Rightarrow> bool \<Rightarrow> 'o list \<Rightarrow> 'o list \<Rightarrow> 'o list res" where
  "want_trees D H have_set skip_blobs obs [] = Inr obs"
| "want_trees D H have_set skip_blobs obs (c # cs) =
     (let obs = hs_insert c obs in
      bindR (tree_of_commit D H ''commit'' ''read tree id from commit: '' c) (\<lambda>tree_id.
      if tree_id \<in> set obs \<or> tree_id \<in> set have_set then want_trees D H have_set skip_blobs obs cs
      else
        (let obs = hs_insert tree_id obs in
         bindR (find_or D H ''tree'' tree_id) (\<lambda>(_, data).
         bindR (map_errR (\<lambda>e. Bail (''tree walk: '' @ outer_message e))
                  (db_breadthfirst D data (want_visit_tree have_set) (want_visit_nontree have_set skip_blobs) obs)) (\<lambda>obs.
         want_trees D H have_set skip_blobs obs cs)))))"

definition objects_for_fetch_with_have_set ::
  "'o object_db \<Rightarrow> 'o oid_ops \<Rightarrow> 'o list \<Rightarrow> 'o list \<Rightarrow> nat option \<Rightarrow> pack_filter option \<Rightarrow> 'o list \<Rightarrow> 'o pack_objects res" where
  "objects_for_fetch_with_have_set D H want haves deepen filt have_set =
     (case split_wants D want [] [] of
        (commit_wants, direct) \<Rightarrow>
          bindR (case deepen of
                   Some depth \<Rightarrow> depth_limited_commits D H commit_wants haves depth
                 | None \<Rightarrow>
                     if commit_wants \<noteq> [] then
                       bindR (db_walk_hiding D commit_wants haves) (\<lambda>walk.
                       bindR (map_errR (\<lambda>e. Bail (''commit traversal: '' @ outer_message e)) (mapR id walk)) (\<lambda>cs. Inr (cs, [])))
                     else Inr ([], [])) (\<lambda>(want_commits, shallow).
          if filt = Some TreeNone then
            Inr \<lparr> po_objects = want_commits @ direct, po_have_set = have_set, po_shallow = shallow \<rparr>
          else
            bindR (want_trees D H have_set (filt = Some BlobNone) direct want_commits) (\<lambda>obs.
            Inr \<lparr> po_objects = obs, po_have_set = have_set, po_shallow = shallow \<rparr>)))"

definition objects_for_fetch_filtered ::
  "'o object_db \<Rightarrow> 'o oid_ops \<Rightarrow> 'o list \<Rightarrow> 'o list \<Rightarrow> nat option \<Rightarrow> pack_filter option \<Rightarrow> 'o pack_objects res" where
  "objects_for_fetch_filtered D H want haves deepen filt =
     bindR (build_have_set D H haves) (\<lambda>have_set.
     objects_for_fetch_with_have_set D H want haves deepen filt have_set)"

end
