(* ===== verification/Pack_Objects_Properties.thy ===== *)
theory Pack_Objects_Properties
  imports Pack_Objects
begin

text \<open>
  The objects \<open>pack.rs\<close> selects for a fetch are what the wanted history has and the client's history
  lacks; a shallow fetch takes the commits up to a distance and names those at the boundary.
\<close>

section \<open>Trees in the database\<close>

definition stored_tree :: "'o object_db \<Rightarrow> 'o \<Rightarrow> bool" where
  "stored_tree D x \<longleftrightarrow> (\<exists>d. db_find D x = Inr (Some (GTree, d)))"

definition kids :: "'o object_db \<Rightarrow> 'o \<Rightarrow> (bool \<times> 'o) list" where
  "kids D x = (case db_find D x of Inr (Some (GTree, d)) \<Rightarrow> db_entries D d | _ \<Rightarrow> [])"

abbreviation kid_ids :: "'o object_db \<Rightarrow> 'o \<Rightarrow> 'o list" where
  "kid_ids D x \<equiv> map snd (kids D x)"

text \<open>The entries of stored trees that are marked as trees are the ones that are stored as trees.\<close>

definition well_typed :: "'o object_db \<Rightarrow> bool" where
  "well_typed D \<longleftrightarrow> (\<forall>x b y. (b, y) \<in> set (kids D x) \<longrightarrow> (b \<longleftrightarrow> stored_tree D y))"

lemma kids_nontree: "\<not> stored_tree D x \<Longrightarrow> kids D x = []"
  by (auto simp: kids_def stored_tree_def split: sum.splits option.splits gix_kind.splits)

text \<open>
  What the tree walk does with its visitors: it calls them for the entries of the trees it has
  descended into, in some order, and descends where the visitor says so.
\<close>

inductive tree_walk :: "('o \<Rightarrow> (bool \<times> 'o) list) \<Rightarrow> 'o visit \<Rightarrow> 'o visit \<Rightarrow> (bool \<times> 'o) list \<Rightarrow> 'o list \<Rightarrow> 'o list \<Rightarrow> bool"
  for K vt vn where
  finish: "tree_walk K vt vn [] st st"
| nontree: "vn x st = (b, st') \<Longrightarrow> tree_walk K vt vn (p @ q) st' fin \<Longrightarrow> tree_walk K vt vn (p @ (False, x) # q) st fin"
| skip: "vt x st = (False, st') \<Longrightarrow> tree_walk K vt vn (p @ q) st' fin \<Longrightarrow> tree_walk K vt vn (p @ (True, x) # q) st fin"
| descend: "vt x st = (True, st') \<Longrightarrow> tree_walk K vt vn (p @ q @ K x) st' fin \<Longrightarrow> tree_walk K vt vn (p @ (True, x) # q) st fin"

definition walker_law :: "'o object_db \<Rightarrow> bool" where
  "walker_law D \<longleftrightarrow>
     (\<forall>x d vt vn st. db_find D x = Inr (Some (GTree, d)) \<longrightarrow>
        (\<exists>fin. db_breadthfirst D d vt vn st = Inr fin \<and> tree_walk (kids D) vt vn (db_entries D d) st fin))"

definition typed_entries :: "'o object_db \<Rightarrow> (bool \<times> 'o) list \<Rightarrow> bool" where
  "typed_entries D es \<longleftrightarrow> (\<forall>b y. (b, y) \<in> set es \<longrightarrow> (b \<longleftrightarrow> stored_tree D y))"

lemma ancestors_kid: "y \<in> set (C x) \<Longrightarrow> ancestors C y \<subseteq> ancestors C x"
  using ancestors_least [OF closed_ancestors, of y C "{x}"] ancestors_parent [OF ancestors_self, of y C x] by simp

definition below :: "'o object_db \<Rightarrow> (bool \<times> 'o) list \<Rightarrow> 'o set" where
  "below D es = (\<Union>y \<in> snd ` set es. ancestors (kid_ids D) y)"

lemma below_simps:
  "below D (p @ q) = below D p \<union> below D q" "below D ((b, x) # q) = ancestors (kid_ids D) x \<union> below D q" "below D [] = {}"
  by (auto simp: below_def)

lemma below_kids: "below D (kids D x) \<subseteq> ancestors (kid_ids D) x"
  using ancestors_kid [of _ "kid_ids D" x] by (auto simp: below_def)

text \<open>The walk with the have-side visitor adds everything below the entries.\<close>

lemma have_walk:
  assumes "well_typed D" "tree_walk (kids D) have_visit_tree have_visit_nontree es st fin" "typed_entries D es"
    "\<forall>x \<in> set st. set (kid_ids D x) \<subseteq> set st \<union> snd ` set es"
  shows "closed (kid_ids D) (set fin) \<and> set st \<union> snd ` set es \<subseteq> set fin \<and>
    set fin \<subseteq> set st \<union> below D es"
  using assms(2-4)
proof (induction rule: tree_walk.induct)
  case (finish st)
  then show ?case by (auto simp: closed_def)
next
  case (nontree x st b st' p q fin)
  have x: "kids D x = []" using nontree.prems(1) by (intro kids_nontree) (auto simp: typed_entries_def)
  have st': "set st' = insert x (set st)" using nontree.hyps(1) by (auto simp: have_visit_nontree_def)
  have "typed_entries D (p @ q)" using nontree.prems(1) by (auto simp: typed_entries_def)
  moreover have "\<forall>y \<in> set st'. set (kid_ids D y) \<subseteq> set st' \<union> snd ` set (p @ q)"
    using nontree.prems(2) x unfolding st' by auto
  ultimately have "closed (kid_ids D) (set fin)" "set st' \<union> snd ` set (p @ q) \<subseteq> set fin" "set fin \<subseteq> set st' \<union> below D (p @ q)"
    using nontree.IH by blast+
  then show ?case using st' by (auto simp: below_simps)
next
  case (skip x st st' p q fin)
  then have st': "x \<in> set st" "st' = st" by (auto simp: have_visit_tree_def hs_insert_def)
  have "typed_entries D (p @ q)" using skip.prems(1) by (auto simp: typed_entries_def)
  moreover have "\<forall>y \<in> set st'. set (kid_ids D y) \<subseteq> set st' \<union> snd ` set (p @ q)"
    using skip.prems(2) st' by auto
  ultimately have "closed (kid_ids D) (set fin)" "set st' \<union> snd ` set (p @ q) \<subseteq> set fin" "set fin \<subseteq> set st' \<union> below D (p @ q)"
    using skip.IH by blast+
  then show ?case using st' by (auto simp: below_simps)
next
  case (descend x st st' p q fin)
  then have st': "st' = hs_insert x st" by (simp add: have_visit_tree_def)
  have "typed_entries D (p @ q @ kids D x)"
    using descend.prems(1) assms(1) by (auto simp: typed_entries_def well_typed_def)
  moreover have "\<forall>y \<in> set st'. set (kid_ids D y) \<subseteq> set st' \<union> snd ` set (p @ q @ kids D x)"
    using descend.prems(2) unfolding st' by auto
  ultimately have IH: "closed (kid_ids D) (set fin)" "set st' \<union> snd ` set (p @ q @ kids D x) \<subseteq> set fin"
    "set fin \<subseteq> set st' \<union> below D (p @ q @ kids D x)"
    using descend.IH by blast+
  have "x \<in> ancestors (kid_ids D) x" by simp
  then have "insert x (set st) \<union> below D (p @ q @ kids D x) \<subseteq> set st \<union> below D (p @ (True, x) # q)"
    unfolding below_simps using below_kids [of D x] by blast
  moreover have "set st \<union> snd ` set (p @ (True, x) # q) \<subseteq> set fin" using IH(2) st' by auto
  moreover have "set st' = insert x (set st)" using st' by simp
  ultimately show ?case using IH(1,3) by blast
qed

text \<open>What the want-side visitor takes: not what the client has, and no blobs if they are filtered.\<close>

definition wanted :: "'o object_db \<Rightarrow> 'o set \<Rightarrow> bool \<Rightarrow> 'o set \<Rightarrow> 'o set" where
  "wanted D Hs sb S = {y \<in> S. y \<notin> Hs \<and> (sb \<longrightarrow> stored_tree D y)}"

definition settled :: "'o object_db \<Rightarrow> 'o set \<Rightarrow> bool \<Rightarrow> 'o set \<Rightarrow> 'o \<Rightarrow> bool" where
  "settled D Hs sb S y \<longleftrightarrow> y \<in> Hs \<or> y \<in> S \<or> sb \<and> \<not> stored_tree D y"

lemma settled_mono: "settled D Hs sb S y \<Longrightarrow> S \<subseteq> S' \<Longrightarrow> settled D Hs sb S' y"
  by (auto simp: settled_def)

lemma want_walk:
  assumes "well_typed D" "tree_walk (kids D) (want_visit_tree hs) (want_visit_nontree hs sb) es st fin" "typed_entries D es"
    "\<forall>x \<in> set st. \<forall>y \<in> set (kid_ids D x). settled D (set hs) sb (set st \<union> snd ` set es) y"
  shows "set st \<subseteq> set fin \<and> (\<forall>y \<in> snd ` set es. settled D (set hs) sb (set fin) y) \<and>
    (\<forall>x \<in> set fin. \<forall>y \<in> set (kid_ids D x). settled D (set hs) sb (set fin) y) \<and>
    set fin \<subseteq> set st \<union> wanted D (set hs) sb (below D es)"
  using assms(2-4)
proof (induction rule: tree_walk.induct)
  case (finish st)
  then show ?case by simp
next
  case (nontree x st b st' p q fin)
  have x: "\<not> stored_tree D x" using nontree.prems(1) by (auto simp: typed_entries_def)
  note kx = kids_nontree [OF x]
  have te: "typed_entries D (p @ q)" using nontree.prems(1) by (auto simp: typed_entries_def)
  have st': "set st \<subseteq> set st'" "settled D (set hs) sb (set st') x" "set st' \<subseteq> set st \<union> wanted D (set hs) sb {x}"
    using nontree.hyps(1) x by (auto simp: want_visit_nontree_def settled_def wanted_def split: if_splits)
  have inv: "settled D (set hs) sb (set st' \<union> snd ` set (p @ q)) z" if y: "y \<in> set st'" and z: "z \<in> set (kid_ids D y)" for y z
  proof -
    have "y \<noteq> x" using z kx by auto
    with y st'(3) have "y \<in> set st" by (auto simp: wanted_def)
    with nontree.prems(2) z have "settled D (set hs) sb (set st \<union> snd ` set (p @ (False, x) # q)) z" by blast
    then show ?thesis using st'(1,2) by (auto simp: settled_def)
  qed
  from nontree.IH [OF te] inv have IH: "set st' \<subseteq> set fin" "\<forall>y \<in> snd ` set (p @ q). settled D (set hs) sb (set fin) y"
    "\<forall>x \<in> set fin. \<forall>y \<in> set (kid_ids D x). settled D (set hs) sb (set fin) y"
    "set fin \<subseteq> set st' \<union> wanted D (set hs) sb (below D (p @ q))" by blast+
  have "settled D (set hs) sb (set fin) x" using st'(2) IH(1) by (rule settled_mono)
  then have "\<forall>y \<in> snd ` set (p @ (False, x) # q). settled D (set hs) sb (set fin) y" using IH(2) by auto
  moreover have "wanted D (set hs) sb {x} \<subseteq> wanted D (set hs) sb (below D (p @ (False, x) # q))"
    "wanted D (set hs) sb (below D (p @ q)) \<subseteq> wanted D (set hs) sb (below D (p @ (False, x) # q))"
    by (auto simp: wanted_def below_simps)
  then have "set fin \<subseteq> set st \<union> wanted D (set hs) sb (below D (p @ (False, x) # q))" using IH(4) st'(3) by blast
  ultimately show ?case using IH(1,3) st'(1) by blast
next
  case (skip x st st' p q fin)
  have te: "typed_entries D (p @ q)" using skip.prems(1) by (auto simp: typed_entries_def)
  have st': "st' = st" "x \<in> set hs \<or> x \<in> set st" using skip.hyps(1) by (auto simp: want_visit_tree_def split: if_splits)
  have "\<forall>y \<in> set st'. \<forall>z \<in> set (kid_ids D y). settled D (set hs) sb (set st' \<union> snd ` set (p @ q)) z"
    using skip.prems(2) st' by (auto simp: settled_def)
  from skip.IH [OF te this] have IH: "set st' \<subseteq> set fin" "\<forall>y \<in> snd ` set (p @ q). settled D (set hs) sb (set fin) y"
    "\<forall>x \<in> set fin. \<forall>y \<in> set (kid_ids D x). settled D (set hs) sb (set fin) y"
    "set fin \<subseteq> set st' \<union> wanted D (set hs) sb (below D (p @ q))" by blast+
  have "settled D (set hs) sb (set fin) x" using st' IH(1) by (auto simp: settled_def)
  moreover have "wanted D (set hs) sb (below D (p @ q)) \<subseteq> wanted D (set hs) sb (below D (p @ (True, x) # q))"
    by (auto simp: wanted_def below_simps)
  ultimately show ?case using IH st' by auto
next
  case (descend x st st' p q fin)
  have te: "typed_entries D (p @ q @ kids D x)"
    using descend.prems(1) assms(1) by (auto simp: typed_entries_def well_typed_def)
  have x: "stored_tree D x" using descend.prems(1) by (auto simp: typed_entries_def)
  have st': "set st' = insert x (set st)" "x \<notin> set hs" using descend.hyps(1) by (auto simp: want_visit_tree_def split: if_splits)
  have inv: "settled D (set hs) sb (set st' \<union> snd ` set (p @ q @ kids D x)) z" if y: "y \<in> set st'" and z: "z \<in> set (kid_ids D y)" for y z
  proof (cases "y = x")
    case True
    with z show ?thesis by (auto simp: settled_def)
  next
    case False
    with y st'(1) have "y \<in> set st" by simp
    with descend.prems(2) z have "settled D (set hs) sb (set st \<union> snd ` set (p @ (True, x) # q)) z" by blast
    then show ?thesis using st'(1) by (auto simp: settled_def)
  qed
  from descend.IH [OF te] inv have IH: "set st' \<subseteq> set fin" "\<forall>y \<in> snd ` set (p @ q @ kids D x). settled D (set hs) sb (set fin) y"
    "\<forall>x \<in> set fin. \<forall>y \<in> set (kid_ids D x). settled D (set hs) sb (set fin) y"
    "set fin \<subseteq> set st' \<union> wanted D (set hs) sb (below D (p @ q @ kids D x))" by blast+
  have "settled D (set hs) sb (set fin) x" using st' IH(1) by (auto simp: settled_def)
  moreover have "wanted D (set hs) sb (below D (p @ q @ kids D x)) \<subseteq> wanted D (set hs) sb (below D (p @ (True, x) # q))"
    using below_kids [of D x] by (auto simp: wanted_def below_simps)
  moreover have "x \<in> wanted D (set hs) sb (below D (p @ (True, x) # q))" using st'(2) x by (auto simp: wanted_def below_simps)
  ultimately show ?case using IH st' by auto
qed

lemma settled_below:
  assumes H: "closed (kid_ids D) Hs" and S: "\<forall>x \<in> S. \<forall>y \<in> set (kid_ids D x). settled D Hs sb S y" and y: "settled D Hs sb S y"
  shows "wanted D Hs sb (ancestors (kid_ids D) y) \<subseteq> S"
proof -
  have "settled D Hs sb S z" if "(y, z) \<in> (parent_rel (kid_ids D))\<^sup>*" for z
    using that
  proof (induction rule: rtrancl_induct)
    case base
    show ?case by (rule y)
  next
    case (step u v)
    then have v: "v \<in> set (kid_ids D u)" by (auto simp: parent_rel_def)
    then have "kids D u \<noteq> []" by auto
    with step.IH have "u \<in> Hs \<or> u \<in> S" using kids_nontree by (fastforce simp: settled_def)
    then show ?case using v H S by (auto simp: closed_def settled_def)
  qed
  then show ?thesis by (fastforce simp: wanted_def ancestors_def settled_def)
qed

section \<open>Trees of commits\<close>

definition tree_at :: "'o object_db \<Rightarrow> 'o \<Rightarrow> 'o" where
  "tree_at D c = (case db_find D c of Inr (Some (_, d)) \<Rightarrow> projr (db_tree_id D d) | _ \<Rightarrow> c)"

text \<open>The commit is stored, its tree can be read from it, and the tree is stored.\<close>

definition commit_ok :: "'o object_db \<Rightarrow> 'o \<Rightarrow> bool" where
  "commit_ok D c \<longleftrightarrow> (\<exists>d t. db_find D c = Inr (Some (GCommit, d)) \<and> db_tree_id D d = Inr t \<and> stored_tree D t)"

lemma commit_okE:
  assumes "commit_ok D c"
  obtains d td where "db_find D c = Inr (Some (GCommit, d))" "db_tree_id D d = Inr (tree_at D c)"
    "db_find D (tree_at D c) = Inr (Some (GTree, td))" "kids D c = []" "kids D (tree_at D c) = db_entries D td"
  using assms by (auto simp: commit_ok_def tree_at_def stored_tree_def kids_def)

abbreviation tree_objects :: "'o object_db \<Rightarrow> 'o \<Rightarrow> 'o set" where
  "tree_objects D c \<equiv> ancestors (kid_ids D) (tree_at D c)"

lemma closed_insert: "closed P S \<Longrightarrow> P c = [] \<Longrightarrow> closed P (insert c S)"
  by (auto simp: closed_def)

lemma typed_kids: "well_typed D \<Longrightarrow> typed_entries D (kids D x)"
  by (simp add: well_typed_def typed_entries_def)

lemma have_trees_exact:
  assumes "well_typed D" "walker_law D" "\<forall>c \<in> set cs. commit_ok D c" "closed (kid_ids D) (set hs)"
  shows "\<exists>fin. have_trees D H hs cs = Inr fin \<and> closed (kid_ids D) (set fin) \<and>
    set fin = set hs \<union> (\<Union>c \<in> set cs. insert c (tree_objects D c))"
  using assms(3,4)
proof (induction cs arbitrary: hs)
  case Nil
  then show ?case by simp
next
  case (Cons c cs)
  obtain d td where c: "db_find D c = Inr (Some (GCommit, d))" "db_tree_id D d = Inr (tree_at D c)"
    "db_find D (tree_at D c) = Inr (Some (GTree, td))" "kids D c = []" "kids D (tree_at D c) = db_entries D td"
    using Cons.prems(1) by (auto elim: commit_okE)
  have cl: "closed (kid_ids D) (set (hs_insert c hs))" using Cons.prems(2) c(4) by (simp add: closed_insert)
  have toc: "tree_of_commit D H ''have commit'' ''read tree id from have commit: '' c = Inr (tree_at D c)"
    using c by (simp add: tree_of_commit_def find_or_def map_errR_def)
  show ?case
  proof (cases "tree_at D c \<in> set (hs_insert c hs)")
    case True
    then have "tree_objects D c \<subseteq> set (hs_insert c hs)" by (rule ancestors_least [OF cl])
    then show ?thesis using Cons.IH [OF _ cl] Cons.prems(1) True toc by auto
  next
    case False
    let ?st = "hs_insert (tree_at D c) (hs_insert c hs)"
    obtain fin where fin: "db_breadthfirst D td have_visit_tree have_visit_nontree ?st = Inr fin"
      "tree_walk (kids D) have_visit_tree have_visit_nontree (kids D (tree_at D c)) ?st fin"
      using assms(2) c(3,5) unfolding walker_law_def by metis
    have "\<forall>x \<in> set ?st. set (kid_ids D x) \<subseteq> set ?st \<union> snd ` set (kids D (tree_at D c))"
      using cl by (simp add: closed_def) blast
    with have_walk [OF assms(1) fin(2) typed_kids [OF assms(1)]]
    have w: "closed (kid_ids D) (set fin)" "set ?st \<subseteq> set fin" "set fin \<subseteq> set ?st \<union> below D (kids D (tree_at D c))" by blast+
    have "tree_objects D c \<subseteq> set fin" using w(1,2) by (intro ancestors_least) auto
    moreover have "set ?st \<subseteq> set hs \<union> insert c (tree_objects D c)" by auto
    ultimately have eq: "set fin = set hs \<union> insert c (tree_objects D c)"
      using w(2,3) below_kids [of D "tree_at D c"] by auto
    have "have_trees D H hs (c # cs) = have_trees D H fin cs"
      using toc False c(3) fin(1) by (simp add: find_or_def map_errR_def)
    then show ?thesis using Cons.IH [OF _ w(1)] Cons.prems(1) eq by auto
  qed
qed

lemma want_trees_exact:
  assumes "well_typed D" "walker_law D" "closed (kid_ids D) (set hs)" "\<forall>c \<in> set cs. commit_ok D c"
    "\<forall>x \<in> set obs. \<forall>y \<in> set (kid_ids D x). settled D (set hs) sb (set obs) y"
  shows "\<exists>fin. want_trees D H hs sb obs cs = Inr fin \<and>
    set fin = set obs \<union> (\<Union>c \<in> set cs. insert c (wanted D (set hs) sb (tree_objects D c)))"
  using assms(4,5)
proof (induction cs arbitrary: obs)
  case Nil
  then show ?case by simp
next
  case (Cons c cs)
  obtain d td where c: "db_find D c = Inr (Some (GCommit, d))" "db_tree_id D d = Inr (tree_at D c)"
    "db_find D (tree_at D c) = Inr (Some (GTree, td))" "kids D c = []" "kids D (tree_at D c) = db_entries D td"
    using Cons.prems(1) by (auto elim: commit_okE)
  let ?obs = "hs_insert c obs" and ?t = "tree_at D c"
  have inv: "\<forall>x \<in> set ?obs. \<forall>y \<in> set (kid_ids D x). settled D (set hs) sb (set ?obs) y"
    using Cons.prems(2) c(4) by (auto simp: settled_def)
  have toc: "tree_of_commit D H ''commit'' ''read tree id from commit: '' c = Inr ?t"
    using c by (simp add: tree_of_commit_def find_or_def map_errR_def)
  have t: "stored_tree D ?t" using c(3) by (auto simp: stored_tree_def)
  show ?case
  proof (cases "?t \<in> set ?obs \<or> ?t \<in> set hs")
    case True
    then have "wanted D (set hs) sb (tree_objects D c) \<subseteq> set ?obs"
      by (intro settled_below [OF assms(3) inv]) (auto simp: settled_def)
    then show ?thesis using Cons.IH [OF _ inv] Cons.prems(1) True toc by auto
  next
    case False
    let ?st = "hs_insert ?t ?obs"
    let ?w = "wanted D (set hs) sb (tree_objects D c)"
    obtain fin where fin: "db_breadthfirst D td (want_visit_tree hs) (want_visit_nontree hs sb) ?st = Inr fin"
      "tree_walk (kids D) (want_visit_tree hs) (want_visit_nontree hs sb) (kids D ?t) ?st fin"
      using assms(2) c(3,5) unfolding walker_law_def by metis
    have "\<forall>x \<in> set ?st. \<forall>y \<in> set (kid_ids D x). settled D (set hs) sb (set ?st \<union> snd ` set (kids D ?t)) y"
      using inv by (auto simp: settled_def)
    with want_walk [OF assms(1) fin(2) typed_kids [OF assms(1)]]
    have w: "set ?st \<subseteq> set fin" "\<forall>x \<in> set fin. \<forall>y \<in> set (kid_ids D x). settled D (set hs) sb (set fin) y"
      "set fin \<subseteq> set ?st \<union> wanted D (set hs) sb (below D (kids D ?t))" by blast+
    have "?w \<subseteq> set fin" using w(1) by (intro settled_below [OF assms(3) w(2)]) (auto simp: settled_def)
    moreover have "?t \<in> ?w" using False t by (auto simp: wanted_def)
    moreover have "wanted D (set hs) sb (below D (kids D ?t)) \<subseteq> ?w"
      using below_kids [of D ?t] by (auto simp: wanted_def)
    ultimately have eq: "set fin = set obs \<union> insert c ?w" using w(1,3) by auto
    have "want_trees D H hs sb obs (c # cs) = want_trees D H hs sb fin cs"
      using toc False c(3) fin(1) by (simp add: find_or_def map_errR_def)
    then show ?thesis using Cons.IH [OF _ w(2)] Cons.prems(1) eq by auto
  qed
qed

section \<open>Histories\<close>

definition parents_of :: "'o object_db \<Rightarrow> 'o \<Rightarrow> 'o list" where
  "parents_of D x = (case db_find D x of Inr (Some (_, d)) \<Rightarrow> db_parent_ids D d | _ \<Rightarrow> [])"

definition history :: "'o object_db \<Rightarrow> 'o list \<Rightarrow> 'o set" where
  "history D xs = (\<Union>x \<in> set xs. ancestors (parents_of D) x)"

text \<open>Everything the commits of a history bring with them.\<close>

definition closure :: "'o object_db \<Rightarrow> 'o list \<Rightarrow> 'o set" where
  "closure D xs = (\<Union>c \<in> history D xs. insert c (tree_objects D c))"

definition intact :: "'o object_db \<Rightarrow> 'o list \<Rightarrow> bool" where
  "intact D xs \<longleftrightarrow> finite (history D xs) \<and> (\<forall>c \<in> history D xs. commit_ok D c)"

text \<open>
  \<open>commit::Simple\<close> yields the commits reachable from its tips, each once, and without those reachable
  from the hidden ones.
\<close>

definition walk_law :: "'o object_db \<Rightarrow> bool" where
  "walk_law D \<longleftrightarrow>
     (\<forall>xs. intact D xs \<longrightarrow> (\<exists>cs. db_walk D xs = map Inr cs \<and> set cs = history D xs)) \<and>
     (\<forall>xs ys. intact D xs \<and> intact D ys \<longrightarrow>
        (\<exists>cs. db_walk_hiding D xs ys = Inr (map Inr cs) \<and> set cs = history D xs - history D ys))"

definition non_commit :: "'o object_db \<Rightarrow> 'o \<Rightarrow> bool" where
  "non_commit D x = (case db_find D x of Inr (Some (k, _)) \<Rightarrow> k \<noteq> GCommit | _ \<Rightarrow> False)"

lemma split_wants_step:
  "split_wants D (x # xs) cs ds =
   (if non_commit D x then split_wants D xs cs (hs_insert x ds) else split_wants D xs (cs @ [x]) ds)"
  by (simp add: non_commit_def split: sum.split option.split prod.split)

lemma split_wants_eq:
  "\<exists>es. split_wants D xs cs ds = (cs @ filter (\<lambda>x. \<not> non_commit D x) xs, es) \<and> set es = set ds \<union> {x \<in> set xs. non_commit D x}"
proof (induction xs arbitrary: cs ds)
  case Nil
  then show ?case by simp
next
  case (Cons x xs)
  show ?case using Cons [of cs "hs_insert x ds"] Cons [of "cs @ [x]" ds]
    by (cases "non_commit D x") (auto simp: split_wants_step simp del: split_wants.simps)
qed

lemma mapR_id [simp]: "mapR id (map Inr xs) = Inr xs"
  by (induction xs) auto

lemma build_have_set_exact:
  assumes "well_typed D" "walker_law D" "walk_law D" "intact D haves"
  shows "\<exists>hs. build_have_set D H haves = Inr hs \<and> closed (kid_ids D) (set hs) \<and> set hs = closure D haves"
proof -
  from assms(3,4) obtain cs where cs: "db_walk D haves = map Inr cs" "set cs = history D haves"
    unfolding walk_law_def by blast
  have "\<forall>c \<in> set cs. commit_ok D c" using assms(4) cs(2) by (simp add: intact_def)
  from have_trees_exact [OF assms(1,2) this, of "[]" H] show ?thesis
    using cs by (auto simp: build_have_set_def map_errR_def closure_def closed_def)
qed

text \<open>What a fetch is to carry: the new commits, and with them what the client lacks, as far as the filter lets it through.\<close>

definition selection :: "'o object_db \<Rightarrow> pack_filter option \<Rightarrow> 'o list \<Rightarrow> 'o list \<Rightarrow> 'o set" where
  "selection D filt want haves =
     (history D want - history D haves) \<union>
     (if filt = Some TreeNone then {}
      else wanted D (closure D haves) (filt = Some BlobNone) (\<Union>c \<in> history D want. tree_objects D c))"

lemma wanted_new_commits:
  "wanted D (closure D ys) sb (\<Union>c \<in> history D xs. tree_objects D c) =
   wanted D (closure D ys) sb (\<Union>c \<in> history D xs - history D ys. tree_objects D c)"
  by (auto simp: wanted_def closure_def)

lemma with_have_set_exact:
  fixes D :: "'o object_db"
  assumes D: "well_typed D" "walker_law D" "walk_law D" "intact D haves"
    and want: "intact D (filter (\<lambda>x. \<not> non_commit D x) want)" "\<forall>x \<in> set want. \<not> stored_tree D x"
    and hs: "closed (kid_ids D) (set hs)" "set hs = closure D haves"
  shows "\<exists>p. objects_for_fetch_with_have_set D H want haves None filt hs = Inr p \<and> po_have_set p = hs \<and> po_shallow p = [] \<and>
    set (po_objects p) = {x \<in> set want. non_commit D x} \<union> selection D filt (filter (\<lambda>x. \<not> non_commit D x) want) haves"
proof -
  let ?cw = "filter (\<lambda>x. \<not> non_commit D x) want"
  obtain ds where ds: "split_wants D want [] [] = (?cw, ds)" "set ds = {x \<in> set want. non_commit D x}"
    using split_wants_eq [of D want "[]" "[]"] by auto
  have "\<exists>cs. db_walk_hiding D ?cw haves = Inr (map Inr cs) \<and> set cs = history D ?cw - history D haves"
    using D(3,4) want(1) unfolding walk_law_def by blast
  then obtain cs where run: "(if ?cw \<noteq> [] then
       bindR (db_walk_hiding D ?cw haves) (\<lambda>walk.
       bindR (map_errR (\<lambda>e. Bail (''commit traversal: '' @ outer_message e)) (mapR id walk)) (\<lambda>cs. Inr (cs, [])))
     else Inr ([], [])) = (Inr (cs, []) :: ('o list \<times> 'o list) res)" and cs: "set cs = history D ?cw - history D haves"
    by (cases "?cw = []") (force simp: history_def map_errR_def)+
  have ok: "\<forall>c \<in> set cs. commit_ok D c" using want(1) cs by (simp add: intact_def)
  have "\<forall>x \<in> set ds. \<forall>y \<in> set (kid_ids D x). settled D (set hs) (filt = Some BlobNone) (set ds) y"
    using want(2) ds(2) by (auto simp: kids_nontree)
  from want_trees_exact [OF D(1,2) hs(1) ok this, of H] obtain fin where
    fin: "want_trees D H hs (filt = Some BlobNone) ds cs = Inr fin"
      "set fin = set ds \<union> (\<Union>c \<in> set cs. insert c (wanted D (set hs) (filt = Some BlobNone) (tree_objects D c)))" by blast
  have "(\<Union>c \<in> set cs. insert c (wanted D (set hs) (filt = Some BlobNone) (tree_objects D c))) =
    set cs \<union> wanted D (closure D haves) (filt = Some BlobNone) (\<Union>c \<in> history D ?cw - history D haves. tree_objects D c)"
    unfolding cs hs(2) by (auto simp: wanted_def)
  then have sel: "filt \<noteq> Some TreeNone \<Longrightarrow> set fin = {x \<in> set want. non_commit D x} \<union> selection D filt ?cw haves"
    unfolding fin(2) ds(2) selection_def wanted_new_commits cs by (simp add: Un_assoc)
  have "objects_for_fetch_with_have_set D H want haves None filt hs =
    Inr \<lparr> po_objects = if filt = Some TreeNone then cs @ ds else fin, po_have_set = hs, po_shallow = [] \<rparr>"
    unfolding objects_for_fetch_with_have_set_def ds(1) prod.case option.case run by (simp add: fin(1))
  then show ?thesis using sel ds(2) cs by (auto simp: selection_def)
qed


section \<open>A small database\<close>

text \<open>A walk that satisfies the law on any finite tree: \<open>fuel\<close> bounds the number of visits.\<close>

fun queue_walk :: "('o \<Rightarrow> (bool \<times> 'o) list) \<Rightarrow> 'o visit \<Rightarrow> 'o visit \<Rightarrow> nat \<Rightarrow> (bool \<times> 'o) list \<Rightarrow> 'o list \<Rightarrow> 'o list" where
  "queue_walk K vt vn (Suc fuel) ((b, x) # q) st =
     (case (if b then vt else vn) x st of
        (go, st') \<Rightarrow> queue_walk K vt vn fuel (if b \<and> go then q @ K x else q) st')"
| "queue_walk K vt vn fuel q st = st"

lemma queue_walk_law:
  assumes w: "\<And>x. (\<Sum>y \<leftarrow> map snd (K x). w y) < w x" and "(\<Sum>y \<leftarrow> map snd q. w y) \<le> fuel"
  shows "tree_walk K vt vn q st (queue_walk K vt vn fuel q st)"
  using assms(2)
proof (induction fuel arbitrary: q st)
  case 0
  have "q = []"
  proof (cases q)
    case (Cons e es)
    then show ?thesis using 0 w [of "snd e"] by simp
  qed simp
  then show ?case by (simp add: tree_walk.finish)
next
  case (Suc fuel)
  show ?case
  proof (cases q)
    case Nil
    then show ?thesis by (simp add: tree_walk.finish)
  next
    case (Cons e es)
    obtain b x where e: "e = (b, x)" by (cases e)
    obtain go st' where v: "(if b then vt else vn) x st = (go, st')" by fastforce
    have IH: "tree_walk K vt vn q' st' (queue_walk K vt vn fuel q' st')" if "q' = (if b \<and> go then es @ K x else es)" for q'
      using Suc.prems Cons e that w [of x] by (intro Suc.IH) auto
    show ?thesis
      using v IH tree_walk.nontree [of vn x st go st' K vt "[]" es] tree_walk.skip [of vt x st st' K vn "[]" es]
        tree_walk.descend [of vt x st st' K vn "[]" es]
      by (cases b; cases go) (auto simp: Cons e)
  qed
qed

text \<open>
  Six objects: a blob 0, a tree 1 that holds it, a commit 2 of that tree; a blob 3, a tree 4 that holds
  0, 1 and 3, and a commit 5 of that tree, whose parent is 2.  An object's data is its number, in unary.
\<close>

definition small_kids :: "nat \<Rightarrow> (bool \<times> nat) list" where
  "small_kids x = (if x = 1 then [(False, 0)] else if x = 4 then [(False, 0), (True, 1), (False, 3)] else [])"

definition small_walk :: "nat list \<Rightarrow> nat list" where
  "small_walk xs = (if 5 \<in> set xs then [5, 2] else if 2 \<in> set xs then [2] else [])"

definition small_db :: "nat object_db" where
  "small_db = \<lparr>
     db_find = (\<lambda>x. Inr (if x < 6 then Some ([GBlob, GTree, GCommit, GBlob, GTree, GCommit] ! x, replicate x (CHR ''1'')) else None)),
     db_tree_id = (\<lambda>d. Inr (if length d = 2 then 1 else 4)),
     db_parent_ids = (\<lambda>d. if length d = 5 then [2] else []),
     db_entries = (\<lambda>d. small_kids (length d)),
     db_walk = (\<lambda>xs. map Inr (small_walk xs)),
     db_walk_hiding = (\<lambda>xs ys. Inr (map Inr (filter (\<lambda>c. c \<notin> set (small_walk ys)) (small_walk xs)))),
     db_breadthfirst = (\<lambda>d vt vn st. Inr (queue_walk small_kids vt vn 10 (small_kids (length d)) st)) \<rparr>"

lemma small_cases: "(x :: nat) < 6 \<Longrightarrow> x = 0 \<or> x = 1 \<or> x = 2 \<or> x = 3 \<or> x = 4 \<or> x = 5"
  by arith

lemma small_kids_db: "kids small_db = small_kids"
proof
  fix x
  show "kids small_db x = small_kids x"
    using small_cases [of x] by (cases "x < 6") (auto simp: kids_def small_db_def small_kids_def)
qed

lemma small_stored_tree: "stored_tree small_db x \<longleftrightarrow> x = 1 \<or> x = 4"
  using small_cases [of x] by (cases "x < 6") (auto simp: stored_tree_def small_db_def)

lemma small_well_typed: "well_typed small_db"
  by (auto simp: well_typed_def small_kids_db small_stored_tree small_kids_def split: if_splits)

lemma small_walker_law: "walker_law small_db"
proof -
  have "tree_walk small_kids vt vn (small_kids n) st (queue_walk small_kids vt vn 10 (small_kids n) st)" for vt vn n st
    by (rule queue_walk_law [where w = "\<lambda>x. if x = 4 then 6 else if x = 1 then 2 else 1"]) (auto simp: small_kids_def)
  then show ?thesis by (auto simp: walker_law_def small_kids_db) (auto simp: small_db_def split: if_splits)
qed

lemma small_parents: "parents_of small_db x = (if x = 5 then [2] else [])"
  using small_cases [of x] by (cases "x < 6") (auto simp: parents_of_def small_db_def)

lemma small_ancestors: "ancestors (parents_of small_db) x = (if x = 5 then {5, 2} else {x})"
proof
  show "ancestors (parents_of small_db) x \<subseteq> (if x = 5 then {5, 2} else {x})"
    by (rule ancestors_least) (auto simp: closed_def small_parents)
  show "(if x = 5 then {5, 2} else {x}) \<subseteq> ancestors (parents_of small_db) x"
    using ancestors_parent [OF ancestors_self, of 2 "parents_of small_db" 5] by (auto simp: small_parents)
qed

lemma small_commit_ok: "commit_ok small_db x \<longleftrightarrow> x = 2 \<or> x = 5"
  using small_cases [of x] by (cases "x < 6") (auto simp: commit_ok_def small_stored_tree, auto simp: small_db_def)

lemma small_history: "intact small_db xs \<Longrightarrow> history small_db xs = set (small_walk xs)"
  by (auto simp: history_def intact_def small_ancestors small_commit_ok small_walk_def split: if_splits)

lemma small_walks:
  "db_walk small_db xs = map Inr (small_walk xs)"
  "db_walk_hiding small_db xs ys = Inr (map Inr (filter (\<lambda>c. c \<notin> set (small_walk ys)) (small_walk xs)))"
  by (simp_all add: small_db_def)

lemma small_walk_law: "walk_law small_db"
  unfolding walk_law_def
proof (intro conjI allI impI)
  fix xs assume "intact small_db xs"
  then show "\<exists>cs. db_walk small_db xs = map Inr cs \<and> set cs = history small_db xs"
    by (auto simp: small_history small_walks)
next
  fix xs ys assume "intact small_db xs \<and> intact small_db ys"
  then show "\<exists>cs. db_walk_hiding small_db xs ys = Inr (map Inr cs) \<and> set cs = history small_db xs - history small_db ys"
    by (intro exI [of _ "filter (\<lambda>c. c \<notin> set (small_walk ys)) (small_walk xs)"]) (auto simp: small_history small_walks)
qed

lemma small_below: "ancestors (kid_ids small_db) x = (if x = 1 then {1, 0} else if x = 4 then {4, 0, 1, 3} else {x})"
proof
  have k: "kid_ids small_db y = map snd (small_kids y)" for y by (simp add: small_kids_db)
  show "ancestors (kid_ids small_db) x \<subseteq> (if x = 1 then {1, 0} else if x = 4 then {4, 0, 1, 3} else {x})"
    by (rule ancestors_least) (auto simp: closed_def k small_kids_def)
  show "(if x = 1 then {1, 0} else if x = 4 then {4, 0, 1, 3} else {x}) \<subseteq> ancestors (kid_ids small_db) x"
    using ancestors_parent [OF ancestors_self, of _ "kid_ids small_db" x] by (auto simp: k small_kids_def)
qed

lemma small_tree_at: "tree_at small_db 2 = 1" "tree_at small_db 5 = 4"
  by (simp_all add: tree_at_def small_db_def)

lemma small_intact: "intact small_db xs \<longleftrightarrow> set xs \<subseteq> {2, 5}"
  by (auto simp: intact_def history_def small_ancestors small_commit_ok split: if_splits)

lemma small_history_of: "history small_db [5] = {5, 2}" "history small_db [2] = {2}"
  by (simp_all add: small_history small_intact small_walk_def)

lemma small_wants: "filter (\<lambda>x. \<not> non_commit small_db x) [5, 3] = [5]" "{x \<in> set [5, 3]. non_commit small_db x} = {3}"
  by (auto simp: non_commit_def small_db_def)


text \<open>
  A tree asked for by id stands in the set that also records which trees were visited, so it hides its
  own contents from the commits that need them: a client at commit 2 that asks for commit 5
  and for its tree 4 gets the two and not the blob 3, which it lacks.
\<close>

lemma direct_tree_hides_contents:
  "\<exists>p. objects_for_fetch_filtered small_db H [5, 4] [2] None None = Inr p \<and> set (po_objects p) = {4, 5} \<and>
     3 \<in> closure small_db [5] \<and> 3 \<notin> set (po_have_set p)"
proof -
  have "3 \<in> closure small_db [5]" by (simp add: closure_def small_history_of small_tree_at small_below)
  moreover have "\<exists>p. objects_for_fetch_filtered small_db H [5, 4] [2] None None = Inr p \<and> set (po_objects p) = {4, 5} \<and> 3 \<notin> set (po_have_set p)"
    by (simp add: objects_for_fetch_filtered_def objects_for_fetch_with_have_set_def build_have_set_def small_db_def small_walk_def
        small_kids_def map_errR_def tree_of_commit_def find_or_def hs_insert_def have_visit_nontree_def eval_nat_numeral)
  ultimately show ?thesis by blast
qed

section \<open>Depth limits\<close>

text \<open>
  The ids met within \<open>n\<close> levels of the wanted commits, without going through a commit the client has.
\<close>

fun reach_by :: "'o object_db \<Rightarrow> 'o list \<Rightarrow> 'o list \<Rightarrow> nat \<Rightarrow> 'o set" where
  "reach_by D haves want 0 = {}"
| "reach_by D haves want (Suc n) = set want \<union> (\<Union>c \<in> reach_by D haves want n - set haves. set (parents_of D c))"

lemma reach_by_Suc: "reach_by D haves want n \<subseteq> reach_by D haves want (Suc n)"
  by (induction n) auto

lemma reach_by_step:
  "0 < n \<Longrightarrow> reach_by D haves want (Suc n) =
   reach_by D haves want n \<union> (\<Union>c \<in> reach_by D haves want n - set haves. set (parents_of D c))"
  using reach_by_Suc [of D haves want n] by (cases n) auto

lemma reach_by_mono: "m \<le> n \<Longrightarrow> reach_by D haves want m \<subseteq> reach_by D haves want n"
  by (rule lift_Suc_mono_le [of "reach_by D haves want", OF reach_by_Suc])

lemma reach_by_stable:
  assumes "reach_by D haves want (Suc n) = reach_by D haves want n" "n \<le> m"
  shows "reach_by D haves want m = reach_by D haves want n"
  using assms(2)
proof (induction rule: dec_induct)
  case (step m)
  then have "reach_by D haves want (Suc m) = reach_by D haves want (Suc n)" by simp
  with assms(1) show ?case by simp
qed simp

lemma set_fresh: "set (fresh V ps) = set ps - V"
  by (induction V ps rule: fresh.induct) auto

lemma distinct_fresh: "distinct (fresh V ps)"
  by (induction V ps rule: fresh.induct) (auto simp: set_fresh)

text \<open>
  The loop's state while it takes the commits of level \<open>k\<close>: \<open>A\<close> are those still waiting, \<open>B\<close> those of the next
  level found so far, and \<open>P\<close> the ids taken from the queue.
\<close>

definition depth_inv ::
  "'o object_db \<Rightarrow> 'o list \<Rightarrow> 'o list \<Rightarrow> nat \<Rightarrow> nat \<Rightarrow> 'o set \<Rightarrow> 'o list \<Rightarrow> 'o list \<Rightarrow> 'o list \<Rightarrow> 'o list \<Rightarrow> 'o list \<Rightarrow> bool" where
  "depth_inv D haves want dep k P A B visited result shallow \<longleftrightarrow>
     0 < k \<and> k \<le> max dep 1 \<and> reach_by D haves want (k - 1) \<subseteq> P \<and> P \<union> set A = reach_by D haves want k \<and> P \<inter> set A = {} \<and>
     distinct A \<and> distinct B \<and> set B = set visited - reach_by D haves want k \<and>
     set visited = reach_by D haves want k \<union> (if k < dep then \<Union>c \<in> P - set haves. set (parents_of D c) else {}) \<and>
     set result = P - set haves \<and> distinct result \<and> distinct shallow \<and>
     set shallow = (if k < dep then {} else {c \<in> P - reach_by D haves want (k - 1) - set haves. parents_of D c \<noteq> []})"

lemma depth_inv_next:
  assumes "depth_inv D haves want dep k P [] B visited result shallow" "B \<noteq> []"
  shows "depth_inv D haves want dep (Suc k) (reach_by D haves want k) B [] visited result shallow"
proof -
  note i = assms(1) [unfolded depth_inv_def]
  have k: "k < dep" using i assms(2) by (auto split: if_splits)
  then have v: "set visited = reach_by D haves want (Suc k)" using i by (simp add: reach_by_step del: reach_by.simps)
  have P: "P = reach_by D haves want k" using i by simp
  show ?thesis using i k v P reach_by_Suc [of D haves want k] by (auto simp: depth_inv_def simp del: reach_by.simps)
qed

lemma depth_inv_skip:
  assumes "depth_inv D haves want dep k P (c # A) B visited result shallow" "c \<in> set haves"
  shows "depth_inv D haves want dep k (insert c P) A B visited result shallow"
  using assms by (auto simp: depth_inv_def simp del: reach_by.simps split: if_splits)

lemma depth_inv_boundary:
  assumes "depth_inv D haves want dep k P (c # A) B visited result shallow" "c \<notin> set haves" "\<not> k < dep"
  shows "depth_inv D haves want dep k (insert c P) A B visited (result @ [c])
    (if parents_of D c \<noteq> [] then shallow @ [c] else shallow)"
proof -
  have "c \<notin> reach_by D haves want (k - 1)" using assms(1) by (auto simp: depth_inv_def simp del: reach_by.simps)
  then show ?thesis using assms by (auto simp: depth_inv_def simp del: reach_by.simps)
qed

lemma depth_inv_expand:
  assumes "depth_inv D haves want dep k P (c # A) B visited result shallow" "c \<notin> set haves" "k < dep"
  defines "new \<equiv> fresh (set visited) (parents_of D c)"
  shows "depth_inv D haves want dep k (insert c P) A (B @ new) (visited @ new) (result @ [c]) shallow"
  using assms by (auto simp: depth_inv_def set_fresh distinct_fresh simp del: reach_by.simps)

lemma depth_inv_end:
  assumes "depth_inv D haves want dep k P [] [] visited result shallow"
  shows "distinct result \<and> distinct shallow \<and> set result = reach_by D haves want (max dep 1) - set haves \<and>
    set shallow = {c \<in> reach_by D haves want (max dep 1) - reach_by D haves want (max dep 1 - 1) - set haves. parents_of D c \<noteq> []}"
proof (cases "k < dep")
  case True
  note i = assms [unfolded depth_inv_def]
  have "reach_by D haves want (Suc k) = reach_by D haves want k"
    using i True by (simp add: reach_by_step del: reach_by.simps) blast
  then have "reach_by D haves want (max dep 1) = reach_by D haves want k" "reach_by D haves want (max dep 1 - 1) = reach_by D haves want k"
    using True by (auto intro!: reach_by_stable simp del: reach_by.simps)
  then show ?thesis using i True by simp
next
  case False
  then have "k = max dep 1" using assms unfolding depth_inv_def by linarith
  then show ?thesis using assms False by (simp add: depth_inv_def del: max_def)
qed

text \<open>The head of the queue is the head of \<open>A\<close>, or the next level begins.\<close>

lemma depth_inv_head:
  assumes "depth_inv D haves want dep k P A B visited result shallow"
    "(c, d) # queue = map (\<lambda>c. (c, k)) A @ map (\<lambda>c. (c, Suc k)) B"
  shows "\<exists>P A B. depth_inv D haves want dep d P (c # A) B visited result shallow \<and>
    queue = map (\<lambda>c. (c, d)) A @ map (\<lambda>c. (c, Suc d)) B"
proof (cases A)
  case Nil
  with assms(2) obtain B' where B: "B = c # B'" "d = Suc k" "queue = map (\<lambda>c. (c, d)) B'" by auto
  then have "depth_inv D haves want dep d (reach_by D haves want k) (c # B') [] visited result shallow"
    using depth_inv_next assms(1) Nil by blast
  with B(3) show ?thesis by force
next
  case (Cons a A')
  with assms show ?thesis by auto
qed

lemma depth_loop_exact:
  assumes "\<forall>c \<in> reach_by D haves want (max dep 1) - set haves. \<exists>ob. db_find D c = Inr (Some ob)"
    and "depth_inv D haves want dep k P A B visited result shallow"
    and "queue = map (\<lambda>c. (c, k)) A @ map (\<lambda>c. (c, Suc k)) B"
  shows "\<exists>cs bs. depth_loop D H haves dep queue visited result shallow = Inr (cs, bs) \<and> distinct cs \<and> distinct bs \<and>
    set cs = reach_by D haves want (max dep 1) - set haves \<and>
    set bs = {c \<in> reach_by D haves want (max dep 1) - reach_by D haves want (max dep 1 - 1) - set haves. parents_of D c \<noteq> []}"
  using assms
proof (induction D H haves dep queue visited result shallow arbitrary: k P A B rule: depth_loop.induct)
  case (1 D H haves dep visited result shallow)
  then show ?case using depth_inv_end by fastforce
next
  case (2 D H haves dep c current queue visited result shallow)
  obtain P A B where i: "depth_inv D haves want dep current P (c # A) B visited result shallow"
    and q: "queue = map (\<lambda>c. (c, current)) A @ map (\<lambda>c. (c, Suc current)) B"
    using depth_inv_head [OF "2.prems"(2,3)] by blast
  show ?case
  proof (cases "c \<in> set haves")
    case True
    then show ?thesis using "2.IH"(1) [OF True "2.prems"(1) depth_inv_skip [OF i True] q] by simp
  next
    case False
    have "c \<in> reach_by D haves want (max dep 1)"
      using i reach_by_mono [of current "max dep 1" D haves want] by (auto simp: depth_inv_def simp del: reach_by.simps)
    then obtain kd dt where "db_find D c = Inr (Some (kd, dt))" using "2.prems"(1) False by fastforce
    then have f: "find_or D H ''commit'' c = Inr (kd, dt)" and p: "db_parent_ids D dt = parents_of D c"
      by (simp_all add: find_or_def parents_of_def)
    show ?thesis
    proof (cases "current < dep")
      case True
      let ?new = "fresh (set visited) (parents_of D c)"
      have "queue @ map (\<lambda>c. (c, Suc current)) ?new = map (\<lambda>c. (c, current)) A @ map (\<lambda>c. (c, Suc current)) (B @ ?new)" using q by simp
      from "2.IH"(3) [OF False f refl refl _ _ _ "2.prems"(1) depth_inv_expand [OF i False True] this] show ?thesis
        using False True f p by (simp add: enqueue_fresh Let_def del: reach_by.simps)
    next
      case notless: False
      from "2.IH"(2) [OF False f refl refl _ _ "2.prems"(1) depth_inv_boundary [OF i False notless] q] show ?thesis
        using False notless f p by (simp add: Let_def del: reach_by.simps)
    qed
  qed
qed

text \<open>
  C13. A shallow fetch of depth \<open>dep\<close> takes, each once, exactly the commits within \<open>dep\<close> levels of the wanted
  ones (the wanted ones themselves for depth 0), not going through what the client has, and records as
  shallow exactly those that are on the last level and no nearer, and have parents.  It never fails when these commits are stored.
\<close>

theorem depth_limit_exact:
  assumes "\<forall>c \<in> reach_by D haves want (max dep 1) - set haves. \<exists>ob. db_find D c = Inr (Some ob)"
  shows "\<exists>cs bs. depth_limited_commits D H want haves dep = Inr (cs, bs) \<and> distinct cs \<and> distinct bs \<and>
    set cs = reach_by D haves want (max dep 1) - set haves \<and>
    set bs = {c \<in> reach_by D haves want (max dep 1) - reach_by D haves want (max dep 1 - 1) - set haves. parents_of D c \<noteq> []}"
proof -
  have "depth_inv D haves want dep 1 {} (fresh {} want) [] (fresh {} want) [] []"
    by (auto simp: depth_inv_def set_fresh distinct_fresh)
  from depth_loop_exact [OF assms this refl, of H] show ?thesis
    by (simp add: depth_limited_commits_def enqueue_fresh del: reach_by.simps)
qed

theorem depth_limit_exact_witness:
  "\<forall>H. \<exists>cs bs. depth_limited_commits small_db H [5] [] 1 = Inr (cs, bs) \<and> set cs = {5} \<and> set bs = {5}"
proof
  fix H
  have r: "reach_by small_db [] [5] (max 1 1) = {5}" by (simp add: eval_nat_numeral)
  have "db_find small_db 5 = Inr (Some (GCommit, ''11111''))" by (simp add: small_db_def eval_nat_numeral)
  then show "\<exists>cs bs. depth_limited_commits small_db H [5] [] 1 = Inr (cs, bs) \<and> set cs = {5} \<and> set bs = {5}"
    using depth_limit_exact [of small_db "[]" "[5]" 1 H] unfolding r by (auto simp: small_parents)
qed

text \<open>
  Nothing in the selection asks whether an entry is stored: the entry of a submodule, which names a commit
  of another repository, is selected like a blob.
\<close>

lemma unstored_entries_selected:
  assumes "c \<in> history D want" "(False, y) \<in> set (kids D (tree_at D c))" "y \<notin> closure D haves"
  shows "y \<in> selection D None want haves"
proof -
  have "y \<in> tree_objects D c" using assms(2) by (intro ancestors_parent [OF ancestors_self]) force
  then show ?thesis using assms(1,3) by (auto simp: selection_def wanted_def)
qed

end
