(* ===== verification/Fs_Common.thy ===== *)
theory Fs_Common
  imports Pack_Objects Pack_Bitmap KV_Backend
begin

text \<open>
  What the two file system backends share.  The state is the disk, which the program itself reads and
  writes, and whatever else belongs to the git implementation they call (gix, or the git executable).
\<close>

section \<open>State and file system calls\<close>

type_synonym 'g fs_state = "disk \<times> 'g"

definition on_disk :: "(disk, 'e, 'a) act \<Rightarrow> ('g fs_state, 'e, 'a) act" where
  "on_disk m s = (case m (fst s) of (r, d) \<Rightarrow> (r, (d, snd s)))"

text \<open>A read of the state that cannot change it.\<close>

definition readA :: "('s \<Rightarrow> 'e + 'a) \<Rightarrow> ('s, 'e, 'a) act" where
  "readA f s = (f s, s)"

text \<open>\<open>fs::copy\<close> truncates the destination first; a fault leaves the part copied so far.\<close>

definition fs_copy :: "bytes \<Rightarrow> bytes \<Rightarrow> (disk, error, unit) act" where
  "fs_copy p q = disk_op
     (\<lambda>n fs. case map_of fs p of None \<Rightarrow> fs | Some c \<Rightarrow> AList.update q (take n c) fs)
     (\<lambda>fs. case map_of fs p of
        None \<Rightarrow> (Inl (Ext ''No such file or directory''), fs)
      | Some c \<Rightarrow> (Inr (), AList.update q c fs))"

definition under :: "bytes \<Rightarrow> bytes \<Rightarrow> bool" where
  "under dir p \<longleftrightarrow> starts_with p (path_join dir [])"

definition fs_remove_dir_all :: "bytes \<Rightarrow> (disk, error, unit) act" where
  "fs_remove_dir_all dir = disk_op (\<lambda>_ fs. fs) (\<lambda>fs. (Inr (), filter (\<lambda>e. \<not> under dir (fst e)) fs))"

text \<open>\<open>tempdir\<close>: the name is chosen so that nothing is there yet.\<close>

definition fs_temp_dir :: "(bytes list \<Rightarrow> bytes res) \<Rightarrow> (disk, error, bytes) act" where
  "fs_temp_dir temp_name = disk_op (\<lambda>_ fs. fs) (\<lambda>fs. (temp_name (map fst fs), fs))"

definition file_name :: "bytes \<Rightarrow> bytes" where
  "file_name p = (case rsplit_once ''/'' p of Some (_, n) \<Rightarrow> n | None \<Rightarrow> p)"

text \<open>\<open>Path::parent\<close>\<close>

definition path_parent :: "bytes \<Rightarrow> bytes option" where
  "path_parent p =
     (let q = rev (dropWhile (\<lambda>c. c = CHR ''/'') (rev p)) in
      if q = [] then None
      else Some (case rsplit_once ''/'' q of
                   Some (d, _) \<Rightarrow> if d = [] then ''/'' else d
                 | None \<Rightarrow> []))"

text \<open>Both backends look at the header of a staged pack and skip a pack without objects.\<close>

definition staged_empty :: "bytes \<Rightarrow> bool" where
  "staged_empty staged = (case Receive_Request.pack_object_count (take 12 staged) of None \<Rightarrow> True | Some n \<Rightarrow> n = 0)"

section \<open>What they keep\<close>

lemma on_disk_run: "on_disk m (d, g) = (r, (d', g')) \<longleftrightarrow> m d = (r, d') \<and> g' = g"
  by (auto simp: on_disk_def split: prod.splits)

lemma keeps_on_disk:
  assumes "\<And>d d' g. P (d, g) \<Longrightarrow> P (d', g)"
  shows "keeps P (on_disk m)"
proof (rule keepsI)
  fix s r t assume "P s" "on_disk m s = (r, t)"
  then show "P t" using assms [of "fst s" "snd s" "fst t"] by (cases s; cases t) (simp add: on_disk_run)
qed

lemma keeps_readA [keeps_intros]: "keeps P (readA f)"
  by (auto simp: readA_def intro!: keepsI)

lemma keeps_finally: "keeps P m \<Longrightarrow> (\<And>r. keeps P (fin r)) \<Longrightarrow> keeps P (finallyA m fin)"
  by (rule keepsI) (auto simp: finallyA_def split: prod.splits dest: keepsD)

end
