(* ===== verification/Fs_Gitoxide.thy ===== *)
theory Fs_Gitoxide
  imports Fs_Common
begin

text \<open>
  The file system backend on gitoxide (\<open>backend/fs_gitoxide.rs\<close>).  Refs, objects, walks and the pack
  writer are gix's and come as a record of functions; opening files, the choice between the ways to
  build a pack, the ref edits, the installation of pushed packs and the reader of a generated pack are the program's.
\<close>

section \<open>What gix provides\<close>

datatype 'o ref_target = ObjectTarget 'o | SymbolicTarget bytes

datatype 'o previous_value = MustExist | MustNotExist | MustExistAndMatch "'o ref_target"

datatype 'o ref_change =
    DeleteRef "'o previous_value"
  | UpdateRef bytes "'o previous_value" "'o ref_target"

record 'o ref_edit =
  ed_name :: bytes
  ed_change :: "'o ref_change"

text \<open>
  \<open>gx_prepare\<close> and \<open>gx_commit\<close> are the two halves of a ref transaction; a handle \<open>'t\<close> stands for what is
  prepared.  \<open>gx_odb\<close> is the object database as the walks of \<open>pack.rs\<close> use it.  \<open>gx_steps\<close> are the items of
  the iterator that writes a pack: the bytes each step puts into the buffer, or its error.
\<close>

record ('r, 't, 'n, 'o, 'g) gix =
  gx_open :: "bytes \<Rightarrow> ('g fs_state, error, 'r) act"
  gx_init_bare :: "bytes \<Rightarrow> ('g fs_state, error, unit) act"
  gx_path :: "'r \<Rightarrow> bytes"
  gx_objects_dir :: "'r \<Rightarrow> bytes"
  gx_head_ref :: "'r \<Rightarrow> ('g fs_state, error, bytes option) act"
  gx_peel_head :: "'r \<Rightarrow> bytes \<Rightarrow> ('g fs_state, error, 'o option) act"
  gx_all_refs :: "'r \<Rightarrow> ('g fs_state, error, (bytes \<times> 'o ref_target) res list) act"
  gx_find_reference :: "'r \<Rightarrow> bytes \<Rightarrow> ('g fs_state, error, bytes \<times> 'o ref_target) act"
  gx_peel :: "'r \<Rightarrow> bytes \<times> 'o ref_target \<Rightarrow> ('g fs_state, error, 'o) act"
  gx_full_name :: "bytes \<Rightarrow> bytes res"
  gx_committer :: "'r \<Rightarrow> ('g fs_state, error, identity option) act"
  gx_now :: "'g fs_state \<Rightarrow> nat"
  gx_prepare :: "'r \<Rightarrow> 'o ref_edit list \<Rightarrow> ('g fs_state, error, 't) act"
  gx_commit :: "'t \<Rightarrow> identity \<Rightarrow> ('g fs_state, error, unit) act"
  gx_exists :: "'r \<Rightarrow> 'o \<Rightarrow> 'g fs_state \<Rightarrow> bool"
  gx_odb :: "'r \<Rightarrow> 'g fs_state \<Rightarrow> 'o object_db"
  gx_topo :: "'r \<Rightarrow> 'o list \<Rightarrow> 'o list \<Rightarrow> 'g fs_state \<Rightarrow> 'o res list res"
  gx_find_tree :: "'r \<Rightarrow> 'o \<Rightarrow> 'g fs_state \<Rightarrow> bytes res"
  gx_diff :: "'r \<Rightarrow> bytes \<Rightarrow> bytes \<Rightarrow> 'g fs_state \<Rightarrow> 'o tree_change list res"
  gx_empty_tree :: 'o
  gx_write_bundle :: "'r \<Rightarrow> bytes \<Rightarrow> bytes \<Rightarrow> ('g fs_state, error, unit) act"
  gx_count :: "'r \<Rightarrow> 'o list \<Rightarrow> 'g fs_state \<Rightarrow> 'n list res"
  gx_steps :: "'r \<Rightarrow> 'n list \<Rightarrow> bool \<Rightarrow> 'g fs_state \<Rightarrow> bytes res list"
  gx_progress :: "'r \<Rightarrow> 'o list \<Rightarrow> 'g fs_state \<Rightarrow> bytes list list"
  gx_bundle_at :: "bytes \<Rightarrow> 'g fs_state \<Rightarrow> 'o pack_bundle res"

section \<open>Refs and repositories\<close>

definition gitoxide_head :: "('r, 't, 'n, 'o, 'g) gix \<Rightarrow> 'r \<Rightarrow> ('g fs_state, error, 'o head_info option) act" where
  "gitoxide_head X r =
     bindA (gx_head_ref X r) (\<lambda>h.
     case h of
       None \<Rightarrow> retA None
     | Some symref_name \<Rightarrow>
         bindA (gx_peel_head X r symref_name) (\<lambda>peeled.
         retA (map_option (\<lambda>x. \<lparr> hi_oid = x, hi_symref = Some symref_name \<rparr>) peeled)))"

fun gitoxide_refs ::
  "('r, 't, 'n, 'o, 'g) gix \<Rightarrow> 'r \<Rightarrow> (bytes \<times> 'o ref_target) res list \<Rightarrow> ('g fs_state, error, 'o ref_info list) act" where
  "gitoxide_refs X r [] = retA []"
| "gitoxide_refs X r (Inl e # rs) = failA e"
| "gitoxide_refs X r (Inr (name, target) # rs) =
     (if name = ''HEAD'' then gitoxide_refs X r rs
      else
        bindA (gx_peel X r (name, target)) (\<lambda>peeled_id.
        bindA (gitoxide_refs X r rs) (\<lambda>infos.
        retA ((case target of
                 ObjectTarget x \<Rightarrow>
                   \<lparr> ri_name = name, ri_oid = x, ri_peeled = if peeled_id \<noteq> x then Some peeled_id else None, ri_symref = None \<rparr>
               | SymbolicTarget t \<Rightarrow>
                   \<lparr> ri_name = name, ri_oid = peeled_id, ri_peeled = None, ri_symref = Some t \<rparr>) # infos))))"

definition gitoxide_list_refs :: "('r, 't, 'n, 'o, 'g) gix \<Rightarrow> 'r \<Rightarrow> ('g fs_state, error, 'o refs_snapshot) act" where
  "gitoxide_list_refs X r =
     bindA (gitoxide_head X r) (\<lambda>head.
     bindA (gx_all_refs X r) (\<lambda>rs.
     bindA (gitoxide_refs X r rs) (\<lambda>infos.
     retA \<lparr> rs_head = head, rs_refs = infos \<rparr>)))"

definition gitoxide_resolve_ref :: "('r, 't, 'n, 'o, 'g) gix \<Rightarrow> 'r \<Rightarrow> bytes \<Rightarrow> ('g fs_state, error, 'o option) act" where
  "gitoxide_resolve_ref X r name s =
     (case gx_find_reference X r name s of
        (Inl _, s') \<Rightarrow> (Inr None, s')
      | (Inr ref, s') \<Rightarrow>
          (case gx_peel X r ref s' of
             (Inl _, s'') \<Rightarrow> (Inr None, s'')
           | (Inr x, s'') \<Rightarrow> (Inr (Some x), s'')))"

definition change_of :: "'o oid_ops \<Rightarrow> 'o ref_update \<Rightarrow> 'o ref_change" where
  "change_of H u =
     (if is_null H (new_oid u) then
        DeleteRef (if is_null H (old_oid u) then MustExist else MustExistAndMatch (ObjectTarget (old_oid u)))
      else if is_null H (old_oid u) then UpdateRef ''push'' MustNotExist (ObjectTarget (new_oid u))
      else UpdateRef ''push'' (MustExistAndMatch (ObjectTarget (old_oid u))) (ObjectTarget (new_oid u)))"

definition edit_of :: "('r, 't, 'n, 'o, 'g) gix \<Rightarrow> 'o oid_ops \<Rightarrow> 'o ref_update \<Rightarrow> 'o ref_edit res" where
  "edit_of X H u =
     bindR (context_err (''invalid ref name '' @ refname u) (gx_full_name X (refname u))) (\<lambda>name.
     Inr \<lparr> ed_name = name, ed_change = change_of H u \<rparr>)"

definition default_committer :: "nat \<Rightarrow> identity" where
  "default_committer now =
     \<lparr> id_name = ''mizzle'', id_email = ''noreply@mizzle'', id_time = show_nat now @ '' +0000'' \<rparr>"

definition gitoxide_update_refs ::
  "('r, 't, 'n, 'o, 'g) gix \<Rightarrow> 'o oid_ops \<Rightarrow> 'r \<Rightarrow> 'o ref_update list \<Rightarrow> ('g fs_state, error, unit) act" where
  "gitoxide_update_refs X H r us =
     bindA (liftA (mapR (edit_of X H) us)) (\<lambda>edits.
     bindA (ctxA ''reading committer'' (gx_committer X r)) (\<lambda>c.
     bindA (case c of Some sig \<Rightarrow> retA sig | None \<Rightarrow> readA (\<lambda>s. Inr (default_committer (gx_now X s)))) (\<lambda>committer.
     bindA (ctxA ''preparing ref transaction'' (gx_prepare X r edits)) (\<lambda>txn.
     ctxA ''committing ref transaction'' (gx_commit X txn committer)))))"

definition gitoxide_init_repo :: "('r, 't, 'n, 'o, 'g) gix \<Rightarrow> bytes \<Rightarrow> ('g fs_state, error, unit) act" where
  "gitoxide_init_repo X path =
     bindA (case path_parent path of
              Some parent \<Rightarrow> ctxA (''creating parent directories for '' @ path) (on_disk (fs_create_dir_all parent))
            | None \<Rightarrow> retA ()) (\<lambda>_ s.
     case gx_init_bare X path s of
       (Inr _, s') \<Rightarrow> (Inr (), s')
     | (Inl e, s') \<Rightarrow>
         bindA (on_disk (fs_exists (path_join path ''HEAD''))) (\<lambda>b.
           if b then retA () else failA (Ctx (''initialising bare repo at '' @ path) e)) s')"

section \<open>Objects and history\<close>

definition gitoxide_compute_push_kind ::
  "('r, 't, 'n, 'o, 'g) gix \<Rightarrow> 'o oid_ops \<Rightarrow> 'r \<Rightarrow> 'o ref_update \<Rightarrow> 'g fs_state \<Rightarrow> push_kind" where
  "gitoxide_compute_push_kind X H r u s =
     (if is_null H (old_oid u) then Create
      else if is_null H (new_oid u) then Delete
      else if list_ex (\<lambda>c. c = Inr (old_oid u)) (db_walk (gx_odb X r s) [new_oid u]) then FastForward
      else ForcePush)"

fun take_capped :: "nat \<Rightarrow> 'o list \<Rightarrow> 'o res list \<Rightarrow> reachable_error + 'o list" where
  "take_capped cap out [] = Inr out"
| "take_capped cap out (Inl e # rs) = Inl (OtherError (Bail (''topo walk: '' @ outer_message e)))"
| "take_capped cap out (Inr x # rs) =
     (if length out \<ge> cap then Inl (CapExceeded cap) else take_capped cap (out @ [x]) rs)"

definition gitoxide_reachable_excluding ::
  "('r, 't, 'n, 'o, 'g) gix \<Rightarrow> 'r \<Rightarrow> 'o list \<Rightarrow> 'o list \<Rightarrow> nat \<Rightarrow> ('g fs_state, reachable_error, 'o list) act" where
  "gitoxide_reachable_excluding X r start excluding cap = readA (\<lambda>s.
     case gx_topo X r start excluding s of
       Inl e \<Rightarrow> Inl (OtherError (Bail (''topo walk init: '' @ outer_message e)))
     | Inr walk \<Rightarrow> take_capped cap [] walk)"

definition gitoxide_tree_diff ::
  "('r, 't, 'n, 'o, 'g) gix \<Rightarrow> 'o oid_ops \<Rightarrow> 'r \<Rightarrow> 'o option \<Rightarrow> 'o \<Rightarrow> ('g fs_state, error, 'o ref_diff) act" where
  "gitoxide_tree_diff X H r parent_tree child_tree = readA (\<lambda>s.
     (let lhs = (case parent_tree of None \<Rightarrow> gx_empty_tree X | Some t \<Rightarrow> t); rhs = child_tree in
      bindR (context_err (''reading parent tree '' @ to_hex H lhs) (gx_find_tree X r lhs s)) (\<lambda>a.
      bindR (context_err (''reading child tree '' @ to_hex H rhs) (gx_find_tree X r rhs s)) (\<lambda>b.
      bindR (context_err ''running tree diff'' (gx_diff X r a b s)) (\<lambda>records.
      Inr (map diff_entry records))))))"

definition gitoxide_read_commit_info ::
  "object_parser \<Rightarrow> ('r, 't, 'n, 'o, 'g) gix \<Rightarrow> 'o oid_ops \<Rightarrow> 'r \<Rightarrow> 'o \<Rightarrow> ('g fs_state, error, 'o commit_info) act" where
  "gitoxide_read_commit_info G X H r x = readA (\<lambda>s.
     case db_find (gx_odb X r s) x of
       Inl e \<Rightarrow> Inl (Bail (''looking up commit '' @ to_hex H x @ '': '' @ outer_message e))
     | Inr None \<Rightarrow> Inl (Bail (''commit '' @ to_hex H x @ '' not in object store''))
     | Inr (Some (kind, data)) \<Rightarrow>
         if kind \<noteq> GCommit then Inl (Bail (''object '' @ to_hex H x @ '' is not a commit''))
         else parse_commit_info G H data x)"

definition gitoxide_read_blob ::
  "('r, 't, 'n, 'o, 'g) gix \<Rightarrow> 'o oid_ops \<Rightarrow> 'r \<Rightarrow> 'o \<Rightarrow> nat \<Rightarrow> ('g fs_state, error, bytes option) act" where
  "gitoxide_read_blob X H r x cap = readA (\<lambda>s.
     case db_find (gx_odb X r s) x of
       Inl e \<Rightarrow> Inl (Bail (''looking up blob '' @ to_hex H x @ '': '' @ outer_message e))
     | Inr None \<Rightarrow> Inr None
     | Inr (Some (kind, data)) \<Rightarrow> Inr (if kind \<noteq> GBlob \<or> length data > cap then None else Some data))"

definition gitoxide_read_object_raw ::
  "('r, 't, 'n, 'o, 'g) gix \<Rightarrow> 'o oid_ops \<Rightarrow> 'r \<Rightarrow> 'o \<Rightarrow> nat \<Rightarrow> ('g fs_state, error, bytes option) act" where
  "gitoxide_read_object_raw X H r x cap = readA (\<lambda>s.
     case db_find (gx_odb X r s) x of
       Inl e \<Rightarrow> Inl (Bail (''looking up object '' @ to_hex H x @ '': '' @ outer_message e))
     | Inr None \<Rightarrow> Inr None
     | Inr (Some (kind, data)) \<Rightarrow> Inr (if length data > cap then None else Some data))"

section \<open>Pushed packs\<close>

record written_pack =
  wp_pack :: bytes
  wp_index :: bytes
  wp_pack_owned :: bool
  wp_index_owned :: bool

definition move_file :: "bytes \<Rightarrow> bytes \<Rightarrow> (disk, error, unit) act" where
  "move_file src dst s =
     (case fs_rename src dst s of
        (Inr _, s') \<Rightarrow> (Inr (), s')
      | (Inl _, s') \<Rightarrow>
          bindA (ctxA ''copying file cross-filesystem'' (fs_copy src dst)) (\<lambda>_.
          ctxA ''removing source after copy'' (fs_remove_file src)) s')"

definition last_with_extension :: "bytes \<Rightarrow> bytes list \<Rightarrow> bytes option" where
  "last_with_extension ext paths =
     (case filter (\<lambda>p. extension p = Some ext) paths of [] \<Rightarrow> None | ps \<Rightarrow> Some (last ps))"

text \<open>A file that is already there is left alone and not owned.\<close>

definition install_file :: "bytes \<Rightarrow> bytes \<Rightarrow> bytes \<Rightarrow> (disk, error, bool) act" where
  "install_file msg src dst =
     bindA (fs_exists dst) (\<lambda>b.
     if b then retA False else bindA (ctxA msg (move_file src dst)) (\<lambda>_. retA True))"

definition install_pack :: "bytes \<Rightarrow> bytes \<Rightarrow> (disk, error, written_pack) act" where
  "install_pack temp_dir pack_dir =
     bindA (ctxA ''reading temp dir'' (fs_read_dir temp_dir)) (\<lambda>paths.
     bindA (liftA (of_option (Bail ''no .pack file written'') (last_with_extension ''pack'' paths))) (\<lambda>pack_src.
     bindA (liftA (of_option (Bail ''no .idx file written'') (last_with_extension ''idx'' paths))) (\<lambda>idx_src.
     let pack_dst = path_join pack_dir (file_name pack_src); idx_dst = path_join pack_dir (file_name idx_src) in
     bindA (install_file ''moving pack file'' pack_src pack_dst) (\<lambda>pack_owned.
     bindA (install_file ''moving index file'' idx_src idx_dst) (\<lambda>index_owned.
     retA \<lparr> wp_pack = pack_dst, wp_index = idx_dst, wp_pack_owned = pack_owned, wp_index_owned = index_owned \<rparr>)))))"

text \<open>The temporary directory is deleted when its handle goes out of scope, whatever happened.\<close>

definition with_temp_dir ::
  "(bytes list \<Rightarrow> bytes res) \<Rightarrow> (bytes \<Rightarrow> ('g fs_state, error, 'a) act) \<Rightarrow> ('g fs_state, error, 'a) act" where
  "with_temp_dir temp_name body =
     bindA (ctxA ''creating temp dir for pack'' (on_disk (fs_temp_dir temp_name))) (\<lambda>dir.
     finallyA (body dir) (\<lambda>r. bindA (on_disk (ignored (fs_remove_dir_all dir))) (\<lambda>_. liftA r)))"

definition gitoxide_ingest_pack ::
  "('r, 't, 'n, 'o, 'g) gix \<Rightarrow> (bytes list \<Rightarrow> bytes res) \<Rightarrow> 'r \<Rightarrow> bytes \<Rightarrow> ('g fs_state, error, written_pack option) act" where
  "gitoxide_ingest_pack X temp_name r staged =
     (if staged_empty staged then retA None
      else
        (let pack_dir = path_join (path_join (gx_path X r) ''objects'') ''pack'' in
         bindA (on_disk (fs_create_dir_all pack_dir)) (\<lambda>_.
         with_temp_dir temp_name (\<lambda>dir.
           bindA (ctxA ''indexing received pack'' (gx_write_bundle X r staged dir)) (\<lambda>_.
           bindA (on_disk (install_pack dir pack_dir)) (\<lambda>w.
           retA (Some w)))))))"

definition gitoxide_rollback_ingest :: "written_pack \<Rightarrow> disk \<Rightarrow> disk" where
  "gitoxide_rollback_ingest w d =
     (let d = (if wp_index_owned w then snd (fs_remove_file (wp_index w) d) else d) in
      if wp_pack_owned w then snd (fs_remove_file (wp_pack w) d) else d)"

section \<open>Building packs\<close>

text \<open>
  The thread that writes the pack sends what each step left in the buffer, until the receiver is gone:
  \<open>room\<close> is the number of chunks it still takes, if it stops.
\<close>

fun send_chunks :: "nat option \<Rightarrow> bytes list \<Rightarrow> bytes res list \<Rightarrow> bytes list \<times> unit res" where
  "send_chunks room sent [] = (sent, Inr ())"
| "send_chunks room sent (Inl e # steps) = (sent, Inl e)"
| "send_chunks room sent (Inr chunk # steps) =
     (if chunk = [] then send_chunks room sent steps
      else if room = Some 0 then (sent, Inr ())
      else send_chunks (map_option (\<lambda>n. n - 1) room) (sent @ [chunk]) steps)"

definition stream_pack_to_channel ::
  "('r, 't, 'n, 'o, 'g) gix \<Rightarrow> 'r \<Rightarrow> 'o list \<Rightarrow> bool \<Rightarrow> nat option \<Rightarrow> 'g fs_state \<Rightarrow> bytes list \<times> unit res" where
  "stream_pack_to_channel X r obs thin room s =
     (case gx_count X r obs s of
        Inl e \<Rightarrow> ([], Inl e)
      | Inr counts \<Rightarrow> send_chunks room [] (gx_steps X r counts thin s))"

text \<open>What joining the thread gives.\<close>

datatype thread_end = Returned "unit res" | ThreadPanicked

record pack_reader =
  rd_rx :: "bytes list"
  rd_current :: bytes
  rd_thread :: "thread_end option"

function pack_read :: "nat \<Rightarrow> pack_reader \<Rightarrow> bytes res \<times> pack_reader" where
  "pack_read n rd =
     (if take n (rd_current rd) \<noteq> [] then
        (Inr (take n (rd_current rd)), rd\<lparr> rd_current := drop n (rd_current rd) \<rparr>)
      else
        (case rd_rx rd of
           chunk # rx \<Rightarrow> pack_read n (rd\<lparr> rd_current := chunk, rd_rx := rx \<rparr>)
         | [] \<Rightarrow>
             (case rd_thread rd of
                Some (Returned (Inr _)) \<Rightarrow> (Inr [], rd\<lparr> rd_thread := None \<rparr>)
              | Some (Returned (Inl e)) \<Rightarrow> (Inl e, rd\<lparr> rd_thread := None \<rparr>)
              | Some ThreadPanicked \<Rightarrow> (Inl (Ext ''pack generation thread panicked''), rd\<lparr> rd_thread := None \<rparr>)
              | None \<Rightarrow> (Inr [], rd))))"
  by pat_completeness auto

termination
  by (relation "measure (\<lambda>(n, rd). length (rd_rx rd))") auto

declare pack_read.simps [simp del]

text \<open>The results of reading with a buffer of \<open>n\<close> bytes until the end or an error; each read takes a byte or ends it.\<close>

definition reader_size :: "pack_reader \<Rightarrow> nat" where
  "reader_size rd = length (rd_current rd) + (\<Sum>c \<leftarrow> rd_rx rd. length c)"

fun reads :: "nat \<Rightarrow> nat \<Rightarrow> pack_reader \<Rightarrow> bytes res list" where
  "reads 0 n rd = []"
| "reads (Suc fuel) n rd =
     (case pack_read n rd of
        (Inr (b # bs), rd') \<Rightarrow> Inr (b # bs) # reads fuel n rd'
      | (r, rd') \<Rightarrow> [r])"

definition ship_pack_as_is :: "bytes \<Rightarrow> (disk, error, 'o pack_output) act" where
  "ship_pack_as_is path =
     bindA (ctxA (''opening reusable pack '' @ path) (fs_read path)) (\<lambda>bs. retA (output_of bs))"

definition try_single_pack_bitmap ::
  "('i, 'o) index_ops \<Rightarrow> 'e ewah_ops \<Rightarrow> bytes \<Rightarrow> 'o list \<Rightarrow> (disk, stop, 'o list option) act" where
  "try_single_pack_bitmap IX Z idx_path haves =
     bindA (attempt (ix_open IX idx_path)) (\<lambda>opened.
     case opened of
       Inl _ \<Rightarrow> retA None
     | Inr idx \<Rightarrow>
         bindA (attempt (load_bitmap Z idx_path (ix_num_objects IX idx))) (\<lambda>loaded.
         case loaded of
           Inr (Some b) \<Rightarrow>
             bindA (liftA (build_oid_index (ix_oid_at IX idx) b)) (\<lambda>b.
             liftA (have_reachable Z b haves))
         | _ \<Rightarrow> retA None))"

fun scan_bitmaps ::
  "('i, 'o) index_ops \<Rightarrow> 'e ewah_ops \<Rightarrow> 'o list \<Rightarrow> bytes list \<Rightarrow> (disk, stop, 'o list option) act" where
  "scan_bitmaps IX Z haves [] = retA None"
| "scan_bitmaps IX Z haves (p # ps) =
     (if extension p \<noteq> Some ''idx'' then scan_bitmaps IX Z haves ps
      else
        bindA (try_single_pack_bitmap IX Z p haves) (\<lambda>found.
        case found of Some hs \<Rightarrow> retA (Some hs) | None \<Rightarrow> scan_bitmaps IX Z haves ps))"

definition try_bitmap_have_set ::
  "('i, 'o) index_ops \<Rightarrow> 'e ewah_ops \<Rightarrow> bytes \<Rightarrow> 'o list \<Rightarrow> (disk, stop, 'o list option) act" where
  "try_bitmap_have_set IX Z pack_dir haves =
     (if haves = [] then retA (Some [])
      else
        bindA (attempt (fs_read_dir pack_dir)) (\<lambda>r.
        case r of Inl _ \<Rightarrow> retA None | Inr ps \<Rightarrow> scan_bitmaps IX Z haves ps))"

text \<open>The pack is written by a thread that starts in the state the objects were selected in.\<close>

definition generated_pack ::
  "('r, 't, 'n, 'o, 'g) gix \<Rightarrow> 'r \<Rightarrow> bool \<Rightarrow> 'o pack_objects \<Rightarrow> 'g fs_state \<Rightarrow> 'o pack_output" where
  "generated_pack X r thin p s =
     (case stream_pack_to_channel X r (po_objects p) thin None s of
        (sent, outcome) \<Rightarrow>
          let rd = \<lparr> rd_rx = sent, rd_current = [], rd_thread = Some (Returned outcome) \<rparr> in
          \<lparr> out_reader = reads (Suc (reader_size rd)) MAX_SIDEBAND rd, out_shallow = po_shallow p,
            out_progress = Some (gx_progress X r (po_objects p) s) \<rparr>)"

definition reuse_allowed :: "pack_options \<Rightarrow> bool" where
  "reuse_allowed opts \<longleftrightarrow> opt_deepen opts = None \<and> opt_filter opts = None \<and> \<not> opt_thin_pack opts"

definition select_objects ::
  "('r, 't, 'n, 'o, 'g) gix \<Rightarrow> 'o oid_ops \<Rightarrow> 'r \<Rightarrow> 'o list \<Rightarrow> 'o list \<Rightarrow> pack_options \<Rightarrow> 'o list option \<Rightarrow> 'g fs_state
     \<Rightarrow> 'o pack_objects res" where
  "select_objects X H r want haves opts bitmap_have_set s =
     (case bitmap_have_set of
        Some have_set \<Rightarrow>
          objects_for_fetch_with_have_set (gx_odb X r s) H want haves (opt_deepen opts) (opt_filter opts) have_set
      | None \<Rightarrow> objects_for_fetch_filtered (gx_odb X r s) H want haves (opt_deepen opts) (opt_filter opts))"

definition gitoxide_build_pack ::
  "('r, 't, 'n, 'o, 'g) gix \<Rightarrow> ('i, 'o) index_ops \<Rightarrow> 'e ewah_ops \<Rightarrow> 'o oid_ops \<Rightarrow> 'r \<Rightarrow> 'o list \<Rightarrow> 'o list \<Rightarrow> pack_options
     \<Rightarrow> ('g fs_state, stop, error + 'o pack_output) act" where
  "gitoxide_build_pack X IX Z H r want haves opts =
     (let pack_dir = path_join (gx_objects_dir X r) ''pack'' in
      bindA (if reuse_allowed opts then on_disk (find_reusable_pack IX Z pack_dir want haves) else retA (Inr None)) (\<lambda>reusable.
      case reusable of
        Inl e \<Rightarrow> retA (Inl e)
      | Inr (Some pack_path) \<Rightarrow> attempt (on_disk (ship_pack_as_is pack_path))
      | Inr None \<Rightarrow>
          bindA (on_disk (try_bitmap_have_set IX Z pack_dir haves)) (\<lambda>bitmap_have_set.
          attempt (readA (\<lambda>s.
            bindR (select_objects X H r want haves opts bitmap_have_set s) (\<lambda>p.
            Inr (generated_pack X r (opt_thin_pack opts) p s)))))))"

section \<open>The backend\<close>

text \<open>A call that panics has no result, like one that does not return.\<close>

definition gitoxide_backend ::
  "object_parser \<Rightarrow> ('r, 't, 'n, 'o, 'g) gix \<Rightarrow> ('i, 'o) index_ops \<Rightarrow> 'e ewah_ops \<Rightarrow> (bytes list \<Rightarrow> bytes res) \<Rightarrow> 'o oid_ops
     \<Rightarrow> (bytes, 'r, written_pack, 'o, 'g fs_state) backend" where
  "gitoxide_backend G X IX Z temp_name H =
     \<lparr> be_open = gx_open X,
       be_list_refs = gitoxide_list_refs X,
       be_resolve_ref = gitoxide_resolve_ref X,
       be_update_refs = gitoxide_update_refs X H,
       be_init_repo = gitoxide_init_repo X,
       be_has_object = (\<lambda>r x. readA (\<lambda>s. Inr (gx_exists X r x s))),
       be_has_objects = (\<lambda>r xs. readA (\<lambda>s. Inr (map (\<lambda>x. gx_exists X r x s) xs))),
       be_compute_push_kind = (\<lambda>r u s. Some (gitoxide_compute_push_kind X H r u s, s)),
       be_build_pack = (\<lambda>r want haves opts s.
         case gitoxide_build_pack X IX Z H r want haves opts s of (Inl _, _) \<Rightarrow> None | (Inr res, s') \<Rightarrow> Some (res, s')),
       be_ingest_pack = gitoxide_ingest_pack X temp_name,
       be_inspect_ingested = (\<lambda>w s. ((inspect_pack G H (gx_bundle_at X (wp_pack w) s), w), s)),
       be_rollback_ingest = (\<lambda>w s. (gitoxide_rollback_ingest w (fst s), snd s)),
       be_reachable_excluding = (\<lambda>r start excl cap s. Some (gitoxide_reachable_excluding X r start excl cap s)),
       be_tree_diff = (\<lambda>r a b s. Some (gitoxide_tree_diff X H r a b s)),
       be_read_commit_info = gitoxide_read_commit_info G X H,
       be_read_blob = gitoxide_read_blob X H,
       be_read_object_raw = gitoxide_read_object_raw X H \<rparr>"

end
