(* ===== verification/Fs_Gitoxide_Properties.thy ===== *)
theory Fs_Gitoxide_Properties
  imports Fs_Gitoxide Pack_Reuse_Properties Pack_Objects_Properties Push_Properties
begin

text \<open>
  What the gitoxide backend promises, given what gix documents of its functions: its ref updates are the
  contract's compare-and-swap, a rolled back push leaves the disk as it was, a pack holds what was asked for
  whichever way it is built, and no ref changes without authorisation.
\<close>

section \<open>Reading a generated pack\<close>

definition reader_end :: "pack_reader \<Rightarrow> bytes res" where
  "reader_end rd =
     (case rd_thread rd of
        Some (Returned (Inl e)) \<Rightarrow> Inl e
      | Some ThreadPanicked \<Rightarrow> Inl (Ext ''pack generation thread panicked'')
      | _ \<Rightarrow> Inr [])"

abbreviation reader_data :: "pack_reader \<Rightarrow> bytes" where
  "reader_data rd \<equiv> rd_current rd @ concat (rd_rx rd)"

lemma reader_size_data: "reader_size rd = length (reader_data rd)"
  by (simp add: reader_size_def length_concat)

lemma pack_read_data:
  assumes "0 < n" "reader_data rd \<noteq> []"
  shows "\<exists>b rd'. pack_read n rd = (Inr b, rd') \<and> b \<noteq> [] \<and> length b \<le> n \<and> b @ reader_data rd' = reader_data rd \<and>
    reader_end rd' = reader_end rd"
  using assms
proof (induction n rd rule: pack_read.induct)
  case (1 n rd)
  show ?case
  proof (cases "rd_current rd = []")
    case True
    then obtain c rx where rx: "rd_rx rd = c # rx" using 1(3) by (cases "rd_rx rd") auto
    then have step: "pack_read n rd = pack_read n (rd\<lparr> rd_current := c, rd_rx := rx \<rparr>)"
      using True by (subst pack_read.simps) simp
    have "reader_end (rd\<lparr> rd_current := c, rd_rx := rx \<rparr>) = reader_end rd" by (simp add: reader_end_def)
    with 1(1) [OF _ rx] 1(2,3) True rx show ?thesis unfolding step by simp
  next
    case False
    then show ?thesis using 1(2) by (subst pack_read.simps) (auto simp: reader_end_def)
  qed
qed

lemma pack_read_end: "reader_data rd = [] \<Longrightarrow> fst (pack_read n rd) = reader_end rd"
proof (induction n rd rule: pack_read.induct)
  case (1 n rd)
  show ?case
  proof (cases "rd_rx rd")
    case Nil
    then show ?thesis
      using 1(2) by (subst pack_read.simps) (auto simp: reader_end_def split: option.split thread_end.split sum.split)
  next
    case (Cons c rx)
    then have "pack_read n rd = pack_read n (rd\<lparr> rd_current := c, rd_rx := rx \<rparr>)"
      using 1(2) by (subst pack_read.simps) simp
    moreover have "reader_end (rd\<lparr> rd_current := c, rd_rx := rx \<rparr>) = reader_end rd" by (simp add: reader_end_def)
    ultimately show ?thesis using 1(1) [OF _ Cons] 1(2) Cons by simp
  qed
qed

lemma reads_all:
  "0 < n \<Longrightarrow> length (reader_data rd) < fuel \<Longrightarrow>
   \<exists>bs. reads fuel n rd = map Inr bs @ [reader_end rd] \<and> concat bs = reader_data rd \<and> (\<forall>b \<in> set bs. b \<noteq> [] \<and> length b \<le> n)"
proof (induction fuel arbitrary: rd)
  case 0
  then show ?case by simp
next
  case (Suc fuel)
  show ?case
  proof (cases "reader_data rd = []")
    case True
    obtain r rd' where r: "pack_read n rd = (r, rd')" by fastforce
    with pack_read_end [OF True, of n] have "r = reader_end rd" by simp
    moreover have "reader_end rd = Inr [] \<or> (\<exists>e. reader_end rd = Inl e)"
      by (auto simp: reader_end_def split: option.split thread_end.split sum.split)
    ultimately show ?thesis using r True by (intro exI [of _ "[]"]) auto
  next
    case False
    then obtain b rd' where b: "pack_read n rd = (Inr b, rd')" "b \<noteq> []" "length b \<le> n" "b @ reader_data rd' = reader_data rd"
      "reader_end rd' = reader_end rd" using pack_read_data [OF Suc.prems(1)] by blast
    have "length (reader_data rd) = length b + length (reader_data rd')" using arg_cong [OF b(4), of length] by simp
    moreover have "0 < length b" using b(2) by simp
    ultimately have "length (reader_data rd') < fuel" using Suc.prems(2) by linarith
    with Suc.IH Suc.prems(1) obtain bs where bs: "reads fuel n rd' = map Inr bs @ [reader_end rd']" "concat bs = reader_data rd'"
      "\<forall>b \<in> set bs. b \<noteq> [] \<and> length b \<le> n" by blast
    from b(2) obtain x xs where "b = x # xs" by (cases b) auto
    with b bs show ?thesis by (intro exI [of _ "b # bs"]) auto
  qed
qed

text \<open>
  The reader of a generated pack returns every byte the writing thread sent, in order and in pieces that
  fit the buffer, and then the end of the pack if the thread succeeded, and an error if it failed or
  panicked: a pack cut short is never taken for a complete one.
\<close>

theorem pack_reader_faithful:
  assumes "0 < n"
  shows "\<exists>bs. reads (Suc (reader_size rd)) n rd = map Inr bs @ [reader_end rd] \<and> concat bs = rd_current rd @ concat (rd_rx rd) \<and>
    (\<forall>b \<in> set bs. b \<noteq> [] \<and> length b \<le> n)"
  by (rule reads_all [OF assms]) (simp add: reader_size_data)

theorem pack_reader_faithful_witness:
  "\<exists>bs. reads 4 2 \<lparr> rd_rx = [''ab'', ''c''], rd_current = [], rd_thread = Some ThreadPanicked \<rparr> =
     map Inr bs @ [Inl (Ext ''pack generation thread panicked'')] \<and> concat bs = ''abc''"
  using pack_reader_faithful [of 2 "\<lparr> rd_rx = [''ab'', ''c''], rd_current = [], rd_thread = Some ThreadPanicked \<rparr>"]
  by (auto simp: reader_end_def reader_size_def numeral_eq_Suc)

section \<open>Ref transactions\<close>

fun previous_ok :: "'o previous_value \<Rightarrow> 'o ref_target option \<Rightarrow> bool" where
  "previous_ok MustExist v = (v \<noteq> None)"
| "previous_ok MustNotExist v = (v = None)"
| "previous_ok (MustExistAndMatch t) v = (v = Some t)"

definition edit_ok :: "(bytes \<rightharpoonup> 'o ref_target) \<Rightarrow> 'o ref_edit \<Rightarrow> bool" where
  "edit_ok m e =
     (case ed_change e of DeleteRef p \<Rightarrow> previous_ok p (m (ed_name e)) | UpdateRef _ p _ \<Rightarrow> previous_ok p (m (ed_name e)))"

definition apply_edit :: "(bytes \<rightharpoonup> 'o ref_target) \<Rightarrow> 'o ref_edit \<Rightarrow> (bytes \<rightharpoonup> 'o ref_target)" where
  "apply_edit m e = m(ed_name e := (case ed_change e of DeleteRef _ \<Rightarrow> None | UpdateRef _ _ t \<Rightarrow> Some t))"

text \<open>
  What gix documents of a transaction: preparing it changes no ref and succeeds only if every edit finds
  the previous value it expects and no ref is edited twice; committing what is prepared performs all
  edits, or fails having performed some of them.
\<close>

definition txn_law :: "('r, 't, 'n, 'o, 'g) gix \<Rightarrow> 'r \<Rightarrow> ('g fs_state \<Rightarrow> bytes \<rightharpoonup> 'o ref_target) \<Rightarrow> bool" where
  "txn_law X r refs_of \<longleftrightarrow>
     (\<forall>name n. gx_full_name X name = Inr n \<longrightarrow> n = name) \<and>
     (\<forall>s res t. gx_committer X r s = (res, t) \<longrightarrow> refs_of t = refs_of s) \<and>
     (\<forall>edits s res t. gx_prepare X r edits s = (res, t) \<longrightarrow> refs_of t = refs_of s \<and>
        (\<forall>txn. res = Inr txn \<longrightarrow> distinct (map ed_name edits) \<and> (\<forall>e \<in> set edits. edit_ok (refs_of s) e) \<and>
           (\<forall>c res' u. gx_commit X txn c t = (res', u) \<longrightarrow>
              (case res' of
                 Inr _ \<Rightarrow> refs_of u = foldl apply_edit (refs_of s) edits
               | Inl _ \<Rightarrow> \<forall>name. refs_of u name = refs_of s name \<or> refs_of u name = foldl apply_edit (refs_of s) edits name))))"

definition object_refs :: "(bytes \<rightharpoonup> 'o ref_target) \<Rightarrow> (bytes \<rightharpoonup> 'o)" where
  "object_refs m name = (case m name of Some (ObjectTarget x) \<Rightarrow> Some x | _ \<Rightarrow> None)"

definition both_null :: "'o oid_ops \<Rightarrow> 'o ref_update \<Rightarrow> bool" where
  "both_null H u \<longleftrightarrow> old_oid u = null_oid H \<and> new_oid u = null_oid H"

abbreviation edits_of :: "'o oid_ops \<Rightarrow> 'o ref_update list \<Rightarrow> 'o ref_edit list" where
  "edits_of H us \<equiv> map (\<lambda>u. \<lparr> ed_name = refname u, ed_change = change_of H u \<rparr>) us"

lemma edit_cas_ok:
  assumes "object_id H" "edit_ok m \<lparr> ed_name = refname u, ed_change = change_of H u \<rparr>" "\<not> both_null H u"
  shows "cas_ok H (object_refs m) u"
  using assms(2,3) object_id.is_null_iff [OF assms(1)]
  by (auto simp: edit_ok_def change_of_def cas_ok_def object_refs_def both_null_def split: if_splits)

lemma object_refs_edit:
  assumes "object_id H"
  shows "object_refs (apply_edit m \<lparr> ed_name = refname u, ed_change = change_of H u \<rparr>) = cas_apply H (object_refs m) u"
  using object_id.is_null_iff [OF assms]
  by (auto simp: apply_edit_def change_of_def cas_apply_def object_refs_def fun_eq_iff)

lemma object_refs_edits:
  "object_id H \<Longrightarrow> object_refs (foldl apply_edit m (edits_of H us)) = foldl (cas_apply H) (object_refs m) us"
  by (induction us arbitrary: m) (simp_all add: object_refs_edit)

lemma edits_admitted:
  assumes "object_id H" "distinct (map ed_name (edits_of H us))" "\<forall>e \<in> set (edits_of H us). edit_ok m e" "\<forall>u \<in> set us. \<not> both_null H u"
  shows "cas_batch H (object_refs m) us = Some (object_refs (foldl apply_edit m (edits_of H us)))"
proof -
  have "distinct (map refname us)" using assms(2) by (simp add: comp_def)
  moreover have "\<forall>u \<in> set us. cas_ok H (object_refs m) u" using assms(3,4) edit_cas_ok [OF assms(1)] by simp
  ultimately show ?thesis unfolding object_refs_edits [OF assms(1)] by (simp add: cas_batch_distinct)
qed

lemma edit_of_Inr:
  "edit_of X H u = Inr e \<longleftrightarrow> (\<exists>n. gx_full_name X (refname u) = Inr n \<and> e = \<lparr> ed_name = n, ed_change = change_of H u \<rparr>)"
  by (auto simp: edit_of_def bindR_eq_Inr context_err_Inr)

lemma mapR_edits:
  assumes "txn_law X r refs_of" "mapR (edit_of X H) us = Inr edits"
  shows "edits = edits_of H us"
proof -
  from assms(2) have "list_all2 (\<lambda>u e. edit_of X H u = Inr e) us edits" by (simp add: mapR_Inr_iff)
  then show ?thesis
    by induction (use assms(1) in \<open>auto simp: edit_of_Inr txn_law_def\<close>)
qed

text \<open>The run of an update: nothing happens, or the transaction was prepared and committed.\<close>

lemma gitoxide_update_run:
  assumes law: "txn_law X r refs_of" and run: "gitoxide_update_refs X H r us s = (res, t)"
  shows "(\<exists>e. res = Inl e) \<and> refs_of t = refs_of s \<or>
    distinct (map ed_name (edits_of H us)) \<and> (\<forall>e \<in> set (edits_of H us). edit_ok (refs_of s) e) \<and>
    (case res of
       Inr _ \<Rightarrow> refs_of t = foldl apply_edit (refs_of s) (edits_of H us)
     | Inl _ \<Rightarrow> \<forall>name. refs_of t name = refs_of s name \<or> refs_of t name = foldl apply_edit (refs_of s) (edits_of H us) name)"
proof (cases "mapR (edit_of X H) us")
  case (Inl e)
  then show ?thesis using run by (auto simp: gitoxide_update_refs_def bindA_def)
next
  case (Inr edits)
  note edits = mapR_edits [OF law Inr]
  obtain c s1 where c: "gx_committer X r s = (c, s1)" by (cases "gx_committer X r s")
  have s1: "refs_of s1 = refs_of s" using law c unfolding txn_law_def by blast
  show ?thesis
  proof (cases c)
    case (Inl e)
    then show ?thesis using run Inr c s1 by (auto simp: gitoxide_update_refs_def bindA_def act_defs)
  next
    case (Inr sig)
    obtain p s2 where p: "gx_prepare X r edits s1 = (p, s2)" by (cases "gx_prepare X r edits s1")
    have s2: "refs_of s2 = refs_of s1" using law p unfolding txn_law_def by blast
    define who where "who = (case sig of Some i \<Rightarrow> i | None \<Rightarrow> default_committer (gx_now X s1))"
    have rest: "(res, t) = (case p of
        Inl e \<Rightarrow> (Inl (Ctx ''preparing ref transaction'' e), s2)
      | Inr txn \<Rightarrow> ctxA ''committing ref transaction'' (gx_commit X txn who) s2)"
      using run \<open>mapR (edit_of X H) us = Inr edits\<close> c Inr p
      by (cases sig; cases p) (auto simp: gitoxide_update_refs_def bindA_def act_defs readA_def who_def)
    show ?thesis
    proof (cases p)
      case (Inl e)
      then show ?thesis using rest s1 s2 by simp
    next
      case (Inr txn)
      obtain q u where q: "gx_commit X txn who s2 = (q, u)" by (cases "gx_commit X txn who s2")
      from law p Inr q have "distinct (map ed_name edits)" "\<forall>e \<in> set edits. edit_ok (refs_of s1) e"
        "case q of Inr _ \<Rightarrow> refs_of u = foldl apply_edit (refs_of s1) edits
         | Inl _ \<Rightarrow> \<forall>name. refs_of u name = refs_of s1 name \<or> refs_of u name = foldl apply_edit (refs_of s1) edits name"
        unfolding txn_law_def by blast+
      then show ?thesis using rest Inr q s1 unfolding edits by (cases q) (auto simp: act_defs)
    qed
  qed
qed

text \<open>
  C19. The refs of the gitoxide backend follow the compare-and-swap contract, for updates that do not have
  two null ids: on success the contract admits the batch and the refs are what it says; on an error either no ref
  has changed, or the contract admits the batch and every ref has its old value or its new one.
\<close>

theorem gitoxide_update_refs_cas:
  assumes "object_id H" "txn_law X r refs_of" "\<forall>u \<in> set us. \<not> both_null H u"
    and run: "gitoxide_update_refs X H r us s = (res, t)"
  shows "case res of
      Inr _ \<Rightarrow> cas_batch H (object_refs (refs_of s)) us = Some (object_refs (refs_of t))
    | Inl _ \<Rightarrow> refs_of t = refs_of s \<or>
        (\<exists>m. cas_batch H (object_refs (refs_of s)) us = Some m \<and>
           (\<forall>name. object_refs (refs_of t) name = object_refs (refs_of s) name \<or> object_refs (refs_of t) name = m name))"
proof -
  from gitoxide_update_run [OF assms(2) run] show ?thesis
  proof
    assume "(\<exists>e. res = Inl e) \<and> refs_of t = refs_of s"
    then show ?thesis by auto
  next
    assume a: "distinct (map ed_name (edits_of H us)) \<and> (\<forall>e \<in> set (edits_of H us). edit_ok (refs_of s) e) \<and>
    (case res of
       Inr _ \<Rightarrow> refs_of t = foldl apply_edit (refs_of s) (edits_of H us)
     | Inl _ \<Rightarrow> \<forall>name. refs_of t name = refs_of s name \<or> refs_of t name = foldl apply_edit (refs_of s) (edits_of H us) name)"
    from edits_admitted [OF assms(1) _ _ assms(3)] a
    have "cas_batch H (object_refs (refs_of s)) us = Some (object_refs (foldl apply_edit (refs_of s) (edits_of H us)))" by blast
    moreover have "object_refs (refs_of t) name = object_refs (refs_of s) name \<or>
      object_refs (refs_of t) name = object_refs (foldl apply_edit (refs_of s) (edits_of H us)) name" if "res = Inl e" for e name
    proof -
      have "refs_of t name = refs_of s name \<or> refs_of t name = foldl apply_edit (refs_of s) (edits_of H us) name"
        using a that by simp
      then show ?thesis by (auto simp: object_refs_def)
    qed
    ultimately show ?thesis using a by (cases res) auto
  qed
qed

text \<open>
  An update with two null ids deletes the ref.  The check before the pack and the classification after it
  both call such an update a creation, so an application that lets anyone create refs, and nobody delete
  them, lets this one pass; on this backend it deletes whatever the ref pointed to.
\<close>

theorem null_update_deletes:
  assumes "object_id H" "txn_law X r refs_of" "both_null H u"
    and run: "gitoxide_update_refs X H r [u] s = (Inr (), t)"
  shows "refs_of s (refname u) \<noteq> None \<and> refs_of t (refname u) = None \<and>
    preliminary_push_kind H u = Create \<and> gitoxide_compute_push_kind X H r u s = Create"
  using gitoxide_update_run [OF assms(2) run] assms(3) object_id.is_null_iff [OF assms(1)]
  by (auto simp: both_null_def edit_ok_def apply_edit_def change_of_def preliminary_push_kind_def gitoxide_compute_push_kind_def)

section \<open>Pushed packs\<close>

text \<open>
  Writing a bundle touches only the directory it is told to write to, and the name of a temporary
  directory is fresh and not that of the repository's own.
\<close>

definition bundle_law :: "('r, 't, 'n, 'o, 'g) gix \<Rightarrow> 'r \<Rightarrow> bool" where
  "bundle_law X r \<longleftrightarrow>
     (\<forall>staged dir d g res d' g'. gx_write_bundle X r staged dir (d, g) = (res, (d', g')) \<longrightarrow>
        (\<forall>p. \<not> under dir p \<longrightarrow> content_at d' p = content_at d p) \<and> (dk_events d = [] \<longrightarrow> dk_events d' = []))"

definition temp_law :: "('r, 't, 'n, 'o, 'g) gix \<Rightarrow> 'r \<Rightarrow> (bytes list \<Rightarrow> bytes res) \<Rightarrow> bool" where
  "temp_law X r temp_name \<longleftrightarrow>
     (\<forall>ps dir. temp_name ps = Inr dir \<longrightarrow> (\<forall>p \<in> set ps. \<not> under dir p) \<and>
        (\<forall>n. \<not> under dir (path_join (path_join (path_join (gx_path X r) ''objects'') ''pack'') n)))"

lemma dir_entriesD: "p \<in> set (dir_entries dir fs) \<Longrightarrow> under dir p \<and> map_of fs p \<noteq> None"
  by (auto simp: dir_entries_def under_def starts_with_iff strip_prefix_Some_iff map_of_eq_None_iff split: option.splits)

lemma map_of_not_under: "map_of (filter (\<lambda>e. \<not> under dir (fst e)) fs) p = (if under dir p then None else map_of fs p)"
  by (induction fs) auto

lemma extension_file_name: "file_name p = file_name q \<Longrightarrow> extension p = extension q"
  by (auto simp: extension_def file_stem_ext_def file_name_def Let_def split: option.splits prod.splits if_splits)

lemma path_join_inj: "path_join d a = path_join d b \<Longrightarrow> a = b"
  by (auto simp: path_join_def split: if_splits)

lemma last_with_extensionD:
  assumes "last_with_extension ext ps = Some p"
  shows "p \<in> set ps \<and> extension p = Some ext"
proof -
  let ?f = "filter (\<lambda>p. extension p = Some ext) ps"
  have "?f \<noteq> []" "p = last ?f" using assms by (auto simp: last_with_extension_def split: list.splits)
  then have "p \<in> set ?f" using last_in_set by metis
  then show ?thesis by auto
qed

lemma quiet_exists: "dk_events d = [] \<Longrightarrow> fs_exists p d = (Inr (content_at d p \<noteq> None), d)"
  by (simp add: fs_exists_def fs_metadata_def quiet_disk_op split: option.split)

lemma quiet_install:
  assumes "dk_events d = []" "content_at d src = Some c"
  shows "install_file msg src dst d =
    (if content_at d dst \<noteq> None then (Inr False, d)
     else (Inr True, d\<lparr> dk_files := AList.update dst c (AList.delete src (dk_files d)) \<rparr>))"
  using assms
  by (simp add: install_file_def bindA_def quiet_exists move_file_def fs_rename_def quiet_disk_op act_defs)

lemma quiet_remove: "dk_events d = [] \<Longrightarrow> snd (fs_remove_file p d) = d\<lparr> dk_files := AList.delete p (dk_files d) \<rparr>"
  by (simp add: fs_remove_file_def quiet_disk_op)

text \<open>What a successful ingest has done.\<close>

definition ingest_effect :: "disk \<Rightarrow> written_pack \<Rightarrow> disk \<Rightarrow> bool" where
  "ingest_effect d w d' \<longleftrightarrow>
     dk_events d' = [] \<and> wp_pack w \<noteq> wp_index w \<and>
     content_at d' (wp_pack w) \<noteq> None \<and> content_at d' (wp_index w) \<noteq> None \<and>
     wp_pack_owned w = (content_at d (wp_pack w) = None) \<and> wp_index_owned w = (content_at d (wp_index w) = None) \<and>
     (\<forall>p. (p = wp_pack w \<longrightarrow> \<not> wp_pack_owned w) \<longrightarrow> (p = wp_index w \<longrightarrow> \<not> wp_index_owned w) \<longrightarrow> content_at d' p = content_at d p)"

lemma install_pack_run:
  assumes run: "install_pack dir pack_dir d = (Inr w, d')" and ev: "dk_events d = []"
    and out: "\<And>n. \<not> under dir (path_join pack_dir n)"
  shows "\<exists>a b. wp_pack w = path_join pack_dir a \<and> wp_index w = path_join pack_dir b \<and> dk_events d' = [] \<and> wp_pack w \<noteq> wp_index w \<and>
    content_at d' (wp_pack w) \<noteq> None \<and> content_at d' (wp_index w) \<noteq> None \<and>
    wp_pack_owned w = (content_at d (wp_pack w) = None) \<and> wp_index_owned w = (content_at d (wp_index w) = None) \<and>
    (\<forall>p. \<not> under dir p \<longrightarrow> (p = wp_pack w \<longrightarrow> \<not> wp_pack_owned w) \<longrightarrow> (p = wp_index w \<longrightarrow> \<not> wp_index_owned w) \<longrightarrow>
       content_at d' p = content_at d p)"
proof -
  let ?ps = "dir_entries dir (dk_files d)"
  have dir: "fs_read_dir dir d = (Inr ?ps, d)" by (simp add: fs_read_dir_def quiet_disk_op ev)
  obtain src idx where src: "last_with_extension ''pack'' ?ps = Some src" "last_with_extension ''idx'' ?ps = Some idx"
    using run by (auto simp: install_pack_def bindA_Inr act_Inr dir res_simps)
  have src_ext: "extension src = Some ''pack''" "extension idx = Some ''idx''"
    and under: "under dir src" "under dir idx" and "content_at d src \<noteq> None" "content_at d idx \<noteq> None"
    using last_with_extensionD [OF src(1)] last_with_extensionD [OF src(2)] dir_entriesD by blast+
  then obtain c k where c: "content_at d src = Some c" and k: "content_at d idx = Some k" by auto
  define pd where "pd = path_join pack_dir (file_name src)"
  define xd where "xd = path_join pack_dir (file_name idx)"
  have "file_name src \<noteq> file_name idx" using extension_file_name [of src idx] src_ext by auto
  then have ne: "pd \<noteq> xd" using path_join_inj unfolding pd_def xd_def by blast
  have ne': "src \<noteq> idx" using src_ext by auto
  have apart: "pd \<noteq> src" "pd \<noteq> idx" "xd \<noteq> src" "xd \<noteq> idx" "\<not> under dir pd" "\<not> under dir xd"
    using under out unfolding pd_def xd_def by metis+
  define d1 where "d1 = (if content_at d pd \<noteq> None then d else d\<lparr> dk_files := AList.update pd c (AList.delete src (dk_files d)) \<rparr>)"
  have i1: "install_file ''moving pack file'' src pd d = (Inr (content_at d pd = None), d1)"
    using quiet_install [OF ev c] by (simp add: d1_def)
  have d1: "dk_events d1 = []" "content_at d1 idx = Some k" "content_at d1 xd = content_at d xd" "content_at d1 pd \<noteq> None"
    using ev k ne ne' apart by (auto simp: d1_def update_conv' delete_conv')
  define d2 where "d2 = (if content_at d xd \<noteq> None then d1 else d1\<lparr> dk_files := AList.update xd k (AList.delete idx (dk_files d1)) \<rparr>)"
  have i2: "install_file ''moving index file'' idx xd d1 = (Inr (content_at d xd = None), d2)"
    using quiet_install [OF d1(1,2)] d1(3) by (simp add: d2_def)
  have w: "w = \<lparr> wp_pack = pd, wp_index = xd, wp_pack_owned = content_at d pd = None, wp_index_owned = content_at d xd = None \<rparr>" "d' = d2"
    using run src i1 i2 by (auto simp: install_pack_def bindA_Inr act_Inr dir res_simps Let_def pd_def [symmetric] xd_def [symmetric])
  have "content_at d2 p = content_at d p" if "\<not> under dir p" "p = pd \<longrightarrow> content_at d pd \<noteq> None" "p = xd \<longrightarrow> content_at d xd \<noteq> None" for p
    using that under by (auto simp: d2_def d1_def update_conv' delete_conv')
  moreover have "dk_events d2 = []" "content_at d2 pd \<noteq> None" "content_at d2 xd \<noteq> None"
    using d1 ne apart by (auto simp: d2_def update_conv' delete_conv')
  ultimately show ?thesis using w ne by (auto simp: pd_def xd_def)
qed

lemma ingest_run:
  assumes laws: "bundle_law X r" "temp_law X r temp_name" and ev: "dk_events d = []"
    and run: "gitoxide_ingest_pack X temp_name r staged (d, g) = (Inr (Some w), (d', g'))"
  shows "ingest_effect d w d'"
proof -
  let ?pd = "path_join (path_join (gx_path X r) ''objects'') ''pack''"
  have ne: "\<not> staged_empty staged" using run by (auto simp: gitoxide_ingest_pack_def)
  have mk: "fs_create_dir_all ?pd d = (Inr (), d)" by (simp add: fs_create_dir_all_def quiet_disk_op ev)
  have tmp: "fs_temp_dir temp_name d = (temp_name (map fst (dk_files d)), d)" by (simp add: fs_temp_dir_def quiet_disk_op ev)
  obtain dir where dir: "temp_name (map fst (dk_files d)) = Inr dir"
    using run ne mk tmp
    by (auto simp: gitoxide_ingest_pack_def with_temp_dir_def bindA_Inr act_Inr on_disk_run Let_def)
  obtain q d1 g1 where b: "gx_write_bundle X r staged dir (d, g) = (q, (d1, g1))" by (metis surj_pair)
  have fr: "\<And>p. \<not> under dir p \<Longrightarrow> content_at d1 p = content_at d p" and ev1: "dk_events d1 = []"
    using laws(1) b ev unfolding bundle_law_def by blast+
  have t: "\<forall>p \<in> set (map fst (dk_files d)). \<not> under dir p" "\<forall>n. \<not> under dir (path_join ?pd n)"
    using laws(2) dir unfolding temp_law_def by blast+
  have out: "\<And>n. \<not> under dir (path_join ?pd n)" using t(2) by blast
  have free: "content_at d p = None" if "under dir p" for p using t(1) that by (auto simp: map_of_eq_None_iff)
  from run ne mk tmp dir b obtain d2 where inst: "install_pack dir ?pd d1 = (Inr w, d2)"
    and d': "d' = snd (fs_remove_dir_all dir d2)"
    by (auto simp: gitoxide_ingest_pack_def with_temp_dir_def bindA_Inr act_Inr on_disk_run finallyA_def ignored_def Let_def
        split: prod.splits)
  from install_pack_run [OF inst ev1 out] obtain a c where w: "wp_pack w = path_join ?pd a" "wp_index w = path_join ?pd c"
    "dk_events d2 = []" "wp_pack w \<noteq> wp_index w" "content_at d2 (wp_pack w) \<noteq> None" "content_at d2 (wp_index w) \<noteq> None"
    "wp_pack_owned w = (content_at d1 (wp_pack w) = None)" "wp_index_owned w = (content_at d1 (wp_index w) = None)"
    "\<forall>p. \<not> under dir p \<longrightarrow> (p = wp_pack w \<longrightarrow> \<not> wp_pack_owned w) \<longrightarrow> (p = wp_index w \<longrightarrow> \<not> wp_index_owned w) \<longrightarrow>
       content_at d2 p = content_at d1 p" by (elim exE conjE) (rule that)
  have places: "\<not> under dir (wp_pack w)" "\<not> under dir (wp_index w)" using w(1,2) out by simp_all
  have gone: "content_at d' p = (if under dir p then None else content_at d2 p)" and "dk_events d' = []" for p
    using w(3) by (simp_all add: d' fs_remove_dir_all_def quiet_disk_op map_of_not_under)
  moreover have "content_at d1 (wp_pack w) = content_at d (wp_pack w)" "content_at d1 (wp_index w) = content_at d (wp_index w)"
    using places fr by blast+
  moreover have "content_at d' p = content_at d p" if "p = wp_pack w \<longrightarrow> \<not> wp_pack_owned w" "p = wp_index w \<longrightarrow> \<not> wp_index_owned w" for p
    using gone [of p] free [of p] fr [of p] w(9) that by (cases "under dir p") auto
  ultimately show ?thesis using w(4-8) places unfolding ingest_effect_def by auto
qed

lemma rollback_run:
  assumes "dk_events d = []"
  shows "content_at (gitoxide_rollback_ingest w d) p =
    (if p = wp_pack w \<and> wp_pack_owned w \<or> p = wp_index w \<and> wp_index_owned w then None else content_at d p)"
  using assms by (auto simp: gitoxide_rollback_ingest_def quiet_remove delete_conv' Let_def)

text \<open>
  C22. A push that is refused leaves the disk as it was.  An ingest that succeeds on a working disk has put
  the pack and its index in place, leaves every file that was there before as it was, and takes its
  temporary files away; rolling it back restores the disk exactly, also when the pack had been there before.
\<close>

theorem gitoxide_ingest_rollback:
  assumes "bundle_law X r" "temp_law X r temp_name" "dk_events d = []"
    and "gitoxide_ingest_pack X temp_name r staged (d, g) = (Inr (Some w), (d', g'))"
  shows "content_at d' (wp_pack w) \<noteq> None \<and> content_at d' (wp_index w) \<noteq> None \<and>
    (\<forall>p. content_at d p \<noteq> None \<or> p \<notin> {wp_pack w, wp_index w} \<longrightarrow> content_at d' p = content_at d p) \<and>
    (\<forall>p. content_at (gitoxide_rollback_ingest w d') p = content_at d p)"
proof -
  have e: "ingest_effect d w d'" using ingest_run [OF assms] .
  then have "content_at (gitoxide_rollback_ingest w d') p = content_at d p" for p
    by (auto simp: ingest_effect_def rollback_run)
  moreover have "content_at d' p = content_at d p" if "content_at d p \<noteq> None \<or> p \<notin> {wp_pack w, wp_index w}" for p
    using e that by (cases "p = wp_pack w"; cases "p = wp_index w") (auto simp: ingest_effect_def)
  ultimately show ?thesis using e unfolding ingest_effect_def by blast
qed

text \<open>
  Two pushes of the same pack.  When the second arrives before the first is decided, its ingest finds
  the file in place and succeeds without owning it; when the first is then refused and rolled back,
  the pack of the second, which may still be accepted, is gone.
\<close>

theorem rollback_removes_shared_pack:
  assumes "bundle_law X r" "temp_law X r temp_name" "dk_events d = []"
    and first: "gitoxide_ingest_pack X temp_name r staged (d, g) = (Inr (Some w), (d1, g1))" "content_at d (wp_pack w) = None"
    and second: "gitoxide_ingest_pack X temp_name r staged' (d1, g1) = (Inr (Some w'), (d2, g2))" "wp_pack w' = wp_pack w"
  shows "\<not> wp_pack_owned w' \<and> content_at d2 (wp_pack w') \<noteq> None \<and>
    content_at (gitoxide_rollback_ingest w d2) (wp_pack w') = None"
proof -
  have e1: "ingest_effect d w d1" using ingest_run [OF assms(1-3) first(1)] .
  then have e2: "ingest_effect d1 w' d2" using ingest_run [OF assms(1,2) _ second(1)] by (simp add: ingest_effect_def)
  from e1 first(2) have "wp_pack_owned w" by (simp add: ingest_effect_def)
  with e1 e2 second(2) show ?thesis by (auto simp: ingest_effect_def rollback_run)
qed

section \<open>Packs built for a fetch\<close>

lemma closure_Union: "(\<Union>x \<in> set xs. closure D [x]) = closure D xs"
  by (auto simp: closure_def history_def)

lemma closed_closure:
  assumes "intact D xs"
  shows "closed (kid_ids D) (closure D xs)"
proof -
  have "kids D c = []" if "c \<in> history D xs" for c
    using assms that unfolding intact_def by (meson commit_okE)
  moreover have "closed (kid_ids D) (\<Union>c \<in> history D xs. tree_objects D c)"
    using closed_ancestors [of "kid_ids D" "tree_at D ` history D xs"] by (simp add: image_image)
  ultimately show ?thesis by (fastforce simp: closed_def closure_def)
qed

text \<open>A bitmap that loads from sound files can be indexed, and its answers are right.\<close>

lemma sidecar_built:
  assumes "opens_only IX" "sidecars_sound IX Z reaches (dk_files d)" "ix_open IX p d = (Inr idx, d1)"
    "load_bitmap Z p (ix_num_objects IX idx) d1 = (Inr (Some b), d2)"
  shows "\<exists>oid b'. bitmap_sound Z oid reaches b \<and> build_oid_index (ix_oid_at IX idx) b = Inr b' \<and> built Z oid reaches b b'"
proof -
  have "dk_files d1 = dk_files d" using assms(1,3) unfolding opens_only_def by blast
  with load_bitmap_Some [OF assms(4)] have b: "loaded_from Z (dk_files d) p (ix_num_objects IX idx) b" by simp
  then obtain oid where oid: "index_law (ix_oid_at IX idx) (ix_num_objects IX idx) oid" "bitmap_sound Z oid reaches b"
    using assms(2,3) unfolding sidecars_sound_def by blast
  have "bm_object_count b = ix_num_objects IX idx" "oid_to_entry b = Map.empty" using b by (auto simp: loaded_from_def)
  with build_oid_index_correct [OF oid(2)] oid show ?thesis by metis
qed

lemma keeps_open: "opens_only IX \<Longrightarrow> keeps (\<lambda>d. dk_files d = F) (ix_open IX p)"
  by (rule keepsI) (simp add: opens_only_def)

lemma keeps_scan_packs: "opens_only IX \<Longrightarrow> keeps (\<lambda>d. dk_files d = F) (scan_packs IX Z want haves ps)"
proof (induction ps)
  case (Cons p ps)
  have "keeps (\<lambda>d. dk_files d = F) (pack_is_exactly_reusable IX Z p want haves)"
    unfolding pack_is_exactly_reusable_def by (intro keeps_intros keeps_open Cons.prems)
  with Cons show ?case by (auto intro!: keeps_intros split: bool.split)
qed (simp add: keeps_intros)

lemma keeps_find_reusable: "opens_only IX \<Longrightarrow> keeps (\<lambda>d. dk_files d = F) (find_reusable_pack IX Z dir want haves)"
  unfolding find_reusable_pack_def by (intro keeps_intros keeps_scan_packs)

lemma try_single_run:
  fixes IX :: "('i, 'o) index_ops" and Z :: "'e ewah_ops"
  assumes "opens_only IX" "sidecars_sound IX Z reaches (dk_files d)" "try_single_pack_bitmap IX Z p haves d = (r, t)"
  shows "dk_files t = dk_files d \<and> (\<exists>v. r = Inr v \<and> (\<forall>hs. v = Some hs \<longrightarrow> set hs = (\<Union>x \<in> set haves. reaches x)))"
proof -
  have "keeps (\<lambda>u. dk_files u = dk_files d) (try_single_pack_bitmap IX Z p haves)"
    unfolding try_single_pack_bitmap_def by (intro keeps_intros keeps_open assms(1))
  then have files: "dk_files t = dk_files d" by (rule keepsD) (use assms(3) in auto)
  obtain q d1 where q: "ix_open IX p d = (q, d1)" by fastforce
  show ?thesis
  proof (cases q)
    case (Inl e)
    then show ?thesis using assms(3) q files by (auto simp: try_single_pack_bitmap_def bindA_def attempt_def)
  next
    case (Inr idx)
    obtain l d2 where l: "load_bitmap Z p (ix_num_objects IX idx) d1 = (l :: error + ('o, 'e) pack_bitmap option, d2)" by fastforce
    have run: "(r, t) = (case l of
        Inr (Some b) \<Rightarrow> (bindA (liftA (build_oid_index (ix_oid_at IX idx) b)) (\<lambda>b. liftA (have_reachable Z b haves))) d2
      | _ \<Rightarrow> (Inr None, d2))"
      using assms(3) q Inr l
      by (auto simp: try_single_pack_bitmap_def bindA_def attempt_def split: sum.splits option.splits)
    show ?thesis
    proof (cases "\<exists>b. l = Inr (Some b)")
      case False
      then show ?thesis using run files by (auto split: sum.splits option.splits)
    next
      case True
      then obtain b where b: "l = Inr (Some b)" by blast
      obtain oid b' where b': "bitmap_sound Z oid reaches b" "build_oid_index (ix_oid_at IX idx) b = Inr b'" "built Z oid reaches b b'"
        using sidecar_built [OF assms(1,2) q [unfolded Inr] l [unfolded b]] by blast
      from run b b'(2) have "r = have_reachable Z b' haves" by (simp add: bindA_def)
      with have_reachable_sound [OF b'(1,3), of haves] files show ?thesis by (auto split: if_splits)
    qed
  qed
qed

lemma try_bitmap_run:
  assumes "opens_only IX" "sidecars_sound IX Z reaches (dk_files d)" "try_bitmap_have_set IX Z dir haves d = (r, t)"
  shows "dk_files t = dk_files d \<and> (\<exists>v. r = Inr v \<and> (\<forall>hs. v = Some hs \<longrightarrow> set hs = (\<Union>x \<in> set haves. reaches x)))"
proof -
  let ?ok = "\<lambda>d r t. dk_files t = dk_files d \<and> (\<exists>v. r = Inr v \<and> (\<forall>hs. v = Some hs \<longrightarrow> set hs = (\<Union>x \<in> set haves. reaches x)))"
  have scan: "?ok d r t" if "sidecars_sound IX Z reaches (dk_files d)" "scan_bitmaps IX Z haves ps d = (r, t)" for ps d r t
    using that
  proof (induction ps arbitrary: d)
    case (Cons p ps)
    show ?case
    proof (cases "extension p = Some ''idx''")
      case True
      obtain q u where q: "try_single_pack_bitmap IX Z p haves d = (q, u)" by fastforce
      from try_single_run [OF assms(1) Cons.prems(1) q] obtain v where v: "dk_files u = dk_files d" "q = Inr v"
        "\<forall>hs. v = Some hs \<longrightarrow> set hs = (\<Union>x \<in> set haves. reaches x)" by blast
      show ?thesis
      proof (cases v)
        case None
        with Cons.prems(2) True q v(2) have "scan_bitmaps IX Z haves ps u = (r, t)" by (simp add: bindA_def)
        with Cons.IH [of u] Cons.prems(1) v(1) show ?thesis by simp
      next
        case (Some hs)
        with Cons.prems(2) True q v show ?thesis by (auto simp: bindA_def)
      qed
    qed (use Cons in auto)
  qed auto
  show ?thesis
  proof (cases "haves = []")
    case True
    then show ?thesis using assms(3) by (auto simp: try_bitmap_have_set_def)
  next
    case False
    obtain q u where q: "fs_read_dir dir d = (q, u)" by fastforce
    have u: "dk_files u = dk_files d" by (rule fs_files(5) [OF q])
    show ?thesis
    proof (cases q)
      case (Inl e)
      then show ?thesis using assms(3) False q u by (auto simp: try_bitmap_have_set_def bindA_def attempt_def)
    next
      case (Inr ps)
      then have "scan_bitmaps IX Z haves ps u = (r, t)"
        using assms(3) False q by (auto simp: try_bitmap_have_set_def bindA_def attempt_def)
      with scan [of u ps r t] assms(2) u show ?thesis by simp
    qed
  qed
qed

lemma reusable_returns:
  fixes IX :: "('i, 'o) index_ops" and Z :: "'e ewah_ops"
  assumes "opens_only IX" "sidecars_sound IX Z reaches (dk_files d)" "pack_is_exactly_reusable IX Z p want haves d = (r, t)"
  shows "\<exists>v. r = Inr v"
proof -
  obtain q d1 where q: "ix_open IX p d = (q, d1)" by fastforce
  show ?thesis
  proof (cases q)
    case (Inl e)
    then show ?thesis using assms(3) q by (auto simp: pack_is_exactly_reusable_def bindA_def attempt_def)
  next
    case (Inr idx)
    obtain l d2 where l: "load_bitmap Z p (ix_num_objects IX idx) d1 = (l :: error + ('o, 'e) pack_bitmap option, d2)" by fastforce
    show ?thesis
    proof (cases "\<exists>b. l = Inr (Some b)")
      case False
      then show ?thesis using assms(3) q Inr l
        by (auto simp: pack_is_exactly_reusable_def bindA_def attempt_def split: sum.splits option.splits)
    next
      case True
      then obtain b where b: "l = Inr (Some b)" by blast
      obtain oid b' where b': "bitmap_sound Z oid reaches b" "build_oid_index (ix_oid_at IX idx) b = Inr b'" "built Z oid reaches b b'"
        using sidecar_built [OF assms(1,2) q [unfolded Inr] l [unfolded b]] by blast
      from covers_exactly_sound [OF b'(1,3), of want haves] obtain c where "covers_exactly Z b' want haves = Inr c" by blast
      then show ?thesis using assms(3) q Inr l b b'(2)
        by (auto simp: pack_is_exactly_reusable_def bindA_def attempt_def)
    qed
  qed
qed

lemma scan_packs_returns:
  assumes "opens_only IX"
  shows "sidecars_sound IX Z reaches (dk_files d) \<Longrightarrow> scan_packs IX Z want haves ps d = (r, t) \<Longrightarrow> \<exists>v. r = Inr v"
proof (induction ps arbitrary: d)
  case (Cons p ps)
  obtain q u where q: "pack_is_exactly_reusable IX Z p want haves d = (q, u)" by fastforce
  obtain v where v: "q = Inr v" using reusable_returns [OF assms Cons.prems(1) q] by blast
  have u: "dk_files u = dk_files d" using pack_reusable_run [OF assms Cons.prems(1) q] by blast
  show ?case
  proof (cases "extension p = Some ''idx'' \<and> v \<noteq> Inr False")
    case True
    then show ?thesis using Cons.prems(2) q v by (cases v) (auto simp: bindA_def)
  next
    case False
    then have "scan_packs IX Z want haves ps (if extension p = Some ''idx'' then u else d) = (r, t)"
      using Cons.prems(2) q v by (auto simp: bindA_def)
    then show ?thesis using Cons.IH [of u] Cons.IH [of d] Cons.prems(1) u by (simp split: if_splits)
  qed
qed auto

lemma find_reusable_returns:
  assumes "opens_only IX" "sidecars_sound IX Z reaches (dk_files d)" "find_reusable_pack IX Z dir want haves d = (r, t)"
  shows "dk_files t = dk_files d \<and> (\<exists>v. r = Inr v)"
proof -
  have "dk_files t = dk_files d"
    by (rule keepsD [OF keeps_find_reusable [OF assms(1)] refl assms(3)])
  moreover have "\<exists>v. r = Inr v"
  proof (cases "want = []")
    case True
    then show ?thesis using assms(3) by (auto simp: find_reusable_pack_def)
  next
    case False
    obtain q u where q: "fs_read_dir dir d = (q, u)" by fastforce
    then show ?thesis
    proof (cases q)
      case (Inl e)
      then show ?thesis using assms(3) False q by (auto simp: find_reusable_pack_def bindA_def attempt_def act_defs)
    next
      case (Inr ps)
      then have "scan_packs IX Z want haves ps u = (r, t)"
        using assms(3) False q by (auto simp: find_reusable_pack_def bindA_def attempt_def act_defs)
      with scan_packs_returns [OF assms(1), of Z reaches u] assms(2) fs_files(5) [OF q] show ?thesis by simp
    qed
  qed
  ultimately show ?thesis ..
qed

text \<open>Objects are selected alike with the set of a bitmap and with the set of the walker.\<close>

lemma select_objects_exact:
  assumes db: "well_typed D" "walker_law D" "walk_law D" "intact D haves"
    "intact D (filter (\<lambda>x. \<not> non_commit D x) want)" "\<forall>x \<in> set want. \<not> stored_tree D x"
    and "gx_odb X r s = D" "opt_deepen opts = None" "\<forall>hs. b = Some hs \<longrightarrow> set hs = closure D haves"
  shows "\<exists>p. select_objects X H r want haves opts b s = Inr p \<and> po_shallow p = [] \<and>
    set (po_objects p) = {x \<in> set want. non_commit D x} \<union> selection D (opt_filter opts) (filter (\<lambda>x. \<not> non_commit D x) want) haves"
proof (cases b)
  case (Some hs)
  then have "set hs = closure D haves" using assms(9) by blast
  with with_have_set_exact [OF db, of hs H "opt_filter opts"] closed_closure [OF db(4)] show ?thesis
    using Some assms(7,8) by (auto simp: select_objects_def)
next
  case None
  obtain hs where "build_have_set D H haves = Inr hs" "closed (kid_ids D) (set hs)" "set hs = closure D haves"
    using build_have_set_exact [OF db(1-4)] by blast
  with with_have_set_exact [OF db, of hs H "opt_filter opts"] show ?thesis
    using None assms(7,8) by (auto simp: select_objects_def objects_for_fetch_filtered_def)
qed


section \<open>A small repository\<close>

fun stored_edit :: "(bytes \<times> 'o ref_target) list \<Rightarrow> 'o ref_edit \<Rightarrow> (bytes \<times> 'o ref_target) list" where
  "stored_edit m e =
     (case ed_change e of DeleteRef _ \<Rightarrow> AList.delete (ed_name e) m | UpdateRef _ _ t \<Rightarrow> AList.update (ed_name e) t m)"

text \<open>Refs are a list; a received pack is stored as it came, next to an empty index.\<close>

definition demo_gix :: "'o object_db \<Rightarrow> 'o \<Rightarrow> (unit, 'o ref_edit list, 'o, 'o, (bytes \<times> 'o ref_target) list) gix" where
  "demo_gix D e = \<lparr>
     gx_open = (\<lambda>_. retA ()), gx_init_bare = (\<lambda>_. retA ()), gx_path = (\<lambda>_. ''/r''), gx_objects_dir = (\<lambda>_. ''/r/objects''),
     gx_head_ref = (\<lambda>_. retA None), gx_peel_head = (\<lambda>_ _. retA None),
     gx_all_refs = (\<lambda>_. readA (\<lambda>s. Inr (map Inr (snd s)))),
     gx_find_reference = (\<lambda>_ n. readA (\<lambda>s. of_option (Ext ''not found'') (map_option (Pair n) (map_of (snd s) n)))),
     gx_peel = (\<lambda>_ nt. case snd nt of ObjectTarget x \<Rightarrow> retA x | SymbolicTarget _ \<Rightarrow> failA (Ext ''symbolic'')),
     gx_full_name = Inr, gx_committer = (\<lambda>_. retA None), gx_now = (\<lambda>_. 0),
     gx_prepare = (\<lambda>_ es s. (if distinct (map ed_name es) \<and> list_all (edit_ok (map_of (snd s))) es then Inr es else Inl (Ext ''stale''), s)),
     gx_commit = (\<lambda>es c s. (Inr (), (fst s, foldl stored_edit (snd s) es))),
     gx_exists = (\<lambda>_ x s. case db_find D x of Inr (Some _) \<Rightarrow> True | _ \<Rightarrow> False), gx_odb = (\<lambda>_ _. D),
     gx_topo = (\<lambda>_ a b s. Inr []), gx_find_tree = (\<lambda>_ x s. Inl (Ext ''not found'')), gx_diff = (\<lambda>_ a b s. Inr []),
     gx_empty_tree = e,
     gx_write_bundle = (\<lambda>_ staged dir. on_disk (bindA (fs_write_all (path_join dir ''p.pack'') staged) (\<lambda>_.
       fs_write_all (path_join dir ''p.idx'') []))),
     gx_count = (\<lambda>_ xs s. Inr xs), gx_steps = (\<lambda>_ xs thin s. [Inr ''PACK'']), gx_progress = (\<lambda>_ xs s. []),
     gx_bundle_at = (\<lambda>p s. Inl (Ext ''not a pack'')) \<rparr>"

lemma map_of_stored_edit: "map_of (stored_edit m e) = apply_edit (map_of m) e"
  by (auto simp: apply_edit_def update_conv delete_conv split: ref_change.split)

lemma map_of_stored_edits: "map_of (foldl stored_edit m es) = foldl apply_edit (map_of m) es"
  by (induction es arbitrary: m) (simp_all add: map_of_stored_edit del: stored_edit.simps)

lemma demo_txn_law: "txn_law (demo_gix D e) () (\<lambda>s. map_of (snd s))"
  by (auto simp: txn_law_def demo_gix_def list_all_iff map_of_stored_edits split: if_splits)

definition main_at :: "nat \<Rightarrow> (bytes \<times> sha1 ref_target) list" where
  "main_at n = [(''refs/heads/main'', ObjectTarget (of_nat n))]"

definition quiet_files :: "(bytes \<times> bytes) list \<Rightarrow> disk" where
  "quiet_files fs = \<lparr> dk_files = fs, dk_events = [] \<rparr>"

definition move_main :: "nat \<Rightarrow> nat \<Rightarrow> sha1 ref_update" where
  "move_main a b = \<lparr> old_oid = of_nat a, new_oid = of_nat b, refname = ''refs/heads/main'' \<rparr>"

abbreviation demo_sha1 :: "(unit, sha1 ref_edit list, sha1, sha1, (bytes \<times> sha1 ref_target) list) gix" where
  "demo_sha1 \<equiv> demo_gix \<lparr> db_find = (\<lambda>_. Inr None), db_tree_id = (\<lambda>_. Inl (Ext '''')), db_parent_ids = (\<lambda>_. []), db_entries = (\<lambda>_. []),
     db_walk = (\<lambda>_. []), db_walk_hiding = (\<lambda>_ _. Inr []), db_breadthfirst = (\<lambda>_ _ _ st. Inr st) \<rparr> 4"

lemma demo_moves:
  "gitoxide_update_refs demo_sha1 sha1_ops () [move_main 1 2] (quiet_files [], main_at 1) = (Inr (), (quiet_files [], main_at 2))"
  "gitoxide_update_refs demo_sha1 sha1_ops () [move_main 0 0] (quiet_files [], main_at 1) = (Inr (), (quiet_files [], []))"
  by (simp_all add: gitoxide_update_refs_def demo_gix_def edit_of_def change_of_def move_main_def main_at_def bindA_def act_defs readA_def
      sha1_ops_def edit_ok_def)

theorem gitoxide_update_refs_cas_witness:
  "cas_batch sha1_ops (object_refs (map_of (main_at 1))) [move_main 1 2] = Some (object_refs (map_of (main_at 2)))"
proof -
  have "\<not> both_null sha1_ops (move_main 1 2)" by (simp add: both_null_def move_main_def sha1_ops_def)
  then show ?thesis
    using gitoxide_update_refs_cas [OF sha1.object_id_axioms demo_txn_law _ demo_moves(1)] by simp
qed

theorem null_update_deletes_witness:
  "preliminary_push_kind sha1_ops (move_main 0 0) = Create \<and>
   map_of (main_at 1) ''refs/heads/main'' \<noteq> None \<and> map_of ([] :: (bytes \<times> sha1 ref_target) list) ''refs/heads/main'' = None"
proof -
  have "both_null sha1_ops (move_main 0 0)" by (simp add: both_null_def move_main_def sha1_ops_def)
  from null_update_deletes [OF sha1.object_id_axioms demo_txn_law this demo_moves(2)] show ?thesis
    by (simp add: move_main_def)
qed

definition slash_t :: "bytes list \<Rightarrow> bytes res" where
  "slash_t ps = (if list_ex (under ''/t'') ps then Inl (Ext ''no free name'') else Inr ''/t'')"

definition one_object :: bytes where
  "one_object = ''PACK'' @ [NUL, NUL, NUL, CHR 0x02] @ be_bytes 4 1"

lemma demo_bundle_law: "bundle_law (demo_gix D e) ()"
  unfolding bundle_law_def
proof (intro allI impI)
  fix staged dir and d d' :: disk and res g g'
  assume run: "gx_write_bundle (demo_gix D e) () staged dir (d, g) = (res, (d', g'))"
  let ?a = "path_join dir ''p.pack''" and ?b = "path_join dir ''p.idx''"
  obtain q d1 where q: "fs_write_all ?a staged d = (q, d1)" by fastforce
  have un: "under dir ?a" "under dir ?b" by (auto simp: under_def starts_with_iff path_join_def prefix_def)
  have one: "same_but ?a d d1" using q by (rule fs_touch_tmp(2))
  have d': "(\<exists>u. q = Inl u) \<and> d' = d1 \<or> d' = snd (fs_write_all ?b [] d1)"
    using run q by (cases q) (auto simp: demo_gix_def on_disk_def bindA_def split: prod.splits)
  then have "same_but ?b d1 d'"
    using fs_touch_tmp(2) [of ?b "[]" d1] by (metis same_but_refl surjective_pairing)
  with one un have "\<forall>p. \<not> under dir p \<longrightarrow> content_at d' p = content_at d p" unfolding same_but_def by metis
  moreover have "dk_events d' = []" if "dk_events d = []"
  proof -
    have "dk_events d1 = []" using q that by (auto simp: fs_write_all_def quiet_disk_op)
    then show ?thesis using d' by (auto simp: fs_write_all_def quiet_disk_op)
  qed
  ultimately show "(\<forall>p. \<not> under dir p \<longrightarrow> content_at d' p = content_at d p) \<and> (dk_events d = [] \<longrightarrow> dk_events d' = [])" by blast
qed

lemma demo_temp_law: "temp_law (demo_gix D e) () slash_t"
  by (auto simp: temp_law_def slash_t_def demo_gix_def list_ex_iff under_def path_join_def starts_with_iff prefix_def split: if_splits)

definition demo_written :: "bool \<Rightarrow> written_pack" where
  "demo_written b = \<lparr> wp_pack = ''/r/objects/pack/p.pack'', wp_index = ''/r/objects/pack/p.idx'', wp_pack_owned = b, wp_index_owned = b \<rparr>"

definition demo_installed :: disk where
  "demo_installed = quiet_files [(''/r/objects/pack/p.pack'', one_object), (''/r/objects/pack/p.idx'', [])]"

lemma demo_paths:
  "extension ''/t/p.pack'' = Some ''pack''" "extension ''/t/p.idx'' = Some ''idx''"
  "file_name ''/t/p.pack'' = ''p.pack''" "file_name ''/t/p.idx'' = ''p.idx''"
  by code_simp+

lemma demo_staged: "staged_empty one_object = False"
proof -
  have "take 12 one_object = one_object" "length one_object = 12" "take 4 (drop 8 one_object) = be_bytes 4 1"
    by (simp_all add: one_object_def)
  moreover have "take 4 one_object = ''PACK''" by (simp add: one_object_def)
  ultimately show ?thesis by (simp add: staged_empty_def Receive_Request.pack_object_count_def be_val_be_bytes)
qed

lemma demo_dir_entries:
  "dir_entries ''/t'' [(''/t/p.pack'', a), (''/t/p.idx'', b)] = [''/t/p.pack'', ''/t/p.idx'']"
  "dir_entries ''/t'' [(''/r/objects/pack/p.pack'', a), (''/r/objects/pack/p.idx'', b), (''/t/p.pack'', c), (''/t/p.idx'', d)] =
     [''/t/p.pack'', ''/t/p.idx'']"
  by (simp_all add: dir_entries_def path_join_def)

lemma demo_last:
  "last_with_extension ''pack'' [''/t/p.pack'', ''/t/p.idx''] = Some ''/t/p.pack''"
  "last_with_extension ''idx'' [''/t/p.pack'', ''/t/p.idx''] = Some ''/t/p.idx''"
  unfolding last_with_extension_def filter.simps demo_paths by simp_all

lemma demo_under:
  "under ''/t'' ''/t/p.pack''" "under ''/t'' ''/t/p.idx''" "\<not> under ''/t'' ''/r/objects/pack/p.pack''" "\<not> under ''/t'' ''/r/objects/pack/p.idx''"
  by (simp_all add: under_def starts_with_def path_join_def)

lemma demo_join:
  "path_join ''/t'' ''p.pack'' = ''/t/p.pack''" "path_join ''/t'' ''p.idx'' = ''/t/p.idx''"
  "path_join ''/r'' ''objects'' = ''/r/objects''" "path_join ''/r/objects'' ''pack'' = ''/r/objects/pack''"
  "path_join ''/r/objects/pack'' ''p.pack'' = ''/r/objects/pack/p.pack''" "path_join ''/r/objects/pack'' ''p.idx'' = ''/r/objects/pack/p.idx''"
  by (simp_all add: path_join_def)


lemma demo_install:
  "install_pack ''/t'' ''/r/objects/pack'' (quiet_files [(''/t/p.pack'', c), (''/t/p.idx'', [])]) =
     (Inr (demo_written True), quiet_files [(''/r/objects/pack/p.pack'', c), (''/r/objects/pack/p.idx'', [])])"
  "install_pack ''/t'' ''/r/objects/pack''
     (quiet_files [(''/r/objects/pack/p.pack'', a), (''/r/objects/pack/p.idx'', b), (''/t/p.pack'', c), (''/t/p.idx'', [])]) =
     (Inr (demo_written False), quiet_files [(''/r/objects/pack/p.pack'', a), (''/r/objects/pack/p.idx'', b), (''/t/p.pack'', c), (''/t/p.idx'', [])])"
  by (simp_all add: install_pack_def bindA_def act_defs fs_read_dir_def quiet_disk_op quiet_files_def demo_dir_entries demo_last demo_paths
      demo_join quiet_install demo_written_def Let_def)

lemma demo_bundle:
  "gx_write_bundle demo_sha1 () staged ''/t'' (quiet_files fs, g) =
     (Inr (), (quiet_files (fs_append ''/t/p.idx'' [] (fs_append ''/t/p.pack'' staged fs)), g))"
  by (simp add: demo_gix_def on_disk_def bindA_def fs_write_all_def quiet_disk_op quiet_files_def demo_join)

lemma demo_removed:
  "fs_remove_dir_all ''/t'' (quiet_files fs) = (Inr (), quiet_files (filter (\<lambda>e. \<not> under ''/t'' (fst e)) fs))"
  by (simp add: fs_remove_dir_all_def quiet_disk_op quiet_files_def)

lemma demo_started:
  "fs_create_dir_all p (quiet_files fs) = (Inr (), quiet_files fs)" "fs_temp_dir n (quiet_files fs) = (n (map fst fs), quiet_files fs)"
  by (simp_all add: fs_create_dir_all_def fs_temp_dir_def quiet_disk_op quiet_files_def)

lemma demo_path: "gx_path demo_sha1 () = ''/r''"
  by (simp add: demo_gix_def)

lemma demo_ingest:
  "gitoxide_ingest_pack demo_sha1 slash_t () one_object (quiet_files [], main_at 1) =
     (Inr (Some (demo_written True)), (demo_installed, main_at 1))"
  "gitoxide_ingest_pack demo_sha1 slash_t () one_object (demo_installed, main_at 1) =
     (Inr (Some (demo_written False)), (demo_installed, main_at 1))"
  by (simp_all add: gitoxide_ingest_pack_def demo_staged demo_path demo_join demo_started slash_t_def with_temp_dir_def on_disk_def bindA_def
      act_defs demo_bundle fs_append_def demo_install demo_removed demo_under ignored_def demo_installed_def Let_def)

theorem gitoxide_ingest_rollback_witness:
  "content_at demo_installed ''/r/objects/pack/p.pack'' \<noteq> None \<and>
   content_at (gitoxide_rollback_ingest (demo_written True) demo_installed) ''/r/objects/pack/p.pack'' = None \<and>
   content_at (gitoxide_rollback_ingest (demo_written False) demo_installed) ''/r/objects/pack/p.pack'' =
     content_at demo_installed ''/r/objects/pack/p.pack''"
proof -
  have "dk_events (quiet_files []) = []" "dk_events demo_installed = []" "content_at (quiet_files []) p = None" for p
    by (simp_all add: quiet_files_def demo_installed_def)
  then show ?thesis
    using gitoxide_ingest_rollback [OF demo_bundle_law demo_temp_law _ demo_ingest(1)]
      gitoxide_ingest_rollback [OF demo_bundle_law demo_temp_law _ demo_ingest(2)]
    by (simp add: demo_written_def)
qed

theorem rollback_removes_shared_pack_witness:
  "content_at demo_installed ''/r/objects/pack/p.pack'' \<noteq> None \<and>
   content_at (gitoxide_rollback_ingest (demo_written True) demo_installed) ''/r/objects/pack/p.pack'' = None"
proof -
  have "dk_events (quiet_files []) = []" "content_at (quiet_files []) p = None" for p
    by (simp_all add: quiet_files_def)
  then show ?thesis
    using rollback_removes_shared_pack [OF demo_bundle_law demo_temp_law _ demo_ingest(1) _ demo_ingest(2)]
    by (simp add: demo_written_def)
qed

definition no_index :: "(unit, 'o) index_ops" where
  "no_index = \<lparr> ix_open = (\<lambda>_. failA (Ext ''not an index'')), ix_num_objects = (\<lambda>_. 0), ix_oid_at = (\<lambda>_ _. Inr None) \<rparr>"

definition plain_opts :: pack_options where
  "plain_opts = \<lparr> opt_deepen = None, opt_filter = None, opt_thin_pack = False \<rparr>"


section \<open>Authorisation\<close>

text \<open>
  Everything the backend calls but the ref transaction keeps \<open>P\<close>, which is about what gix stores and not
  about the files the program itself writes.
\<close>

definition gix_keeps :: "('r, 't, 'n, 'o, 'g) gix \<Rightarrow> ('g fs_state \<Rightarrow> bool) \<Rightarrow> bool" where
  "gix_keeps X P \<longleftrightarrow>
     (\<forall>d d' g. P (d, g) \<longrightarrow> P (d', g)) \<and> (\<forall>i. keeps P (gx_open X i) \<and> keeps P (gx_init_bare X i)) \<and>
     (\<forall>r. keeps P (gx_head_ref X r) \<and> keeps P (gx_all_refs X r)) \<and>
     (\<forall>r n. keeps P (gx_peel_head X r n) \<and> keeps P (gx_find_reference X r n)) \<and>
     (\<forall>r t. keeps P (gx_peel X r t)) \<and> (\<forall>r staged dir. keeps P (gx_write_bundle X r staged dir))"

lemma gitoxide_keeps:
  assumes "gix_keeps X P"
  shows "backend_keeps (gitoxide_backend G X IX Z temp_name H) P"
proof -
  note k = assms [unfolded gix_keeps_def]
  have disk: "\<And>m. keeps P (on_disk m)" by (rule keeps_on_disk) (use k in blast)
  have gx: "\<And>i. keeps P (gx_open X i)" "\<And>i. keeps P (gx_init_bare X i)" "\<And>r. keeps P (gx_head_ref X r)" "\<And>r. keeps P (gx_all_refs X r)"
    "\<And>r n. keeps P (gx_peel_head X r n)" "\<And>r n. keeps P (gx_find_reference X r n)" "\<And>r t. keeps P (gx_peel X r t)"
    "\<And>r staged dir. keeps P (gx_write_bundle X r staged dir)" using k by blast+
  have refs: "keeps P (gitoxide_refs X r rs)" for r rs
  proof (induction rs)
    case Nil
    show ?case unfolding gitoxide_refs.simps by (rule keeps_simple(1))
  next
    case (Cons t rs)
    then show ?case by (cases t) (auto intro!: keeps_intros gx simp del: act_run)
  qed
  have resolve: "keeps P (gitoxide_resolve_ref X r n)" for r n
    by (rule keepsI) (auto simp: gitoxide_resolve_ref_def split: prod.splits sum.splits dest: keepsD [OF gx(6)] keepsD [OF gx(7)])
  have init: "keeps P (gitoxide_init_repo X p)" for p
  proof -
    have "keeps P (\<lambda>s. case gx_init_bare X p s of (Inr _, s') \<Rightarrow> (Inr (), s') | (Inl e, s') \<Rightarrow>
        bindA (on_disk (fs_exists (path_join p ''HEAD''))) (\<lambda>b. if b then retA () else failA (Ctx (''initialising bare repo at '' @ p) e)) s')"
    proof (rule keepsI)
      fix s r t assume "P s" and run: "(case gx_init_bare X p s of (Inr _, s') \<Rightarrow> (Inr (), s') | (Inl e, s') \<Rightarrow>
        bindA (on_disk (fs_exists (path_join p ''HEAD''))) (\<lambda>b. if b then retA () else failA (Ctx (''initialising bare repo at '' @ p) e)) s') = (r, t)"
      obtain q u where q: "gx_init_bare X p s = (q, u)" by (cases "gx_init_bare X p s")
      have u: "P u" using keepsD [OF gx(2) \<open>P s\<close> q] .
      have "keeps P (bindA (on_disk (fs_exists (path_join p ''HEAD''))) (\<lambda>b. if b then retA () else failA (Ctx (''initialising bare repo at '' @ p) e)))" for e
        by (intro keeps_intros disk)
      then show "P t" using run q u by (cases q) (auto dest: keepsD)
    qed
    then show ?thesis unfolding gitoxide_init_repo_def by (intro keeps_intros disk) auto
  qed
  have build: "keeps P (gitoxide_build_pack X IX Z H r want haves opts)" for r want haves opts
    unfolding gitoxide_build_pack_def Let_def
    by (rule keeps_bind) (auto intro!: keeps_intros disk simp: readA_def split: sum.splits option.splits simp del: act_run)
  show ?thesis
  proof (unfold_locales, goal_cases)
    case (8 r want haves opts)
    show ?case unfolding keeps_opt_def gitoxide_backend_def backend.simps
      using keepsD [OF build] by (fastforce split: prod.splits sum.splits)
  next
    case (9 r staged)
    show ?case
      by (simp add: gitoxide_backend_def gitoxide_ingest_pack_def with_temp_dir_def Let_def)
        (intro conjI impI keeps_intros keeps_finally disk gx)
  next
    case (11 s w)
    obtain d g where s: "s = (d, g)" by (cases s)
    show ?case using 11 k unfolding s gitoxide_backend_def backend.simps fst_conv snd_conv by blast
  qed (auto simp: gitoxide_backend_def gitoxide_list_refs_def gitoxide_head_def gitoxide_reachable_excluding_def gitoxide_tree_diff_def
      gitoxide_read_commit_info_def gitoxide_read_blob_def gitoxide_read_object_raw_def readA_def keeps_opt_def
      intro!: keeps_intros gx refs resolve init)
qed

text \<open>
  C20. No ref changes without authorisation on the gitoxide backend.  Let \<open>refs_of\<close> be what gix stores of
  refs, which every call of gix but the ref transaction keeps.  When a receive-pack session has ended, in
  success or in error, either the refs are the ones from before, or the preliminary check accepted
  exactly the updates the client sent and the authoriser said yes to a comparison of exactly these updates.
\<close>

theorem gitoxide_push_needs_authorisation:
  assumes gix: "\<And>m. gix_keeps X (\<lambda>s. refs_of s = m)"
    and run: "serve_receive_pack A (gitoxide_backend G X IX Z temp_name H) W H empty_tree E limits reader (s, w) = (r, (t, w'))"
  shows "refs_of t = refs_of s \<or>
    (\<exists>us rest. read_receive_request H limits reader = Inr (us, rest) \<and>
       authorised A (gitoxide_backend G X IX Z temp_name H) H empty_tree us)"
  using keepsD [OF backend_keeps.keeps_serve_receive_pack [OF gitoxide_keeps [OF gix]] _ run] by fastforce

lemma demo_keeps: "gix_keeps demo_sha1 (\<lambda>s. snd s = m)"
  by (auto simp: gix_keeps_def demo_gix_def split: ref_target.split intro!: keeps_intros keeps_on_disk)

theorem gitoxide_push_needs_authorisation_witness:
  "snd (fst (snd (serve_receive_pack rejecting_access (gitoxide_backend demo_parser demo_sha1 no_index tiny_ewah slash_t sha1_ops)
     pipe_writer sha1_ops 4 temp_ok default_limits (push_request sha1_ops [] [demo_update] [])
     ((quiet_files [], main_at 1), new_pipe 100)))) = main_at 1"
proof -
  let ?run = "serve_receive_pack rejecting_access (gitoxide_backend demo_parser demo_sha1 no_index tiny_ewah slash_t sha1_ops)
     pipe_writer sha1_ops 4 temp_ok default_limits (push_request sha1_ops [] [demo_update] [])
     ((quiet_files [], main_at 1), new_pipe 100)"
  obtain r t w' where run: "?run = (r, (t, w'))" by (metis surj_pair)
  show ?thesis
    using gitoxide_push_needs_authorisation [OF demo_keeps run] run by (simp add: rejecting_not_authorised)
qed

section \<open>Packs on another file system\<close>

text \<open>
  Installing a pack is not atomic when the temporary directory is on another file system.  If the rename fails and then
  the copy after \<open>n\<close> bytes, the ingest fails and leaves the first \<open>n\<close> bytes of the pack under its final name; a
  later ingest of the same pack on a working disk finds a file of that name, takes it for the pack and succeeds.
\<close>

theorem failed_copy_is_kept:
  assumes d: "dk_events d = [FsOk, FsFail m, FsFail n]" "content_at d src = Some pack" "content_at d dst = None"
  shows "\<exists>e d'. install_file msg src dst d = (Inl e, d') \<and> content_at d' dst = Some (take n pack) \<and> dk_events d' = [] \<and>
    (\<forall>src' msg'. install_file msg' src' dst d' = (Inr False, d'))"
proof -
  let ?d' = "\<lparr> dk_files = AList.update dst (take n pack) (dk_files d), dk_events = [] \<rparr>"
  have "install_file msg src dst d = (Inl (Ctx msg (Ctx ''copying file cross-filesystem'' (Ext ''I/O error''))), ?d')"
    using d by (simp add: install_file_def fs_exists_def fs_metadata_def move_file_def fs_rename_def fs_copy_def disk_op_def disk_tick_def act_defs)
  moreover have "install_file msg' src' dst ?d' = (Inr False, ?d')" for src' msg'
    by (simp add: install_file_def fs_exists_def fs_metadata_def disk_op_def disk_tick_def act_defs update_conv')
  ultimately show ?thesis by (auto simp: update_conv')
qed

end
