(* ===== verification/Fs_Git_Cli.thy ===== *)
theory Fs_Git_Cli
  imports Fs_Common Str_Ops
begin

text \<open>
  The file system backend on the git executable (\<open>backend/fs_git_cli.rs\<close>).  The executable is a
  parameter: the commands, the text written to their input and the reading of their output are the program's.
\<close>

section \<open>Running git\<close>

record git_output =
  ot_ok :: bool
  ot_status :: bytes
  ot_stdout :: bytes
  ot_stderr :: bytes

text \<open>
  A child whose output is read while it runs: what successive reads of its standard output give, its exit
  (success and how the status prints), what the reads of its standard error give, how many
  progress messages are there each time somebody looks, and how much of the standard error has been collected when
  the exit is seen.
\<close>

record child_run =
  ch_stdout :: "bytes res list"
  ch_exit :: "(bool \<times> bytes) res"
  ch_stderr :: "bytes res list"
  ch_arrivals :: "nat list"
  ch_collected :: nat

text \<open>Where talking to a child fails.\<close>

datatype pipe_error = SpawnFailed error | WriteFailed error | WaitFailed error

text \<open>
  \<open>gt_output\<close> runs a command in a directory (or the server's own) with an input, to its end.  \<open>gt_piped\<close>
  starts one, writes the given pieces to its input, closes it and waits; \<open>gt_stream\<close> does not wait.  They are
  calls that return; when writing everything before reading anything blocks is studied with \<open>batch_step\<close> below.
  \<open>gt_exists\<close> is the file system's answer for a directory, which the disk of the model does not list.
\<close>

record 'g git_exe =
  gt_exists :: "bytes \<Rightarrow> 'g fs_state \<Rightarrow> bool"
  gt_output :: "bytes option \<Rightarrow> bytes list \<Rightarrow> bytes \<Rightarrow> ('g fs_state, error, git_output) act"
  gt_piped :: "bytes \<Rightarrow> bytes list \<Rightarrow> bytes list \<Rightarrow> ('g fs_state, pipe_error, git_output) act"
  gt_stream :: "bytes \<Rightarrow> bytes list \<Rightarrow> bytes list \<Rightarrow> ('g fs_state, pipe_error, child_run) act"

fun pipe_context :: "bytes \<Rightarrow> bytes \<Rightarrow> pipe_error \<Rightarrow> error" where
  "pipe_context spawning waiting (SpawnFailed e) = Ctx spawning e"
| "pipe_context spawning waiting (WriteFailed e) = e"
| "pipe_context spawning waiting (WaitFailed e) = Ctx waiting e"

definition debug_args :: "bytes list \<Rightarrow> bytes" where
  "debug_args args =
     ''['' @ (case args of [] \<Rightarrow> [] | a # as \<Rightarrow> debug_str a @ concat (map (\<lambda>b. '', '' @ debug_str b) as)) @ '']''"

definition run_git :: "'g git_exe \<Rightarrow> bytes \<Rightarrow> bytes list \<Rightarrow> ('g fs_state, error, bytes) act" where
  "run_git C repo_path args =
     bindA (ctxA (''spawning git '' @ debug_args args @ '' in '' @ repo_path) (gt_output C (Some repo_path) args [])) (\<lambda>out.
     if \<not> ot_ok out then
       failA (Bail (''git '' @ debug_args args @ '' failed (status '' @ ot_status out @ ''):'' @ [NL] @ utf8_lossy (ot_stderr out)))
     else retA (trim (utf8_lossy (ot_stdout out))))"

text \<open>\<open>match run_git(..) { Ok(..) => .., Err(_) => .. }\<close>\<close>

definition tryA :: "('s, 'e, 'a) act \<Rightarrow> ('s, 'f, 'a option) act" where
  "tryA m s = (case m s of (Inl _, t) \<Rightarrow> (Inr None, t) | (Inr x, t) \<Rightarrow> (Inr (Some x), t))"

definition checked :: "bytes \<Rightarrow> git_output \<Rightarrow> ('s, error, unit) act" where
  "checked msg out = (if ot_ok out then retA () else failA (Bail (msg @ utf8_lossy (ot_stderr out))))"

section \<open>Repositories and refs\<close>

definition cli_init_repo :: "'g git_exe \<Rightarrow> bytes \<Rightarrow> ('g fs_state, error, unit) act" where
  "cli_init_repo C repo_path =
     bindA (readA (\<lambda>s. Inr (gt_exists C repo_path s))) (\<lambda>there.
     if there then retA ()
     else
       bindA (ctxA ''spawning git init'' (gt_output C None [''init'', ''--bare'', repo_path] [])) (\<lambda>out.
       checked ''git init --bare failed: '' out))"

definition ok_oid :: "'o oid_ops \<Rightarrow> bytes \<Rightarrow> 'o option" where
  "ok_oid H hex = (case from_hex H hex of Inl _ \<Rightarrow> None | Inr x \<Rightarrow> Some x)"

definition cli_head :: "'g git_exe \<Rightarrow> 'o oid_ops \<Rightarrow> bytes \<Rightarrow> ('g fs_state, error, 'o head_info option) act" where
  "cli_head C H repo_path =
     bindA (tryA (run_git C repo_path [''symbolic-ref'', ''HEAD''])) (\<lambda>symref.
     bindA (tryA (run_git C repo_path [''rev-parse'', ''HEAD''])) (\<lambda>hex.
     retA (case hex of
             None \<Rightarrow> None
           | Some h \<Rightarrow> map_option (\<lambda>x. \<lparr> hi_oid = x, hi_symref = symref \<rparr>) (ok_oid H h))))"

definition ref_format :: bytes where
  "ref_format = ''--format=%(objectname) %(refname) %(symref) %(*objectname)''"

definition nth_part :: "nat \<Rightarrow> bytes list \<Rightarrow> bytes" where
  "nth_part i parts = (if i < length parts then parts ! i else [])"

definition parse_peeled :: "'o oid_ops \<Rightarrow> 'o \<Rightarrow> bytes \<Rightarrow> 'o option res" where
  "parse_peeled H x hex =
     (if hex = [] \<or> hex = replicate 40 (CHR ''0'') then Inr None
      else bindR (context_err ''parsing peeled oid'' (from_hex H hex)) (\<lambda>p. Inr (if p = x then None else Some p)))"

fun parse_ref_lines :: "'o oid_ops \<Rightarrow> bytes list \<Rightarrow> 'o ref_info list res" where
  "parse_ref_lines H [] = Inr []"
| "parse_ref_lines H (line # ls) =
     (let parts = splitn 4 SP line in
      if line = [] \<or> length parts < 2 then parse_ref_lines H ls
      else
        bindR (context_err ''parsing ref oid'' (from_hex H (nth_part 0 parts))) (\<lambda>x.
        bindR (parse_peeled H x (nth_part 3 parts)) (\<lambda>peeled.
        bindR (parse_ref_lines H ls) (\<lambda>infos.
        Inr (\<lparr> ri_name = nth_part 1 parts, ri_oid = x, ri_peeled = peeled,
               ri_symref = (if nth_part 2 parts = [] then None else Some (nth_part 2 parts)) \<rparr> # infos)))))"

definition cli_list_refs :: "'g git_exe \<Rightarrow> 'o oid_ops \<Rightarrow> bytes \<Rightarrow> ('g fs_state, error, 'o refs_snapshot) act" where
  "cli_list_refs C H repo_path =
     bindA (cli_head C H repo_path) (\<lambda>head.
     bindA (run_git C repo_path [''for-each-ref'', ref_format]) (\<lambda>out.
     bindA (liftA (parse_ref_lines H (str_lines out))) (\<lambda>infos.
     retA \<lparr> rs_head = head, rs_refs = infos \<rparr>)))"

definition cli_resolve_ref :: "'g git_exe \<Rightarrow> 'o oid_ops \<Rightarrow> bytes \<Rightarrow> bytes \<Rightarrow> ('g fs_state, error, 'o option) act" where
  "cli_resolve_ref C H repo_path name =
     bindA (tryA (run_git C repo_path [''rev-parse'', ''--verify'', name @ [CHR 0x5E, CHR 0x7B, CHR 0x7D]])) (\<lambda>hex.
     case hex of
       None \<Rightarrow> retA None
     | Some h \<Rightarrow> bindA (liftA (context_err ''parsing resolved oid'' (from_hex H h))) (\<lambda>x. retA (Some x)))"

text \<open>One line of the input of \<open>git update-ref --stdin\<close>.\<close>

definition update_line :: "'o oid_ops \<Rightarrow> 'o ref_update \<Rightarrow> bytes" where
  "update_line H u =
     (if is_null H (new_oid u) then ''delete '' @ refname u @ '' '' @ to_hex H (old_oid u)
      else if is_null H (old_oid u) then ''create '' @ refname u @ '' '' @ to_hex H (new_oid u)
      else ''update '' @ refname u @ '' '' @ to_hex H (new_oid u) @ '' '' @ to_hex H (old_oid u)) @ [NL]"

definition cli_update_refs :: "'g git_exe \<Rightarrow> 'o oid_ops \<Rightarrow> bytes \<Rightarrow> 'o ref_update list \<Rightarrow> ('g fs_state, error, unit) act" where
  "cli_update_refs C H repo_path us =
     (if us = [] then retA ()
      else
        bindA (map_errA (pipe_context ''spawning git update-ref --stdin'' ''waiting for update-ref'')
                 (gt_piped C repo_path [''update-ref'', ''--stdin''] (map (update_line H) us))) (\<lambda>out.
        checked ''git update-ref failed: '' out))"

section \<open>Objects and history\<close>

definition cli_has_object :: "'g git_exe \<Rightarrow> 'o oid_ops \<Rightarrow> bytes \<Rightarrow> 'o \<Rightarrow> ('g fs_state, error, bool) act" where
  "cli_has_object C H repo_path x =
     bindA (ctxA ''spawning git cat-file -e'' (gt_output C (Some repo_path) [''cat-file'', ''-e'', to_hex H x] [])) (\<lambda>out.
     retA (ot_ok out))"

text \<open>One answer per line of output, and no for what is left without one.\<close>

definition batch_answers :: "nat \<Rightarrow> bytes \<Rightarrow> bool list" where
  "batch_answers n stdout =
     (let results = map (\<lambda>line. \<not> contains ''missing'' line) (str_lines stdout) in
      results @ replicate (n - length results) False)"

definition cli_has_objects :: "'g git_exe \<Rightarrow> 'o oid_ops \<Rightarrow> bytes \<Rightarrow> 'o list \<Rightarrow> ('g fs_state, error, bool list) act" where
  "cli_has_objects C H repo_path xs =
     (if xs = [] then retA []
      else
        bindA (map_errA (pipe_context ''spawning git cat-file --batch-check'' ''waiting for cat-file'')
                 (gt_piped C repo_path [''cat-file'', ''--batch-check''] (map (\<lambda>x. to_hex H x @ [NL]) xs))) (\<lambda>out.
        retA (batch_answers (length xs) (utf8_lossy (ot_stdout out)))))"

text \<open>
  How the program and the child exchange these lines.  The program writes all ids to the child's input first and only
  then reads its output; \<open>git cat-file\<close> answers line by line and flushes each answer.  A pipe holds a bounded number of
  lines, and so does the child's input buffer; whoever cannot go on waits.
\<close>

record batch_pipes =
  bp_to_write :: nat
  bp_in :: nat
  bp_held :: nat
  bp_out :: nat
  bp_collected :: nat

definition batch_start :: "nat \<Rightarrow> batch_pipes" where
  "batch_start n = \<lparr> bp_to_write = n, bp_in = 0, bp_held = 0, bp_out = 0, bp_collected = 0 \<rparr>"

inductive batch_step :: "nat \<Rightarrow> nat \<Rightarrow> nat \<Rightarrow> batch_pipes \<Rightarrow> batch_pipes \<Rightarrow> bool" for cap_in buffer cap_out where
  write_id: "0 < bp_to_write s \<Longrightarrow> bp_in s < cap_in \<Longrightarrow>
    batch_step cap_in buffer cap_out s (s\<lparr> bp_to_write := bp_to_write s - 1, bp_in := bp_in s + 1 \<rparr>)"
| child_read: "0 < bp_in s \<Longrightarrow> bp_held s < buffer \<Longrightarrow>
    batch_step cap_in buffer cap_out s (s\<lparr> bp_in := bp_in s - 1, bp_held := bp_held s + 1 \<rparr>)"
| child_answer: "0 < bp_held s \<Longrightarrow> bp_out s < cap_out \<Longrightarrow>
    batch_step cap_in buffer cap_out s (s\<lparr> bp_held := bp_held s - 1, bp_out := bp_out s + 1 \<rparr>)"
| collect_answer: "bp_to_write s = 0 \<Longrightarrow> 0 < bp_out s \<Longrightarrow>
    batch_step cap_in buffer cap_out s (s\<lparr> bp_out := bp_out s - 1, bp_collected := bp_collected s + 1 \<rparr>)"

code_pred batch_step .

definition cli_compute_push_kind ::
  "'g git_exe \<Rightarrow> 'o oid_ops \<Rightarrow> bytes \<Rightarrow> 'o ref_update \<Rightarrow> 'g fs_state \<Rightarrow> push_kind \<times> 'g fs_state" where
  "cli_compute_push_kind C H repo_path u s =
     (if is_null H (old_oid u) then (Create, s)
      else if is_null H (new_oid u) then (Delete, s)
      else
        (case gt_output C (Some repo_path)
                [''merge-base'', ''--is-ancestor'', to_hex H (old_oid u), to_hex H (new_oid u)] [] s of
           (Inr out, t) \<Rightarrow> (if ot_ok out then FastForward else ForcePush, t)
         | (Inl _, t) \<Rightarrow> (ForcePush, t)))"

fun parse_rev_lines :: "'o oid_ops \<Rightarrow> nat \<Rightarrow> 'o list \<Rightarrow> bytes list \<Rightarrow> reachable_error + 'o list" where
  "parse_rev_lines H cap out [] = Inr out"
| "parse_rev_lines H cap out (line # ls) =
     (let trimmed = trim line in
      if trimmed = [] then parse_rev_lines H cap out ls
      else
        (case from_hex H trimmed of
           Inl e \<Rightarrow> Inl (OtherError (Bail (''rev-list parse: '' @ outer_message e)))
         | Inr x \<Rightarrow> if length out \<ge> cap then Inl (CapExceeded cap) else parse_rev_lines H cap (out @ [x]) ls))"

text \<open>The caps the program uses are far below the width of \<open>usize\<close>, so that \<open>cap + 1\<close> does not overflow.\<close>

definition cli_reachable_excluding ::
  "'g git_exe \<Rightarrow> 'o oid_ops \<Rightarrow> bytes \<Rightarrow> 'o list \<Rightarrow> 'o list \<Rightarrow> nat \<Rightarrow> ('g fs_state, reachable_error, 'o list) act" where
  "cli_reachable_excluding C H repo_path start excluding cap =
     (if start = [] then retA []
      else
        bindA (map_errA (\<lambda>e. OtherError (Bail (''rev-list: '' @ display_error e)))
                 (run_git C repo_path
                    ([''rev-list'', ''--topo-order''] @ map (to_hex H) start @ map (\<lambda>x. CHR 0x5E # to_hex H x) excluding @
                     [''--max-count='' @ show_nat (cap + 1)]))) (\<lambda>stdout.
        liftA (parse_rev_lines H cap [] (str_lines stdout))))"

definition part_or :: "bytes \<Rightarrow> nat \<Rightarrow> bytes list \<Rightarrow> bytes" where
  "part_or dflt i parts = (if i < length parts then parts ! i else dflt)"

definition parse_diff_header :: "'o oid_ops \<Rightarrow> bytes \<Rightarrow> bytes \<Rightarrow> 'o ref_diff_entry res" where
  "parse_diff_header H header path =
     (let header = (case strip_prefix '':'' header of Some h \<Rightarrow> h | None \<Rightarrow> header);
          parts = split_whitespace header;
          mode_l = part_or ''0'' 0 parts; mode_r = part_or ''0'' 1 parts;
          oid_l = part_or [] 2 parts; oid_r = part_or [] 3 parts; status = part_or ''M'' 4 parts;
          (change, hex, mode_str) =
            (if starts_with status ''A'' then (Added, oid_r, mode_r)
             else if starts_with status ''D'' then (Removed, oid_l, mode_l)
             else (Modified, oid_r, mode_r)) in
      bindR (context_err ''parsing diff-tree oid'' (from_hex H hex)) (\<lambda>x.
      Inr \<lparr> de_path = path, de_change = change,
            de_mode = (case parse_unsigned 8 u32_max mode_str of Some m \<Rightarrow> m | None \<Rightarrow> 0), de_oid = x \<rparr>))"

text \<open>The text before the first NUL and what follows it.\<close>

definition until_nul :: "bytes \<Rightarrow> bytes \<times> bytes" where
  "until_nul bs = (takeWhile (\<lambda>b. b \<noteq> NUL) bs, tl (dropWhile (\<lambda>b. b \<noteq> NUL) bs))"

lemma length_until_nul: "length (snd (until_nul bs)) \<le> length bs - 1"
  by (simp add: until_nul_def length_dropWhile_le diff_le_mono)

function diff_records :: "'o oid_ops \<Rightarrow> bytes \<Rightarrow> 'o ref_diff res" where
  "diff_records H bs =
     (if NUL \<notin> set bs then Inr []
      else
        (case until_nul bs of (header, rest) \<Rightarrow>
           bindR (from_utf8 header) (\<lambda>header.
           case until_nul rest of (path, rest') \<Rightarrow>
             bindR (parse_diff_header H header path) (\<lambda>entry.
             bindR (diff_records H rest') (\<lambda>entries. Inr (entry # entries))))))"
  by pat_completeness auto

termination
  by (relation "measure (length \<circ> snd)")
    (auto, metis One_nat_def Suc_pred diff_is_0_eq diff_le_self le_imp_less_Suc le_trans length_greater_0_conv length_pos_if_in_set length_until_nul snd_conv)

declare diff_records.simps [simp del]

definition EMPTY_TREE_HEX :: bytes where
  "EMPTY_TREE_HEX = ''4b825dc642cb6eb9a060e54bf8d69288fbee4904''"

definition cli_tree_diff ::
  "'g git_exe \<Rightarrow> 'o oid_ops \<Rightarrow> bytes \<Rightarrow> 'o option \<Rightarrow> 'o \<Rightarrow> ('g fs_state, error, 'o ref_diff) act" where
  "cli_tree_diff C H repo_path parent_tree child_tree =
     (let lhs = (case parent_tree of Some x \<Rightarrow> to_hex H x | None \<Rightarrow> EMPTY_TREE_HEX); rhs = to_hex H child_tree in
      bindA (ctxA ''running git diff-tree'' (run_git C repo_path [''diff-tree'', ''-r'', ''--raw'', ''-z'', lhs, rhs])) (\<lambda>stdout.
      liftA (diff_records H stdout)))"

definition cat_file :: "'g git_exe \<Rightarrow> 'o oid_ops \<Rightarrow> bytes \<Rightarrow> bytes \<Rightarrow> 'o \<Rightarrow> ('g fs_state, error, git_output) act" where
  "cat_file C H repo_path what x = gt_output C (Some repo_path) [''cat-file'', what, to_hex H x] []"

definition cli_read_commit_info ::
  "object_parser \<Rightarrow> 'g git_exe \<Rightarrow> 'o oid_ops \<Rightarrow> bytes \<Rightarrow> 'o \<Rightarrow> ('g fs_state, error, 'o commit_info) act" where
  "cli_read_commit_info G C H repo_path x =
     bindA (ctxA ''running git cat-file'' (cat_file C H repo_path ''commit'' x)) (\<lambda>out.
     bindA (checked ''git cat-file failed: '' out) (\<lambda>_.
     liftA (parse_commit_info G H (ot_stdout out) x)))"

text \<open>The output of a command that ran and succeeded.\<close>

definition succeeded :: "git_output option \<Rightarrow> bytes option" where
  "succeeded r = (case r of Some out \<Rightarrow> if ot_ok out then Some (ot_stdout out) else None | None \<Rightarrow> None)"

definition parse_size :: "bytes \<Rightarrow> nat" where
  "parse_size stdout = (case parse_unsigned 10 u64_max (trim (utf8_lossy stdout)) of Some n \<Rightarrow> n | None \<Rightarrow> u64_max)"

definition cli_read_blob ::
  "'g git_exe \<Rightarrow> 'o oid_ops \<Rightarrow> bytes \<Rightarrow> 'o \<Rightarrow> nat \<Rightarrow> ('g fs_state, error, bytes option) act" where
  "cli_read_blob C H repo_path x cap =
     bindA (tryA (cat_file C H repo_path ''-s'' x)) (\<lambda>size_out.
     case succeeded size_out of
       None \<Rightarrow> retA None
     | Some stdout \<Rightarrow>
         if parse_size stdout > cap then retA None
         else
           bindA (tryA (cat_file C H repo_path ''-t'' x)) (\<lambda>kind_out.
           case succeeded kind_out of
             None \<Rightarrow> retA None
           | Some kind \<Rightarrow>
               if trim (utf8_lossy kind) \<noteq> ''blob'' then retA None
               else
                 bindA (ctxA ''running git cat-file blob'' (cat_file C H repo_path ''blob'' x)) (\<lambda>out.
                 retA (if ot_ok out then Some (ot_stdout out) else None))))"

definition cli_read_object_raw ::
  "'g git_exe \<Rightarrow> 'o oid_ops \<Rightarrow> bytes \<Rightarrow> 'o \<Rightarrow> nat \<Rightarrow> ('g fs_state, error, bytes option) act" where
  "cli_read_object_raw C H repo_path x cap =
     bindA (tryA (cat_file C H repo_path ''-s'' x)) (\<lambda>size_out.
     case succeeded size_out of
       None \<Rightarrow> retA None
     | Some stdout \<Rightarrow>
         if parse_size stdout > cap then retA None
         else
           bindA (tryA (cat_file C H repo_path ''-t'' x)) (\<lambda>kind_out.
           case succeeded kind_out of
             None \<Rightarrow> retA None
           | Some kind \<Rightarrow>
               bindA (ctxA ''running git cat-file'' (cat_file C H repo_path (trim (utf8_lossy kind)) x)) (\<lambda>out.
               retA (if ot_ok out then Some (ot_stdout out) else None))))"

section \<open>Building packs\<close>

text \<open>The reader of a child's output; at its end the exit of the child decides whether the pack is complete.\<close>

record child_reader =
  cr_stdout :: "bytes res list"
  cr_child :: "(bool \<times> bytes) res option"
  cr_stderr_buf :: bytes

definition child_end :: "child_reader \<Rightarrow> bytes res \<times> child_reader" where
  "child_end rd =
     (case cr_child rd of
        None \<Rightarrow> (Inr [], rd)
      | Some (Inl e) \<Rightarrow> (Inl e, rd\<lparr> cr_child := None \<rparr>)
      | Some (Inr (success, status)) \<Rightarrow>
          (if success then Inr []
           else Inl (Ext (''git process exited with '' @ status @ '': '' @ utf8_lossy (cr_stderr_buf rd))),
           rd\<lparr> cr_child := None \<rparr>))"

definition child_read :: "child_reader \<Rightarrow> bytes res \<times> child_reader" where
  "child_read rd =
     (case cr_stdout rd of
        Inl e # rs \<Rightarrow> (Inl e, rd\<lparr> cr_stdout := rs \<rparr>)
      | Inr (b # bs) # rs \<Rightarrow> (Inr (b # bs), rd\<lparr> cr_stdout := rs \<rparr>)
      | Inr [] # rs \<Rightarrow> child_end (rd\<lparr> cr_stdout := rs \<rparr>)
      | [] \<Rightarrow> child_end rd)"

text \<open>The results of reading until the end or an error.\<close>

fun child_reads :: "nat \<Rightarrow> child_reader \<Rightarrow> bytes res list" where
  "child_reads 0 rd = []"
| "child_reads (Suc fuel) rd =
     (case child_read rd of
        (Inr (b # bs), rd') \<Rightarrow> Inr (b # bs) # child_reads fuel rd'
      | (r, rd') \<Rightarrow> [r])"

text \<open>The thread on the child's standard error collects it and sends each chunk on as progress.\<close>

fun stderr_progress :: "bytes res list \<Rightarrow> bytes \<times> bytes list" where
  "stderr_progress (Inr (b # bs) # rs) =
     (case stderr_progress rs of (buf, msgs) \<Rightarrow> ((b # bs) @ buf, utf8_lossy (b # bs) # msgs))"
| "stderr_progress rs = ([], [])"

definition stderr_buf :: "child_run \<Rightarrow> bytes" where
  "stderr_buf run = take (ch_collected run) (fst (stderr_progress (ch_stderr run)))"

definition new_reader :: "child_run \<Rightarrow> child_reader" where
  "new_reader run = \<lparr> cr_stdout = ch_stdout run, cr_child = Some (ch_exit run), cr_stderr_buf = stderr_buf run \<rparr>"

fun arrivals :: "nat list \<Rightarrow> 'a list \<Rightarrow> 'a list list" where
  "arrivals [] xs = (if xs = [] then [] else [xs])"
| "arrivals (n # ns) xs = take n xs # arrivals ns (drop n xs)"

definition child_output :: "'o list \<Rightarrow> child_run \<Rightarrow> 'o pack_output" where
  "child_output shallow run =
     \<lparr> out_reader = child_reads (Suc (length (ch_stdout run))) (new_reader run), out_shallow = shallow,
       out_progress = Some (arrivals (ch_arrivals run) (snd (stderr_progress (ch_stderr run)))) \<rparr>"

definition filter_spec :: "pack_filter \<Rightarrow> bytes" where
  "filter_spec f = (case f of BlobNone \<Rightarrow> ''blob:none'' | TreeNone \<Rightarrow> ''tree:0'')"

definition pack_args :: "pack_options \<Rightarrow> bytes list" where
  "pack_args opts =
     [''pack-objects'', ''--revs'', ''--stdout'', ''--progress''] @ (if opt_thin_pack opts then [''--thin''] else []) @
     (case opt_filter opts of Some f \<Rightarrow> [''--filter='' @ filter_spec f] | None \<Rightarrow> [])"

definition rev_lines :: "'o oid_ops \<Rightarrow> 'o list \<Rightarrow> 'o list \<Rightarrow> bytes list" where
  "rev_lines H want haves = map (\<lambda>x. to_hex H x @ [NL]) want @ map (\<lambda>x. CHR 0x5E # to_hex H x @ [NL]) haves"

definition boundary_set :: "'o oid_ops \<Rightarrow> bytes list \<Rightarrow> 'o list" where
  "boundary_set H ls =
     remdups (List.map_filter (\<lambda>l. ok_oid H (case split_whitespace l of w # _ \<Rightarrow> w | [] \<Rightarrow> l)) (List.map_filter (strip_prefix ''-'') ls))"

text \<open>A commit with a parent in the boundary is a shallow root.\<close>

definition shallow_root :: "'o oid_ops \<Rightarrow> 'o list \<Rightarrow> bytes \<Rightarrow> 'o option" where
  "shallow_root H boundary line =
     (if starts_with line ''-'' \<or> line = [] then None
      else
        (let parts = split_whitespace line in
         case ok_oid H (part_or [] 0 parts) of
           None \<Rightarrow> None
         | Some commit \<Rightarrow>
             if list_ex (\<lambda>p. case ok_oid H p of Some x \<Rightarrow> x \<in> set boundary | None \<Rightarrow> False) (drop 1 parts)
             then Some commit else None))"

definition shallow_roots :: "'o oid_ops \<Rightarrow> bytes \<Rightarrow> 'o list" where
  "shallow_roots H stdout =
     (let ls = str_lines stdout in List.map_filter (shallow_root H (boundary_set H ls)) ls)"

definition build_pack_shallow ::
  "'g git_exe \<Rightarrow> 'o oid_ops \<Rightarrow> bytes \<Rightarrow> 'o list \<Rightarrow> 'o list \<Rightarrow> nat \<Rightarrow> pack_options \<Rightarrow> ('g fs_state, error, 'o pack_output) act" where
  "build_pack_shallow C H repo_path want haves depth opts =
     bindA (ctxA ''spawning git rev-list for shallow''
              (gt_output C (Some repo_path)
                 ([''rev-list'', ''--boundary'', ''--parents'', ''--max-count='' @ show_nat depth] @
                  map (to_hex H) want @ map (\<lambda>x. CHR 0x5E # to_hex H x) haves) [])) (\<lambda>out.
     bindA (checked ''git rev-list failed: '' out) (\<lambda>_.
     let shallow = shallow_roots H (utf8_lossy (ot_stdout out)) in
     bindA (map_errA (pipe_context ''spawning git pack-objects for shallow'' [])
              (gt_stream C repo_path (pack_args opts)
                 (rev_lines H want haves @ map (\<lambda>x. ''--shallow '' @ to_hex H x @ [NL]) shallow))) (\<lambda>run.
     retA (child_output shallow run))))"

definition cli_build_pack ::
  "'g git_exe \<Rightarrow> 'o oid_ops \<Rightarrow> bytes \<Rightarrow> 'o list \<Rightarrow> 'o list \<Rightarrow> pack_options \<Rightarrow> ('g fs_state, error, 'o pack_output) act" where
  "cli_build_pack C H repo_path want haves opts =
     (case opt_deepen opts of
        Some depth \<Rightarrow> build_pack_shallow C H repo_path want haves depth opts
      | None \<Rightarrow>
          bindA (map_errA (pipe_context ''spawning git pack-objects'' [])
                   (gt_stream C repo_path (pack_args opts) (rev_lines H want haves))) (\<lambda>run.
          retA (child_output [] run)))"

section \<open>Pushed packs\<close>

record cli_written_pack =
  cw_pack :: bytes
  cw_index :: bytes

definition cli_ingest_pack :: "'g git_exe \<Rightarrow> bytes \<Rightarrow> bytes \<Rightarrow> ('g fs_state, error, cli_written_pack option) act" where
  "cli_ingest_pack C repo_path staged =
     (if staged_empty staged then retA None
      else
        (let pack_dir = path_join (path_join repo_path ''objects'') ''pack'' in
         bindA (on_disk (fs_create_dir_all pack_dir)) (\<lambda>_.
         bindA (ctxA ''running git index-pack''
                  (gt_output C (Some repo_path) [''index-pack'', ''--stdin'', ''--index-version=2'', ''--fix-thin''] staged)) (\<lambda>out.
         bindA (checked ''git index-pack failed: '' out) (\<lambda>_.
         let hash = last (split_on (CHR 0x09) (trim (utf8_lossy (ot_stdout out)))) in
         retA (Some \<lparr> cw_pack = path_join pack_dir (''pack-'' @ hash @ ''.pack''),
                      cw_index = path_join pack_dir (''pack-'' @ hash @ ''.idx'') \<rparr>))))))"

definition cli_rollback_ingest :: "cli_written_pack \<Rightarrow> disk \<Rightarrow> disk" where
  "cli_rollback_ingest w d = snd (fs_remove_file (cw_pack w) (snd (fs_remove_file (cw_index w) d)))"

section \<open>The backend\<close>

definition cli_backend ::
  "object_parser \<Rightarrow> (bytes \<Rightarrow> 'g fs_state \<Rightarrow> 'o pack_bundle res) \<Rightarrow> 'g git_exe \<Rightarrow> 'o oid_ops
     \<Rightarrow> (bytes, bytes, cli_written_pack, 'o, 'g fs_state) backend" where
  "cli_backend G bundle_at C H =
     \<lparr> be_open = (\<lambda>path. retA path),
       be_list_refs = cli_list_refs C H,
       be_resolve_ref = cli_resolve_ref C H,
       be_update_refs = cli_update_refs C H,
       be_init_repo = cli_init_repo C,
       be_has_object = cli_has_object C H,
       be_has_objects = cli_has_objects C H,
       be_compute_push_kind = (\<lambda>r u s. Some (cli_compute_push_kind C H r u s)),
       be_build_pack = (\<lambda>r want haves opts s. Some (cli_build_pack C H r want haves opts s)),
       be_ingest_pack = cli_ingest_pack C,
       be_inspect_ingested = (\<lambda>w s. ((inspect_pack G H (bundle_at (cw_pack w) s), w), s)),
       be_rollback_ingest = (\<lambda>w s. (cli_rollback_ingest w (fst s), snd s)),
       be_reachable_excluding = (\<lambda>r start excl cap s. Some (cli_reachable_excluding C H r start excl cap s)),
       be_tree_diff = (\<lambda>r a b s. Some (cli_tree_diff C H r a b s)),
       be_read_commit_info = cli_read_commit_info G C H,
       be_read_blob = cli_read_blob C H,
       be_read_object_raw = cli_read_object_raw C H \<rparr>"

end
