(* ===== verification/Fs_Git_Cli_Properties.thy ===== *)
theory Fs_Git_Cli_Properties
  imports Fs_Git_Cli Fs_Gitoxide_Properties
begin

text \<open>
  Properties of the backend on the git executable: what its commands mean to git, and what it makes of
  git's answers.
\<close>

section \<open>Updating refs\<close>

text \<open>
  The input of \<open>git update-ref --stdin\<close> as git documents it, for the three commands the program writes and
  fields that are not quoted: a command per line, its fields separated by single spaces.
\<close>

datatype 'o ref_command = UpdateCommand bytes 'o 'o | CreateCommand bytes 'o | DeleteCommand bytes 'o

fun command_name :: "'o ref_command \<Rightarrow> bytes" where
  "command_name (UpdateCommand name new old) = name"
| "command_name (CreateCommand name new) = name"
| "command_name (DeleteCommand name old) = name"

definition plain_name :: "bytes \<Rightarrow> bool" where
  "plain_name name \<longleftrightarrow> name \<noteq> [] \<and> hd name \<noteq> CHR 0x22 \<and> SP \<notin> set name \<and> NL \<notin> set name \<and> NUL \<notin> set name"

definition parse_command :: "'o oid_ops \<Rightarrow> bytes \<Rightarrow> 'o ref_command option" where
  "parse_command H line =
     (case split_on SP line of
        [verb, name, a] \<Rightarrow>
          (case ok_oid H a of
             Some x \<Rightarrow>
               if \<not> plain_name name then None
               else if verb = ''create'' then Some (CreateCommand name x)
               else if verb = ''delete'' then Some (DeleteCommand name x)
               else None
           | None \<Rightarrow> None)
      | [verb, name, a, b] \<Rightarrow>
          (case (ok_oid H a, ok_oid H b) of
             (Some x, Some y) \<Rightarrow> if plain_name name \<and> verb = ''update'' then Some (UpdateCommand name x y) else None
           | _ \<Rightarrow> None)
      | _ \<Rightarrow> None)"

definition parse_commands :: "'o oid_ops \<Rightarrow> bytes \<Rightarrow> 'o ref_command list option" where
  "parse_commands H text =
     those (map (\<lambda>l. Option.bind (strip_suffix [NL] l) (parse_command H)) (split_inclusive text))"

text \<open>
  What a command demands of the refs and does to them: an update verifies the old value, a null one meaning
  that the ref does not exist; create and delete refuse null ids.
\<close>

fun command_ok :: "'o oid_ops \<Rightarrow> (bytes \<rightharpoonup> 'o) \<Rightarrow> 'o ref_command \<Rightarrow> bool" where
  "command_ok H m (UpdateCommand name new old) \<longleftrightarrow> m name = (if old = null_oid H then None else Some old)"
| "command_ok H m (CreateCommand name new) \<longleftrightarrow> new \<noteq> null_oid H \<and> m name = None"
| "command_ok H m (DeleteCommand name old) \<longleftrightarrow> old \<noteq> null_oid H \<and> m name = Some old"

fun command_apply :: "'o oid_ops \<Rightarrow> (bytes \<rightharpoonup> 'o) \<Rightarrow> 'o ref_command \<Rightarrow> (bytes \<rightharpoonup> 'o)" where
  "command_apply H m (UpdateCommand name new old) = m(name := if new = null_oid H then None else Some new)"
| "command_apply H m (CreateCommand name new) = m(name \<mapsto> new)"
| "command_apply H m (DeleteCommand name old) = m(name := None)"

text \<open>
  The documented behaviour on a repository without symbolic refs: all commands or none are performed, a
  ref is named once, and the exit status says which.
\<close>

definition update_ref_law :: "'g git_exe \<Rightarrow> 'o oid_ops \<Rightarrow> bytes \<Rightarrow> ('g fs_state \<Rightarrow> bytes \<rightharpoonup> 'o) \<Rightarrow> bool" where
  "update_ref_law C H repo refs_of \<longleftrightarrow>
     (\<forall>ws cmds s out t. gt_piped C repo [''update-ref'', ''--stdin''] ws s = (Inr out, t) \<longrightarrow>
        parse_commands H (concat ws) = Some cmds \<longrightarrow>
        (if ot_ok out
         then distinct (map command_name cmds) \<and> (\<forall>c \<in> set cmds. command_ok H (refs_of s) c) \<and>
              refs_of t = foldl (command_apply H) (refs_of s) cmds
         else refs_of t = refs_of s))"

text \<open>The text written for updates of plain names means these updates to git.\<close>

definition command_of :: "'o oid_ops \<Rightarrow> 'o ref_update \<Rightarrow> 'o ref_command" where
  "command_of H u =
     (if is_null H (new_oid u) then DeleteCommand (refname u) (old_oid u)
      else if is_null H (old_oid u) then CreateCommand (refname u) (new_oid u)
      else UpdateCommand (refname u) (new_oid u) (old_oid u))"

lemma command_name_of [simp]: "command_name (command_of H u) = refname u"
  by (simp add: command_of_def)

lemma split_on_no: "c \<notin> set s \<Longrightarrow> split_on c s = [s]"
  by (induction s) auto

lemma split_on_field: "c \<notin> set a \<Longrightarrow> split_on c (a @ c # s) = a # split_on c s"
  by (induction a) auto

lemma ok_oid_to_hex: "object_id H \<Longrightarrow> ok_oid H (to_hex H x) = Some x"
  by (simp add: ok_oid_def object_id.from_to_hex)

lemma space_char: "CHR '' '' = SP"
  by (simp add: SP_def)

lemmas line_simps = split_on_no split_on_field ok_oid_to_hex object_id.to_hex_no_ctrl space_char

lemma parse_three:
  assumes "object_id H" "SP \<notin> set verb" "plain_name name"
  shows "parse_command H (verb @ SP # name @ SP # to_hex H x) =
    (if verb = ''create'' then Some (CreateCommand name x) else if verb = ''delete'' then Some (DeleteCommand name x) else None)"
proof -
  have "SP \<notin> set name" using assms(3) by (simp add: plain_name_def)
  with assms(1,2) have "split_on SP (verb @ SP # name @ SP # to_hex H x) = [verb, name, to_hex H x]" by (simp add: line_simps)
  then show ?thesis using assms(1,3) by (simp add: parse_command_def ok_oid_to_hex)
qed

lemma parse_four:
  assumes "object_id H" "SP \<notin> set verb" "plain_name name"
  shows "parse_command H (verb @ SP # name @ SP # to_hex H x @ SP # to_hex H y) =
    (if verb = ''update'' then Some (UpdateCommand name x y) else None)"
proof -
  have "SP \<notin> set name" using assms(3) by (simp add: plain_name_def)
  with assms(1,2) have "split_on SP (verb @ SP # name @ SP # to_hex H x @ SP # to_hex H y) = [verb, name, to_hex H x, to_hex H y]"
    by (simp add: line_simps)
  then show ?thesis using assms(1,3) by (simp add: parse_command_def ok_oid_to_hex)
qed

text \<open>The line without its newline, and that it has no other.\<close>

definition update_text :: "'o oid_ops \<Rightarrow> 'o ref_update \<Rightarrow> bytes" where
  "update_text H u =
     (if is_null H (new_oid u) then ''delete'' @ SP # refname u @ SP # to_hex H (old_oid u)
      else if is_null H (old_oid u) then ''create'' @ SP # refname u @ SP # to_hex H (new_oid u)
      else ''update'' @ SP # refname u @ SP # to_hex H (new_oid u) @ SP # to_hex H (old_oid u))"

lemma update_line_text: "update_line H u = update_text H u @ [NL]"
  by (simp add: update_line_def update_text_def space_char)

lemma parse_update_text:
  assumes "object_id H" "plain_name (refname u)"
  shows "parse_command H (update_text H u) = Some (command_of H u)"
proof -
  have verbs: "SP \<notin> set ''create''" "SP \<notin> set ''delete''" "SP \<notin> set ''update''" by (simp_all add: SP_def)
  show ?thesis
    unfolding update_text_def command_of_def
    using parse_three [OF assms(1) verbs(1) assms(2)] parse_three [OF assms(1) verbs(2) assms(2)] parse_four [OF assms(1) verbs(3) assms(2)]
    by simp
qed

lemma update_text_one_line:
  "object_id H \<Longrightarrow> plain_name (refname u) \<Longrightarrow> NL \<notin> set (update_text H u)"
  by (simp add: update_text_def plain_name_def object_id.to_hex_no_ctrl) (simp add: NL_def SP_def)

lemma strip_suffix_snoc: "strip_suffix [c] (l @ [c]) = Some l"
  by (simp add: strip_suffix_Some_iff)

lemma parse_commands_line:
  assumes "NL \<notin> set l"
  shows "parse_commands H (l @ NL # rest) =
    (case parse_command H l of None \<Rightarrow> None | Some c \<Rightarrow> map_option ((#) c) (parse_commands H rest))"
  using assms by (simp add: parse_commands_def split_inclusive_line strip_suffix_snoc option.map_comp comp_def split: option.split)

lemma update_lines_meaning:
  assumes "object_id H" "list_all (\<lambda>u. plain_name (refname u)) us"
  shows "parse_commands H (concat (map (update_line H) us)) = Some (map (command_of H) us)"
  using assms(2)
proof (induction us)
  case (Cons u us)
  then show ?case
    using parse_commands_line [OF update_text_one_line [OF assms(1)], of u H "concat (map (update_line H) us)"]
    by (simp add: update_line_text [of H u] parse_update_text [OF assms(1)])
qed (simp add: parse_commands_def)

lemma command_cas:
  assumes "object_id H"
  shows "command_ok H m (command_of H u) \<Longrightarrow> cas_ok H m u" "command_apply H m (command_of H u) = cas_apply H m u"
  using object_id.is_null_iff [OF assms] by (auto simp: command_of_def cas_ok_def cas_apply_def split: if_splits)

lemma commands_apply: "object_id H \<Longrightarrow> foldl (command_apply H) m (map (command_of H) us) = foldl (cas_apply H) m us"
  by (induction us arbitrary: m) (simp_all add: command_cas(2))

abbreviation update_ref :: "'g git_exe \<Rightarrow> bytes \<Rightarrow> bytes list \<Rightarrow> ('g fs_state, pipe_error, git_output) act" where
  "update_ref C repo ws \<equiv> gt_piped C repo [''update-ref'', ''--stdin''] ws"

lemma cli_update_run:
  assumes "us \<noteq> []" "cli_update_refs C H repo us s = (res, t)"
  obtains q where "update_ref C repo (map (update_line H) us) s = (q, t)"
    "res = Inr () \<longleftrightarrow> (\<exists>out. q = Inr out \<and> ot_ok out)"
proof -
  obtain q u where q: "update_ref C repo (map (update_line H) us) s = (q, u)" by (cases "update_ref C repo (map (update_line H) us) s")
  from assms q have "u = t" "res = Inr () \<longleftrightarrow> (\<exists>out. q = Inr out \<and> ot_ok out)"
    by (cases q; auto simp: cli_update_refs_def checked_def act_defs split: if_splits)+
  with q that show ?thesis by blast
qed


text \<open>
  C24. Names that are not plain reach git as commands of their own.  A push request may name a ref by a text
  with a newline in it, which the server reads as one update; written to git it is the creation of two refs, and
  when the update succeeds the second one has been created although no update of the batch names it.
\<close>

definition smuggled :: "'o oid_ops \<Rightarrow> bytes \<Rightarrow> 'o \<Rightarrow> bytes \<Rightarrow> 'o \<Rightarrow> 'o ref_update" where
  "smuggled H a x b y = \<lparr> old_oid = null_oid H, new_oid = y, refname = a @ SP # to_hex H x @ NL # ''create'' @ SP # b \<rparr>"

lemma smuggled_line:
  assumes H: "object_id H" and "plain_name a" "plain_name b" "y \<noteq> null_oid H"
  shows "parse_commands H (update_line H (smuggled H a x b y)) = Some [CreateCommand a x, CreateCommand b y]"
proof -
  have c: "SP \<notin> set ''create''" "NL \<notin> set ''create''" by (simp_all add: SP_def NL_def)
  have one: "NL \<notin> set (''create'' @ SP # n @ SP # to_hex H z)" if "plain_name n" for n z
    using that c(2) object_id.to_hex_no_ctrl [OF H] by (simp add: plain_name_def) (simp add: NL_def SP_def)
  have "update_line H (smuggled H a x b y) =
      (''create'' @ SP # a @ SP # to_hex H x) @ NL # (''create'' @ SP # b @ SP # to_hex H y) @ [NL]"
    using assms(4) object_id.is_null_iff [OF H] by (simp add: update_line_text update_text_def smuggled_def)
  then show ?thesis
    using parse_commands_line [OF one [OF assms(2), of x], of H] parse_commands_line [OF one [OF assms(3), of y], of H "[]"]
      parse_three [OF H c(1) assms(2), of x] parse_three [OF H c(1) assms(3), of y]
    by (simp add: parse_commands_def [of H "[]"])
qed

theorem smuggled_ref_created:
  assumes H: "object_id H" and law: "update_ref_law C H repo refs_of" and names: "plain_name a" "plain_name b"
    and y: "y \<noteq> null_oid H" and short: "sendable caps (smuggled H a x b y)" "0 < max_ref_updates lim"
    and run: "cli_update_refs C H repo [smuggled H a x b y] s = (Inr (), t)"
  shows "read_receive_request H lim (push_request H caps [smuggled H a x b y] pack) = Inr ([smuggled H a x b y], pack) \<and>
    refname (smuggled H a x b y) \<noteq> b \<and> refs_of s b = None \<and> refs_of t b = Some y"
proof -
  obtain out where q: "update_ref C repo [update_line H (smuggled H a x b y)] s = (Inr out, t)" "ot_ok out"
    using run by (auto elim!: cli_update_run [rotated])
  have "distinct (map command_name [CreateCommand a x, CreateCommand b y]) \<and>
      (\<forall>c \<in> set [CreateCommand a x, CreateCommand b y]. command_ok H (refs_of s) c) \<and>
      refs_of t = foldl (command_apply H) (refs_of s) [CreateCommand a x, CreateCommand b y]"
    using law [unfolded update_ref_law_def, rule_format, OF q(1)] q(2) smuggled_line [OF H names y, of x] by simp
  moreover have "refname (smuggled H a x b y) \<noteq> b" using names(2) by (auto simp: smuggled_def plain_name_def)
  ultimately show ?thesis
    using read_push_request [OF H, of caps "[smuggled H a x b y]" lim pack] short by auto
qed

section \<open>A git for the witnesses\<close>

definition answer :: "bool \<Rightarrow> bytes \<Rightarrow> git_output" where
  "answer ok out = \<lparr> ot_ok = ok, ot_status = ''exit status: '' @ (if ok then ''0'' else ''128''), ot_stdout = out, ot_stderr = [] \<rparr>"

definition demo_update_ref :: "bytes list \<Rightarrow> ((bytes \<rightharpoonup> sha1) fs_state, pipe_error, git_output) act" where
  "demo_update_ref ws s =
     (case parse_commands sha1_ops (concat ws) of
        None \<Rightarrow> (Inr (answer False []), s)
      | Some cmds \<Rightarrow>
          if distinct (map command_name cmds) \<and> (\<forall>c \<in> set cmds. command_ok sha1_ops (snd s) c)
          then (Inr (answer True []), (fst s, foldl (command_apply sha1_ops) (snd s) cmds))
          else (Inr (answer False []), s))"

definition demo_git :: "(bytes list \<Rightarrow> bytes \<Rightarrow> git_output) \<Rightarrow> (bytes \<rightharpoonup> sha1) git_exe" where
  "demo_git reply = \<lparr> gt_exists = (\<lambda>_ _. True), gt_output = (\<lambda>_ args input. retA (reply args input)),
     gt_piped = (\<lambda>_ args ws. if args = [''update-ref'', ''--stdin''] then demo_update_ref ws else retA (reply args (concat ws))),
     gt_stream = (\<lambda>_ args ws. retA \<lparr> ch_stdout = [Inr (ot_stdout (reply args (concat ws)))], ch_exit = Inr (True, ''exit status: 0''),
       ch_stderr = [], ch_arrivals = [], ch_collected = 0 \<rparr>) \<rparr>"

abbreviation quiet_git :: "(bytes \<rightharpoonup> sha1) git_exe" where
  "quiet_git \<equiv> demo_git (\<lambda>_ _. answer True [])"

lemma demo_update_ref_law: "update_ref_law (demo_git reply) sha1_ops repo snd"
  unfolding update_ref_law_def
  by (auto simp: demo_git_def demo_update_ref_def answer_def split: option.splits if_splits)

lemma demo_cli_update:
  assumes "parse_commands sha1_ops (concat (map (update_line sha1_ops) us)) = Some cmds" "us \<noteq> []"
    "distinct (map command_name cmds)" "\<forall>c \<in> set cmds. command_ok sha1_ops m c"
  shows "cli_update_refs (demo_git reply) sha1_ops repo us (d, m) = (Inr (), (d, foldl (command_apply sha1_ops) m cmds))"
  using assms by (simp add: cli_update_refs_def demo_git_def demo_update_ref_def checked_def answer_def act_defs)


theorem smuggled_ref_created_witness:
  "\<exists>t. cli_update_refs quiet_git sha1_ops ''/r'' [smuggled sha1_ops ''refs/heads/mine'' 5 ''refs/heads/main'' 6] (quiet_files [], Map.empty) = (Inr (), t) \<and>
     snd t ''refs/heads/main'' = Some 6"
proof -
  let ?u = "smuggled sha1_ops ''refs/heads/mine'' 5 ''refs/heads/main'' (6 :: sha1)"
  have p: "plain_name ''refs/heads/mine''" "plain_name ''refs/heads/main''" by (simp_all add: plain_name_def SP_def NL_def NUL_def)
  have y: "(6 :: sha1) \<noteq> null_oid sha1_ops" by (simp add: sha1_ops_def)
  have "ascii (refname ?u)" "NUL \<notin> set (refname ?u)"
    using sha1.to_hex_ascii [of 5] sha1.to_hex_no_ctrl [of 5] by (simp_all add: smuggled_def SP_def NL_def NUL_def)
  then have short: "sendable [] ?u"
    by (simp add: sendable_def utf8_valid_ascii) (simp add: smuggled_def sha1.length_to_hex)
  obtain t where t: "cli_update_refs quiet_git sha1_ops ''/r'' [?u] (quiet_files [], Map.empty) = (Inr (), t)"
    using demo_cli_update [of "[?u]" "[CreateCommand ''refs/heads/mine'' 5, CreateCommand ''refs/heads/main'' 6]" Map.empty "\<lambda>_ _. answer True []" "''/r''" "quiet_files []"]
      smuggled_line [OF sha1.object_id_axioms p y, of 5] y by (simp add: sha1_ops_def)
  show ?thesis
    using smuggled_ref_created [OF sha1.object_id_axioms demo_update_ref_law p y short _ t, of default_limits] t
    by (auto simp: default_limits_def)
qed

section \<open>History\<close>

text \<open>
  Git prints the history of a repository whose commits have the parents \<open>Par\<close>: while \<open>I\<close> holds, \<open>rev-list\<close>
  succeeds only with the first \<open>--max-count\<close> commits of a list of the new side, one id per line.  Reading
  objects keeps \<open>I\<close>.
\<close>

definition rev_list_args :: "'o oid_ops \<Rightarrow> 'o list \<Rightarrow> 'o list \<Rightarrow> nat \<Rightarrow> bytes list" where
  "rev_list_args H start excl n =
     [''rev-list'', ''--topo-order''] @ map (to_hex H) start @ map (\<lambda>x. CHR 0x5E # to_hex H x) excl @ [''--max-count='' @ show_nat n]"

definition rev_list_law :: "'g git_exe \<Rightarrow> 'o oid_ops \<Rightarrow> bytes \<Rightarrow> ('g fs_state \<Rightarrow> bool) \<Rightarrow> ('o \<Rightarrow> 'o list) \<Rightarrow> bool" where
  "rev_list_law C H repo I Par \<longleftrightarrow>
     (\<forall>args s q t. I s \<longrightarrow> gt_output C (Some repo) args [] s = (q, t) \<longrightarrow> I t) \<and>
     (\<forall>start excl n s out t. I s \<longrightarrow> gt_output C (Some repo) (rev_list_args H start excl n) [] s = (Inr out, t) \<longrightarrow> ot_ok out \<longrightarrow>
        (\<exists>walk. distinct walk \<and> set walk = new_side Par start excl \<and> ot_stdout out = unlines (map (to_hex H) (take n walk))))"

lemma to_hex_line:
  assumes "object_id H"
  shows "clean_line (to_hex H x) \<and> solid (hd (to_hex H x)) \<and> solid (last (to_hex H x))"
proof -
  have g: "48 \<le> (of_char c :: nat) \<and> (of_char c :: nat) < 128" if "c \<in> set (to_hex H x)" for c
    using object_id.to_hex_graphic [OF assms that] .
  have ne: "to_hex H x \<noteq> []" using object_id.to_hex_nonempty [OF assms] .
  have "solid c" if "c \<in> set (to_hex H x)" for c using g [OF that] by (auto intro!: solidI simp: white_byte_def Let_def)
  moreover have "last (to_hex H x) \<noteq> CR" using g [of "last (to_hex H x)"] ne by (auto simp: CR_def)
  ultimately show ?thesis using ne object_id.to_hex_no_ctrl(3) [OF assms, of x] by (simp add: clean_line_def)
qed

lemma parse_rev_hex:
  assumes "object_id H"
  shows "parse_rev_lines H cap out (map (to_hex H) xs) =
    (if length out + length xs \<le> cap \<or> xs = [] then Inr (out @ xs) else Inl (CapExceeded cap))"
proof (induction xs arbitrary: out)
  case (Cons x xs)
  have "trim (to_hex H x) = to_hex H x" "to_hex H x \<noteq> []"
    using to_hex_line [OF assms, of x] by (simp_all add: trim_solid clean_line_def)
  then show ?case using Cons.IH [of "out @ [x]"] by (auto simp: object_id.from_to_hex [OF assms])
qed simp

text \<open>What a success and a passed cap mean.\<close>

definition graph_answer :: "'o set \<Rightarrow> nat \<Rightarrow> reachable_error + 'o list \<Rightarrow> bool" where
  "graph_answer new cap res =
     (case res of
        Inr out \<Rightarrow> distinct out \<and> set out = new \<and> length out \<le> cap
      | Inl (CapExceeded n) \<Rightarrow> n = cap \<and> (\<exists>xs. distinct xs \<and> set xs = new \<and> cap < length xs)
      | Inl (OtherError _) \<Rightarrow> True)"

lemma ascii_unlines_hex: "object_id H \<Longrightarrow> ascii (unlines (map (to_hex H) xs))"
  by (induction xs) (simp_all add: unlines_def object_id.to_hex_ascii NL_def)

lemma run_git_run:
  assumes "run_git C repo args s = (res, t)"
  obtains q where "gt_output C (Some repo) args [] s = (q, t)"
    "\<And>out. res = Inr out \<Longrightarrow> \<exists>r. q = Inr r \<and> ot_ok r \<and> out = trim (utf8_lossy (ot_stdout r))"
proof -
  obtain q u where q: "gt_output C (Some repo) args [] s = (q, u)" by (cases "gt_output C (Some repo) args [] s")
  with assms have "u = t" "\<And>out. res = Inr out \<Longrightarrow> \<exists>r. q = Inr r \<and> ot_ok r \<and> out = trim (utf8_lossy (ot_stdout r))"
    by (cases q; auto simp: run_git_def act_defs split: if_splits)+
  with q that show ?thesis by blast
qed

lemma run_git_ok:
  "gt_output C (Some repo) args [] s = (Inr out, t) \<Longrightarrow> ot_ok out \<Longrightarrow> run_git C repo args s = (Inr (trim (utf8_lossy (ot_stdout out))), t)"
  by (simp add: run_git_def act_defs)

lemma cli_reachable_run:
  assumes "start \<noteq> []" "cli_reachable_excluding C H repo start excl cap s = (res, t)"
    "run_git C repo (rev_list_args H start excl (cap + 1)) s = (r, u)"
  shows "t = u \<and> res = (case r of
      Inl e \<Rightarrow> Inl (OtherError (Bail (''rev-list: '' @ display_error e)))
    | Inr stdout \<Rightarrow> parse_rev_lines H cap [] (str_lines stdout))"
proof -
  have "cli_reachable_excluding C H repo start excl cap =
      bindA (map_errA (\<lambda>e. OtherError (Bail (''rev-list: '' @ display_error e))) (run_git C repo (rev_list_args H start excl (cap + 1))))
        (\<lambda>stdout. liftA (parse_rev_lines H cap [] (str_lines stdout)))"
    using assms(1) by (simp only: cli_reachable_excluding_def rev_list_args_def if_False)
  with assms(2,3) show ?thesis by (cases r) (auto simp: act_defs)
qed

lemma cli_reachable_answer:
  assumes H: "object_id H" and law: "rev_list_law C H repo I Par" and s: "I s"
    and run: "cli_reachable_excluding C H repo start excl cap s = (res, t)"
  shows "I t \<and> graph_answer (new_side Par start excl) cap res"
proof (cases "start = []")
  case True
  with run s show ?thesis by (auto simp: cli_reachable_excluding_def graph_answer_def new_side_def)
next
  case False
  let ?args = "rev_list_args H start excl (cap + 1)"
  obtain r u where r: "run_git C repo ?args s = (r, u)" by (cases "run_git C repo ?args s")
  obtain q where q: "gt_output C (Some repo) ?args [] s = (q, u)"
    and ok: "\<And>out. r = Inr out \<Longrightarrow> \<exists>o'. q = Inr o' \<and> ot_ok o' \<and> out = trim (utf8_lossy (ot_stdout o'))"
    by (rule run_git_run [OF r], rule that) blast+
  have u: "I u" using law s q unfolding rev_list_law_def by blast
  show ?thesis
  proof (cases r)
    case (Inl e)
    with cli_reachable_run [OF False run r] u show ?thesis by (simp add: graph_answer_def)
  next
    case (Inr out)
    with ok obtain o' where o': "q = Inr o'" "ot_ok o'" "out = trim (utf8_lossy (ot_stdout o'))" by blast
    from law s q o' obtain walk where w: "distinct walk" "set walk = new_side Par start excl"
      "ot_stdout o' = unlines (map (to_hex H) (take (cap + 1) walk))" unfolding rev_list_law_def by blast
    have "str_lines out = map (to_hex H) (take (cap + 1) walk)"
      unfolding o'(3) w(3) using to_hex_line [OF H]
      by (simp add: utf8_lossy_valid utf8_valid_ascii ascii_unlines_hex [OF H] str_lines_trim_all list_all_iff)
    with cli_reachable_run [OF False run r] Inr
    have "t = u" "res = (if length (take (cap + 1) walk) \<le> cap \<or> take (cap + 1) walk = [] then Inr (take (cap + 1) walk) else Inl (CapExceeded cap))"
      by (simp_all add: parse_rev_hex [OF H])
    then show ?thesis using u w by (auto simp: graph_answer_def)
  qed
qed

text \<open>The same for gix: the items of its walk are the new side.\<close>

definition topo_law :: "('r, 't, 'n, 'o, 'g) gix \<Rightarrow> 'r \<Rightarrow> ('g fs_state \<Rightarrow> bool) \<Rightarrow> ('o \<Rightarrow> 'o list) \<Rightarrow> bool" where
  "topo_law X r I Par \<longleftrightarrow>
     (\<forall>start excl s xs. I s \<longrightarrow> gx_topo X r start excl s = Inr (map Inr xs) \<longrightarrow> distinct xs \<and> set xs = new_side Par start excl) \<and>
     (\<forall>start excl s walk n xs. I s \<longrightarrow> gx_topo X r start excl s = Inr walk \<longrightarrow> take n walk = map Inr xs \<longrightarrow>
        (\<exists>rest. distinct (xs @ rest) \<and> set (xs @ rest) = new_side Par start excl))"

lemma take_capped_cases:
  assumes "length out \<le> cap"
  shows "case take_capped cap out walk of
      Inr xs \<Rightarrow> \<exists>ys. xs = out @ ys \<and> walk = map Inr ys \<and> length xs \<le> cap
    | Inl (CapExceeded n) \<Rightarrow> n = cap \<and> (\<exists>k ys. take k walk = map Inr ys \<and> cap < length out + length ys)
    | Inl (OtherError _) \<Rightarrow> True"
  using assms
proof (induction cap out walk rule: take_capped.induct)
  case (3 cap out x rs)
  show ?case
  proof (cases "length out \<ge> cap")
    case True
    with 3 show ?thesis by (auto intro!: exI [of _ 1] exI [of _ "[x]"])
  next
    case False
    with 3 have IH: "case take_capped cap (out @ [x]) rs of
      Inr xs \<Rightarrow> \<exists>ys. xs = (out @ [x]) @ ys \<and> rs = map Inr ys \<and> length xs \<le> cap
    | Inl (CapExceeded n) \<Rightarrow> n = cap \<and> (\<exists>k ys. take k rs = map Inr ys \<and> cap < length (out @ [x]) + length ys)
    | Inl (OtherError _) \<Rightarrow> True" by simp
    show ?thesis
    proof (cases "take_capped cap (out @ [x]) rs")
      case (Inr xs)
      with IH False show ?thesis by auto
    next
      case (Inl e)
      show ?thesis
      proof (cases e)
        case (CapExceeded n)
        with IH Inl obtain k ys where "n = cap" "take k rs = map Inr ys" "cap < length (out @ [x]) + length ys" by auto
        then show ?thesis using Inl CapExceeded False by (auto intro!: exI [of _ "Suc k"] exI [of _ "x # ys"])
      qed (use Inl False in simp)
    qed
  qed
qed auto

lemma gitoxide_reachable_answer:
  assumes law: "topo_law X r I Par" and s: "I s"
    and run: "gitoxide_reachable_excluding X r start excl cap s = (res, t)"
  shows "t = s \<and> graph_answer (new_side Par start excl) cap res"
proof (cases "gx_topo X r start excl s")
  case (Inl e)
  with run show ?thesis by (auto simp: gitoxide_reachable_excluding_def readA_def graph_answer_def)
next
  case (Inr walk)
  with run have res: "res = take_capped cap [] walk" and t: "t = s" by (auto simp: gitoxide_reachable_excluding_def readA_def)
  show ?thesis
  proof (cases res)
    case out: (Inr xs)
    with take_capped_cases [of "[]" cap walk] res [symmetric] have "walk = map Inr xs" "length xs \<le> cap" by auto
    moreover from this have "distinct xs \<and> set xs = new_side Par start excl" using law s Inr unfolding topo_law_def by blast
    ultimately show ?thesis using out t by (simp add: graph_answer_def)
  next
    case e: (Inl e)
    show ?thesis
    proof (cases e)
      case (CapExceeded n)
      with take_capped_cases [of "[]" cap walk] res [symmetric] e obtain k ys where k: "n = cap" "take k walk = map Inr ys" "cap < length ys" by auto
      with law s Inr obtain rest where "distinct (ys @ rest)" "set (ys @ rest) = new_side Par start excl"
        unfolding topo_law_def by blast
      then show ?thesis using k e CapExceeded t by (auto simp: graph_answer_def intro!: exI [of _ "ys @ rest"])
    qed (use e t in \<open>simp add: graph_answer_def\<close>)
  qed
qed

text \<open>So the laws an authoriser's view needs hold for both backends.\<close>

lemma gitoxide_graph_backend:
  assumes "topo_law X r I Par"
  shows "graph_backend (gitoxide_backend G X IX Z temp_name H) r I Par"
proof
  fix s "from" excl cap res t
  assume "I s" "be_reachable_excluding (gitoxide_backend G X IX Z temp_name H) r from excl cap s = Some (res, t)"
  then show "I t \<and> (\<forall>out. res = Inr out \<longrightarrow> distinct out \<and> set out = new_side Par from excl)"
    using gitoxide_reachable_answer [OF assms] by (fastforce simp: gitoxide_backend_def graph_answer_def)
next
  fix s x info t
  assume "I s" "be_read_commit_info (gitoxide_backend G X IX Z temp_name H) r x s = (info, t)"
  then show "I t \<and> (\<forall>c. info = Inr c \<longrightarrow> ci_oid c = x)"
    by (auto simp: gitoxide_backend_def gitoxide_read_commit_info_def readA_def parse_commit_info_oid
        split: sum.splits option.splits if_splits)
qed

lemma cli_graph_backend:
  assumes H: "object_id H" and law: "rev_list_law C H repo I Par"
  shows "graph_backend (cli_backend G bundle_at C H) repo I Par"
proof
  fix s "from" excl cap res t
  assume "I s" "be_reachable_excluding (cli_backend G bundle_at C H) repo from excl cap s = Some (res, t)"
  then show "I t \<and> (\<forall>out. res = Inr out \<longrightarrow> distinct out \<and> set out = new_side Par from excl)"
    using cli_reachable_answer [OF H law] by (fastforce simp: cli_backend_def graph_answer_def)
next
  fix s x info t
  assume s: "I s" and run: "be_read_commit_info (cli_backend G bundle_at C H) repo x s = (info, t)"
  obtain q u where q: "gt_output C (Some repo) [''cat-file'', ''commit'', to_hex H x] [] s = (q, u)"
    by (cases "gt_output C (Some repo) [''cat-file'', ''commit'', to_hex H x] [] s")
  have "I u" using law s q unfolding rev_list_law_def by blast
  moreover have "t = u" "\<forall>c. info = Inr c \<longrightarrow> ci_oid c = x"
    using run q by (cases q; auto simp: cli_backend_def cli_read_commit_info_def cat_file_def checked_def act_defs parse_commit_info_oid split: if_splits)+
  ultimately show "I t \<and> (\<forall>c. info = Inr c \<longrightarrow> ci_oid c = x)" by simp
qed

lemma fs_new_commits:
  assumes "graph_backend B repo I Par" and s: "I s"
    and X: "cx_repo X = repo" "distinct (map pr_refname (cx_refs X))"
    and run: "mapA (new_commits B H X) (cx_refs X) (s, empty_caches (length (cx_refs X))) = (Inr (map Inr css), t)"
  shows "distinct (map ci_oid (concat css)) \<and>
    set (map ci_oid (concat css)) = new_side Par (tips H (cx_refs X)) (cx_existing X)"
proof -
  have "tips H [] = []" by (simp add: tips_def)
  then show ?thesis
    using graph_backend.new_commits_all [OF assms(1) X, of "[]" "cx_refs X", OF _ _ _ _ run] s by (simp add: empty_caches_def)
qed


text \<open>A history of unrelated commits, of which git is asked for one.\<close>

definition leaf_reply :: "bytes list \<Rightarrow> bytes \<Rightarrow> git_output" where
  "leaf_reply args input =
     (if args = rev_list_args sha1_ops [5] [] 3 then answer True (unlines [to_hex sha1_ops 5]) else answer False [])"

definition leaf_gix :: "(unit, sha1 ref_edit list, sha1, sha1, (bytes \<times> sha1 ref_target) list) gix" where
  "leaf_gix = demo_sha1\<lparr> gx_topo := (\<lambda>_ start excl _. Inr (map Inr (remdups (filter (\<lambda>x. x \<notin> set excl) start)))) \<rparr>"

lemma new_side_leaf: "new_side (\<lambda>_. []) start excl = set start - set excl"
proof -
  have "ancestors (\<lambda>_. []) x = {x}" for x :: 'a
    using ancestors_least [of "\<lambda>_. []" "{x}" x] ancestors_self [of x "\<lambda>_. []"] by (auto simp: closed_def)
  then show ?thesis by (simp add: new_side_def)
qed

lemma leaf_topo_law: "topo_law leaf_gix () (\<lambda>_. True) (\<lambda>_. [])"
proof -
  have "inj (Inr :: sha1 \<Rightarrow> error + sha1)" by (simp add: inj_def)
  then have eq: "map Inr xs = map Inr (ys :: sha1 list) \<Longrightarrow> (xs :: sha1 list) = ys" for xs ys by simp
  have "\<exists>rest. distinct (xs @ rest) \<and> set (xs @ rest) = set l" if "distinct l" "take n (map Inr l) = map Inr (xs :: sha1 list)" for n l xs
  proof -
    have "xs = take n l" using that(2) eq [of "take n l" xs] by (simp add: take_map)
    then have "xs @ drop n l = l" by simp
    then show ?thesis using that(1) by metis
  qed
  note part = this
  have leaf: "set (remdups (filter (\<lambda>x. x \<notin> set excl) start)) = set start - set excl" for start excl :: "sha1 list" by auto
  have "\<exists>rest. distinct (xs @ rest) \<and> set (xs @ rest) = set start - set excl"
    if "take n (map Inr (remdups (filter (\<lambda>x. x \<notin> set excl) start))) = (map Inr xs :: sha1 res list)" for n start excl xs
    using part [OF distinct_remdups that] unfolding leaf .
  moreover have "gx_topo leaf_gix () start excl s = Inr (map Inr (remdups (filter (\<lambda>x. x \<notin> set excl) start)))" for start excl s
    by (simp add: leaf_gix_def demo_gix_def)
  ultimately show ?thesis unfolding topo_law_def new_side_leaf by (auto simp del: distinct_append set_append dest!: eq)
qed

lemma rev_list_args_inj:
  assumes H: "object_id H" and eq: "rev_list_args H start excl n = rev_list_args H [x] [] m"
  shows "start = [x] \<and> excl = [] \<and> n = m"
proof -
  let ?l = "map (to_hex H) start @ map (\<lambda>y. CHR 0x5E # to_hex H y) excl"
  from eq have "?l @ [''--max-count='' @ show_nat n] = [to_hex H x] @ [''--max-count='' @ show_nat m]"
    by (simp add: rev_list_args_def)
  then have l: "?l = [to_hex H x]" and "show_nat n = show_nat m" unfolding append_same_eq by auto
  then have n: "n = m" by (metis digits_val_show_nat option.inject)
  have "CHR 0x5E # to_hex H y \<noteq> to_hex H x" for y
    using object_id.length_to_hex [OF H, of x] object_id.length_to_hex [OF H, of y] by (metis length_Cons n_not_Suc_n)
  with l n show ?thesis using object_id.to_hex_inj [OF H] by (auto simp: append_eq_Cons_conv map_eq_Cons_conv)
qed

lemma leaf_rev_list_law: "rev_list_law (demo_git leaf_reply) sha1_ops repo (\<lambda>_. True) (\<lambda>_. [])"
  unfolding rev_list_law_def
proof (intro conjI allI impI)
  fix start excl :: "sha1 list" and n s out t
  assume "gt_output (demo_git leaf_reply) (Some repo) (rev_list_args sha1_ops start excl n) [] s = (Inr out, t)" "ot_ok out"
  then have "rev_list_args sha1_ops start excl n = rev_list_args sha1_ops [5] [] 3" "ot_stdout out = unlines [to_hex sha1_ops 5]"
    by (auto simp: demo_git_def leaf_reply_def answer_def split: if_splits)
  with rev_list_args_inj [OF sha1.object_id_axioms, of start excl n 5 3]
  show "\<exists>walk. distinct walk \<and> set walk = new_side (\<lambda>_. []) start excl \<and> ot_stdout out = unlines (map (to_hex sha1_ops) (take n walk))"
    by (intro exI [of _ "[5]"]) (simp add: new_side_leaf)
qed simp


section \<open>Reading git's output\<close>

text \<open>
  The records of \<open>git diff-tree -r --raw -z\<close>: modes in six octal digits, ids, a letter, and the path, with
  a NUL after the letter and the path.
\<close>

fun octal :: "nat \<Rightarrow> bytes" where
  "octal n = (if n < 8 then [digit_char n] else octal (n div 8) @ [digit_char (n mod 8)])"

declare octal.simps [simp del]

definition mode_text :: "nat \<Rightarrow> bytes" where
  "mode_text m = replicate (6 - length (octal m)) (CHR ''0'') @ octal m"

datatype 'o raw_change = RawAdded nat 'o | RawRemoved nat 'o | RawModified nat 'o nat 'o | RawTypeChanged nat 'o nat 'o

fun raw_fields :: "'o oid_ops \<Rightarrow> 'o raw_change \<Rightarrow> nat \<times> nat \<times> 'o \<times> 'o \<times> byte" where
  "raw_fields H (RawAdded m x) = (0, m, null_oid H, x, CHR ''A'')"
| "raw_fields H (RawRemoved m x) = (m, 0, x, null_oid H, CHR ''D'')"
| "raw_fields H (RawModified m x n y) = (m, n, x, y, CHR ''M'')"
| "raw_fields H (RawTypeChanged m x n y) = (m, n, x, y, CHR ''T'')"

definition raw_header :: "'o oid_ops \<Rightarrow> 'o raw_change \<Rightarrow> bytes" where
  "raw_header H c =
     (case raw_fields H c of (m, n, x, y, letter) \<Rightarrow>
        mode_text m @ SP # mode_text n @ SP # to_hex H x @ SP # to_hex H y @ SP # [letter])"

definition raw_record :: "'o oid_ops \<Rightarrow> 'o raw_change \<times> bytes \<Rightarrow> bytes" where
  "raw_record H r = (CHR '':'' # raw_header H (fst r)) @ NUL # snd r @ [NUL]"

fun raw_entry :: "'o raw_change \<Rightarrow> bytes \<Rightarrow> 'o ref_diff_entry" where
  "raw_entry (RawAdded m x) path = \<lparr> de_path = path, de_change = Added, de_mode = m, de_oid = x \<rparr>"
| "raw_entry (RawRemoved m x) path = \<lparr> de_path = path, de_change = Removed, de_mode = m, de_oid = x \<rparr>"
| "raw_entry (RawModified m x n y) path = \<lparr> de_path = path, de_change = Modified, de_mode = n, de_oid = y \<rparr>"
| "raw_entry (RawTypeChanged m x n y) path = \<lparr> de_path = path, de_change = Modified, de_mode = n, de_oid = y \<rparr>"

definition printable :: "'o oid_ops \<Rightarrow> 'o raw_change \<times> bytes \<Rightarrow> bool" where
  "printable H r \<longleftrightarrow> utf8_valid (snd r) \<and> NUL \<notin> set (snd r) \<and>
     (case raw_fields H (fst r) of (m, n, _) \<Rightarrow> m \<le> u32_max \<and> n \<le> u32_max)"

lemma digits_val_octal: "digits_val 8 0 (octal n) = Some n"
proof (induction n rule: octal.induct)
  case (1 n)
  show ?case
  proof (cases "n < 8")
    case True
    then show ?thesis by (simp add: octal.simps [of n] to_digit_digit_char)
  next
    case False
    with 1 show ?thesis by (simp add: octal.simps [of n] digits_val_append to_digit_digit_char)
  qed
qed

lemma octal_digits: "c \<in> set (octal n) \<Longrightarrow> 48 \<le> (of_char c :: nat) \<and> (of_char c :: nat) \<le> 57"
proof (induction n rule: octal.induct)
  case (1 n)
  then show ?case by (cases "n < 8") (auto simp: octal.simps [of n] digit_char_def)
qed

lemma mode_text_digits: "c \<in> set (mode_text m) \<Longrightarrow> 48 \<le> (of_char c :: nat) \<and> (of_char c :: nat) \<le> 57"
  using octal_digits [of c m] by (auto simp: mode_text_def)

lemma mode_text_ne: "mode_text m \<noteq> []"
  by (simp add: mode_text_def) (metis append_is_Nil_conv list.distinct(1) octal.simps)

lemma digits_val_zeros: "0 < r \<Longrightarrow> digits_val r 0 (replicate k (CHR ''0'') @ ds) = digits_val r 0 ds"
  by (induction k) (simp_all add: to_digit_def)

lemma parse_mode_text: "m \<le> u32_max \<Longrightarrow> parse_unsigned 8 u32_max (mode_text m) = Some m"
proof -
  assume m: "m \<le> u32_max"
  obtain c cs where c: "mode_text m = c # cs" using mode_text_ne [of m] by (cases "mode_text m") auto
  then have "c \<noteq> CHR ''+''" using mode_text_digits [of c m] by auto
  moreover have "digits_val 8 0 (mode_text m) = Some m" by (simp add: mode_text_def digits_val_zeros digits_val_octal)
  ultimately show ?thesis using m c by (simp add: parse_unsigned_def)
qed

lemma solid_graphic: "48 \<le> (of_char c :: nat) \<Longrightarrow> (of_char c :: nat) < 128 \<Longrightarrow> solid c"
  by (rule solidI) (auto simp: white_byte_def Let_def)

lemma solid_words:
  "solid_word (mode_text m)" "object_id H \<Longrightarrow> solid_word (to_hex H x)" "solid_word [CHR ''A'']" "solid_word [CHR ''D'']"
  "solid_word [CHR ''M'']" "solid_word [CHR ''T'']"
  using mode_text_digits [of _ m] object_id.to_hex_graphic [of H _ x]
  by (fastforce simp: list_all_iff mode_text_ne object_id.to_hex_nonempty intro: solid_graphic)+

lemma split_header:
  assumes "object_id H" "raw_fields H c = (m, n, x, y, letter)"
  shows "split_whitespace (raw_header H c) = [mode_text m, mode_text n, to_hex H x, to_hex H y, [letter]]"
proof -
  have "solid_word [letter]" using assms(2) solid_words(3-6) by (cases c) auto
  then show ?thesis using assms solid_words(1) solid_words(2) [OF assms(1)]
    by (simp add: raw_header_def split_whitespace_word split_whitespace_last)
qed

lemma parse_raw_header:
  assumes "object_id H" "printable H (c, path)"
  shows "parse_diff_header H (CHR '':'' # raw_header H c) path = Inr (raw_entry c path)"
  using assms(2)
  by (cases c)
    (simp_all add: parse_diff_header_def split_header [OF assms(1)] part_or_def starts_with_def parse_mode_text printable_def
      object_id.from_to_hex [OF assms(1)])

lemma raw_header_plain:
  assumes "object_id H"
  shows "NUL \<notin> set (CHR '':'' # raw_header H c)" "ascii (CHR '':'' # raw_header H c)"
proof -
  obtain m n x y letter where f: "raw_fields H c = (m, n, x, y, letter)" by (metis surj_pair)
  have l: "letter \<in> {CHR ''A'', CHR ''D'', CHR ''M'', CHR ''T''}" using f by (cases c) auto
  have "of_char d < (128 :: nat) \<and> d \<noteq> NUL" if "d \<in> set (CHR '':'' # raw_header H c)" for d
    using that l mode_text_digits [of d m] mode_text_digits [of d n] object_id.to_hex_graphic [OF assms, of d x] object_id.to_hex_graphic [OF assms, of d y]
    by (auto simp: raw_header_def f SP_def NUL_def)
  then show "NUL \<notin> set (CHR '':'' # raw_header H c)" "ascii (CHR '':'' # raw_header H c)"
    unfolding ascii_def list_all_iff by blast+
qed

lemma until_nul_append: "NUL \<notin> set a \<Longrightarrow> until_nul (a @ NUL # rest) = (a, rest)"
  by (simp add: until_nul_def while_neq)

lemma diff_records_raw:
  assumes H: "object_id H" and "list_all (printable H) rs"
  shows "diff_records H (concat (map (raw_record H) rs)) = Inr (map (\<lambda>(c, path). raw_entry c path) rs)"
  using assms(2)
proof (induction rs)
  case (Cons r rs)
  obtain c path where r: "r = (c, path)" by (cases r)
  let ?h = "CHR '':'' # raw_header H c" and ?rest = "concat (map (raw_record H) rs)"
  have whole: "concat (map (raw_record H) (r # rs)) = ?h @ NUL # path @ NUL # ?rest" by (simp add: raw_record_def r)
  have p: "printable H (c, path)" "NUL \<notin> set path" using Cons.prems r by (simp_all add: printable_def)
  have "diff_records H (?h @ NUL # path @ NUL # ?rest) =
      bindR (from_utf8 ?h) (\<lambda>header. bindR (parse_diff_header H header path) (\<lambda>entry.
      bindR (diff_records H ?rest) (\<lambda>entries. Inr (entry # entries))))"
    unfolding diff_records.simps [of H "?h @ NUL # path @ NUL # ?rest"] until_nul_append [OF raw_header_plain(1) [OF H]]
    by (simp add: until_nul_append p(2))
  also have "\<dots> = Inr (raw_entry c path # map (\<lambda>(c, path). raw_entry c path) rs)"
    using Cons parse_raw_header [OF H p(1)] utf8_valid_ascii [OF raw_header_plain(2) [OF H]]
    by (simp add: from_utf8_def del: utf8_valid.simps)
  finally show ?case using whole r by simp
qed (simp add: diff_records.simps)

lemma raw_text_solid:
  assumes "rs \<noteq> []"
  shows "solid (hd (concat (map (raw_record H) rs)))" "solid (last (concat (map (raw_record H) rs)))"
proof -
  have s: "solid (CHR '':'')" "solid NUL" by (auto intro!: solidI simp: white_byte_def NUL_def)
  then show "solid (hd (concat (map (raw_record H) rs)))" using assms by (cases rs) (simp_all add: raw_record_def)
  have ends: "last (raw_record H r) = NUL" "raw_record H r \<noteq> []" for r by (simp_all add: raw_record_def)
  show "solid (last (concat (map (raw_record H) rs)))"
    using assms s ends by (cases rs rule: rev_cases) simp_all
qed

lemma raw_text_lossy:
  assumes H: "object_id H" and "list_all (printable H) rs"
  shows "utf8_lossy (concat (map (raw_record H) rs)) = concat (map (raw_record H) rs)"
  using assms(2)
proof (induction rs)
  case (Cons r rs)
  obtain c path where r: "r = (c, path)" by (cases r)
  have nul: "utf8_valid [NUL]" "ascii ((CHR '':'' # raw_header H c) @ [NUL])"
    using raw_header_plain(2) [OF H, of c] by (simp_all add: NUL_def in_range_def)
  have "raw_record H r = ((CHR '':'' # raw_header H c) @ [NUL]) @ path @ [NUL]" by (simp add: raw_record_def r)
  moreover have "utf8_valid path" using Cons.prems r by (simp add: printable_def)
  ultimately show ?case
    using Cons utf8_lossy_append [OF utf8_valid_ascii [OF nul(2)]] utf8_lossy_append [OF nul(1)] utf8_lossy_append [of path]
    by simp
qed simp

text \<open>
  C26. What git says about a change of trees is what the authoriser is told.  Whatever the records that
  \<open>git diff-tree -r --raw -z\<close> prints, with paths in UTF-8, \<open>tree_diff\<close> returns one entry per record, in order, with the
  path, the kind of change and the mode and id of the new side, or of the old side for a removal.
\<close>

theorem cli_tree_diff_exact:
  assumes H: "object_id H" and rs: "list_all (printable H) rs"
    and git: "gt_output C (Some repo)
        [''diff-tree'', ''-r'', ''--raw'', ''-z'', case parent_tree of Some x \<Rightarrow> to_hex H x | None \<Rightarrow> EMPTY_TREE_HEX, to_hex H child_tree] [] s =
      (Inr out, t)" "ot_ok out" "ot_stdout out = concat (map (raw_record H) rs)"
  shows "cli_tree_diff C H repo parent_tree child_tree s = (Inr (map (\<lambda>(c, path). raw_entry c path) rs), t)"
proof -
  have "trim (utf8_lossy (ot_stdout out)) = concat (map (raw_record H) rs)"
    unfolding git(3) raw_text_lossy [OF H rs] by (rule trim_solid) (use raw_text_solid [of rs H] in \<open>cases rs; simp\<close>)
  then show ?thesis using git(1,2) diff_records_raw [OF H rs] by (simp add: cli_tree_diff_def run_git_ok act_defs Let_def)
qed

theorem cli_tree_diff_exact_witness:
  "fst (cli_tree_diff (demo_git (\<lambda>_ _. answer True (raw_record sha1_ops (RawAdded 33188 7, ''a b'')))) sha1_ops ''/r'' None 9 (quiet_files [], Map.empty)) =
     Inr [\<lparr> de_path = ''a b'', de_change = Added, de_mode = 33188, de_oid = 7 \<rparr>]"
proof -
  let ?C = "demo_git (\<lambda>_ _. answer True (raw_record sha1_ops (RawAdded 33188 7, ''a b'')))"
  have "list_all (printable sha1_ops) [(RawAdded 33188 7, ''a b'')]"
    by (simp add: printable_def NUL_def in_range_def u32_max_def)
  moreover have "gt_output ?C (Some ''/r'') args [] s = (Inr (answer True (raw_record sha1_ops (RawAdded 33188 7, ''a b''))), s)" for args s
    by (simp add: demo_git_def)
  ultimately show ?thesis
    using cli_tree_diff_exact [OF sha1.object_id_axioms, of "[(RawAdded 33188 7, ''a b'')]" ?C] by (simp add: answer_def)
qed

text \<open>
  A line of \<open>git for-each-ref\<close> in the format asked for; the last two fields may be missing, and are when the
  output has been trimmed.
\<close>

definition ref_fields :: "'o oid_ops \<Rightarrow> 'o ref_info \<Rightarrow> bytes \<times> bytes" where
  "ref_fields H i =
     (case ri_symref i of Some n \<Rightarrow> n | None \<Rightarrow> [], case ri_peeled i of Some p \<Rightarrow> to_hex H p | None \<Rightarrow> [])"

definition ref_text :: "'o oid_ops \<Rightarrow> 'o ref_info \<Rightarrow> bytes" where
  "ref_text H i = (case ref_fields H i of (target, peeled) \<Rightarrow> to_hex H (ri_oid i) @ SP # ri_name i @ SP # target @ SP # peeled)"

definition ref_word :: "bytes \<Rightarrow> bool" where
  "ref_word n \<longleftrightarrow> n \<noteq> [] \<and> SP \<notin> set n \<and> NL \<notin> set n \<and> solid (last n) \<and> utf8_valid n"

definition listable :: "'o oid_ops \<Rightarrow> 'o ref_info \<Rightarrow> bool" where
  "listable H i \<longleftrightarrow> ref_word (ri_name i) \<and> (case ri_symref i of Some n \<Rightarrow> ref_word n | None \<Rightarrow> True) \<and>
     (case ri_peeled i of Some p \<Rightarrow> p \<noteq> ri_oid i \<and> to_hex H p \<noteq> replicate 40 (CHR ''0'') | None \<Rightarrow> True)"

lemma splitn_4:
  assumes "SP \<notin> set a" "SP \<notin> set b"
  shows "splitn 4 SP (a @ SP # b) = [a, b]"
    "SP \<notin> set c \<Longrightarrow> splitn 4 SP (a @ SP # b @ SP # c) = [a, b, c]"
    "SP \<notin> set c \<Longrightarrow> splitn 4 SP (a @ SP # b @ SP # c @ SP # d) = [a, b, c, d]"
  using assms by (simp_all add: numeral_eq_Suc while_neq)

text \<open>The line without the spaces that trimming would remove.\<close>

definition short_text :: "'o oid_ops \<Rightarrow> 'o ref_info \<Rightarrow> bytes" where
  "short_text H i =
     (case ref_fields H i of (target, peeled) \<Rightarrow>
        if peeled \<noteq> [] then ref_text H i
        else to_hex H (ri_oid i) @ SP # ri_name i @ (if target = [] then [] else SP # target))"

lemma ref_text_short:
  "ref_text H i = short_text H i @ (case ref_fields H i of (target, peeled) \<Rightarrow> if peeled \<noteq> [] then [] else if target = [] then [SP, SP] else [SP])"
  by (auto simp: short_text_def ref_text_def split: prod.split)

lemma parse_peeled_hex:
  assumes "object_id H" "listable H i" "ref_fields H i = (target, peeled)"
  shows "parse_peeled H (ri_oid i) peeled = Inr (ri_peeled i)"
  using assms by (auto simp: parse_peeled_def listable_def ref_fields_def object_id.from_to_hex object_id.to_hex_nonempty split: option.splits)

lemma parse_ref_step:
  assumes H: "object_id H" and i: "listable H i" and line: "line = ref_text H i \<or> line = short_text H i"
  shows "parse_ref_lines H (line # ls) = bindR (parse_ref_lines H ls) (\<lambda>rest. Inr (i # rest))"
proof -
  obtain target peeled where f: "ref_fields H i = (target, peeled)" by fastforce
  have words: "SP \<notin> set (to_hex H (ri_oid i))" "SP \<notin> set (ri_name i)" "SP \<notin> set target"
    using i f object_id.to_hex_no_ctrl [OF H] by (auto simp: listable_def ref_word_def ref_fields_def split: option.splits)
  let ?x = "to_hex H (ri_oid i)" and ?parts = "splitn 4 SP line"
  have parts: "nth_part 0 ?parts = ?x" "nth_part 1 ?parts = ri_name i" "nth_part 2 ?parts = target" "nth_part 3 ?parts = peeled"
    "2 \<le> length ?parts" "line \<noteq> []"
  proof -
    have "line = ?x @ SP # ri_name i @ SP # target @ SP # peeled \<or> line = ?x @ SP # ri_name i \<and> target = [] \<and> peeled = [] \<or>
        line = ?x @ SP # ri_name i @ SP # target \<and> peeled = []"
      using line by (auto simp: ref_text_def short_text_def f split: if_splits)
    then show "nth_part 0 ?parts = ?x" "nth_part 1 ?parts = ri_name i" "nth_part 2 ?parts = target" "nth_part 3 ?parts = peeled"
      "2 \<le> length ?parts" "line \<noteq> []"
      using splitn_4 [OF words(1,2)] words(3) by (elim disjE; simp add: nth_part_def)+
  qed
  have target: "(if target = [] then None else Some target) = ri_symref i"
    using f i by (auto simp: ref_fields_def listable_def ref_word_def split: option.splits)
  show ?thesis
    using parts parse_peeled_hex [OF H i f] target
    by (cases "parse_ref_lines H ls") (auto simp: Let_def object_id.from_to_hex [OF H] split: if_splits)
qed

lemma parse_refs:
  assumes H: "object_id H"
  shows "list_all (listable H) infos \<Longrightarrow> parse_ref_lines H (map (ref_text H) infos) = Inr infos"
    "list_all (listable H) (infos @ [i]) \<Longrightarrow> parse_ref_lines H (map (ref_text H) infos @ [short_text H i]) = Inr (infos @ [i])"
proof -
  note steps = parse_ref_step [OF H _ disjI1 [OF refl]] parse_ref_step [OF H _ disjI2 [OF refl]]
  show "list_all (listable H) infos \<Longrightarrow> parse_ref_lines H (map (ref_text H) infos) = Inr infos"
    by (induction "infos") (simp_all add: steps del: parse_ref_lines.simps(2))
  show "list_all (listable H) (infos @ [i]) \<Longrightarrow> parse_ref_lines H (map (ref_text H) infos @ [short_text H i]) = Inr (infos @ [i])"
    by (induction "infos") (simp_all add: steps del: parse_ref_lines.simps(2))
qed

lemma ref_text_line:
  assumes H: "object_id H" and i: "listable H i"
  shows "clean_line (ref_text H i)" "clean_line (short_text H i)" "solid (last (short_text H i))" "solid (hd (ref_text H i))"
    "solid (hd (short_text H i))" "utf8_lossy (ref_text H i @ NL # rest) = ref_text H i @ NL # utf8_lossy rest"
proof -
  obtain target peeled where f: "ref_fields H i = (target, peeled)" by fastforce
  let ?x = "to_hex H (ri_oid i)" and ?n = "ri_name i"
  have x: "?x \<noteq> []" "solid (hd ?x)" "NL \<notin> set ?x" "ascii ?x"
    using to_hex_line [OF H, of "ri_oid i"] object_id.to_hex_ascii [OF H] by (auto simp: clean_line_def)
  have n: "?n \<noteq> []" "solid (last ?n)" "NL \<notin> set ?n" "utf8_valid ?n" using i by (auto simp: listable_def ref_word_def)
  have t: "target = [] \<or> solid (last target)" "NL \<notin> set target" "utf8_valid target"
    using i f by (auto simp: listable_def ref_word_def ref_fields_def split: option.splits)
  have p: "peeled = [] \<or> solid (last peeled)" "NL \<notin> set peeled" "ascii peeled"
    using i f to_hex_line [OF H] object_id.to_hex_ascii [OF H] by (auto simp: listable_def ref_fields_def clean_line_def split: option.splits)
  have nl: "NL \<noteq> SP" "SP \<noteq> CR" by (simp_all add: NL_def SP_def CR_def)
  have cr: "c \<noteq> CR" if "solid c" for c using that by (auto simp: solid_def white_space_def CR_def)
  show *: "solid (last (short_text H i))" using n t p f by (auto simp: short_text_def ref_text_def)
  then show "clean_line (short_text H i)" using x n t p nl cr f by (auto simp: clean_line_def short_text_def ref_text_def)
  show "clean_line (ref_text H i)" using x n t p nl cr f by (auto simp: clean_line_def ref_text_def)
  show "solid (hd (ref_text H i))" "solid (hd (short_text H i))" using x f by (simp_all add: short_text_def ref_text_def)
  have "in_range 0 127 SP" "in_range 0 127 NL" by (simp_all add: in_range_def SP_def NL_def)
  then show "utf8_lossy (ref_text H i @ NL # rest) = ref_text H i @ NL # utf8_lossy rest"
    using x(4) n(4) t(3) p(3) f by (simp add: ref_text_def utf8_lossy_append utf8_lossy_ascii_Cons utf8_valid_ascii)
qed

lemma refs_text_lossy:
  "object_id H \<Longrightarrow> list_all (listable H) infos \<Longrightarrow> utf8_lossy (unlines (map (ref_text H) infos)) = unlines (map (ref_text H) infos)"
  by (induction infos) (simp_all add: unlines_def ref_text_line(6))

lemma parse_for_each_ref:
  assumes H: "object_id H" and infos: "list_all (listable H) infos"
  shows "parse_ref_lines H (str_lines (trim (unlines (map (ref_text H) infos)))) = Inr infos"
proof (cases infos rule: rev_cases)
  case Nil
  then show ?thesis by (simp add: unlines_def trim_solid)
next
  case (snoc front i)
  have i: "listable H i" and front: "list_all (listable H) front" using infos snoc by auto
  obtain e where e: "ref_text H i = short_text H i @ e" "set e \<subseteq> {SP}"
    using ref_text_short [of H i] by (auto split: prod.splits if_splits)
  have "str_lines (trim (unlines (map (ref_text H) front @ [short_text H i @ e]))) = map (ref_text H) front @ [short_text H i]"
  proof (rule str_lines_trim [OF _ _ _ e(2)])
    show "list_all clean_line (map (ref_text H) front)" using front ref_text_line(1) [OF H] by (auto simp: list_all_iff)
    show "solid (hd (hd (map (ref_text H) front @ [short_text H i])))"
      using front i ref_text_line(4,5) [OF H] by (cases front) auto
  qed (use ref_text_line [OF H i] in auto)
  then show ?thesis using parse_refs(2) [OF H, of front i] infos snoc e(1) by simp
qed

text \<open>Reading HEAD never fails.\<close>

lemma tryA_total: obtains x t where "tryA m s = (Inr x, t)"
  by (cases "m s"; cases "fst (m s)") (auto simp: tryA_def)

lemma cli_head_total: obtains head t where "cli_head C H repo s = (Inr head, t)"
proof -
  obtain x u where x: "tryA (run_git C repo [''symbolic-ref'', ''HEAD'']) s = (Inr x :: error + bytes option, u)" by (rule tryA_total)
  obtain y t where "tryA (run_git C repo [''rev-parse'', ''HEAD'']) u = (Inr y :: error + bytes option, t)" by (rule tryA_total)
  with x show ?thesis using that by (simp add: cli_head_def act_defs)
qed


definition demo_refs :: "sha1 ref_info list" where
  "demo_refs = [\<lparr> ri_name = ''refs/heads/main'', ri_oid = 7, ri_peeled = None, ri_symref = None \<rparr>,
     \<lparr> ri_name = ''refs/tags/v1'', ri_oid = 8, ri_peeled = Some 7, ri_symref = None \<rparr>,
     \<lparr> ri_name = ''refs/x'', ri_oid = 7, ri_peeled = None, ri_symref = Some ''refs/heads/main'' \<rparr>]"


section \<open>Packs\<close>

text \<open>What the exit of the child makes of the end of its output.\<close>

definition child_verdict :: "child_run \<Rightarrow> bytes res" where
  "child_verdict run =
     (case ch_exit run of
        Inl e \<Rightarrow> Inl e
      | Inr (True, _) \<Rightarrow> Inr []
      | Inr (False, status) \<Rightarrow> Inl (Ext (''git process exited with '' @ status @ '': '' @ utf8_lossy (stderr_buf run))))"

lemma child_reads_all:
  assumes "[] \<notin> set cs"
  shows "child_reads (Suc (length cs + length rest)) \<lparr> cr_stdout = map Inr cs @ rest, cr_child = ch, cr_stderr_buf = b \<rparr> =
    map Inr cs @ child_reads (Suc (length rest)) \<lparr> cr_stdout = rest, cr_child = ch, cr_stderr_buf = b \<rparr>"
  using assms
proof (induction cs)
  case (Cons c cs)
  from Cons.prems obtain x xs where "c = x # xs" by (cases c) auto
  with Cons show ?case by (simp add: child_read_def)
qed simp

text \<open>
  A pack that git writes reaches the client whole or not as a success.  Reading it gives the bytes of git's
  standard output in order; it ends as complete only if git exited with success, and otherwise with the
  exit status and what git printed; an error while reading ends it with that error.
\<close>

theorem child_reader_faithful:
  assumes "[] \<notin> set cs"
  shows "(ch_stdout run = map Inr cs \<longrightarrow> out_reader (child_output shallow run) = map Inr cs @ [child_verdict run]) \<and>
    (ch_stdout run = map Inr cs @ Inl e # rest \<longrightarrow> out_reader (child_output shallow run) = map Inr cs @ [Inl e])"
proof (intro conjI impI)
  assume "ch_stdout run = map Inr cs"
  then show "out_reader (child_output shallow run) = map Inr cs @ [child_verdict run]"
    using child_reads_all [OF assms, of "[]" "Some (ch_exit run)" "stderr_buf run"]
    by (auto simp: child_output_def new_reader_def child_read_def child_end_def child_verdict_def split: sum.splits prod.splits bool.splits)
next
  assume "ch_stdout run = map Inr cs @ Inl e # rest"
  then show "out_reader (child_output shallow run) = map Inr cs @ [Inl e]"
    using child_reads_all [OF assms, of "Inl e # rest" "Some (ch_exit run)" "stderr_buf run"]
    by (simp add: child_output_def new_reader_def child_read_def)
qed

theorem child_reader_faithful_witness:
  "out_reader (child_output [] \<lparr> ch_stdout = [Inr ''PA'', Inr ''CK''], ch_exit = Inr (False, ''exit status: 128''), ch_stderr = [Inr ''fatal''],
     ch_arrivals = [], ch_collected = 5 \<rparr>) = [Inr ''PA'', Inr ''CK'', Inl (Ext ''git process exited with exit status: 128: fatal'')]"
proof -
  have "utf8_lossy ''fatal'' = ''fatal''" by (rule utf8_lossy_valid) (simp add: in_range_def)
  then show ?thesis
    using child_reader_faithful [of "[''PA'', ''CK'']" "\<lparr> ch_stdout = [Inr ''PA'', Inr ''CK''], ch_exit = Inr (False, ''exit status: 128''), ch_stderr = [Inr ''fatal''],
       ch_arrivals = [], ch_collected = 5 \<rparr>"] by (simp add: child_verdict_def stderr_buf_def)
qed

text \<open>
  What git documents of \<open>index-pack --stdin\<close>: it stores the pack and its index under the hash it prints, in the pack
  directory of the repository, and leaves other files alone.
\<close>

abbreviation cli_pack_dir :: "bytes \<Rightarrow> bytes" where
  "cli_pack_dir repo \<equiv> path_join (path_join repo ''objects'') ''pack''"

definition index_pack_law :: "'g git_exe \<Rightarrow> bytes \<Rightarrow> bool" where
  "index_pack_law C repo \<longleftrightarrow>
     (\<forall>staged d g out d' g'. gt_output C (Some repo) [''index-pack'', ''--stdin'', ''--index-version=2'', ''--fix-thin''] staged (d, g) =
          (Inr out, (d', g')) \<longrightarrow> ot_ok out \<longrightarrow>
        (dk_events d = [] \<longrightarrow> dk_events d' = []) \<and> (\<forall>p. content_at d p \<noteq> None \<longrightarrow> content_at d' p = content_at d p) \<and>
        (\<exists>hash. hash \<noteq> [] \<and> list_all hex_lower hash \<and> ot_stdout out = ''pack'' @ CHR 0x09 # hash @ [NL] \<and>
           content_at d' (path_join (cli_pack_dir repo) (''pack-'' @ hash @ ''.pack'')) \<noteq> None \<and>
           content_at d' (path_join (cli_pack_dir repo) (''pack-'' @ hash @ ''.idx'')) \<noteq> None))"

lemma printed_hash:
  assumes "hash \<noteq> []" "list_all hex_lower hash"
  shows "last (split_on (CHR 0x09) (trim (utf8_lossy (''pack'' @ CHR 0x09 # hash @ [NL])))) = hash"
proof -
  have c: "48 \<le> (of_char c :: nat) \<and> (of_char c :: nat) < 128" if "c \<in> set hash" for c
    using assms(2) that by (auto simp: list_all_iff hex_lower_def in_range_def Let_def)
  have "ascii (''pack'' @ CHR 0x09 # hash @ [NL])" using c by (auto simp: ascii_def list_all_iff NL_def)
  from utf8_lossy_valid [OF utf8_valid_ascii [OF this]]
  have "utf8_lossy (''pack'' @ CHR 0x09 # hash @ [NL]) = (''pack'' @ CHR 0x09 # hash) @ [NL]" by simp
  moreover have "trim ((''pack'' @ CHR 0x09 # hash) @ [NL]) = ''pack'' @ CHR 0x09 # hash"
    using assms(1) c by (intro trim_end) (auto intro!: solid_graphic)
  moreover have "CHR 0x09 \<notin> set hash" using c [of "CHR 0x09"] by auto
  ultimately show ?thesis by (simp add: split_on_no)
qed

lemma cli_ingest_run:
  assumes law: "index_pack_law C repo" and ev: "dk_events d = []"
    and run: "cli_ingest_pack C repo staged (d, g) = (Inr (Some w), (d', g'))"
  shows "dk_events d' = [] \<and> (\<forall>p. content_at d p \<noteq> None \<longrightarrow> content_at d' p = content_at d p) \<and>
    content_at d' (cw_pack w) \<noteq> None \<and> content_at d' (cw_index w) \<noteq> None"
proof -
  let ?args = "[''index-pack'', ''--stdin'', ''--index-version=2'', ''--fix-thin'']"
  have ne: "\<not> staged_empty staged" using run by (auto simp: cli_ingest_pack_def)
  have mk: "fs_create_dir_all (cli_pack_dir repo) d = (Inr (), d)" by (simp add: fs_create_dir_all_def quiet_disk_op ev)
  obtain q u where q: "gt_output C (Some repo) ?args staged (d, g) = (q, u)" by (cases "gt_output C (Some repo) ?args staged (d, g)")
  from run ne mk q obtain out where out: "q = Inr out" "ot_ok out" "u = (d', g')"
    and w: "cw_pack w = path_join (cli_pack_dir repo) (''pack-'' @ last (split_on (CHR 0x09) (trim (utf8_lossy (ot_stdout out)))) @ ''.pack'')"
      "cw_index w = path_join (cli_pack_dir repo) (''pack-'' @ last (split_on (CHR 0x09) (trim (utf8_lossy (ot_stdout out)))) @ ''.idx'')"
    by (cases q) (auto simp: cli_ingest_pack_def on_disk_def checked_def act_defs Let_def split: if_splits)
  from law [unfolded index_pack_law_def, rule_format, OF q [unfolded out(1,3)] out(2)]
  obtain hash where h: "dk_events d' = []" "\<forall>p. content_at d p \<noteq> None \<longrightarrow> content_at d' p = content_at d p"
      "hash \<noteq> []" "list_all hex_lower hash" "ot_stdout out = ''pack'' @ CHR 0x09 # hash @ [NL]"
      "content_at d' (path_join (cli_pack_dir repo) (''pack-'' @ hash @ ''.pack'')) \<noteq> None"
      "content_at d' (path_join (cli_pack_dir repo) (''pack-'' @ hash @ ''.idx'')) \<noteq> None"
    using ev by blast
  then show ?thesis using w printed_hash [OF h(3,4)] by simp
qed

text \<open>
  Undoing a push on the backend on the git executable.  On a working disk an accepted pack is in place with its
  index and nothing else has changed; the rollback removes both files and keeps all others.  It removes them also when
  they were there before, from an earlier push of the same pack.
\<close>

theorem cli_ingest_rollback:
  assumes "index_pack_law C repo" "dk_events d = []" "cli_ingest_pack C repo staged (d, g) = (Inr (Some w), (d', g'))"
  shows "content_at d' (cw_pack w) \<noteq> None \<and> content_at d' (cw_index w) \<noteq> None \<and>
    (\<forall>p. content_at d p \<noteq> None \<longrightarrow> content_at d' p = content_at d p) \<and>
    content_at (cli_rollback_ingest w d') (cw_pack w) = None \<and> content_at (cli_rollback_ingest w d') (cw_index w) = None \<and>
    (\<forall>p. content_at d p \<noteq> None \<and> p \<notin> {cw_pack w, cw_index w} \<longrightarrow> content_at (cli_rollback_ingest w d') p = content_at d p)"
  using cli_ingest_run [OF assms]
  by (simp add: cli_rollback_ingest_def fs_remove_file_def quiet_disk_op delete_conv')

definition put_new :: "bytes \<Rightarrow> disk \<Rightarrow> disk" where
  "put_new p d = (if content_at d p = None then d\<lparr> dk_files := AList.update p ''PACK'' (dk_files d) \<rparr> else d)"

definition packing_git :: "(bytes \<rightharpoonup> sha1) git_exe" where
  "packing_git = quiet_git\<lparr> gt_output := (\<lambda>_ _ _ s.
     (Inr (answer True (''pack'' @ CHR 0x09 # ''ab'' @ [NL])),
      (put_new ''/r/objects/pack/pack-ab.idx'' (put_new ''/r/objects/pack/pack-ab.pack'' (fst s)), snd s))) \<rparr>"

lemma put_new: "content_at (put_new p d) q = (if q = p \<and> content_at d p = None then Some ''PACK'' else content_at d q)"
  "dk_events (put_new p d) = dk_events d"
  by (simp_all add: put_new_def update_conv')

lemma packing_paths:
  "path_join (cli_pack_dir ''/r'') (''pack-'' @ ''ab'' @ ''.pack'') = ''/r/objects/pack/pack-ab.pack''"
  "path_join (cli_pack_dir ''/r'') (''pack-'' @ ''ab'' @ ''.idx'') = ''/r/objects/pack/pack-ab.idx''"
  by code_simp+

lemma packing_law: "index_pack_law packing_git ''/r''"
proof -
  have ab: "list_all hex_lower ''ab''" by (simp add: hex_lower_def in_range_def)
  show ?thesis
    unfolding index_pack_law_def packing_git_def
    by (intro allI impI conjI exI [of _ "''ab''"])
      (use ab in \<open>auto simp: answer_def put_new packing_paths simp del: append.simps\<close>)
qed

lemma packing_run:
  "cli_ingest_pack packing_git ''/r'' one_object (quiet_files fs, m) =
     (Inr (Some \<lparr> cw_pack = ''/r/objects/pack/pack-ab.pack'', cw_index = ''/r/objects/pack/pack-ab.idx'' \<rparr>),
      (put_new ''/r/objects/pack/pack-ab.idx'' (put_new ''/r/objects/pack/pack-ab.pack'' (quiet_files fs)), m))"
proof -
  have mk: "fs_create_dir_all p (quiet_files fs) = (Inr (), quiet_files fs)" for p
    by (simp add: fs_create_dir_all_def quiet_disk_op quiet_files_def)
  have "last (split_on (CHR 0x09) (trim (utf8_lossy (''pack'' @ CHR 0x09 # ''ab'' @ [NL])))) = ''ab''"
    by (rule printed_hash) (simp_all add: hex_lower_def in_range_def)
  then show ?thesis
    using packing_paths
    by (simp add: cli_ingest_pack_def demo_staged on_disk_def mk packing_git_def answer_def checked_def act_defs Let_def del: append.simps)
qed

theorem cli_ingest_rollback_witness:
  "content_at (quiet_files [(''/r/objects/pack/pack-ab.pack'', ''old'')]) ''/r/objects/pack/pack-ab.pack'' = Some ''old'' \<and>
   (\<exists>w d m. cli_ingest_pack packing_git ''/r'' one_object (quiet_files [(''/r/objects/pack/pack-ab.pack'', ''old'')], Map.empty) = (Inr (Some w), (d, m)) \<and>
      cw_pack w = ''/r/objects/pack/pack-ab.pack'' \<and> content_at (cli_rollback_ingest w d) ''/r/objects/pack/pack-ab.pack'' = None)"
  using cli_ingest_rollback [OF packing_law _ packing_run, of "[(''/r/objects/pack/pack-ab.pack'', ''old'')]"] packing_run
  by (simp add: quiet_files_def)

section \<open>Authorisation\<close>

text \<open>Every git command but \<open>update-ref\<close> keeps \<open>P\<close>, which is not about the files the program itself writes.\<close>

definition git_keeps :: "'g git_exe \<Rightarrow> ('g fs_state \<Rightarrow> bool) \<Rightarrow> bool" where
  "git_keeps C P \<longleftrightarrow>
     (\<forall>d d' g. P (d, g) \<longrightarrow> P (d', g)) \<and> (\<forall>cwd args input. keeps P (gt_output C cwd args input)) \<and>
     (\<forall>cwd args ws. keeps P (gt_stream C cwd args ws)) \<and>
     (\<forall>cwd args ws. args \<noteq> [''update-ref'', ''--stdin''] \<longrightarrow> keeps P (gt_piped C cwd args ws))"

lemma keeps_tryA: "keeps P m \<Longrightarrow> keeps P (tryA m)"
  by (rule keepsI) (auto simp: tryA_def split: prod.splits sum.splits dest: keepsD)

lemma keeps_checked [keeps_intros]: "keeps P (checked msg out)"
  by (simp add: checked_def keeps_simple)

lemma cli_keeps:
  assumes "git_keeps C P"
  shows "backend_keeps (cli_backend G bundle_at C H) P"
proof -
  note k = assms [unfolded git_keeps_def]
  have disk: "\<And>m. keeps P (on_disk m)" by (rule keeps_on_disk) (use k in blast)
  have out: "\<And>cwd args input. keeps P (gt_output C cwd args input)" and stream: "\<And>cwd args ws. keeps P (gt_stream C cwd args ws)"
    using k by blast+
  have piped: "keeps P (gt_piped C cwd [''cat-file'', ''--batch-check''] ws)" for cwd ws using k by simp
  have run: "\<And>repo args. keeps P (run_git C repo args)" unfolding run_git_def by (intro keeps_intros out)
  note intros = keeps_intros keeps_tryA disk out stream piped run
  have kind: "keeps_opt P (\<lambda>s. Some (cli_compute_push_kind C H r u s))" for r u
    unfolding keeps_opt_def cli_compute_push_kind_def
    using keepsD [OF out] by (fastforce split: prod.splits sum.splits if_splits)
  have opt: "keeps_opt P (\<lambda>s. Some (m s))" if "keeps P m" for m :: "('a fs_state, 'e, 'x) act"
    unfolding keeps_opt_def using keepsD [OF that] by auto
  have refs: "keeps P (cli_init_repo C i)" "keeps P (cli_list_refs C H r)" "keeps P (cli_resolve_ref C H r n)" for i r n
    unfolding cli_init_repo_def cli_list_refs_def cli_head_def cli_resolve_ref_def by (intro intros)+
  have objs: "keeps P (cli_has_object C H r x)" "keeps P (cli_has_objects C H r xs)" "keeps P (cli_read_commit_info G C H r x)"
    "keeps P (cli_read_blob C H r x cap)" "keeps P (cli_read_object_raw C H r x cap)" for r x xs cap
    unfolding cli_has_object_def cli_has_objects_def cli_read_commit_info_def cli_read_blob_def cli_read_object_raw_def cat_file_def
    by (intro intros)+
  have walks: "keeps P (cli_reachable_excluding C H r start excl cap)" "keeps P (cli_tree_diff C H r a b)" for r start excl cap a b
    unfolding cli_reachable_excluding_def cli_tree_diff_def Let_def by (intro intros)+
  have packs: "keeps P (cli_build_pack C H r want haves opts)" "keeps P (cli_ingest_pack C r staged)" for r want haves opts staged
    unfolding cli_build_pack_def build_pack_shallow_def cli_ingest_pack_def Let_def by (intro intros)+
  show ?thesis
  proof (unfold_locales, goal_cases)
    case (11 s w)
    obtain d g where s: "s = (d, g)" by (cases s)
    show ?case using 11 k unfolding s cli_backend_def backend.simps fst_conv snd_conv by blast
  qed (simp_all add: cli_backend_def kind refs objs walks packs opt keeps_simple)
qed

text \<open>
  No ref changes without authorisation on the backend on the git executable.  Let every git command but
  \<open>update-ref\<close> keep the refs.  When a receive-pack session has ended, in success or in error, either the refs are
  the ones from before, or the preliminary check accepted exactly the updates the client sent and the authoriser
  said yes to a comparison of exactly these updates.
\<close>

theorem cli_push_needs_authorisation:
  assumes git: "\<And>m. git_keeps C (\<lambda>s. refs_of s = m)"
    and run: "serve_receive_pack A (cli_backend G bundle_at C H) W H empty_tree E limits reader (s, w) = (r, (t, w'))"
  shows "refs_of t = refs_of s \<or>
    (\<exists>us rest. read_receive_request H limits reader = Inr (us, rest) \<and> authorised A (cli_backend G bundle_at C H) H empty_tree us)"
  using keepsD [OF backend_keeps.keeps_serve_receive_pack [OF cli_keeps [OF git]] _ run] by fastforce

lemma demo_git_keeps: "git_keeps (demo_git reply) (\<lambda>s. snd s = m)"
  by (auto simp: git_keeps_def demo_git_def intro!: keeps_simple)

theorem cli_push_needs_authorisation_witness:
  "snd (fst (snd (serve_receive_pack rejecting_access (cli_backend demo_parser (\<lambda>_ _. Inr demo_bundle) quiet_git sha1_ops)
     pipe_writer sha1_ops 4 temp_ok default_limits (push_request sha1_ops [] [demo_update] [])
     ((quiet_files [], [''refs/heads/main'' \<mapsto> 1]), new_pipe 100)))) = [''refs/heads/main'' \<mapsto> 1]"
proof -
  let ?run = "serve_receive_pack rejecting_access (cli_backend demo_parser (\<lambda>_ _. Inr demo_bundle) quiet_git sha1_ops)
     pipe_writer sha1_ops 4 temp_ok default_limits (push_request sha1_ops [] [demo_update] [])
     ((quiet_files [], [''refs/heads/main'' \<mapsto> 1]), new_pipe 100)"
  obtain r t w' where run: "?run = (r, (t, w'))" by (metis surj_pair)
  show ?thesis
    using cli_push_needs_authorisation [OF demo_git_keeps run] run by (simp add: rejecting_not_authorised)
qed

section \<open>Asking for many objects at once\<close>

definition batch_ok :: "nat \<Rightarrow> nat \<Rightarrow> nat \<Rightarrow> nat \<Rightarrow> batch_pipes \<Rightarrow> bool" where
  "batch_ok n cap_in buffer cap_out s \<longleftrightarrow>
     bp_to_write s + bp_in s + bp_held s + bp_out s + bp_collected s = n \<and>
     bp_in s \<le> cap_in \<and> bp_held s \<le> buffer \<and> bp_out s \<le> cap_out \<and> (0 < bp_to_write s \<longrightarrow> bp_collected s = 0) \<and>
     (bp_to_write s = 0 \<longrightarrow> n \<le> cap_in + buffer + cap_out)"

definition batch_work :: "batch_pipes \<Rightarrow> nat" where
  "batch_work s = 4 * bp_to_write s + 3 * bp_in s + 2 * bp_held s + bp_out s"

lemma batch_step_ok:
  "batch_step cap_in buffer cap_out s t \<Longrightarrow> batch_ok n cap_in buffer cap_out s \<Longrightarrow>
     batch_ok n cap_in buffer cap_out t \<and> batch_work t < batch_work s"
  by (induction rule: batch_step.induct) (auto simp: batch_ok_def batch_work_def)

lemma batch_steps_ok:
  assumes "(batch_step cap_in buffer cap_out ^^ k) (batch_start n) s"
  shows "batch_ok n cap_in buffer cap_out s \<and> k + batch_work s \<le> 4 * n"
  using assms
proof (induction k arbitrary: s)
  case 0
  then show ?case by (auto simp: batch_start_def batch_ok_def batch_work_def)
next
  case (Suc k)
  then obtain u where "(batch_step cap_in buffer cap_out ^^ k) (batch_start n) u" "batch_step cap_in buffer cap_out u s" by auto
  with Suc.IH batch_step_ok [of cap_in buffer cap_out u s n] show ?case by fastforce
qed

lemma batch_stuck:
  assumes "0 < cap_in" "0 < buffer" "0 < cap_out" and ok: "batch_ok n cap_in buffer cap_out s"
    and stuck: "\<nexists>t. batch_step cap_in buffer cap_out s t"
  shows "if n \<le> cap_in + buffer + cap_out then bp_collected s = n
    else bp_to_write s = n - (cap_in + buffer + cap_out) \<and> bp_collected s = 0"
proof -
  have no: "\<not> (0 < bp_to_write s \<and> bp_in s < cap_in)" "\<not> (0 < bp_in s \<and> bp_held s < buffer)"
    "\<not> (0 < bp_held s \<and> bp_out s < cap_out)" "\<not> (bp_to_write s = 0 \<and> 0 < bp_out s)"
    using stuck batch_step.intros [of s] by metis+
  show ?thesis
  proof (cases "bp_to_write s = 0")
    case True
    with no assms(1-3) have "bp_out s = 0" "bp_held s = 0" "bp_in s = 0" by auto
    then show ?thesis using ok True by (auto simp: batch_ok_def)
  next
    case False
    with no assms(1-3) ok have "bp_in s = cap_in" "bp_held s = buffer" "bp_out s = cap_out" "bp_collected s = 0"
      by (auto simp: batch_ok_def)
    then show ?thesis using ok False by (auto simp: batch_ok_def)
  qed
qed


lemma four_ids_run:
  "(batch_step 1 1 1 ^^ 6) (batch_start 4) \<lparr> bp_to_write = 1, bp_in = 1, bp_held = 1, bp_out = 1, bp_collected = 0 \<rparr>"
proof -
  let ?B = "batch_step 1 1 1" and ?s = "\<lambda>w i h out. \<lparr> bp_to_write = w, bp_in = i, bp_held = h, bp_out = out, bp_collected = 0 \<rparr>"
  have w: "?B (?s (Suc w) 0 h out) (?s w 1 h out)" and r: "?B (?s w 1 0 out) (?s w 0 1 out)" and a: "?B (?s w i 1 0) (?s w i 0 1)" for w i h out
    using batch_step.write_id [of "?s (Suc w) 0 h out" 1 1 1] batch_step.child_read [of "?s w 1 0 out" 1 1 1]
      batch_step.child_answer [of "?s w i 1 0" 1 1 1] by simp_all
  have "?B (?s 4 0 0 0) (?s 3 1 0 0)" "?B (?s 3 0 0 1) (?s 2 1 0 1)" "?B (?s 2 0 1 1) (?s 1 1 1 1)"
    using w [of 3] w [of 2] w [of 1] by (simp_all add: numeral_eq_Suc)
  note last = this
  have "(?B ^^ 0) (?s 4 0 0 0) (?s 4 0 0 0)" by simp
  from relpowp_Suc_I [OF this last(1)] have "(?B ^^ 1) (?s 4 0 0 0) (?s 3 1 0 0)" by simp
  from relpowp_Suc_I [OF relpowp_Suc_I [OF this r] a] have "(?B ^^ 3) (?s 4 0 0 0) (?s 3 0 0 1)" by (simp add: numeral_eq_Suc)
  from relpowp_Suc_I [OF relpowp_Suc_I [OF this last(2)] r] have "(?B ^^ 5) (?s 4 0 0 0) (?s 2 0 1 1)" by (simp add: numeral_eq_Suc)
  from relpowp_Suc_I [OF this last(3)] show ?thesis by (simp add: batch_start_def numeral_eq_Suc)
qed


end
