(* ===== verification/Progress_Channel.thy ===== *)
theory Progress_Channel
  imports Mizzle_Prelude "HOL-Library.Word"
begin

text \<open>
  The progress lines of pack generation (\<open>ChannelProgress\<close> of \<open>backend/fs_gitoxide.rs\<close>).  The sender of the
  channel is the list of messages sent; a send to a receiver that is gone is ignored by the code, as
  here.  The clock is an argument, and so is the percentage, which the code computes in floating point.
\<close>

section \<open>Model\<close>

record channel_progress =
  cp_name :: bytes
  cp_step :: "64 word"
  cp_max :: "nat option"
  cp_last_sent_ms :: nat

definition new_progress :: "bytes \<Rightarrow> channel_progress" where
  "new_progress name = \<lparr> cp_name = name, cp_step = 0, cp_max = None, cp_last_sent_ms = 0 \<rparr>"

definition status_line :: "(nat \<Rightarrow> nat \<Rightarrow> nat) \<Rightarrow> channel_progress \<Rightarrow> bytes" where
  "status_line percent cp =
     (let step = unat (cp_step cp) in
      case cp_max cp of
        Some m \<Rightarrow>
          if m > 0 then cp_name cp @ '': '' @ show_nat (percent step m) @ [CHR 0x25, SP, CHR 0x28] @ show_nat step @ ''/'' @ show_nat m @ [CHR 0x29, CR]
          else cp_name cp @ '': '' @ show_nat step @ [CR]
      | None \<Rightarrow> cp_name cp @ '': '' @ show_nat step @ [CR])"

definition maybe_send :: "(nat \<Rightarrow> nat \<Rightarrow> nat) \<Rightarrow> nat \<Rightarrow> channel_progress \<times> bytes list \<Rightarrow> channel_progress \<times> bytes list" where
  "maybe_send percent now_ms s =
     (case s of (cp, sent) \<Rightarrow>
        if now_ms - cp_last_sent_ms cp < 100 then (cp, sent)
        else (cp\<lparr> cp_last_sent_ms := now_ms \<rparr>, sent @ [status_line percent cp]))"

definition done_line :: "channel_progress \<Rightarrow> bytes" where
  "done_line cp =
     (case cp_max cp of
        Some m \<Rightarrow>
          if m > 0 then cp_name cp @ '': 100'' @ [CHR 0x25, SP, CHR 0x28] @ show_nat m @ ''/'' @ show_nat m @ [CHR 0x29] @ '', done.'' @ [NL]
          else cp_name cp @ '': '' @ show_nat (unat (cp_step cp)) @ '', done.'' @ [NL]
      | None \<Rightarrow> cp_name cp @ '': '' @ show_nat (unat (cp_step cp)) @ '', done.'' @ [NL])"

definition send_done :: "channel_progress \<times> bytes list \<Rightarrow> channel_progress \<times> bytes list" where
  "send_done s = (case s of (cp, sent) \<Rightarrow> (cp, sent @ [done_line cp]))"

text \<open>The methods gix calls; a child reports to the same channel.\<close>

datatype progress_call = SetStep "64 word" | IncBy "64 word" | InitMax "nat option" | SetName bytes | Message bytes | ShowThroughput

fun progress_step ::
  "(nat \<Rightarrow> nat \<Rightarrow> nat) \<Rightarrow> nat \<Rightarrow> progress_call \<Rightarrow> channel_progress \<times> bytes list \<Rightarrow> channel_progress \<times> bytes list" where
  "progress_step percent now (SetStep n) (cp, sent) = maybe_send percent now (cp\<lparr> cp_step := n \<rparr>, sent)"
| "progress_step percent now (IncBy n) (cp, sent) = maybe_send percent now (cp\<lparr> cp_step := cp_step cp + n \<rparr>, sent)"
| "progress_step percent now (InitMax m) (cp, sent) = (cp\<lparr> cp_max := m, cp_step := 0 \<rparr>, sent)"
| "progress_step percent now (SetName n) (cp, sent) = (cp\<lparr> cp_name := n \<rparr>, sent)"
| "progress_step percent now (Message m) (cp, sent) = (cp, sent @ [m @ [NL]])"
| "progress_step percent now ShowThroughput (cp, sent) = send_done (cp, sent)"

definition add_child :: "bytes \<Rightarrow> channel_progress" where
  "add_child name = new_progress name"

definition progress_run ::
  "(nat \<Rightarrow> nat \<Rightarrow> nat) \<Rightarrow> (nat \<times> progress_call) list \<Rightarrow> channel_progress \<times> bytes list \<Rightarrow> channel_progress \<times> bytes list" where
  "progress_run percent calls s = foldl (\<lambda>s (now, c). progress_step percent now c s) s calls"

section \<open>Throttling\<close>

fun stepping :: "progress_call \<Rightarrow> bool" where
  "stepping (Message _) = False"
| "stepping ShowThroughput = False"
| "stepping _ = True"

lemma step_sends:
  assumes "stepping c" "progress_step percent now c (cp, sent) = (cp', sent')"
  shows "sent' = sent \<and> cp_last_sent_ms cp' = cp_last_sent_ms cp \<or>
    length sent' = Suc (length sent) \<and> cp_last_sent_ms cp' = now \<and> cp_last_sent_ms cp + 100 \<le> now"
  using assms by (cases c) (auto simp: maybe_send_def split: if_splits)

lemma run_sends:
  assumes "list_all (\<lambda>(now, c). now \<le> b \<and> stepping c) calls" "progress_run percent calls (cp, sent) = (cp', sent')"
  shows "length sent \<le> length sent' \<and> (cp_last_sent_ms cp \<le> b \<longrightarrow> 100 * (length sent' - length sent) \<le> b - cp_last_sent_ms cp)
    \<and> (b < cp_last_sent_ms cp \<longrightarrow> sent' = sent)"
  using assms
proof (induction calls arbitrary: cp sent)
  case (Cons e calls)
  obtain now c where e: "e = (now, c)" by (cases e)
  obtain cp1 sent1 where one: "progress_step percent now c (cp, sent) = (cp1, sent1)" by fastforce
  have st: "stepping c" "now \<le> b" using Cons.prems(1) e by auto
  have "progress_run percent calls (cp1, sent1) = (cp', sent')" using Cons.prems(2) e one by (simp add: progress_run_def)
  with Cons.IH Cons.prems(1) have IH: "length sent1 \<le> length sent'"
    "cp_last_sent_ms cp1 \<le> b \<longrightarrow> 100 * (length sent' - length sent1) \<le> b - cp_last_sent_ms cp1"
    "b < cp_last_sent_ms cp1 \<longrightarrow> sent' = sent1" by auto
  from step_sends [OF st(1) one] show ?case
  proof
    assume "sent1 = sent \<and> cp_last_sent_ms cp1 = cp_last_sent_ms cp"
    with IH show ?thesis by simp
  next
    assume "length sent1 = Suc (length sent) \<and> cp_last_sent_ms cp1 = now \<and> cp_last_sent_ms cp + 100 \<le> now"
    with IH st(2) show ?thesis by auto
  qed
qed (auto simp: progress_run_def)

text \<open>
  Whatever the order and the speed of the calls, status lines are at least 100 ms apart: within \<open>T\<close> ms at most
  \<open>T div 100 + 1\<close> of them are sent, also when the clock jumps.
\<close>

lemma progress_throttled:
  assumes calls: "list_all (\<lambda>(now, c). a \<le> now \<and> now \<le> a + T \<and> stepping c) calls"
    and run: "progress_run percent calls (cp, sent) = (cp', sent')"
  shows "length sent' \<le> length sent + T div 100 + 1"
  using calls run
proof (induction calls arbitrary: cp sent)
  case (Cons e calls)
  obtain now c where e: "e = (now, c)" by (cases e)
  obtain cp1 sent1 where one: "progress_step percent now c (cp, sent) = (cp1, sent1)" by fastforce
  have st: "stepping c" "a \<le> now" "now \<le> a + T" using Cons.prems(1) e by auto
  have rest: "progress_run percent calls (cp1, sent1) = (cp', sent')" using Cons.prems(2) e one by (simp add: progress_run_def)
  from step_sends [OF st(1) one] show ?case
  proof
    assume "sent1 = sent \<and> cp_last_sent_ms cp1 = cp_last_sent_ms cp"
    then show ?thesis using Cons.IH [OF _ rest] Cons.prems(1) by simp
  next
    assume s: "length sent1 = Suc (length sent) \<and> cp_last_sent_ms cp1 = now \<and> cp_last_sent_ms cp + 100 \<le> now"
    have "list_all (\<lambda>(now, c). now \<le> a + T \<and> stepping c) calls" using Cons.prems(1) by (auto simp: list_all_iff)
    from run_sends [OF this rest] s st have "100 * (length sent' - length sent1) \<le> T" by auto
    then have "length sent' - length sent1 \<le> T div 100" by linarith
    with s show ?thesis by simp
  qed
qed (simp add: progress_run_def)

end
