(* ===== verification/Spec2Isabelle.thy ===== *)
theory Spec2Isabelle
  imports Wire_Protocol Receive_Request LFS_Protocol KV_Objects Signatures KV_Comparison Push_Properties
    Fetch_Properties SQL_Properties HTTP_Server SSH_Server Pack_Reuse_Properties Pack_Objects_Properties
    Fs_Gitoxide_Properties Fs_Git_Cli_Properties Progress_Channel
begin

text \<open>
  A verification development for mizzle, a Rust library for serving git repositories over HTTP and
  SSH.  An application implements \<open>RepoAccess\<close> (who may do what) and picks a \<open>StorageBackend\<close> (where
  objects and refs live); the library speaks the git protocols, stages pushes, asks the application
  for permission and updates refs.

  \<^bold>\<open>The program's parts and the theories that model them.\<close>

  \<^item> \<open>Mizzle_Prelude\<close>, \<open>Object_Ids\<close>, \<open>Effects\<close>: bytes, errors as values (\<open>error\<close>, \<open>'a res\<close>), parsing
    helpers, object ids as a record of operations with the locale \<open>object_id\<close> (interpreted on 160 bit
    words), and state-passing actions \<open>('s, 'e, 'a) act\<close> with Hoare triples.
  \<^item> \<open>Wire_Protocol\<close> (\<open>mizzle-proto/src/\<close> \<open>limits\<close>, \<open>utils\<close>, \<open>command\<close>, \<open>ls_refs\<close>, \<open>fetch\<close>, \<open>pack\<close>): parsing
    of ls-refs and fetch requests, protocol versions 1 and 2, with their limits.
  \<^item> \<open>Receive_Request\<close> (\<open>mizzle-proto/src/receive.rs\<close>): the byte loop that reads the commands of a push.
  \<^item> \<open>LFS_Protocol\<close> (\<open>mizzle-proto/src/lfs.rs\<close>): LFS object ids, pointer files, batch messages.
  \<^item> \<open>Backend_Types\<close> (\<open>auth_types.rs\<close>, \<open>backend/mod.rs\<close>): the shared data types, and the documented
    compare-and-swap contract of \<open>update_refs\<close> as the abstract specification \<open>cas_batch\<close>.
  \<^item> \<open>Backend_API\<close> (\<open>backend/mod.rs\<close>, \<open>traits.rs\<close>): the traits \<open>StorageBackend\<close> and \<open>RepoAccess\<close> as records
    of functions.  An authoriser is an interaction tree over the methods of \<open>Comparison\<close>.
  \<^item> The key-value backend (\<open>backend/kv/\<close>): \<open>KV_Keys\<close> (key encoding), \<open>KV_Client\<close> (the client library as
    the locale \<open>kv_client\<close>, transactions), \<open>KV_Cluster\<close> (an executable cluster with other writers and
    faults, which interprets \<open>kv_client\<close>), \<open>KV_Refs\<close> (refs and repositories), \<open>Commit_Graph\<close> and
    \<open>KV_Graph\<close> (walks over commit parents), \<open>Pack_Inspect\<close> and \<open>KV_Objects\<close> (objects and pack ingest),
    \<open>Pack_Cache\<close> (\<open>backend/pack_cache.rs\<close>), \<open>KV_Pack\<close> (\<open>build_pack.rs\<close>), \<open>KV_Backend\<close> (the trait
    implementation, which interprets the locale \<open>backend_keeps\<close> of \<open>Backend_API\<close>).
  \<^item> \<open>Signatures\<close> (\<open>sigverify.rs\<close>): removing signatures from commits and tags.
  \<^item> \<open>Comparison\<close> (\<open>auth.rs\<close>): what an authoriser can ask about a push, with its caches; the locale
    \<open>graph_backend\<close> states what it needs of a backend and \<open>KV_Comparison\<close> interprets it.
  \<^item> \<open>Push_Pipeline\<close> (\<open>receive.rs\<close>, \<open>serve.rs\<close>): a push from the first byte to the report, over HTTP and
    over a connection.
  \<^item> \<open>Fetch_Pipeline\<close> (\<open>fetch.rs\<close>, \<open>ls_refs.rs\<close>, \<open>serve.rs\<close>): a fetch, and the dispatch of HTTP requests.
    \<open>Push_Properties\<close>, \<open>Fetch_Properties\<close> and \<open>KV_Pack_Properties\<close> hold what is proved of them over the key-value backend.
  \<^item> The SQL backend (\<open>backend/sql/\<close>): \<open>SQL_Store\<close> (tables, statements, transactions and an executable database with
    other connections), \<open>SQL_Backend\<close> (the operations), \<open>SQL_Refs\<close>, \<open>SQL_Graph\<close> and \<open>SQL_Properties\<close> (what they do;
    the locales of the key-value backend are interpreted again).
  \<^item> \<open>Disk\<close>, \<open>LFS_Server\<close>, \<open>LFS_Fs\<close> (\<open>lfs/\<close>): a file system with a schedule of failures, the LFS endpoints, the file
    system store.
  \<^item> \<open>HTTP_Server\<close> (\<open>servers/axum.rs\<close>) and \<open>SSH_Server\<close> (\<open>servers/ssh.rs\<close>): the front ends; a connection is a state
    machine over the callbacks of the SSH library.
  \<^item> \<open>Dense_Bitmap\<close>, \<open>Pack_Bitmap\<close>, \<open>Bitmap_Properties\<close>, \<open>Pack_Reuse_Properties\<close> (\<open>bitmap.rs\<close>, \<open>pack_reuse.rs\<close>):
    reachability bitmaps and the reuse of whole packs.
  \<^item> \<open>Pack_Objects\<close>, \<open>Pack_Objects_Properties\<close> (\<open>pack.rs\<close>): which objects a fetch needs.
  \<^item> The file system backends: \<open>Fs_Common\<close>; \<open>Fs_Gitoxide\<close> and \<open>Fs_Gitoxide_Properties\<close> (\<open>backend/fs_gitoxide.rs\<close>), with
    \<open>Progress_Channel\<close> for its progress lines; \<open>Str_Ops\<close>, \<open>Fs_Git_Cli\<close> and \<open>Fs_Git_Cli_Properties\<close>
    (\<open>backend/fs_git_cli.rs\<close>).

  \<^bold>\<open>What the theorems show.\<close>  Parsing: requests that a client writes are read back exactly and stay
  within the limits.  Storage: \<open>update_refs\<close> of the key-value and the SQL backend implement the compare-and-swap
  contract under interference, the file system backends under what gix and git document (and for names
  without spaces and newlines: others reach git as commands); ingest is atomic and reads back, and a
  rollback restores the disk; keys never collide; the walks terminate and compute exactly the reachable commits, and the
  two file system backends agree on them.  Authorisation: no ref changes unless the
  application agreed to exactly these updates, on every backend and over HTTP and SSH; it is shown every new commit, and it
  gets one answer per question.  Fetch: the pack holds exactly what the client lacks, whether it is built from the
  store, selected with bitmaps or an existing file, the client receives it byte for byte, and no fetch
  changes a ref.  Every fetch request is answered.  LFS: what is stored has the hash it is stored under.  The
  exchange of many ids with \<open>git cat-file\<close> ends in a deadlock when they do not fit into the pipes.

  \<^bold>\<open>How the model is set up.\<close>  Third-party code (gix's parsers, refs, walks, pack reader and writer, the TiKV
  client, SQLite, hashes, temporary files, the packet-line writer) is a record of functions passed as an
  argument; what the code relies on is stated as locale assumptions or hypotheses and shown to hold
  of concrete instances.  The git executable is such a record too: its commands take arguments and input and give an
  exit status and text.  Loops over the store are \<open>partial_function (option)\<close>, and \<open>None\<close> means that
  the loop does not end; the theorems about them include that they return.  A future given to
  \<open>spawn\<close> is a value of the response and runs later in any state.  A handler's failures are values:
  the errors of the backend that it turns into responses, and \<open>stop\<close> (a panic, or a call that never
  returns).

  \<^bold>\<open>Fuel.\<close>  The only fuel in the model is in \<open>reads\<close> and \<open>child_reads\<close>, which list the results of reading a pack to its end: it is
  one more than the bytes (or chunks) there are, and the theorems about them show that the end is reached.

  \<^bold>\<open>Not modelled.\<close>  The sniffer, a debugging proxy that copies bytes between sockets.  Logging, metrics,
  connection set-up, JSON encoding and the tests.  Floating point (a percentage in a progress line) is a parameter.
\<close>

end
